(* ===== verification/Prelude.thy ===== *)
theory Prelude
  imports Main "HOL-Library.AList" "HOL-Library.Char_ord" "HOL-Library.List_Lexorder"
    "HOL-Library.Sublist" "HOL-Library.Multiset"
begin

text \<open>
  What every component of the development shares: Python values and the string and container
  operations the source uses, with their lemmas.

  A Python \<open>str\<close> is a \<open>string\<close> over ASCII (one \<open>char\<close> per code point, so lengths and
  slices count what Python counts). A \<open>dict\<close> whose order matters is an association list with
  distinct keys, updated by \<open>AList.update\<close> (an existing key keeps its place, a new one goes
  last, as in CPython); an \<open>OrderedDict\<close> adds \<open>move_to_end\<close> and \<open>popitem(last=False)\<close>.
  JSON values are the datatype \<open>json\<close>; a float is held by its \<open>repr\<close> text, since no
  component computes with one.
\<close>

section \<open>Collections of facts\<close>

named_theorems py_string
  \<comment> \<open>facts on the Python string functions below\<close>

section \<open>Python values\<close>

datatype json =
    JNull
  | JBool bool
  | JInt int
  | JFloat string
  | JStr string
  | JList "json list"
  | JObj "(string \<times> json) list"

type_synonym json_dict = "(string \<times> json) list"

text \<open>Exceptions the modelled code raises or lets through.\<close>

datatype py_error =
    ValueError
  | TypeError
  | AttributeError
  | KeyError
  | RuntimeError

text \<open>Sequencing of operations that may raise.\<close>

fun and_then :: "'e + 'a \<Rightarrow> ('a \<Rightarrow> 'e + 'b) \<Rightarrow> 'e + 'b" where
  "and_then (Inl e) f = Inl e"
| "and_then (Inr x) f = f x"

lemma and_then_Inr: "and_then r f = Inr y \<longleftrightarrow> (\<exists>x. r = Inr x \<and> f x = Inr y)"
  by (cases r) auto

section \<open>Strings\<close>

definition nl :: char where
  "nl = CHR 0x0A"

definition is_space :: "char \<Rightarrow> bool" where
  \<comment> \<open>\<open>str.isspace\<close> on ASCII\<close>
  "is_space c \<longleftrightarrow> (let n = (of_char c :: nat) in n = 32 \<or> (9 \<le> n \<and> n \<le> 13) \<or> (28 \<le> n \<and> n \<le> 31))"

definition py_lstrip :: "string \<Rightarrow> string" where
  "py_lstrip s = dropWhile is_space s"

definition py_rstrip :: "string \<Rightarrow> string" where
  "py_rstrip s = rev (dropWhile is_space (rev s))"

definition py_strip :: "string \<Rightarrow> string" where
  "py_strip s = py_rstrip (py_lstrip s)"

definition lower_char :: "char \<Rightarrow> char" where
  "lower_char c = (let n = (of_char c :: nat) in if 65 \<le> n \<and> n \<le> 90 then char_of (n + 32) else c)"

definition py_lower :: "string \<Rightarrow> string" where
  "py_lower s = map lower_char s"

text \<open>\<open>str.split()\<close>: the maximal runs of non-space characters.\<close>

function py_split :: "string \<Rightarrow> string list" where
  "py_split s = (case py_lstrip s of
      [] \<Rightarrow> []
    | c # cs \<Rightarrow> (c # takeWhile (Not \<circ> is_space) cs) # py_split (dropWhile (Not \<circ> is_space) cs))"
  by pat_completeness auto
termination
proof (relation "measure length")
  fix s x21 x22
  assume "py_lstrip s = x21 # x22"
  then have "length (x21 # x22) \<le> length s"
    by (metis length_dropWhile_le py_lstrip_def)
  then show "(dropWhile (Not \<circ> is_space) x22, s) \<in> measure length"
    using length_dropWhile_le [of "Not \<circ> is_space" x22] by simp
qed simp

declare py_split.simps [simp del]

text \<open>\<open>s.split("\n", 1)[0]\<close>: the first line.\<close>

definition first_line :: "string \<Rightarrow> string" where
  "first_line s = takeWhile (\<lambda>c. c \<noteq> nl) s"

text \<open>\<open>sep.join(parts)\<close>.\<close>

fun py_join :: "string \<Rightarrow> string list \<Rightarrow> string" where
  "py_join sep [] = []"
| "py_join sep [s] = s"
| "py_join sep (s # t # ts) = s @ sep @ py_join sep (t # ts)"

text \<open>\<open>sub in s\<close>.\<close>

fun contains :: "string \<Rightarrow> string \<Rightarrow> bool" where
  "contains sub [] = (sub = [])"
| "contains sub (c # cs) = (prefix sub (c # cs) \<or> contains sub cs)"

text \<open>\<open>str(n)\<close> of an integer.\<close>

definition digit_char :: "nat \<Rightarrow> char" where
  "digit_char n = char_of (48 + n)"

fun nat_str :: "nat \<Rightarrow> string" where
  "nat_str n = (if n < 10 then [digit_char n] else nat_str (n div 10) @ [digit_char (n mod 10)])"

declare nat_str.simps [simp del]

definition int_str :: "int \<Rightarrow> string" where
  "int_str i = (if i < 0 then CHR ''-'' # nat_str (nat (- i)) else nat_str (nat i))"

definition hex_char :: "nat \<Rightarrow> char" where
  "hex_char n = (if n < 10 then char_of (48 + n) else char_of (87 + n))"

subsection \<open>repr and json.dumps\<close>

definition repr_quote :: "string \<Rightarrow> char" where
  \<comment> \<open>\<open>repr(str)\<close> takes single quotes unless the text has one and no double quote\<close>
  "repr_quote s = (if CHR 0x27 \<in> set s \<and> CHR 0x22 \<notin> set s then CHR 0x22 else CHR 0x27)"

definition repr_char :: "char \<Rightarrow> char \<Rightarrow> string" where
  "repr_char q c =
     (let n = (of_char c :: nat) in
      if c = q \<or> c = CHR 0x5C then [CHR 0x5C, c]
      else if n = 10 then [CHR 0x5C, CHR ''n'']
      else if n = 13 then [CHR 0x5C, CHR ''r'']
      else if n = 9 then [CHR 0x5C, CHR ''t'']
      else if n < 32 \<or> n = 127 then [CHR 0x5C, CHR ''x'', hex_char (n div 16), hex_char (n mod 16)]
      else [c])"

definition repr_str :: "string \<Rightarrow> string" where
  "repr_str s = (let q = repr_quote s in q # concat (map (repr_char q) s) @ [q])"

fun py_repr :: "json \<Rightarrow> string" where
  "py_repr JNull = ''None''"
| "py_repr (JBool b) = (if b then ''True'' else ''False'')"
| "py_repr (JInt i) = int_str i"
| "py_repr (JFloat t) = t"
| "py_repr (JStr s) = repr_str s"
| "py_repr (JList xs) = ''['' @ py_join '', '' (map py_repr xs) @ '']''"
| "py_repr (JObj kvs) =
     ''{'' @ py_join '', '' (map (\<lambda>(k, v). repr_str k @ '': '' @ py_repr v) kvs) @ ''}''"

definition json_char :: "char \<Rightarrow> string" where
  "json_char c =
     (let n = (of_char c :: nat) in
      if n = 34 \<or> n = 92 then [CHR 0x5C, c]
      else if n = 10 then [CHR 0x5C, CHR ''n'']
      else if n = 13 then [CHR 0x5C, CHR ''r'']
      else if n = 9 then [CHR 0x5C, CHR ''t'']
      else if n = 8 then [CHR 0x5C, CHR ''b'']
      else if n = 12 then [CHR 0x5C, CHR ''f'']
      else if n < 32 then [CHR 0x5C, CHR ''u'', CHR ''0'', CHR ''0'', hex_char (n div 16), hex_char (n mod 16)]
      else [c])"

definition json_str :: "string \<Rightarrow> string" where
  "json_str s = [CHR 0x22] @ concat (map json_char s) @ [CHR 0x22]"

text \<open>\<open>json.dumps(v)\<close> with the default separators, keys in insertion order.\<close>

fun json_dumps :: "json \<Rightarrow> string" where
  "json_dumps JNull = ''null''"
| "json_dumps (JBool b) = (if b then ''true'' else ''false'')"
| "json_dumps (JInt i) = int_str i"
| "json_dumps (JFloat t) = t"
| "json_dumps (JStr s) = json_str s"
| "json_dumps (JList xs) = ''['' @ py_join '', '' (map json_dumps xs) @ '']''"
| "json_dumps (JObj kvs) =
     ''{'' @ py_join '', '' (map (\<lambda>(k, v). json_str k @ '': '' @ json_dumps v) kvs) @ ''}''"

text \<open>The same with \<open>sort_keys=True\<close>: the keys of every object in code-point order.\<close>

fun sort_keys :: "json \<Rightarrow> json" where
  "sort_keys (JList xs) = JList (map sort_keys xs)"
| "sort_keys (JObj kvs) = JObj (sort_key fst (map (\<lambda>(k, v). (k, sort_keys v)) kvs))"
| "sort_keys v = v"

subsection \<open>Lemmas on strings\<close>

lemma py_lstrip_Nil [simp, py_string]: "py_lstrip [] = []"
  by (simp add: py_lstrip_def)

lemma py_rstrip_Nil [simp, py_string]: "py_rstrip [] = []"
  by (simp add: py_rstrip_def)

lemma py_strip_Nil [simp, py_string]: "py_strip [] = []"
  by (simp add: py_strip_def)

lemma py_strip_eq_Nil [py_string]: "py_strip s = [] \<longleftrightarrow> (\<forall>c \<in> set s. is_space c)"
proof -
  have "py_strip s = [] \<longleftrightarrow> (\<forall>c \<in> set (dropWhile is_space s). is_space c)"
    by (simp add: py_strip_def py_rstrip_def py_lstrip_def)
  also have "\<dots> \<longleftrightarrow> (\<forall>c \<in> set s. is_space c)"
    by (induction s) auto
  finally show ?thesis .
qed

lemma first_line_no_newline [py_string]: "nl \<notin> set (first_line s)"
  by (auto simp: first_line_def dest: set_takeWhileD)

lemma first_line_prefix [py_string]: "prefix (first_line s) s"
  by (simp add: first_line_def takeWhile_is_prefix)

lemma py_join_map_length:
  "length (py_join sep ts) = sum_list (map length ts) + length sep * (length ts - 1)"
  by (induction sep ts rule: py_join.induct) auto

lemma nat_str_not_Nil [simp, py_string]: "nat_str n \<noteq> []"
  by (subst nat_str.simps) simp

lemma contains_iff [py_string]: "contains sub s \<longleftrightarrow> (\<exists>pre post. s = pre @ sub @ post)"
proof (induction s)
  case Nil
  show ?case by auto
next
  case (Cons c cs)
  show ?case
  proof
    assume "contains sub (c # cs)"
    then consider "prefix sub (c # cs)" | "contains sub cs" by auto
    then show "\<exists>pre post. c # cs = pre @ sub @ post"
    proof cases
      case 1
      then obtain post where "c # cs = [] @ sub @ post" by (auto simp: prefix_def)
      then show ?thesis by blast
    next
      case 2
      then obtain pre post where "cs = pre @ sub @ post" using Cons.IH by blast
      then have "c # cs = (c # pre) @ sub @ post" by simp
      then show ?thesis by blast
    qed
  next
    assume "\<exists>pre post. c # cs = pre @ sub @ post"
    then obtain pre post where eq: "c # cs = pre @ sub @ post" by blast
    show "contains sub (c # cs)"
    proof (cases pre)
      case Nil
      with eq have "prefix sub (c # cs)" by (simp add: prefix_def)
      then show ?thesis by simp
    next
      case (Cons d ds)
      with eq have "cs = ds @ sub @ post" by simp
      then show ?thesis using Cons.IH by auto
    qed
  qed
qed

section \<open>Ordered dictionaries\<close>

text \<open>
  \<open>OrderedDict.move_to_end(k)\<close> and the insertion that follows it: \<open>od_put k v d\<close> leaves
  \<open>k\<close> last. \<open>od_evict n d\<close> is \<open>while len(d) > n: d.popitem(last=False)\<close>.
\<close>

definition od_move_to_end :: "'k \<Rightarrow> ('k \<times> 'v) list \<Rightarrow> ('k \<times> 'v) list" where
  "od_move_to_end k d = (case map_of d k of None \<Rightarrow> d | Some v \<Rightarrow> AList.delete k d @ [(k, v)])"

definition od_put :: "'k \<Rightarrow> 'v \<Rightarrow> ('k \<times> 'v) list \<Rightarrow> ('k \<times> 'v) list" where
  "od_put k v d = od_move_to_end k (AList.update k v d)"

definition od_evict :: "nat \<Rightarrow> ('k \<times> 'v) list \<Rightarrow> ('k \<times> 'v) list" where
  "od_evict n d = drop (length d - n) d"

definition keys :: "('k \<times> 'v) list \<Rightarrow> 'k list" where
  "keys d = map fst d"

lemma keys_simps [simp]: "keys [] = []" "keys (p # d) = fst p # keys d" "keys (d @ e) = keys d @ keys e"
  by (simp_all add: keys_def)

lemma set_keys [simp]: "set (keys d) = dom (map_of d)"
  by (simp add: keys_def dom_map_of_conv_image_fst)

lemma length_keys [simp]: "length (keys d) = length d"
  by (simp add: keys_def)

lemma keys_update: "keys (AList.update k v d) = (if k \<in> dom (map_of d) then keys d else keys d @ [k])"
  by (simp add: keys_def update_keys dom_map_of_conv_image_fst)

lemma keys_delete: "keys (AList.delete k d) = filter (\<lambda>x. x \<noteq> k) (keys d)"
  by (induction d) (auto simp: AList.delete_eq keys_def)

lemma delete_update_same: "AList.delete k (AList.update k v d) = AList.delete k d"
  by (induction d) (auto simp: AList.delete_eq)

lemma od_put_eq: "distinct (keys d) \<Longrightarrow> od_put k v d = AList.delete k d @ [(k, v)]"
  by (simp add: od_put_def od_move_to_end_def update_conv' delete_update_same)

lemma keys_od_put: "distinct (keys d) \<Longrightarrow> keys (od_put k v d) = filter (\<lambda>x. x \<noteq> k) (keys d) @ [k]"
  by (simp add: od_put_eq keys_delete)

lemma distinct_od_put: "distinct (keys d) \<Longrightarrow> distinct (keys (od_put k v d))"
  by (simp add: keys_od_put)

lemma map_of_od_put: "distinct (keys d) \<Longrightarrow> map_of (od_put k v d) = (map_of d)(k \<mapsto> v)"
  by (rule ext) (auto simp: od_put_eq map_add_def delete_conv' split: option.splits)

lemma length_od_evict: "length (od_evict n d) \<le> n"
  by (simp add: od_evict_def)

lemma keys_od_evict: "keys (od_evict n d) = drop (length d - n) (keys d)"
  by (simp add: od_evict_def keys_def drop_map)

lemma map_of_od_evict_subset:
  assumes "distinct (keys d)"
  shows "map_of (od_evict n d) \<subseteq>\<^sub>m map_of d"
proof -
  have d: "distinct (map fst d)" using assms by (simp add: keys_def)
  have sub: "set (od_evict n d) \<subseteq> set d" by (simp add: od_evict_def set_drop_subset)
  show ?thesis
    unfolding map_le_def
  proof
    fix k assume "k \<in> dom (map_of (od_evict n d))"
    then obtain v where v: "map_of (od_evict n d) k = Some v" by auto
    then have "(k, v) \<in> set d" using sub map_of_SomeD by fastforce
    then have "map_of d k = Some v" using d by (simp add: map_of_is_SomeI)
    then show "map_of (od_evict n d) k = map_of d k" using v by simp
  qed
qed

section \<open>Lists\<close>

lemma sum_list_filter_le: "sum_list (map f (filter P xs)) \<le> sum_list (map (f :: 'a \<Rightarrow> nat) xs)"
  by (induction xs) auto

lemma list_all2_right: "list_all2 P xs ys \<Longrightarrow> y \<in> set ys \<Longrightarrow> \<exists>x \<in> set xs. P x y"
  by (induction rule: list_all2_induct) auto

lemma length_filter_append_le: "length (filter P ys) \<le> length (filter P (xs @ ys))"
  by simp

end
