(* ===== verification/Approval_Text.thy ===== *)
theory Approval_Text
  imports Prelude
begin

text \<open>
  The words of the approval system (\<open>backend/app/agent/approval.py\<close>): permission levels and
  decisions, the parser of a user's reply (\<open>_parse_approval_response\<close>, the fast path), what the
  classifier's verdicts become (\<open>classify_approval_response\<close>), the prompts
  (\<open>format_approval_message\<close>, \<open>format_plan_message\<close>), and \<open>context._is_approval_prompt\<close>, which
  finds those prompts again in stored history by their last line.
\<close>

section \<open>Levels and decisions\<close>

datatype permission_level = ALWAYS | ASK | NEVER

datatype approval_decision =
    APPROVED
  | DENIED
  | ALWAYS_ALLOW
  | ALWAYS_ALLOW_ALL
  | ALWAYS_DENY
  | INTERRUPTED

text \<open>The string values of the two \<open>StrEnum\<close>s, and \<open>PermissionLevel(value)\<close>.\<close>

fun level_str :: "permission_level \<Rightarrow> string" where
  "level_str ALWAYS = ''always''"
| "level_str ASK = ''ask''"
| "level_str NEVER = ''never''"

definition parse_level :: "json \<Rightarrow> py_error + permission_level" where
  "parse_level v =
     (if v = JStr ''always'' then Inr ALWAYS
      else if v = JStr ''ask'' then Inr ASK
      else if v = JStr ''never'' then Inr NEVER
      else Inl ValueError)"

fun decision_str :: "approval_decision \<Rightarrow> string" where
  "decision_str APPROVED = ''approved''"
| "decision_str DENIED = ''denied''"
| "decision_str ALWAYS_ALLOW = ''always_allow''"
| "decision_str ALWAYS_ALLOW_ALL = ''always_allow_all''"
| "decision_str ALWAYS_DENY = ''always_deny''"
| "decision_str INTERRUPTED = ''interrupted''"

lemma parse_level_str [simp]: "parse_level (JStr (level_str l)) = Inr l"
  by (cases l) (simp_all add: parse_level_def)

definition allows :: "approval_decision \<Rightarrow> bool" where
  \<comment> \<open>the decisions that let the tool run\<close>
  "allows d \<longleftrightarrow> d \<in> {APPROVED, ALWAYS_ALLOW, ALWAYS_ALLOW_ALL}"

section \<open>Parsing a reply\<close>

definition approval_response_fast_path :: "(string \<times> approval_decision) list" where
  "approval_response_fast_path =
    [(''yes'', APPROVED), (''y'', APPROVED), (''always'', ALWAYS_ALLOW),
     (''no'', DENIED), (''n'', DENIED), (''never'', ALWAYS_DENY),
     (''yes always'', ALWAYS_ALLOW), (''always yes'', ALWAYS_ALLOW),
     (''y always'', ALWAYS_ALLOW), (''always y'', ALWAYS_ALLOW),
     (''always allow'', ALWAYS_ALLOW), (''allow always'', ALWAYS_ALLOW),
     (''always all'', ALWAYS_ALLOW_ALL), (''all always'', ALWAYS_ALLOW_ALL),
     (''allow all'', ALWAYS_ALLOW_ALL), (''always everyone'', ALWAYS_ALLOW_ALL),
     (''always anyone'', ALWAYS_ALLOW_ALL),
     (''no never'', ALWAYS_DENY), (''never no'', ALWAYS_DENY),
     (''n never'', ALWAYS_DENY), (''never n'', ALWAYS_DENY),
     (''never allow'', ALWAYS_DENY), (''deny always'', ALWAYS_DENY)]"

definition approval_response_punctuation :: string where
  "approval_response_punctuation = ''.,!?;:''"

definition normalize_reply :: "string \<Rightarrow> string" where
  "normalize_reply text =
     (let cleaned = py_lower (py_strip text);
          cleaned = filter (\<lambda>c. c \<notin> set approval_response_punctuation) cleaned
      in py_join '' '' (py_split cleaned))"

definition parse_approval_response :: "string \<Rightarrow> approval_decision option" where
  "parse_approval_response text = map_of approval_response_fast_path (normalize_reply text)"

text \<open>
  The classifier: \<open>None\<close> for a failed call, then the \<open>decision\<close> field of the parsed answer, if
  there is one. The call itself is the model provider's.
\<close>

datatype classified = Classified approval_decision | AmbiguousReply | Unrelated

definition classify_approval_response :: "string option option \<Rightarrow> classified" where
  "classify_approval_response answer =
     (case answer of
        None \<Rightarrow> Unrelated
      | Some None \<Rightarrow> Unrelated
      | Some (Some d) \<Rightarrow>
          (case map_of [(''approved'', APPROVED), (''denied'', DENIED), (''always_allow'', ALWAYS_ALLOW),
                        (''always_allow_all'', ALWAYS_ALLOW_ALL), (''always_deny'', ALWAYS_DENY)] d of
             Some r \<Rightarrow> Classified r
           | None \<Rightarrow> if d = ''ambiguous'' then AmbiguousReply else Unrelated))"

section \<open>Prompts\<close>

definition menu_head :: string where
  "menu_head = ''Reply with one of:'' @ [nl] @ ''  yes: allow this once'' @ [nl]
     @ ''  no: deny this once'' @ [nl] @ ''  always: allow and remember'' @ [nl]"

definition menu_tail :: string where
  "menu_tail = ''  never: deny and remember''"

text \<open>\<open>resource_noun or "of them"\<close> treats an empty noun as none.\<close>

definition format_approval_message :: "string \<Rightarrow> bool \<Rightarrow> string option \<Rightarrow> string" where
  "format_approval_message description offer_blanket resource_noun =
     (let noun = (case resource_noun of Some n \<Rightarrow> if n = [] then ''of them'' else n | None \<Rightarrow> ''of them'');
          blanket_line =
            (if offer_blanket then ''  always all: allow for all '' @ noun @ '' and remember'' @ [nl] else [])
      in ''I'' @ [CHR 0x27] @ ''d like to: '' @ description @ [nl, nl] @ menu_head @ blanket_line @ menu_tail)"

record plan_step =
  step_tool_name :: string
  step_description :: string
  step_level :: permission_level

definition format_plan_message :: "plan_step list \<Rightarrow> plan_step list \<Rightarrow> string" where
  "format_plan_message auto_steps ask_steps =
     (let reply_line = menu_head @ menu_tail;
          auto_part = (if auto_steps = [] then []
             else ''I'' @ [CHR 0x27] @ ''ll ''
                  @ py_join '', '' (map (\<lambda>s. py_lower (step_description s)) auto_steps) @ ''.'');
          ask_lines = py_join [nl] (map (\<lambda>s. ''  - '' @ step_description s) ask_steps);
          parts = (if auto_part \<noteq> [] then [auto_part] else [])
                  @ [''I need your approval for:'' @ [nl] @ ask_lines, [], reply_line]
      in case ask_steps of
           [] \<Rightarrow> []
         | [s] \<Rightarrow>
             (if auto_steps = [] then ''I'' @ [CHR 0x27] @ ''d like to: '' @ step_description s @ [nl, nl] @ reply_line
              else auto_part @ '' I need your approval to '' @ py_lower (step_description s) @ ''.''
                   @ [nl, nl] @ reply_line)
         | _ \<Rightarrow>
             (if auto_part \<noteq> [] then py_join '' '' (take 2 parts) @ [nl] @ py_join [nl] (drop 2 parts)
              else py_join [nl] parts))"

text \<open>
  The three trailers of \<open>context._APPROVAL_PROMPT_TRAILERS\<close>. The second has a dash outside
  ASCII, held here as its UTF-8 bytes.
\<close>

definition approval_prompt_trailers :: "string list" where
  "approval_prompt_trailers =
     [''never: deny and remember'',
      ''never '' @ [CHR 0xE2, CHR 0x80, CHR 0x94] @ '' deny and remember'',
      ''Reply yes or no (always/never to remember your choice)'']"

definition is_approval_prompt :: "string \<Rightarrow> bool" where
  "is_approval_prompt content =
     list_ex (\<lambda>trailer. suffix trailer (py_rstrip content)) approval_prompt_trailers"

section \<open>Facts on replies\<close>

lemma py_split_word:
  assumes "w \<noteq> []" and "\<forall>c \<in> set w. \<not> is_space c"
  shows "py_split w = [w]" and "py_split (w @ CHR '' '' # rest) = w # py_split rest"
proof -
  obtain c cs where w: "w = c # cs" using assms(1) by (cases w) auto
  have sp: "is_space (CHR '' '')" by (simp add: is_space_def)
  have c: "\<not> is_space c" using assms(2) w by simp
  have tw: "takeWhile (Not \<circ> is_space) (cs @ CHR '' '' # rest) = cs"
    "dropWhile (Not \<circ> is_space) (cs @ CHR '' '' # rest) = CHR '' '' # rest"
    "takeWhile (Not \<circ> is_space) cs = cs" "dropWhile (Not \<circ> is_space) cs = []"
    using assms(2) w sp by (auto simp: takeWhile_append dropWhile_append takeWhile_eq_all_conv dropWhile_eq_Nil_conv)
  have sk: "py_split (CHR '' '' # rest) = py_split rest"
    using sp by (subst (1 2) py_split.simps) (simp add: py_lstrip_def)
  have nil: "py_split [] = []" by (subst py_split.simps) (simp add: py_lstrip_def)
  show "py_split w = [w]"
    using c tw(3,4) nil w by (subst py_split.simps) (simp add: py_lstrip_def del: takeWhile_eq_all_conv dropWhile_eq_Nil_conv)
  show "py_split (w @ CHR '' '' # rest) = w # py_split rest"
    using c tw sk w by (subst py_split.simps) (simp add: py_lstrip_def)
qed

lemma py_split_words: "w \<in> set (py_split s) \<Longrightarrow> w \<noteq> [] \<and> (\<forall>c \<in> set w. \<not> is_space c)"
proof (induction s rule: py_split.induct)
  case (1 s)
  show ?case
  proof (cases "py_lstrip s")
    case Nil
    then show ?thesis using "1.prems" by (subst (asm) py_split.simps) simp
  next
    case (Cons c cs)
    have c: "\<not> is_space c"
      using Cons by (metis hd_dropWhile list.sel(1) list.simps(3) py_lstrip_def)
    have "w = c # takeWhile (Not \<circ> is_space) cs \<or> w \<in> set (py_split (dropWhile (Not \<circ> is_space) cs))"
      using "1.prems" Cons by (subst (asm) py_split.simps) simp
    then show ?thesis using "1.IH" [OF Cons] c by (auto dest!: set_takeWhileD)
  qed
qed

lemma py_split_join:
  "\<forall>w \<in> set ws. w \<noteq> [] \<and> (\<forall>c \<in> set w. \<not> is_space c) \<Longrightarrow> py_split (py_join '' '' ws) = ws"
proof (induction "'' ''" ws rule: py_join.induct)
  case 1
  show ?case by (subst py_join.simps, subst py_split.simps) simp
next
  case (2 s)
  then show ?case by (simp add: py_split_word)
next
  case (3 s t ts)
  then show ?case by (simp add: py_split_word(2))
qed

definition reply_words :: "string \<Rightarrow> string list" where
  "reply_words text = py_split (filter (\<lambda>c. c \<notin> set approval_response_punctuation) (py_lower (py_strip text)))"

lemma reply_words_normalize: "reply_words text = py_split (normalize_reply text)"
  by (simp add: reply_words_def normalize_reply_def py_split_join py_split_words)

definition agree_words :: "string list" where
  "agree_words = [''yes'', ''y'', ''always'', ''allow'', ''all'', ''everyone'', ''anyone'']"

definition refuse_words :: "string list" where
  "refuse_words = [''no'', ''n'', ''never'', ''deny'']"

definition agrees_with_words :: "approval_decision \<Rightarrow> string list \<Rightarrow> bool" where
  "agrees_with_words d ws \<longleftrightarrow>
     d \<noteq> INTERRUPTED
     \<and> (if allows d then list_all (\<lambda>w. w \<in> set agree_words) ws
        else list_ex (\<lambda>w. w \<in> set refuse_words) ws \<and> ''yes'' \<notin> set ws \<and> ''y'' \<notin> set ws)"

lemma fast_path_polarity:
  "list_all (\<lambda>(k, d). agrees_with_words d (py_split k)) approval_response_fast_path"
  by code_simp

text \<open>
  The fast path never mixes the two axes: a reply it reads as permission consists of words
  of agreement only, and one it reads as a refusal has a word of refusal and no yes. Mixed
  replies such as "yes never" are left to the classifier, and no keyword interrupts.
\<close>

theorem parse_approval_response_sound:
  assumes "parse_approval_response text = Some d"
  shows "agrees_with_words d (reply_words text)"
proof -
  from assms have "(normalize_reply text, d) \<in> set approval_response_fast_path"
    by (simp add: parse_approval_response_def map_of_SomeD)
  then show ?thesis using fast_path_polarity by (auto simp: reply_words_normalize list_all_iff)
qed

theorem parse_approval_response_sound_witness:
  "parse_approval_response ''  Yes, always! '' = Some ALWAYS_ALLOW
   \<and> agrees_with_words ALWAYS_ALLOW (reply_words ''  Yes, always! '')"
proof -
  have p: "parse_approval_response ''  Yes, always! '' = Some ALWAYS_ALLOW" by code_simp
  show ?thesis using p parse_approval_response_sound [OF p] by simp
qed

section \<open>Facts on prompts\<close>

lemma py_rstrip_no_space: "s \<noteq> [] \<Longrightarrow> \<not> is_space (last s) \<Longrightarrow> py_rstrip s = s"
  by (cases s rule: rev_cases) (simp_all add: py_rstrip_def)

lemma ends_with_menu_tail: "is_approval_prompt (s @ menu_tail)"
proof -
  have "py_rstrip (s @ menu_tail) = s @ menu_tail"
    by (rule py_rstrip_no_space) (simp_all add: menu_tail_def is_space_def)
  moreover have "suffix ''never: deny and remember'' (s @ menu_tail)"
    by (auto simp: menu_tail_def suffix_def)
  ultimately show ?thesis by (simp add: is_approval_prompt_def approval_prompt_trailers_def)
qed

lemma suffix_menu_tail: "suffix menu_tail s \<Longrightarrow> is_approval_prompt s"
  using ends_with_menu_tail by (auto simp: suffix_def)

text \<open>
  Every prompt the approval system sends is recognized as one when it comes back from
  stored history: single prompts, with or without the blanket option, and batch plans of any
  shape end in a trailer the history filter knows.
\<close>

theorem prompts_are_recognized:
  assumes "ask_steps \<noteq> []"
  shows "is_approval_prompt (format_approval_message description offer_blanket noun)
     \<and> is_approval_prompt (format_plan_message auto_steps ask_steps)"
proof
  show "is_approval_prompt (format_approval_message description offer_blanket noun)"
    using ends_with_menu_tail
    by (simp only: format_approval_message_def Let_def append.assoc [symmetric])
  show "is_approval_prompt (format_plan_message auto_steps ask_steps)"
  proof (cases ask_steps)
    case (Cons s rest)
    show ?thesis
    proof (cases rest)
      case Nil
      then show ?thesis
        using Cons
        by (auto simp: format_plan_message_def Let_def intro!: suffix_menu_tail suffix_ConsI suffix_appendI)
    next
      case (Cons t ts)
      with \<open>ask_steps = s # rest\<close> show ?thesis
        by (auto simp: format_plan_message_def Let_def numeral_2_eq_2
            intro!: suffix_menu_tail suffix_ConsI suffix_appendI)
    qed
  qed (use assms in simp)
qed

theorem prompts_are_recognized_witness:
  "is_approval_prompt (format_approval_message ''send it'' True (Some ''recipients''))
   \<and> is_approval_prompt (format_plan_message []
       [\<lparr>step_tool_name = ''t'', step_description = ''a'', step_level = ASK\<rparr>,
        \<lparr>step_tool_name = ''u'', step_description = ''b'', step_level = ASK\<rparr>])"
  by (rule prompts_are_recognized) simp

end
