(* ===== verification/Messages.thy ===== *)
theory Messages
  imports Prelude
begin

text \<open>
  \<open>backend/app/agent/messages.py\<close>: the typed messages of the agent loop, their dict
  serialization, and \<open>messages_to_messages_api\<close>, which turns them into the Anthropic Messages
  API shape. A Python dict of the API is a record (\<open>role\<close> and \<open>content\<close>) over content blocks.

  \<open>paired\<close> is the contract the API enforces on a conversation: an assistant message's tool
  calls are answered, all of them and nothing else, by the tool results right after it. The
  trimmer, the history loader and the agent loop keep it; \<open>api_paired\<close> is the same contract
  on the serialized list, and the serializer carries one to the other.
\<close>

section \<open>The message types\<close>

record tool_call_request =
  tc_id :: string
  tc_name :: string
  tc_arguments :: json_dict

datatype agent_message =
    SystemMessage string
  | UserMessage string "int option"
  | AssistantMessage "string option" "tool_call_request list" "int option"
  | ToolResultMessage string string bool

fun is_user :: "agent_message \<Rightarrow> bool" where
  "is_user (UserMessage c s) = True"
| "is_user m = False"

fun is_tool_result :: "agent_message \<Rightarrow> bool" where
  "is_tool_result (ToolResultMessage i c e) = True"
| "is_tool_result m = False"

fun is_system :: "agent_message \<Rightarrow> bool" where
  "is_system (SystemMessage c) = True"
| "is_system m = False"

fun msg_tool_calls :: "agent_message \<Rightarrow> tool_call_request list" where
  "msg_tool_calls (AssistantMessage c tcs s) = tcs"
| "msg_tool_calls m = []"

fun tool_result_id :: "agent_message \<Rightarrow> string" where
  "tool_result_id (ToolResultMessage i c e) = i"
| "tool_result_id m = []"

text \<open>\<open>getattr(m, "seq", None)\<close>: only user and assistant messages carry a seq.\<close>

fun msg_seq :: "agent_message \<Rightarrow> int option" where
  "msg_seq (UserMessage c s) = s"
| "msg_seq (AssistantMessage c tcs s) = s"
| "msg_seq m = None"

text \<open>\<open>context._seqs_from_dropped\<close>: the persisted seqs a list of messages carries.\<close>

definition seqs_from_dropped :: "agent_message list \<Rightarrow> int list" where
  "seqs_from_dropped ms = List.map_filter msg_seq ms"

lemma seqs_from_dropped_simps [simp]:
  "seqs_from_dropped [] = []"
  "seqs_from_dropped (m # ms) = (case msg_seq m of None \<Rightarrow> [] | Some q \<Rightarrow> [q]) @ seqs_from_dropped ms"
  "seqs_from_dropped (xs @ ys) = seqs_from_dropped xs @ seqs_from_dropped ys"
  by (simp_all add: seqs_from_dropped_def map_filter_def split: option.split)

lemma set_seqs_from_dropped: "set (seqs_from_dropped ms) = {q. \<exists>m \<in> set ms. msg_seq m = Some q}"
  by (induction ms) (auto split: option.splits)

section \<open>Serialization\<close>

datatype content_block =
    TextBlock string
  | ToolUseBlock string string json_dict
  | ToolResultBlock string string bool

datatype api_content = CText string | CBlocks "content_block list"

record api_message =
  api_role :: string
  api_content :: api_content

fun opt_text :: "string option \<Rightarrow> string" where
  \<comment> \<open>\<open>content or ""\<close>\<close>
  "opt_text None = []"
| "opt_text (Some t) = t"

definition user_to_dict :: "string \<Rightarrow> api_message" where
  "user_to_dict c = \<lparr>api_role = ''user'', api_content = CText c\<rparr>"

definition assistant_to_dict :: "string option \<Rightarrow> tool_call_request list \<Rightarrow> api_message" where
  "assistant_to_dict c tcs =
     \<lparr>api_role = ''assistant'',
      api_content = CBlocks ((if opt_text c \<noteq> [] then [TextBlock (opt_text c)] else [])
        @ map (\<lambda>tc. ToolUseBlock (tc_id tc) (tc_name tc) (tc_arguments tc)) tcs)\<rparr>"

definition to_content_block :: "string \<Rightarrow> string \<Rightarrow> bool \<Rightarrow> content_block" where
  \<comment> \<open>the \<open>is_error\<close> key is present only when it is true\<close>
  "to_content_block i c e = ToolResultBlock i c e"

definition flush_tool_results :: "content_block list \<Rightarrow> api_message list \<Rightarrow> api_message list" where
  "flush_tool_results pending result =
     (if pending = [] then result
      else result @ [\<lparr>api_role = ''user'', api_content = CBlocks pending\<rparr>])"

text \<open>The loop of \<open>messages_to_messages_api\<close>; its state is \<open>(system, result, pending)\<close>.\<close>

fun api_loop ::
  "agent_message list \<Rightarrow> string option \<Rightarrow> api_message list \<Rightarrow> content_block list
     \<Rightarrow> string option \<times> api_message list" where
  "api_loop [] sys result pending = (sys, flush_tool_results pending result)"
| "api_loop (SystemMessage c # ms) sys result pending = api_loop ms (Some c) result pending"
| "api_loop (ToolResultMessage i c e # ms) sys result pending =
     api_loop ms sys result (pending @ [to_content_block i c e])"
| "api_loop (UserMessage c s # ms) sys result pending =
     api_loop ms sys (flush_tool_results pending result @ [user_to_dict c]) []"
| "api_loop (AssistantMessage c tcs s # ms) sys result pending =
     api_loop ms sys (flush_tool_results pending result @ [assistant_to_dict c tcs]) []"

definition messages_to_messages_api ::
  "agent_message list \<Rightarrow> string option \<times> api_message list" where
  "messages_to_messages_api ms = api_loop ms None [] []"

subsection \<open>The accumulator, taken off\<close>

fun api_list :: "agent_message list \<Rightarrow> content_block list \<Rightarrow> api_message list" where
  "api_list [] pending = flush_tool_results pending []"
| "api_list (SystemMessage c # ms) pending = api_list ms pending"
| "api_list (ToolResultMessage i c e # ms) pending =
     api_list ms (pending @ [to_content_block i c e])"
| "api_list (UserMessage c s # ms) pending =
     flush_tool_results pending [] @ user_to_dict c # api_list ms []"
| "api_list (AssistantMessage c tcs s # ms) pending =
     flush_tool_results pending [] @ assistant_to_dict c tcs # api_list ms []"

fun last_system :: "agent_message list \<Rightarrow> string option \<Rightarrow> string option" where
  "last_system [] sys = sys"
| "last_system (SystemMessage c # ms) sys = last_system ms (Some c)"
| "last_system (m # ms) sys = last_system ms sys"

lemma flush_append: "flush_tool_results p r = r @ flush_tool_results p []"
  by (simp add: flush_tool_results_def)

lemma api_loop_eq: "api_loop ms sys result pending = (last_system ms sys, result @ api_list ms pending)"
proof (induction ms sys result pending rule: api_loop.induct)
  case (1 sys result pending)
  show ?case by (simp add: flush_append [of pending result])
next
  case (4 c s ms sys result pending)
  then show ?case by (simp add: flush_append [of pending result])
next
  case (5 c tcs s ms sys result pending)
  then show ?case by (simp add: flush_append [of pending result])
qed simp_all

lemma messages_to_messages_api_eq:
  "messages_to_messages_api ms = (last_system ms None, api_list ms [])"
  by (simp add: messages_to_messages_api_def api_loop_eq)

section \<open>Nothing is lost or reordered\<close>

text \<open>
  What the API receives, read back as items: a user text, an assistant's blocks, one tool
  result. A tool-result message of the API holds several results.
\<close>

datatype item = IUser string | IAssistant "content_block list" | IResult string string bool

fun msg_items :: "agent_message \<Rightarrow> item list" where
  "msg_items (SystemMessage c) = []"
| "msg_items (UserMessage c s) = [IUser c]"
| "msg_items (AssistantMessage c tcs s) =
     (case api_content (assistant_to_dict c tcs) of CBlocks bs \<Rightarrow> [IAssistant bs] | CText t \<Rightarrow> [])"
| "msg_items (ToolResultMessage i c e) = [IResult i c e]"

fun block_items :: "content_block \<Rightarrow> item list" where
  "block_items (ToolResultBlock i c e) = [IResult i c e]"
| "block_items b = []"

definition api_items :: "api_message \<Rightarrow> item list" where
  "api_items m =
     (case api_content m of
        CText t \<Rightarrow> [IUser t]
      | CBlocks bs \<Rightarrow>
          (if api_role m = ''assistant'' then [IAssistant bs] else concat (map block_items bs)))"

lemma items_flush:
  "concat (map api_items (flush_tool_results pending [])) = concat (map block_items pending)"
  by (simp add: flush_tool_results_def api_items_def)

lemma items_dict [simp]:
  "api_items (user_to_dict c) = [IUser c]"
  "api_items (assistant_to_dict ac tcs) = msg_items (AssistantMessage ac tcs s)"
  by (simp_all add: api_items_def user_to_dict_def assistant_to_dict_def)

lemma items_api_list:
  "concat (map api_items (api_list ms pending))
     = concat (map block_items pending) @ concat (map msg_items ms)"
proof (induction ms pending rule: api_list.induct)
  case (5 c tcs s ms pending)
  then show ?case by (simp add: items_flush items_dict(2) [of c tcs s] del: msg_items.simps)
qed (simp_all add: items_flush to_content_block_def)

text \<open>
  The serialized conversation holds exactly the items of the typed one, in order: no user
  text, assistant turn or tool result is lost, duplicated or moved by the merging of
  consecutive tool results.
\<close>

theorem api_items_preserved:
  "concat (map api_items (snd (messages_to_messages_api ms))) = concat (map msg_items ms)"
  by (simp add: messages_to_messages_api_eq items_api_list)

section \<open>The pairing contract\<close>

function paired :: "agent_message list \<Rightarrow> bool" where
  "paired [] = True"
| "paired (SystemMessage c # ms) = paired ms"
| "paired (UserMessage c s # ms) = paired ms"
| "paired (ToolResultMessage i c e # ms) = False"
| "paired (AssistantMessage c tcs s # ms) =
     (mset (map tc_id tcs) = mset (map tool_result_id (takeWhile is_tool_result ms))
      \<and> paired (dropWhile is_tool_result ms))"
  by pat_completeness auto
termination
proof (relation "measure length")
  fix c tcs s ms
  show "(dropWhile is_tool_result ms, AssistantMessage c tcs s # ms) \<in> measure length"
    using length_dropWhile_le [of is_tool_result ms] by simp
qed auto

fun tool_use_ids :: "content_block list \<Rightarrow> string list" where
  "tool_use_ids [] = []"
| "tool_use_ids (ToolUseBlock i n a # bs) = i # tool_use_ids bs"
| "tool_use_ids (b # bs) = tool_use_ids bs"

fun tool_result_ids :: "content_block list \<Rightarrow> string list" where
  "tool_result_ids [] = []"
| "tool_result_ids (ToolResultBlock i c e # bs) = i # tool_result_ids bs"
| "tool_result_ids (b # bs) = tool_result_ids bs"

definition uses_of :: "api_message \<Rightarrow> string list" where
  "uses_of m = (case api_content m of CBlocks bs \<Rightarrow> tool_use_ids bs | CText t \<Rightarrow> [])"

definition results_of :: "api_message \<Rightarrow> string list" where
  "results_of m = (case api_content m of CBlocks bs \<Rightarrow> tool_result_ids bs | CText t \<Rightarrow> [])"

text \<open>
  On the API list, \<open>prev\<close> is the ids the message before asked for: each message answers
  exactly those.
\<close>

fun api_paired :: "string list \<Rightarrow> api_message list \<Rightarrow> bool" where
  "api_paired prev [] = (prev = [])"
| "api_paired prev (m # ms) =
     (mset (results_of m) = mset prev \<and> api_paired (uses_of m) ms)"

lemma tool_use_ids_append: "tool_use_ids (xs @ ys) = tool_use_ids xs @ tool_use_ids ys"
  by (induction xs rule: tool_use_ids.induct) auto

lemma tool_result_ids_append: "tool_result_ids (xs @ ys) = tool_result_ids xs @ tool_result_ids ys"
  by (induction xs rule: tool_result_ids.induct) auto

lemma tool_use_ids_calls:
  "tool_use_ids (map (\<lambda>tc. ToolUseBlock (tc_id tc) (tc_name tc) (tc_arguments tc)) tcs) = map tc_id tcs"
  "tool_result_ids (map (\<lambda>tc. ToolUseBlock (tc_id tc) (tc_name tc) (tc_arguments tc)) tcs) = []"
  by (induction tcs) auto

lemma uses_results_dict [simp]:
  "uses_of (user_to_dict t) = []" "results_of (user_to_dict t) = []"
  "uses_of (assistant_to_dict c tcs) = map tc_id tcs" "results_of (assistant_to_dict c tcs) = []"
  by (simp_all add: uses_of_def results_of_def user_to_dict_def assistant_to_dict_def
      tool_use_ids_append tool_result_ids_append tool_use_ids_calls)

text \<open>A run of tool results becomes the pending blocks.\<close>

definition result_blocks :: "agent_message list \<Rightarrow> content_block list" where
  "result_blocks ms = concat (map (\<lambda>m. case m of ToolResultMessage i c e \<Rightarrow> [ToolResultBlock i c e] | _ \<Rightarrow> []) ms)"

lemma api_list_results:
  "api_list ms pending
     = api_list (dropWhile is_tool_result ms) (pending @ result_blocks (takeWhile is_tool_result ms))"
proof (induction ms arbitrary: pending)
  case Nil
  show ?case by (simp add: result_blocks_def)
next
  case (Cons m ms)
  show ?case
    by (cases m) (simp_all add: result_blocks_def to_content_block_def
        Cons.IH [of "pending @ [ToolResultBlock _ _ _]"])
qed

lemma result_ids_blocks:
  "\<forall>m \<in> set ms. is_tool_result m \<Longrightarrow> tool_result_ids (result_blocks ms) = map tool_result_id ms"
  "tool_use_ids (result_blocks ms) = []"
proof (induction ms)
  case (Cons m ms)
  {
    case 1
    with Cons show ?case by (cases m) (auto simp: result_blocks_def)
  next
    case 2
    with Cons show ?case by (cases m) (auto simp: result_blocks_def)
  }
qed (simp_all add: result_blocks_def)

lemma takeWhile_results_all: "\<forall>m \<in> set (takeWhile is_tool_result ms). is_tool_result m"
  by (auto dest: set_takeWhileD)

text \<open>Before a paired list no tool result is pending: whatever is pending is flushed as it stands.\<close>

lemma api_list_flush: "paired ms \<Longrightarrow> api_list ms p = flush_tool_results p [] @ api_list ms []"
proof (induction ms rule: paired.induct)
  case 1
  show ?case by (simp add: flush_tool_results_def)
next
  case (2 c ms)
  then show ?case by simp
next
  case (3 c s ms)
  show ?case by (simp add: flush_tool_results_def)
next
  case (4 i c e ms)
  then show ?case by simp
next
  case (5 c tcs s ms)
  show ?case by (simp add: flush_tool_results_def)
qed

lemma api_paired_flush:
  assumes "mset (tool_result_ids p) = mset prev" and "tool_use_ids p = []" and "api_paired [] ms"
    and "p = [] \<Longrightarrow> prev = []"
  shows "api_paired prev (flush_tool_results p [] @ ms)"
  using assms by (cases "p = []") (simp_all add: flush_tool_results_def results_of_def uses_of_def)

lemma api_paired_api_list: "paired ms \<Longrightarrow> api_paired [] (api_list ms [])"
proof (induction ms rule: paired.induct)
  case 1
  show ?case by (simp add: flush_tool_results_def)
next
  case (3 c s ms)
  then show ?case by (simp add: flush_tool_results_def)
next
  case (5 c tcs s ms)
  let ?rs = "takeWhile is_tool_result ms" and ?d = "dropWhile is_tool_result ms"
  from 5 have d: "paired ?d" "api_paired [] (api_list ?d [])"
    and ids: "mset (map tc_id tcs) = mset (map tool_result_id ?rs)" by simp_all
  have split: "api_list ms [] = flush_tool_results (result_blocks ?rs) [] @ api_list ?d []"
    by (subst api_list_results, subst api_list_flush [OF d(1)]) simp
  have rids: "tool_result_ids (result_blocks ?rs) = map tool_result_id ?rs"
    by (rule result_ids_blocks(1)) (rule takeWhile_results_all)
  have "api_paired (map tc_id tcs) (api_list ms [])"
    unfolding split
  proof (rule api_paired_flush)
    show "mset (tool_result_ids (result_blocks ?rs)) = mset (map tc_id tcs)"
      by (simp only: rids ids)
    show "tool_use_ids (result_blocks ?rs) = []" by (rule result_ids_blocks(2))
    show "api_paired [] (api_list ?d [])" by (rule d(2))
    assume "result_blocks ?rs = []"
    then have "map tool_result_id ?rs = []" using rids by simp
    then show "map tc_id tcs = []" using ids by simp
  qed
  then show ?case by (simp add: flush_tool_results_def)
qed simp_all

text \<open>
  A conversation whose tool calls are all answered serializes to one the API accepts: every
  assistant message with \<open>tool_use\<close> blocks is answered, id for id, by the one user message
  right after it, and no \<open>tool_result\<close> stands anywhere else.
\<close>

theorem api_pairing_preserved:
  assumes "paired ms"
  shows "api_paired [] (snd (messages_to_messages_api ms))"
  using assms by (simp add: messages_to_messages_api_eq api_paired_api_list)

theorem api_pairing_preserved_witness:
  "api_paired [] (snd (messages_to_messages_api
     [SystemMessage ''s'', UserMessage ''hi'' None,
      AssistantMessage None
        [\<lparr>tc_id = ''a'', tc_name = ''f'', tc_arguments = []\<rparr>,
         \<lparr>tc_id = ''b'', tc_name = ''g'', tc_arguments = []\<rparr>] None,
      ToolResultMessage ''b'' ''2'' False, ToolResultMessage ''a'' ''1'' True,
      AssistantMessage (Some ''done'') [] None]))"
  by (rule api_pairing_preserved) simp

section \<open>Paired lists, cut and joined\<close>

lemma dropWhile_results_append:
  "ys = [] \<or> \<not> is_tool_result (hd ys) \<Longrightarrow>
     dropWhile is_tool_result (ms @ ys) = dropWhile is_tool_result ms @ ys
     \<and> takeWhile is_tool_result (ms @ ys) = takeWhile is_tool_result ms"
  by (induction ms) (cases ys; auto)+

text \<open>A list that no tool result opens can be cut off or joined on without breaking a pair.\<close>

lemma paired_append:
  assumes "ys = [] \<or> \<not> is_tool_result (hd ys)"
  shows "paired (xs @ ys) \<longleftrightarrow> paired xs \<and> paired ys"
proof (induction xs rule: paired.induct)
  case (5 c tcs s ms)
  then show ?case using dropWhile_results_append [OF assms, of ms] by simp
qed simp_all

lemma paired_hd: "paired ms \<Longrightarrow> ms = [] \<or> \<not> is_tool_result (hd ms)"
  by (cases ms rule: paired.cases) auto

lemma paired_Cons_plain:
  assumes "msg_tool_calls m = []" and "\<not> is_tool_result m"
  shows "paired (m # ms) = paired ms"
proof (cases m)
  case (AssistantMessage c tcs s)
  then have "paired ([m] @ ms) = paired ms" if "ms = [] \<or> \<not> is_tool_result (hd ms)"
    using that assms paired_append [OF that, of "[m]"] by simp
  moreover have "ms = [] \<or> \<not> is_tool_result (hd ms)" if "paired (m # ms)"
    using that assms(1) AssistantMessage by (cases ms) (auto split: if_splits)
  ultimately show ?thesis using paired_hd [of ms] by auto
qed (use assms in auto)

lemma paired_appendI: "paired xs \<Longrightarrow> paired ys \<Longrightarrow> paired (xs @ ys)"
  using paired_append paired_hd by blast

lemma paired_concat: "\<forall>xs \<in> set xss. paired xs \<Longrightarrow> paired (concat xss)"
  by (induction xss) (auto intro: paired_appendI)

lemma paired_round:
  assumes "mset (map tc_id tcs) = mset (map tool_result_id rs)" and "\<forall>r \<in> set rs. is_tool_result r"
  shows "paired (AssistantMessage c tcs s # rs)"
proof -
  have tw: "takeWhile is_tool_result rs = rs" and dw: "dropWhile is_tool_result rs = []"
    using assms(2) by (simp_all add: takeWhile_eq_all_conv dropWhile_eq_Nil_conv)
  show ?thesis unfolding paired.simps tw dw using assms(1) by simp
qed

end
