(* ===== verification/Trimming.thy ===== *)
theory Trimming
  imports Messages
begin

text \<open>
  \<open>backend/app/agent/trimming.py\<close>: the trim of a prompt that has outgrown its token or turn
  budget. \<open>TrimBudget\<close> is the record \<open>trim_budget\<close>, with \<open>budget_tokens\<close>, \<open>over_trigger\<close> and
  \<open>fits\<close> as its methods; \<open>trim_messages\<close> groups the body into blocks that go together, drops
  blocks from the front while the rest does not fit, and puts a summary of what it dropped on
  the newest user turn.

  The source scales tokens with a float division, \<open>int(a * c / p)\<close>. For products below
  \<open>2 ^ 53\<close> (a prompt of a hundred million tokens per million characters stays far below) the
  rounded quotient never reaches the next integer, so it is the floor, which is \<open>div\<close> here.
\<close>

section \<open>Counting\<close>

definition count_user_turns :: "agent_message list \<Rightarrow> nat" where
  "count_user_turns msgs = length (filter is_user msgs)"

fun message_chars :: "agent_message \<Rightarrow> nat" where
  "message_chars (SystemMessage c) = length c"
| "message_chars (UserMessage c s) = length c"
| "message_chars (AssistantMessage c tcs s) =
     length (opt_text c)
     + sum_list (map (\<lambda>tc. length (tc_name tc) + length (py_repr (JObj (tc_arguments tc)))) tcs)"
| "message_chars (ToolResultMessage i c e) = length c"

definition content_length :: "agent_message list \<Rightarrow> nat" where
  "content_length msgs = sum_list (map message_chars msgs)"

section \<open>The summary of dropped messages\<close>

definition summary_max_chars :: nat where
  "summary_max_chars = 500"

definition snippet :: "string \<Rightarrow> string list" where
  \<comment> \<open>the first line of a non-empty content, at most 80 characters of it\<close>
  "snippet c = (if c = [] then [] else [take 80 (first_line c)])"

fun user_snippet :: "agent_message \<Rightarrow> string list" where
  "user_snippet (UserMessage c s) = snippet c"
| "user_snippet m = []"

fun assistant_snippet :: "agent_message \<Rightarrow> string list" where
  "assistant_snippet (AssistantMessage c tcs s) = snippet (opt_text c)"
| "assistant_snippet m = []"

definition summary_parts :: "agent_message list \<Rightarrow> string list" where
  "summary_parts dropped =
     (let users = concat (map user_snippet dropped);
          assistants = concat (map assistant_snippet dropped);
          tools = map tc_name (concat (map msg_tool_calls dropped))
      in [nat_str (length dropped) @ '' earlier message(s) were trimmed from context.'']
         @ (if users \<noteq> []
            then [''User topics: '' @ py_join ''; '' (take 5 users)
                  @ (if 5 < length users
                     then '' (and '' @ nat_str (length users - 5) @ '' more)'' else [])]
            else [])
         @ (if assistants \<noteq> []
            then [''Assistant discussed: '' @ py_join ''; '' (take 3 assistants)] else [])
         @ (if tools \<noteq> []
            then [''Tools used: '' @ py_join '', '' (sort (remdups tools))] else []))"

definition summarize_dropped_messages :: "agent_message list \<Rightarrow> string" where
  "summarize_dropped_messages dropped = take summary_max_chars (py_join '' '' (summary_parts dropped))"

section \<open>The budget\<close>

record trim_budget =
  target_tokens :: nat
  target_turns :: "int option"
  trigger_tokens :: nat
  trigger_turns :: "int option"
  input_tokens :: nat
  prompt_chars :: nat

definition default_trigger_buffer_turns :: int where
  "default_trigger_buffer_turns = 16"

definition chars_per_token :: nat where
  "chars_per_token = 4"

definition overhead_token_estimate :: nat where
  "overhead_token_estimate = 10000"

text \<open>\<open>TrimBudget.for_prompt\<close>; the two targets come from the settings, the rest may be \<open>None\<close>.\<close>

definition for_prompt ::
  "agent_message list \<Rightarrow> nat \<Rightarrow> int option \<Rightarrow> int option \<Rightarrow> nat option \<Rightarrow> nat option \<Rightarrow> trim_budget"
  where
  "for_prompt msgs tgt_tokens tgt_turns trig_turns trig_tokens in_tokens =
     \<lparr>target_tokens = tgt_tokens,
      target_turns = tgt_turns,
      trigger_tokens = (case trig_tokens of Some t \<Rightarrow> t | None \<Rightarrow> tgt_tokens),
      trigger_turns =
        (case trig_turns of
           Some t \<Rightarrow> Some t
         | None \<Rightarrow> map_option (\<lambda>t. t + default_trigger_buffer_turns) tgt_turns),
      input_tokens =
        (case in_tokens of
           Some t \<Rightarrow> t
         | None \<Rightarrow> content_length msgs div chars_per_token + overhead_token_estimate),
      prompt_chars = (if content_length msgs = 0 then 1 else content_length msgs)\<rparr>"

definition budget_tokens :: "trim_budget \<Rightarrow> agent_message list \<Rightarrow> nat" where
  "budget_tokens b msgs = input_tokens b * content_length msgs div prompt_chars b"

definition turns_over :: "int option \<Rightarrow> agent_message list \<Rightarrow> bool" where
  "turns_over limit msgs = (case limit of None \<Rightarrow> False | Some t \<Rightarrow> t < int (count_user_turns msgs))"

definition over_trigger :: "trim_budget \<Rightarrow> agent_message list \<Rightarrow> bool" where
  "over_trigger b msgs =
     (if length msgs \<le> 2 then False
      else if trigger_tokens b < budget_tokens b msgs then True
      else turns_over (trigger_turns b) msgs)"

definition fits :: "trim_budget \<Rightarrow> agent_message list \<Rightarrow> bool" where
  "fits b msgs =
     (if target_tokens b < budget_tokens b msgs then False else \<not> turns_over (target_turns b) msgs)"

section \<open>Blocks\<close>

text \<open>Whether the reply after a run of tool results belongs to the tool-call message's row.\<close>

fun same_row_reply :: "agent_message \<Rightarrow> agent_message \<Rightarrow> bool" where
  "same_row_reply m (AssistantMessage c tcs s) = (tcs = [] \<and> msg_seq m \<noteq> None \<and> s = msg_seq m)"
| "same_row_reply m n = False"

function group_blocks :: "agent_message list \<Rightarrow> agent_message list list" where
  "group_blocks [] = []"
| "group_blocks (m # ms) =
     (if msg_tool_calls m \<noteq> [] then
        let rs = takeWhile is_tool_result ms; rest = dropWhile is_tool_result ms in
        if rest \<noteq> [] \<and> same_row_reply m (hd rest)
        then (m # rs @ [hd rest]) # group_blocks (tl rest)
        else (m # rs) # group_blocks rest
      else [m] # group_blocks ms)"
  by pat_completeness auto
termination
proof (relation "measure length")
  fix m ms x xa
  assume "xa = dropWhile is_tool_result ms"
  then show "(tl xa, m # ms) \<in> measure length" and "(xa, m # ms) \<in> measure length"
    using length_dropWhile_le [of is_tool_result ms] by (auto simp: less_Suc_eq_le)
qed auto

declare group_blocks.simps(2) [simp del]

text \<open>The \<open>while len(blocks) > 1\<close> loop: the blocks left and the messages dropped.\<close>

fun drop_blocks ::
  "(agent_message list \<Rightarrow> bool) \<Rightarrow> agent_message \<Rightarrow> agent_message list list \<Rightarrow> agent_message list
     \<Rightarrow> agent_message list list \<times> agent_message list" where
  "drop_blocks fit system (b # c # blocks) dropped =
     (if fit (system # concat (b # c # blocks)) then (b # c # blocks, dropped)
      else drop_blocks fit system (c # blocks) (dropped @ b))"
| "drop_blocks fit system blocks dropped = (blocks, dropped)"

section \<open>The trim\<close>

definition summary_note :: "string \<Rightarrow> string" where
  "summary_note summary = ''[Summary of earlier conversation: '' @ summary @ '']''"

text \<open>Prepend \<open>note\<close> to the last user message, if there is one.\<close>

fun note_last_user :: "string \<Rightarrow> agent_message list \<Rightarrow> agent_message list option" where
  "note_last_user note [] = None"
| "note_last_user note (m # ms) =
     (case note_last_user note ms of
        Some ms' \<Rightarrow> Some (m # ms')
      | None \<Rightarrow>
          (case m of
             UserMessage c s \<Rightarrow> Some (UserMessage (note @ [nl, nl] @ c) s # ms)
           | _ \<Rightarrow> None))"

definition attach_summary :: "agent_message list \<Rightarrow> string \<Rightarrow> agent_message list" where
  "attach_summary messages summary =
     (let note = summary_note summary in
      case messages of
        [] \<Rightarrow> [UserMessage note None]
      | m # body \<Rightarrow>
          (case note_last_user note body of
             Some body' \<Rightarrow> m # body'
           | None \<Rightarrow> m # UserMessage note None # body))"

record trim_result =
  tr_messages :: "agent_message list"
  tr_dropped :: "agent_message list"

definition trim_messages ::
  "agent_message list \<Rightarrow> nat \<Rightarrow> int option \<Rightarrow> int option \<Rightarrow> nat option \<Rightarrow> nat option \<Rightarrow> trim_result"
  where
  "trim_messages msgs tgt_tokens tgt_turns trig_turns trig_tokens in_tokens =
     (let budget = for_prompt msgs tgt_tokens tgt_turns trig_turns trig_tokens in_tokens in
      if \<not> over_trigger budget msgs then \<lparr>tr_messages = msgs, tr_dropped = []\<rparr>
      else
        let system = hd msgs;
            (blocks, dropped) = drop_blocks (fits budget) system (group_blocks (tl msgs)) [];
            result = system # concat blocks
        in \<lparr>tr_messages =
              (if dropped \<noteq> [] then attach_summary result (summarize_dropped_messages dropped)
               else result),
            tr_dropped = dropped\<rparr>)"

section \<open>Facts on the budget\<close>

lemma content_length_append [simp]:
  "content_length (xs @ ys) = content_length xs + content_length ys"
  by (simp add: content_length_def)

lemma content_length_Cons [simp]: "content_length (x # xs) = message_chars x + content_length xs"
  by (simp add: content_length_def)

lemma content_length_Nil [simp]: "content_length [] = 0"
  by (simp add: content_length_def)

lemma count_user_turns_append [simp]:
  "count_user_turns (xs @ ys) = count_user_turns xs + count_user_turns ys"
  by (simp add: count_user_turns_def)

lemma over_trigger_length: "over_trigger b msgs \<Longrightarrow> 2 < length msgs"
  by (auto simp: over_trigger_def split: if_splits)

lemma budget_tokens_mono:
  "content_length xs \<le> content_length ys \<Longrightarrow> budget_tokens b xs \<le> budget_tokens b ys"
  by (simp add: budget_tokens_def div_le_mono)

text \<open>What the trim relies on: dropping messages never makes a prompt stop fitting.\<close>

lemma fits_mono:
  assumes "fits b ys" and "content_length xs \<le> content_length ys"
    and "count_user_turns xs \<le> count_user_turns ys"
  shows "fits b xs"
  using assms budget_tokens_mono [OF assms(2), of b]
  by (auto simp: fits_def turns_over_def split: if_splits option.splits)

lemma summary_length: "length (summarize_dropped_messages dropped) \<le> summary_max_chars"
  by (simp add: summarize_dropped_messages_def)

section \<open>Facts on blocks\<close>

lemma concat_group_blocks [simp]: "concat (group_blocks ms) = ms"
proof (induction ms rule: group_blocks.induct)
  case (2 m ms)
  have "m # takeWhile is_tool_result ms @ dropWhile is_tool_result ms = m # ms" by simp
  then show ?case using 2
    by (auto simp: group_blocks.simps(2) Let_def simp del: takeWhile_dropWhile_id)
qed simp

lemma group_blocks_nonempty: "b \<in> set (group_blocks ms) \<Longrightarrow> b \<noteq> []"
proof (induction ms rule: group_blocks.induct)
  case (2 m ms)
  then show ?case by (auto simp: group_blocks.simps(2) Let_def split: if_splits)
qed simp

lemma group_blocks_eq_Nil [simp]: "group_blocks ms = [] \<longleftrightarrow> ms = []"
  by (cases ms) (auto simp: group_blocks.simps(2) Let_def)

text \<open>The loop drops a prefix of the blocks: the shortest one whose rest fits.\<close>

lemma drop_blocks_spec:
  assumes "blocks \<noteq> []"
  shows "\<exists>k. k < length blocks
     \<and> drop_blocks fit sys blocks dropped = (drop k blocks, dropped @ concat (take k blocks))
     \<and> (fit (sys # concat (drop k blocks)) \<or> k = length blocks - 1)
     \<and> (\<forall>j < k. \<not> fit (sys # concat (drop j blocks)))"
  using assms
proof (induction fit sys blocks dropped rule: drop_blocks.induct)
  case (1 fit sys b c blocks dropped)
  show ?case
  proof (cases "fit (sys # concat (b # c # blocks))")
    case True
    then show ?thesis by (intro exI [of _ 0]) simp
  next
    case False
    with "1.IH" obtain k where k: "k < length (c # blocks)"
      "drop_blocks fit sys (c # blocks) (dropped @ b)
         = (drop k (c # blocks), (dropped @ b) @ concat (take k (c # blocks)))"
      "fit (sys # concat (drop k (c # blocks))) \<or> k = length (c # blocks) - 1"
      "\<forall>j < k. \<not> fit (sys # concat (drop j (c # blocks)))" by auto
    have "\<not> fit (sys # concat (drop j (b # c # blocks)))" if "j < Suc k" for j
      using that False k(4) by (cases j) auto
    then show ?thesis using k(1-3) False by (intro exI [of _ "Suc k"]) auto
  qed
qed auto

lemma trim_messages_cases:
  assumes "\<not> over_trigger (for_prompt msgs a b c d e) msgs"
  shows "trim_messages msgs a b c d e = \<lparr>tr_messages = msgs, tr_dropped = []\<rparr>"
  using assms by (simp add: trim_messages_def)

text \<open>
  The shape of every trim that fires: the body is cut at a block boundary, the front is dropped
  and the rest kept, with a note on it when something was dropped.
\<close>

lemma trim_messages_fired:
  assumes "over_trigger budget msgs" and budget: "budget = for_prompt msgs a b c d e"
  obtains k where "k < length (group_blocks (tl msgs))"
    and "tr_dropped (trim_messages msgs a b c d e) = concat (take k (group_blocks (tl msgs)))"
    and "tr_messages (trim_messages msgs a b c d e) =
       (let kept = hd msgs # concat (drop k (group_blocks (tl msgs))) in
        if k = 0 then kept
        else attach_summary kept (summarize_dropped_messages (tr_dropped (trim_messages msgs a b c d e))))"
    and "fits budget (hd msgs # concat (drop k (group_blocks (tl msgs))))
       \<or> k = length (group_blocks (tl msgs)) - 1"
    and "\<forall>j < k. \<not> fits budget (hd msgs # concat (drop j (group_blocks (tl msgs))))"
proof -
  let ?bs = "group_blocks (tl msgs)"
  have "tl msgs \<noteq> []" using over_trigger_length [OF assms(1)] by (cases msgs) auto
  then obtain k where k: "k < length ?bs"
    "drop_blocks (fits budget) (hd msgs) ?bs [] = (drop k ?bs, concat (take k ?bs))"
    "fits budget (hd msgs # concat (drop k ?bs)) \<or> k = length ?bs - 1"
    "\<forall>j < k. \<not> fits budget (hd msgs # concat (drop j ?bs))"
    using drop_blocks_spec [of ?bs "fits budget" "hd msgs" "[]"] by auto
  have empty: "concat (take k ?bs) = [] \<longleftrightarrow> k = 0"
    using k(1) group_blocks_nonempty [of _ "tl msgs"] by (cases ?bs; cases k) auto
  have "trim_messages msgs a b c d e =
     (let kept = hd msgs # concat (drop k ?bs) in
      \<lparr>tr_messages = (if k = 0 then kept else attach_summary kept (summarize_dropped_messages (concat (take k ?bs)))),
       tr_dropped = concat (take k ?bs)\<rparr>)"
    using assms(1) k(2) empty by (simp add: trim_messages_def budget [symmetric] Let_def)
  then show ?thesis using k by (intro that [of k]) (simp_all add: Let_def)
qed

section \<open>Cutting at block boundaries\<close>

lemma group_blocks_tl: "group_blocks ms = b # bs \<Longrightarrow> group_blocks (concat bs) = bs"
  by (cases ms) (auto simp: group_blocks.simps(2) Let_def split: if_splits)

lemma group_blocks_drop: "group_blocks (concat (drop k (group_blocks ms))) = drop k (group_blocks ms)"
proof (induction k arbitrary: ms)
  case (Suc k)
  show ?case
  proof (cases "group_blocks ms")
    case (Cons b bs)
    then have "group_blocks (concat bs) = bs" by (rule group_blocks_tl)
    then show ?thesis using Suc.IH [of "concat bs"] Cons by simp
  qed simp
qed simp

text \<open>No block of a paired list opens with a tool result, so a cut never parts a pair.\<close>

lemma paired_blocks: "paired ms \<Longrightarrow> \<forall>b \<in> set (group_blocks ms). paired b"
proof (induction ms rule: group_blocks.induct)
  case (2 m ms)
  show ?case
  proof (cases "msg_tool_calls m = []")
    case True
    have m: "\<not> is_tool_result m" using paired_hd [OF "2.prems"] by simp
    have "paired [m]" "paired ms"
      using "2.prems" paired_Cons_plain [OF True m, of "[]"] paired_Cons_plain [OF True m, of ms] by simp_all
    then show ?thesis using "2.IH"(3) True by (simp add: group_blocks.simps(2))
  next
    case False
    let ?rs = "takeWhile is_tool_result ms" and ?rest = "dropWhile is_tool_result ms"
    obtain c tcs s where m: "m = AssistantMessage c tcs s" using False by (cases m) auto
    have rest: "paired ?rest" and blk: "paired (m # ?rs)"
      using "2.prems" paired_round [of tcs ?rs c s] takeWhile_results_all by (auto simp: m)
    have "paired (m # ?rs @ [hd ?rest]) \<and> paired (tl ?rest)"
      if j: "?rest \<noteq> []" "same_row_reply m (hd ?rest)"
    proof -
      obtain c' s' where h: "hd ?rest = AssistantMessage c' [] s'"
        using j(2) by (cases "hd ?rest") auto
      have "paired ([hd ?rest] @ tl ?rest)" using rest j(1) by simp
      then have "paired [hd ?rest]" "paired (tl ?rest)"
        using h paired_Cons_plain [of "hd ?rest"] by simp_all
      then show ?thesis using paired_appendI [OF blk, of "[hd ?rest]"] by simp
    qed
    then show ?thesis using 2 False rest blk by (auto simp: group_blocks.simps(2) Let_def)
  qed
qed simp

lemma paired_take_drop_blocks:
  assumes "paired ms"
  shows "paired (concat (take k (group_blocks ms)))" and "paired (concat (drop k (group_blocks ms)))"
  using paired_blocks [OF assms] by (auto intro!: paired_concat dest: in_set_takeD in_set_dropD)

section \<open>The summary note\<close>

lemma note_last_user_None: "note_last_user note ms = None \<longleftrightarrow> (\<forall>m \<in> set ms. \<not> is_user m)"
  by (induction ms) (auto split: option.splits agent_message.splits)

lemma note_last_user_append:
  assumes "\<forall>m \<in> set zs. \<not> is_user m"
  shows "note_last_user note (xs @ UserMessage c s # zs)
     = Some (xs @ UserMessage (note @ [nl, nl] @ c) s # zs)"
proof (induction xs)
  case Nil
  have "note_last_user note zs = None" using assms by (simp add: note_last_user_None)
  then show ?case by simp
qed simp

lemma note_last_user_Some:
  "note_last_user note ms = Some ms' \<Longrightarrow>
     \<exists>xs c s zs. ms = xs @ UserMessage c s # zs \<and> ms' = xs @ UserMessage (note @ [nl, nl] @ c) s # zs
       \<and> (\<forall>m \<in> set zs. \<not> is_user m)"
proof (induction ms arbitrary: ms')
  case (Cons m ms)
  show ?case
  proof (cases "note_last_user note ms")
    case None
    then obtain c s where "m = UserMessage c s" "ms' = UserMessage (note @ [nl, nl] @ c) s # ms"
      using Cons.prems by (auto split: agent_message.splits)
    then show ?thesis using None
      by (intro exI [of _ "[]"] exI [of _ c] exI [of _ s] exI [of _ ms]) (simp add: note_last_user_None)
  next
    case (Some ys)
    then obtain xs c s zs where ih: "ms = xs @ UserMessage c s # zs"
      "ys = xs @ UserMessage (note @ [nl, nl] @ c) s # zs" "\<forall>m \<in> set zs. \<not> is_user m"
      using Cons.IH by blast
    then show ?thesis using Cons.prems Some by (intro exI [of _ "m # xs"]) auto
  qed
qed simp

lemma paired_note_last_user: "note_last_user note ms = Some ms' \<Longrightarrow> paired ms' = paired ms"
  by (auto dest!: note_last_user_Some simp: paired_append)

lemma paired_attach_summary:
  "paired (attach_summary (SystemMessage c # ms) summary) = paired ms"
  by (auto simp: attach_summary_def Let_def paired_note_last_user split: option.splits)

section \<open>Properties\<close>

text \<open>
  A trim loses and reorders nothing: the body of the prompt is what was dropped followed by
  what was kept, something is always kept, and the new prompt is the system message and the
  kept part (with the summary of the dropped part attached when there is one).
\<close>

theorem trim_partition:
  "\<exists>kept. body = tr_dropped (trim_messages (m # body) a b c d e) @ kept
     \<and> (kept = [] \<longleftrightarrow> body = [])
     \<and> tr_messages (trim_messages (m # body) a b c d e) =
         (if tr_dropped (trim_messages (m # body) a b c d e) = [] then m # kept
          else attach_summary (m # kept)
                 (summarize_dropped_messages (tr_dropped (trim_messages (m # body) a b c d e))))"
proof (cases "over_trigger (for_prompt (m # body) a b c d e) (m # body)")
  case True
  let ?bs = "group_blocks body" and ?r = "trim_messages (m # body) a b c d e"
  from trim_messages_fired [OF True refl] obtain k where k: "k < length ?bs"
    "tr_dropped ?r = concat (take k ?bs)"
    "tr_messages ?r = (let kept = m # concat (drop k ?bs) in
        if k = 0 then kept else attach_summary kept (summarize_dropped_messages (tr_dropped ?r)))"
    by auto
  have body: "body = concat (take k ?bs) @ concat (drop k ?bs)"
    by (simp flip: concat_append)
  have kept: "concat (drop k ?bs) \<noteq> []"
    using k(1) group_blocks_nonempty [of "?bs ! k" body] by (simp flip: Cons_nth_drop_Suc)
  have dropped: "concat (take k ?bs) = [] \<longleftrightarrow> k = 0"
    using k(1) group_blocks_nonempty [of _ body] by (cases ?bs; cases k) auto
  have "body \<noteq> []" using k(1) by auto
  then show ?thesis using k body kept dropped by (intro exI [of _ "concat (drop k ?bs)"]) (auto simp: Let_def)
qed (auto simp: trim_messages_cases)

lemma trim_messages_paired:
  assumes "paired body"
  shows "paired (tr_messages (trim_messages (SystemMessage sys # body) a b c d e))
     \<and> paired (tr_dropped (trim_messages (SystemMessage sys # body) a b c d e))"
proof (cases "over_trigger (for_prompt (SystemMessage sys # body) a b c d e) (SystemMessage sys # body)")
  case True
  from trim_messages_fired [OF True refl] obtain k where
    "tr_dropped (trim_messages (SystemMessage sys # body) a b c d e) = concat (take k (group_blocks body))"
    "tr_messages (trim_messages (SystemMessage sys # body) a b c d e) =
      (let kept = SystemMessage sys # concat (drop k (group_blocks body)) in
        if k = 0 then kept else attach_summary kept (summarize_dropped_messages
          (tr_dropped (trim_messages (SystemMessage sys # body) a b c d e))))" by auto
  then show ?thesis
    using paired_take_drop_blocks [OF assms, of k] assms by (simp add: Let_def paired_attach_summary)
next
  case False
  then show ?thesis using assms by (simp add: trim_messages_cases)
qed

text \<open>
  C8. Trimming keeps tool calls with their results: a paired prompt stays paired, and so is
  what was dropped (it is what compaction reads).
\<close>

theorem trim_keeps_pairs:
  assumes "paired body"
  shows "paired (tr_messages (trim_messages (SystemMessage sys # body) a b c d e))
     \<and> paired (tr_dropped (trim_messages (SystemMessage sys # body) a b c d e))"
  using assms by (rule trim_messages_paired)

theorem trim_keeps_pairs_witness:
  "paired (tr_messages (trim_messages
      [SystemMessage ''s'', UserMessage ''old'' None,
       AssistantMessage None [\<lparr>tc_id = ''a'', tc_name = ''f'', tc_arguments = []\<rparr>] None,
       ToolResultMessage ''a'' ''1'' False, UserMessage ''new'' None] 1 None None None (Some 100)))"
  using trim_keeps_pairs [of "[UserMessage ''old'' None,
       AssistantMessage None [\<lparr>tc_id = ''a'', tc_name = ''f'', tc_arguments = []\<rparr>] None,
       ToolResultMessage ''a'' ''1'' False, UserMessage ''new'' None]" "''s''" 1 None None None "Some 100"]
  by simp

text \<open>
  A trim that fires shrinks the prompt to its target: what is kept fits the token and turn
  target, or is a single block (the newest, which is never dropped). It drops no more than
  needed: with any shorter run of blocks dropped the prompt would not fit.
\<close>

theorem trim_reaches_target:
  assumes "over_trigger (for_prompt (m # body) a b c d e) (m # body)"
  shows "\<exists>kept. body = tr_dropped (trim_messages (m # body) a b c d e) @ kept
     \<and> (fits (for_prompt (m # body) a b c d e) (m # kept) \<or> length (group_blocks kept) = 1)
     \<and> (\<forall>j < length (group_blocks body) - length (group_blocks kept).
          \<not> fits (for_prompt (m # body) a b c d e) (m # concat (drop j (group_blocks body))))"
proof -
  let ?bs = "group_blocks body"
  from trim_messages_fired [OF assms refl] obtain k where k: "k < length ?bs"
    "tr_dropped (trim_messages (m # body) a b c d e) = concat (take k ?bs)"
    "fits (for_prompt (m # body) a b c d e) (m # concat (drop k ?bs)) \<or> k = length ?bs - 1"
    "\<forall>j < k. \<not> fits (for_prompt (m # body) a b c d e) (m # concat (drop j ?bs))"
    by auto
  have split: "body = concat (take k ?bs) @ concat (drop k ?bs)" by (simp flip: concat_append)
  have last: "length (drop k ?bs) = 1" if "k = length ?bs - 1" using that k(1) by simp
  have len: "length ?bs - length (drop k ?bs) = k" using k(1) by simp
  show ?thesis
    by (intro exI [of _ "concat (drop k ?bs)"] conjI)
      (use k split last len in \<open>simp_all add: group_blocks_drop del: length_drop, blast+\<close>)
qed

theorem trim_reaches_target_witness:
  "\<exists>kept. [UserMessage ''one'' None, UserMessage ''two'' None]
     = tr_dropped (trim_messages [SystemMessage ''s'', UserMessage ''one'' None, UserMessage ''two'' None]
         1 None None None (Some 7)) @ kept"
proof -
  have "over_trigger (for_prompt [SystemMessage ''s'', UserMessage ''one'' None, UserMessage ''two'' None]
     1 None None None (Some 7)) [SystemMessage ''s'', UserMessage ''one'' None, UserMessage ''two'' None]"
    by (simp add: over_trigger_def for_prompt_def budget_tokens_def)
  from trim_reaches_target [OF this] show ?thesis by blast
qed

section \<open>Stored rows are never split\<close>

text \<open>
  What one stored row renders as (\<open>context._stored_messages_to_agent_messages\<close>): a user message,
  a reply, or a tool-call message with its results and the reply, all with the row's seq.
\<close>

definition row_chunk :: "int \<Rightarrow> agent_message list \<Rightarrow> bool" where
  "row_chunk q ms \<longleftrightarrow>
     (\<exists>c. ms = [UserMessage c (Some q)])
     \<or> (\<exists>c. ms = [AssistantMessage (Some c) [] (Some q)])
     \<or> (\<exists>tcs rs c. tcs \<noteq> [] \<and> (\<forall>r \<in> set rs. is_tool_result r)
          \<and> mset (map tc_id tcs) = mset (map tool_result_id rs)
          \<and> ms = AssistantMessage None tcs (Some q) # rs @ [AssistantMessage (Some c) [] (Some q)])"

lemma row_chunk_cases [consumes 1, case_names user reply tools]:
  assumes "row_chunk q ms"
  obtains c where "ms = [UserMessage c (Some q)]"
  | c where "ms = [AssistantMessage (Some c) [] (Some q)]"
  | tcs rs c where "tcs \<noteq> []" and "\<forall>r \<in> set rs. is_tool_result r"
      and "mset (map tc_id tcs) = mset (map tool_result_id rs)"
      and "ms = AssistantMessage None tcs (Some q) # rs @ [AssistantMessage (Some c) [] (Some q)]"
  using assms unfolding row_chunk_def by blast

lemma group_blocks_chunk:
  assumes "row_chunk q ms"
  shows "group_blocks (ms @ rest) = ms # group_blocks rest"
  using assms
proof (cases rule: row_chunk_cases)
  case (tools tcs rs c)
  then have "takeWhile is_tool_result (rs @ AssistantMessage (Some c) [] (Some q) # rest) = rs"
    "dropWhile is_tool_result (rs @ AssistantMessage (Some c) [] (Some q) # rest)
       = AssistantMessage (Some c) [] (Some q) # rest"
    by (auto simp: takeWhile_append dropWhile_append dropWhile_eq_Nil_conv)
  then show ?thesis using tools(1) by (simp add: tools(4) group_blocks.simps(2) Let_def)
qed (simp_all add: group_blocks.simps(2))

lemma group_blocks_chunks:
  "list_all2 row_chunk qs chunks \<Longrightarrow>
     group_blocks (concat chunks @ rest) = chunks @ group_blocks rest"
  by (induction rule: list_all2_induct) (simp_all add: group_blocks_chunk)

lemma row_chunk_seqs:
  assumes "row_chunk q ms"
  shows "set (seqs_from_dropped ms) = {q}"
  using assms
proof (cases rule: row_chunk_cases)
  case (tools tcs rs c)
  have "msg_seq r = None" if "r \<in> set rs" for r using tools(2) that by (cases r) auto
  then show ?thesis by (auto simp: tools(4) set_seqs_from_dropped)
qed simp_all

lemma row_chunk_paired:
  assumes "row_chunk q ms"
  shows "paired ms"
  using assms
proof (cases rule: row_chunk_cases)
  case (tools tcs rs c)
  then show ?thesis
    using paired_appendI [OF paired_round [OF tools(3,2)], of "[AssistantMessage (Some c) [] (Some q)]"]
    by simp
qed simp_all

definition seqs_before :: "agent_message list \<Rightarrow> agent_message list \<Rightarrow> bool" where
  "seqs_before xs ys \<longleftrightarrow> (\<forall>x \<in> set (seqs_from_dropped xs). \<forall>y \<in> set (seqs_from_dropped ys). x < y)"

lemma chunks_seqs_before:
  assumes "list_all2 row_chunk qs chunks" and "sorted_wrt (<) qs"
    and "\<forall>b \<in> set bs. seqs_from_dropped b = []"
  shows "sorted_wrt seqs_before (chunks @ bs)"
  using assms(1,2)
proof (induction rule: list_all2_induct)
  case Nil
  have "sorted_wrt seqs_before bs"
    using assms(3) by (induction bs) (auto simp: seqs_before_def)
  then show ?case by simp
next
  case (Cons q qs c chunks)
  have "seqs_before c d" if d: "d \<in> set chunks" for d
  proof -
    obtain q' where "q' \<in> set qs" "row_chunk q' d"
      using list_all2_right [OF Cons.hyps(2) d] by blast
    then show ?thesis using Cons.hyps(1) Cons.prems by (auto simp: seqs_before_def row_chunk_seqs)
  qed
  moreover have "seqs_before c b" if "b \<in> set bs" for b
    using that assms(3) by (simp add: seqs_before_def)
  ultimately show ?case using Cons by auto
qed

lemma seqs_before_concat:
  "sorted_wrt seqs_before (xss @ yss) \<Longrightarrow> seqs_before (concat xss) (concat yss)"
  unfolding sorted_wrt_append seqs_before_def set_seqs_from_dropped by fastforce

text \<open>
  When the history is the rendering of rows with rising seqs, every seq a trim drops is below
  every seq it keeps.
\<close>

lemma trim_never_splits_row:
  assumes "list_all2 row_chunk qs chunks" and "sorted_wrt (<) qs"
    and "\<forall>m \<in> set live. msg_seq m = None"
  shows "\<exists>kept. concat chunks @ live
       = tr_dropped (trim_messages (s # concat chunks @ live) a b c d e) @ kept
     \<and> seqs_before (tr_dropped (trim_messages (s # concat chunks @ live) a b c d e)) kept"
proof (cases "over_trigger (for_prompt (s # concat chunks @ live) a b c d e) (s # concat chunks @ live)")
  case True
  let ?bs = "chunks @ group_blocks live"
  have bs: "group_blocks (tl (s # concat chunks @ live)) = ?bs"
    using group_blocks_chunks [OF assms(1)] by simp
  from trim_messages_fired [OF True refl] obtain k where
    k: "tr_dropped (trim_messages (s # concat chunks @ live) a b c d e) = concat (take k ?bs)"
    unfolding bs by auto
  have live: "seqs_from_dropped b = []" if "b \<in> set (group_blocks live)" for b
  proof -
    have "set b \<subseteq> set (concat (group_blocks live))" unfolding set_concat using that by blast
    then have "set (seqs_from_dropped b) = {}" using assms(3) by (auto simp: set_seqs_from_dropped)
    then show ?thesis by simp
  qed
  have "seqs_before (concat (take k ?bs)) (concat (drop k ?bs))"
    by (rule seqs_before_concat)
      (unfold append_take_drop_id, rule chunks_seqs_before [OF assms(1,2)], simp add: live)
  moreover have "concat chunks @ live = concat (take k ?bs) @ concat (drop k ?bs)"
    by (simp only: append_take_drop_id flip: concat_append) simp
  ultimately show ?thesis using k by (intro exI [of _ "concat (drop k ?bs)"]) simp
next
  case False
  then show ?thesis by (simp add: trim_messages_cases seqs_before_def)
qed

section \<open>The summary leaves the history alone\<close>

text \<open>
  The summary of dropped turns rides the newest user turn and nothing else changes: the
  system message, the kept history before that turn and everything after it are the messages
  themselves, and the summary is at most 500 characters.
\<close>

theorem attach_summary_local:
  assumes "\<forall>m \<in> set rest. \<not> is_user m"
  shows "attach_summary (m # history @ UserMessage c q # rest) (summarize_dropped_messages dropped)
     = m # history @ UserMessage (summary_note (summarize_dropped_messages dropped) @ [nl, nl] @ c) q # rest
     \<and> length (summarize_dropped_messages dropped) \<le> summary_max_chars"
  using note_last_user_append [OF assms, of "summary_note (summarize_dropped_messages dropped)" history c q]
  by (simp add: attach_summary_def Let_def summary_length)

theorem attach_summary_local_witness:
  "attach_summary (SystemMessage ''s'' # [UserMessage ''a'' (Some 3)] @ UserMessage ''b'' None # [])
       (summarize_dropped_messages [])
     = SystemMessage ''s'' # [UserMessage ''a'' (Some 3)]
       @ UserMessage (summary_note (summarize_dropped_messages []) @ [nl, nl] @ ''b'') None # []
   \<and> length (summarize_dropped_messages []) \<le> summary_max_chars"
  by (rule attach_summary_local) simp

end
