(* ===== verification/History.thy ===== *)
theory History
  imports Approval_Text Trimming
begin

text \<open>
  \<open>backend/app/agent/context.py\<close>, first half: how stored rows become the typed messages of a
  prompt (\<open>_stored_messages_to_agent_messages\<close>). A row's \<open>timestamp\<close> column is the instant it
  parses to, in microseconds, or \<open>None\<close> where \<open>fromisoformat\<close> would raise; its
  \<open>tool_interactions_json\<close> column is the list \<open>_parse_tool_interactions\<close> validates out of it
  (JSON decoding and pydantic are libraries). The local day and the printed time of an instant
  depend on the time-zone database, so they are the two functions of a \<open>timezone\<close>.
\<close>

section \<open>Rows\<close>

datatype direction = INBOUND | OUTBOUND

record stored_receipt =
  rcpt_action :: string
  rcpt_target :: string
  rcpt_url :: "string option"

record stored_interaction =
  si_id :: string
  si_name :: string
  si_args :: json_dict
  si_result :: string
  si_is_error :: bool
  si_tags :: "string list"
  si_receipt :: "stored_receipt option"

record stored_message =
  sm_direction :: direction
  sm_body :: string
  sm_processed_context :: string
  sm_interactions :: "stored_interaction list"
  sm_llm_reply_text :: string
  sm_timestamp :: "int option"
  sm_seq :: int

record timezone =
  local_day :: "int \<Rightarrow> int"
  local_stamp :: "int \<Rightarrow> string"

section \<open>Time markers\<close>

definition timestamp_gap_threshold :: int where
  \<comment> \<open>thirty minutes, in microseconds\<close>
  "timestamp_gap_threshold = 30 * 60 * 1000000"

definition time_marker :: "timezone \<Rightarrow> int option \<Rightarrow> int option \<Rightarrow> string option" where
  "time_marker tz prev cur =
     (case cur of
        None \<Rightarrow> None
      | Some c \<Rightarrow>
          (case prev of
             Some p \<Rightarrow>
               if local_day tz p = local_day tz c \<and> c - p < timestamp_gap_threshold then None
               else Some (''['' @ local_stamp tz c @ '']'')
           | None \<Rightarrow> Some (''['' @ local_stamp tz c @ '']'')))"

definition with_marker :: "string option \<Rightarrow> string \<Rightarrow> string" where
  "with_marker marker t = (case marker of Some m \<Rightarrow> m @ [nl] @ t | None \<Rightarrow> t)"

section \<open>What a row contributes\<close>

definition row_content :: "stored_message \<Rightarrow> string" where
  "row_content m =
     (if sm_direction m = OUTBOUND
      then (if sm_llm_reply_text m \<noteq> [] then sm_llm_reply_text m else sm_body m)
      else (if sm_processed_context m \<noteq> [] then sm_processed_context m else sm_body m))"

definition is_approval_prompt_row :: "stored_message \<Rightarrow> bool" where
  "is_approval_prompt_row m \<longleftrightarrow>
     sm_direction m \<noteq> INBOUND \<and> sm_interactions m = [] \<and> is_approval_prompt (row_content m)"

definition is_visible_row :: "stored_message \<Rightarrow> bool \<Rightarrow> bool" where
  "is_visible_row m after_approval_prompt =
     (if sm_direction m = INBOUND then
        (if py_strip (row_content m) = [] then False
         else \<not> (after_approval_prompt \<and> parse_approval_response (row_content m) \<noteq> None))
      else \<not> is_approval_prompt_row m)"

text \<open>The search of \<open>_state_after\<close> from the last row backwards, over the reversed rows.\<close>

fun last_visible :: "stored_message list \<Rightarrow> int option" where
  "last_visible [] = None"
| "last_visible (m # before) =
     (if is_visible_row m (case before of [] \<Rightarrow> False | p # _ \<Rightarrow> is_approval_prompt_row p)
      then sm_timestamp m else last_visible before)"

definition state_after :: "stored_message list \<Rightarrow> int option \<times> bool" where
  "state_after preceding =
     (if preceding = [] then (None, False)
      else (last_visible (rev preceding), is_approval_prompt_row (last preceding)))"

section \<open>The conversion\<close>

definition expand_outbound_with_tools ::
  "stored_interaction list \<Rightarrow> string \<Rightarrow> int option \<Rightarrow> agent_message list" where
  "expand_outbound_with_tools interactions reply_text q =
     AssistantMessage None
       (map (\<lambda>tc. \<lparr>tc_id = si_id tc, tc_name = si_name tc, tc_arguments = si_args tc\<rparr>) interactions) q
     # map (\<lambda>tc. ToolResultMessage (si_id tc) (si_result tc) False) interactions
     @ [AssistantMessage (Some reply_text) [] q]"

text \<open>One pass of the loop: the messages it appends and the state it leaves.\<close>

definition convert_row ::
  "timezone \<Rightarrow> stored_message \<Rightarrow> int option \<times> bool \<Rightarrow> agent_message list \<times> (int option \<times> bool)"
  where
  "convert_row tz m st =
     (let (prev, last_was_prompt) = st;
          content = row_content m;
          marked = with_marker (time_marker tz prev (sm_timestamp m)) content
      in if sm_direction m = INBOUND then
           (if py_strip content = [] then ([], (prev, False))
            else if last_was_prompt \<and> parse_approval_response content \<noteq> None
            then ([], (prev, False))
            else ([UserMessage marked (Some (sm_seq m))], (sm_timestamp m, False)))
         else if sm_interactions m \<noteq> [] then
           (expand_outbound_with_tools (sm_interactions m) marked (Some (sm_seq m)),
            (sm_timestamp m, False))
         else if is_approval_prompt content then ([], (prev, True))
         else ([AssistantMessage (Some marked) [] (Some (sm_seq m))], (sm_timestamp m, False)))"

fun convert_rows ::
  "timezone \<Rightarrow> stored_message list \<Rightarrow> int option \<times> bool \<Rightarrow> agent_message list" where
  "convert_rows tz [] st = []"
| "convert_rows tz (m # ms) st =
     (let (out, st') = convert_row tz m st in out @ convert_rows tz ms st')"

definition stored_to_agent ::
  "timezone \<Rightarrow> stored_message list \<Rightarrow> stored_message list \<Rightarrow> agent_message list" where
  "stored_to_agent tz rows preceding = convert_rows tz rows (state_after preceding)"

section \<open>A row converts the same in whichever slice it is loaded\<close>

lemma direction_cases [simp]: "d \<noteq> INBOUND \<longleftrightarrow> d = OUTBOUND" "d \<noteq> OUTBOUND \<longleftrightarrow> d = INBOUND"
  by (cases d; simp)+

lemma state_after_snoc: "state_after (p @ [m]) = snd (convert_row tz m (state_after p))"
proof -
  have prompt: "snd (state_after p) = (case rev p of [] \<Rightarrow> False | x # _ \<Rightarrow> is_approval_prompt_row x)"
    by (cases p rule: rev_cases) (simp_all add: state_after_def)
  have prev: "fst (state_after p) = last_visible (rev p)"
    by (cases p rule: rev_cases) (simp_all add: state_after_def)
  obtain pv fl where st: "state_after p = (pv, fl)" by force
  show ?thesis
    using prompt prev
    by (cases "sm_direction m")
      (auto simp: state_after_def st convert_row_def Let_def is_visible_row_def is_approval_prompt_row_def)
qed

lemma convert_rows_append:
  "convert_rows tz (xs @ ys) (state_after p)
     = convert_rows tz xs (state_after p) @ convert_rows tz ys (state_after (p @ xs))"
proof (induction xs arbitrary: p)
  case (Cons x xs)
  obtain out st where c: "convert_row tz x (state_after p) = (out, st)"
    by (cases "convert_row tz x (state_after p)")
  have "st = state_after (p @ [x])" using state_after_snoc [of p x tz] c by simp
  then show ?case using Cons.IH [of "p @ [x]"] c by simp
qed simp

lemma conversion_slice:
  "stored_to_agent tz (xs @ ys) preceding
     = stored_to_agent tz xs preceding @ stored_to_agent tz ys (preceding @ xs)"
  by (simp add: stored_to_agent_def convert_rows_append)

text \<open>
  Conversion is independent of the slice: converting a transcript in one piece, or in two
  with the second seeded by the rows before it, gives the same messages. So a history loaded
  from above the watermark renders byte for byte as it did before the trim.
\<close>

theorem conversion_slice_independent:
  "stored_to_agent tz (xs @ ys) preceding
     = stored_to_agent tz xs preceding @ stored_to_agent tz ys (preceding @ xs)"
  by (rule conversion_slice)

text \<open>
  The seed needs only the rows back to the last visible one: a longer prefix before a slice
  that has a visible row (after its first) changes nothing. The loader fetches the last
  \<open>_PRECEDING_LOOKBACK_ROWS\<close> rows on this ground.
\<close>

lemma last_visible_append:
  assumes "\<exists>i. Suc i < length ys
     \<and> is_visible_row (ys ! i) (is_approval_prompt_row (ys ! Suc i))"
  shows "last_visible (ys @ zs) = last_visible ys"
  using assms
proof (induction ys)
  case (Cons y ys)
  then obtain i where i: "Suc i < length (y # ys)"
    "is_visible_row ((y # ys) ! i) (is_approval_prompt_row ((y # ys) ! Suc i))" by blast
  show ?case
  proof (cases i)
    case 0
    then show ?thesis using i by (cases ys) auto
  next
    case (Suc j)
    then have "last_visible (ys @ zs) = last_visible ys" using Cons.IH i by auto
    moreover have "(case ys @ zs of [] \<Rightarrow> False | p # _ \<Rightarrow> is_approval_prompt_row p)
       = (case ys of [] \<Rightarrow> False | p # _ \<Rightarrow> is_approval_prompt_row p)"
      using i(1) Suc by (cases ys) auto
    ultimately show ?thesis by simp
  qed
qed simp

lemma state_after_lookback:
  assumes "\<exists>i. Suc i < length ys
     \<and> is_visible_row (ys ! Suc i) (is_approval_prompt_row (ys ! i))"
  shows "state_after (xs @ ys) = state_after ys"
proof -
  obtain i where i: "Suc i < length ys" "is_visible_row (ys ! Suc i) (is_approval_prompt_row (ys ! i))"
    using assms by blast
  let ?j = "length ys - Suc (Suc i)"
  have j: "Suc ?j < length (rev ys)" "rev ys ! ?j = ys ! Suc i" "rev ys ! Suc ?j = ys ! i"
    using i(1) by (auto simp: rev_nth intro: arg_cong [of _ _ "(!) ys"])
  have "last_visible (rev ys @ rev xs) = last_visible (rev ys)"
    by (rule last_visible_append) (use i(2) j in \<open>intro exI [of _ ?j], simp\<close>)
  moreover have "ys \<noteq> []" using i(1) by auto
  ultimately show ?thesis by (simp add: state_after_def)
qed

section \<open>The rendering is a list of row chunks\<close>

lemma convert_row_chunk:
  "fst (convert_row tz m st) = [] \<or> row_chunk (sm_seq m) (fst (convert_row tz m st))"
proof -
  have "row_chunk (sm_seq m) (expand_outbound_with_tools (sm_interactions m) t (Some (sm_seq m)))"
    if "sm_interactions m \<noteq> []" for t
  proof -
    have "\<forall>r \<in> set (map (\<lambda>tc. ToolResultMessage (si_id tc) (si_result tc) False) (sm_interactions m)).
        is_tool_result r" by auto
    then show ?thesis
      using that unfolding row_chunk_def expand_outbound_with_tools_def
      by (intro disjI2 exI conjI, simp_all add: comp_def)
  qed
  then show ?thesis
    by (cases st) (auto simp: convert_row_def Let_def row_chunk_def)
qed

lemma convert_rows_chunks:
  "\<exists>qs chunks. convert_rows tz rows st = concat chunks \<and> list_all2 row_chunk qs chunks
     \<and> subseq qs (map sm_seq rows)"
proof (induction rows arbitrary: st)
  case Nil
  show ?case by (intro exI [of _ "[]"]) simp
next
  case (Cons m rows)
  obtain out st' where c: "convert_row tz m st = (out, st')"
    by (cases "convert_row tz m st")
  obtain qs chunks where ih: "convert_rows tz rows st' = concat chunks" "list_all2 row_chunk qs chunks"
    "subseq qs (map sm_seq rows)" using Cons.IH by blast
  show ?case
  proof (cases "out = []")
    case True
    then show ?thesis using c ih by (intro exI [of _ qs] exI [of _ chunks]) auto
  next
    case False
    then have "row_chunk (sm_seq m) out" using convert_row_chunk [of tz m st] c by simp
    then show ?thesis using c ih
      by (intro exI [of _ "sm_seq m # qs"] exI [of _ "out # chunks"]) auto
  qed
qed

lemma stored_to_agent_chunks:
  obtains qs chunks where "stored_to_agent tz rows p = concat chunks" and "list_all2 row_chunk qs chunks"
    and "subseq qs (map sm_seq rows)"
  using convert_rows_chunks unfolding stored_to_agent_def by metis

lemma chunks_paired: "list_all2 row_chunk qs chunks \<Longrightarrow> paired (concat chunks)"
  by (induction rule: list_all2_induct) (auto intro: paired_appendI row_chunk_paired)

lemma stored_to_agent_paired: "paired (stored_to_agent tz rows p)"
  using stored_to_agent_chunks chunks_paired by metis

lemma sorted_wrt_subseq: "subseq xs ys \<Longrightarrow> sorted_wrt P ys \<Longrightarrow> sorted_wrt P xs"
proof (induction rule: list_emb.induct)
  case (list_emb_Cons2 x y xs ys)
  have "set xs \<subseteq> set ys" using list_emb_Cons2.hyps(2) by (auto dest: list_emb_set)
  then show ?case using list_emb_Cons2 by auto
qed auto

definition rising_seqs :: "stored_message list \<Rightarrow> bool" where
  "rising_seqs rows \<longleftrightarrow> sorted_wrt (<) (map sm_seq rows)"

text \<open>
  Trimming a prompt built from stored rows keeps rows whole: with the rows in seq order, all
  seqs dropped are below all seqs kept, whatever the rows hold (tool runs, approval prompts,
  blank placeholders), so the watermark never swallows part of a reply.
\<close>

theorem history_trim_keeps_rows:
  assumes "rising_seqs rows"
  shows "\<exists>kept. stored_to_agent tz rows p @ [UserMessage current None]
       = tr_dropped (trim_messages
           (SystemMessage sys # stored_to_agent tz rows p @ [UserMessage current None]) a b c d e) @ kept
     \<and> seqs_before (tr_dropped (trim_messages
           (SystemMessage sys # stored_to_agent tz rows p @ [UserMessage current None]) a b c d e)) kept"
proof -
  obtain qs chunks where h: "stored_to_agent tz rows p = concat chunks" "list_all2 row_chunk qs chunks"
    "subseq qs (map sm_seq rows)" by (rule stored_to_agent_chunks)
  have "sorted_wrt (<) qs" using h(3) assms by (auto simp: rising_seqs_def intro: sorted_wrt_subseq)
  then show ?thesis
    unfolding h(1) by (intro trim_never_splits_row [OF h(2)]) simp_all
qed

theorem history_trim_keeps_rows_witness:
  "\<exists>kept. stored_to_agent \<lparr>local_day = (\<lambda>t. t div 86400000000), local_stamp = (\<lambda>t. ''t'')\<rparr>
        [\<lparr>sm_direction = INBOUND, sm_body = ''hi'', sm_processed_context = [], sm_interactions = [],
          sm_llm_reply_text = [], sm_timestamp = Some 0, sm_seq = 1\<rparr>,
         \<lparr>sm_direction = OUTBOUND, sm_body = ''yo'', sm_processed_context = [], sm_interactions = [],
          sm_llm_reply_text = [], sm_timestamp = Some 5, sm_seq = 2\<rparr>] [] @ [UserMessage ''now'' None]
     = tr_dropped (trim_messages (SystemMessage ''s'' #
        stored_to_agent \<lparr>local_day = (\<lambda>t. t div 86400000000), local_stamp = (\<lambda>t. ''t'')\<rparr>
        [\<lparr>sm_direction = INBOUND, sm_body = ''hi'', sm_processed_context = [], sm_interactions = [],
          sm_llm_reply_text = [], sm_timestamp = Some 0, sm_seq = 1\<rparr>,
         \<lparr>sm_direction = OUTBOUND, sm_body = ''yo'', sm_processed_context = [], sm_interactions = [],
          sm_llm_reply_text = [], sm_timestamp = Some 5, sm_seq = 2\<rparr>] [] @ [UserMessage ''now'' None])
        1 None None None (Some 100)) @ kept"
  (is "\<exists>kept. stored_to_agent ?tz ?rows [] @ _ = _")
proof -
  have "rising_seqs ?rows" by (simp add: rising_seqs_def)
  from history_trim_keeps_rows [OF this, of ?tz "[]" "''now''" "''s''" 1 None None None "Some 100"]
  show ?thesis by blast
qed

end
