(* ===== verification/Session_Store.thy ===== *)
theory Session_Store
  imports History
begin

text \<open>
  The persistent conversation of one user: \<open>session_db.py\<close> (the session row, its messages and the
  operations of \<open>SessionStore\<close>) and the watermark half of \<open>context.py\<close> (loading the history window,
  overflow compaction, the compaction triggers).

  A \<open>store\<close> is what the database holds for one user: the session row (at most one per user, by the
  unique constraint) with its messages in the order of their \<open>seq\<close>, and the user's compaction
  events.  A transaction that may fail takes the outcome of its commit as a \<open>bool\<close>.  The lemmas
  show that the watermark never hides a message that is still to come, that compaction events
  cover disjoint ranges, and that the rows outside the window are handed to compaction.
\<close>

section \<open>State\<close>

record chat_session =
  cs_id :: string
  cs_channel :: string
  cs_prompt :: string
  cs_last_trim :: "int option"
  cs_stub :: "int option"
  cs_last_message_at :: int
  cs_rows :: "stored_message list"

datatype event_status = Pending | Completed

record compaction_event =
  ce_id :: int
  ce_status :: event_status
  ce_min :: "int option"
  ce_max :: "int option"
  ce_count :: nat
  ce_retry :: int
  ce_triggered :: int

record store =
  st_session :: "chat_session option"
  st_events :: "compaction_event list"
  st_next_event :: int

text \<open>The in-memory \<open>SessionState\<close> a turn works on.\<close>

record session_state =
  ss_id :: string
  ss_channel :: string
  ss_prompt :: string
  ss_last_trim :: "int option"
  ss_stub :: "int option"
  ss_last_message_at :: int
  ss_messages :: "stored_message list"

definition empty_store :: store where
  "empty_store = \<lparr>st_session = None, st_events = [], st_next_event = 1\<rparr>"

definition seqs :: "stored_message list \<Rightarrow> int list" where
  "seqs rows = map sm_seq rows"

definition or_zero :: "int option \<Rightarrow> int" where
  \<comment> \<open>\<open>x or 0\<close>\<close>
  "or_zero x = (case x of None \<Rightarrow> 0 | Some n \<Rightarrow> n)"

definition above :: "int option \<Rightarrow> stored_message list \<Rightarrow> stored_message list" where
  "above watermark rows = (case watermark of None \<Rightarrow> rows | Some w \<Rightarrow> filter (\<lambda>m. sm_seq m > w) rows)"

section \<open>Queries\<close>

definition find_session :: "store \<Rightarrow> string \<Rightarrow> chat_session option" where
  "find_session st sid =
     (case st_session st of Some cs \<Rightarrow> if cs_id cs = sid then Some cs else None | None \<Rightarrow> None)"

definition select_max_seq :: "chat_session \<Rightarrow> int option" where
  "select_max_seq cs = (if cs_rows cs = [] then None else Some (Max (set (seqs (cs_rows cs)))))"

definition select_messages_above_watermark :: "chat_session \<Rightarrow> stored_message list" where
  "select_messages_above_watermark cs = above (cs_last_trim cs) (cs_rows cs)"

text \<open>The newest \<open>n\<close> rows with \<open>seq <= max_seq\<close>, oldest first.\<close>

definition get_messages_up_to_seq :: "store \<Rightarrow> int \<Rightarrow> nat \<Rightarrow> stored_message list" where
  "get_messages_up_to_seq st max_seq n =
     (case st_session st of
        None \<Rightarrow> []
      | Some cs \<Rightarrow> rev (take n (rev (filter (\<lambda>m. sm_seq m \<le> max_seq) (cs_rows cs)))))"

definition session_to_state :: "chat_session \<Rightarrow> stored_message list \<Rightarrow> session_state" where
  "session_to_state cs rows =
     \<lparr>ss_id = cs_id cs, ss_channel = cs_channel cs, ss_prompt = cs_prompt cs,
      ss_last_trim = cs_last_trim cs, ss_stub = cs_stub cs,
      ss_last_message_at = cs_last_message_at cs, ss_messages = sort_key sm_seq rows\<rparr>"

definition load_session :: "store \<Rightarrow> string \<Rightarrow> session_state option" where
  "load_session st sid = map_option (\<lambda>cs. session_to_state cs (cs_rows cs)) (find_session st sid)"

section \<open>The operations of \<open>SessionStore\<close>\<close>

text \<open>
  \<open>get_or_create_session_async\<close>, with the identifier a new session would get.  The advisory lock
  serialises the callers, so the retry after an \<open>IntegrityError\<close> is the first branch.
\<close>

definition get_or_create_session :: "string \<Rightarrow> int \<Rightarrow> store \<Rightarrow> store \<times> session_state \<times> bool" where
  "get_or_create_session fresh now st =
     (case st_session st of
        Some cs \<Rightarrow>
          (let cs' = cs\<lparr>cs_last_message_at := now\<rparr>
           in (st\<lparr>st_session := Some cs'\<rparr>,
               session_to_state cs' (select_messages_above_watermark cs'), False))
      | None \<Rightarrow>
          (let cs = \<lparr>cs_id = fresh, cs_channel = [], cs_prompt = [], cs_last_trim = None,
                     cs_stub = None, cs_last_message_at = now, cs_rows = []\<rparr>
           in (st\<lparr>st_session := Some cs\<rparr>, session_to_state cs [], True)))"

definition set_channel :: "string \<Rightarrow> string \<Rightarrow> string" where
  "set_channel new old = (if new \<noteq> [] then new else old)"

definition insert_row :: "int \<Rightarrow> string \<Rightarrow> stored_message \<Rightarrow> chat_session \<Rightarrow> chat_session \<times> stored_message"
  where
  "insert_row now channel draft cs =
     (let row = draft\<lparr>sm_seq := or_zero (select_max_seq cs) + 1, sm_timestamp := Some now\<rparr>
      in (cs\<lparr>cs_rows := cs_rows cs @ [row], cs_last_message_at := now,
             cs_channel := set_channel channel (cs_channel cs)\<rparr>, row))"

text \<open>
  \<open>add_message_async\<close>.  A session of another identifier makes the insert of a second session row
  fail on the unique constraint of the user.
\<close>

definition add_message ::
  "session_state \<Rightarrow> int \<Rightarrow> string \<Rightarrow> stored_message \<Rightarrow> store
     \<Rightarrow> py_error + store \<times> session_state \<times> stored_message" where
  "add_message ss now channel draft st =
     (let put = (\<lambda>cs. let (cs', row) = insert_row now channel draft cs
                 in Inr (st\<lparr>st_session := Some cs'\<rparr>,
                         ss\<lparr>ss_messages := ss_messages ss @ [row], ss_last_message_at := now,
                            ss_channel := set_channel channel (ss_channel ss)\<rparr>, row))
      in case find_session st (ss_id ss) of
           Some cs \<Rightarrow> put cs
         | None \<Rightarrow>
             (if st_session st \<noteq> None then Inl RuntimeError
              else put \<lparr>cs_id = ss_id ss, cs_channel = set_channel channel (ss_channel ss),
                        cs_prompt = [], cs_last_trim = None, cs_stub = None,
                        cs_last_message_at = now, cs_rows = []\<rparr>))"

definition add_message_by_session_id ::
  "string \<Rightarrow> int \<Rightarrow> string \<Rightarrow> stored_message \<Rightarrow> store \<Rightarrow> py_error + store \<times> stored_message" where
  "add_message_by_session_id sid now channel draft st =
     (case find_session st sid of
        None \<Rightarrow> Inl ValueError
      | Some cs \<Rightarrow> (let (cs', row) = insert_row now channel draft cs
                    in Inr (st\<lparr>st_session := Some cs'\<rparr>, row)))"

text \<open>
  \<open>update_message_async\<close>: the updates are those of the updatable fields, none of which is \<open>seq\<close>,
  the direction or the time.
\<close>

record row_update =
  up_body :: "string option"
  up_processed_context :: "string option"
  up_interactions :: "stored_interaction list option"
  up_llm_reply_text :: "string option"

definition apply_update :: "row_update \<Rightarrow> stored_message \<Rightarrow> stored_message" where
  "apply_update u m =
     (let pick = (\<lambda>new old. case new of Some v \<Rightarrow> v | None \<Rightarrow> old)
      in m\<lparr>sm_body := pick (up_body u) (sm_body m),
           sm_processed_context := pick (up_processed_context u) (sm_processed_context m),
           sm_interactions := (case up_interactions u of Some v \<Rightarrow> v | None \<Rightarrow> sm_interactions m),
           sm_llm_reply_text := pick (up_llm_reply_text u) (sm_llm_reply_text m)\<rparr>)"

fun update_first :: "int \<Rightarrow> row_update \<Rightarrow> stored_message list \<Rightarrow> stored_message list" where
  "update_first q u [] = []"
| "update_first q u (m # ms) = (if sm_seq m = q then apply_update u m # ms else m # update_first q u ms)"

definition update_message ::
  "session_state \<Rightarrow> int \<Rightarrow> row_update \<Rightarrow> store \<Rightarrow> store \<times> session_state" where
  "update_message ss q u st =
     (case find_session st (ss_id ss) of
        None \<Rightarrow> (st, ss)
      | Some cs \<Rightarrow>
          (if q \<notin> set (seqs (cs_rows cs)) then (st, ss)
           else (st\<lparr>st_session := Some (cs\<lparr>cs_rows := update_first q u (cs_rows cs)\<rparr>)\<rparr>,
                 ss\<lparr>ss_messages := update_first q u (ss_messages ss)\<rparr>)))"

definition update_initial_system_prompt ::
  "session_state \<Rightarrow> string \<Rightarrow> store \<Rightarrow> store \<times> session_state" where
  "update_initial_system_prompt ss prompt st =
     (if ss_prompt ss \<noteq> [] then (st, ss)
      else ((case find_session st (ss_id ss) of
               Some cs \<Rightarrow> if cs_prompt cs = [] then st\<lparr>st_session := Some (cs\<lparr>cs_prompt := prompt\<rparr>)\<rparr> else st
             | None \<Rightarrow> st),
            ss\<lparr>ss_prompt := prompt\<rparr>))"

subsection \<open>Deletion\<close>

definition reset_trim_watermark_if_orphaned :: "chat_session \<Rightarrow> chat_session" where
  "reset_trim_watermark_if_orphaned cs =
     (if cs_last_trim cs = None \<and> cs_stub cs = None then cs
      else let top = select_max_seq cs;
               gone = (\<lambda>bound over. case bound of None \<Rightarrow> False
                         | Some b \<Rightarrow> (case top of None \<Rightarrow> True | Some t \<Rightarrow> over t b))
           in cs\<lparr>cs_last_trim := (if gone (cs_last_trim cs) (\<lambda>t w. t \<le> w) then None else cs_last_trim cs),
                 cs_stub := (if gone (cs_stub cs) (\<lambda>t s. t < s) then None else cs_stub cs)\<rparr>)"

definition delete_rows :: "(stored_message \<Rightarrow> bool) \<Rightarrow> string \<Rightarrow> store \<Rightarrow> store \<times> nat" where
  "delete_rows doomed sid st =
     (case find_session st sid of
        None \<Rightarrow> (st, 0)
      | Some cs \<Rightarrow>
          (let count = length (filter doomed (cs_rows cs));
               cs' = cs\<lparr>cs_rows := filter (\<lambda>m. \<not> doomed m) (cs_rows cs)\<rparr>
           in (st\<lparr>st_session :=
                    Some (if count > 0 then reset_trim_watermark_if_orphaned cs' else cs')\<rparr>, count)))"

definition delete_messages_by_seqs :: "string \<Rightarrow> int list \<Rightarrow> store \<Rightarrow> store \<times> nat" where
  "delete_messages_by_seqs sid qs = delete_rows (\<lambda>m. sm_seq m \<in> set qs) sid"

definition delete_message :: "string \<Rightarrow> int \<Rightarrow> store \<Rightarrow> store \<times> bool" where
  "delete_message sid q st = (let (st', n) = delete_rows (\<lambda>m. sm_seq m = q) sid st in (st', n > 0))"

definition delete_messages :: "string \<Rightarrow> store \<Rightarrow> store \<times> nat" where
  "delete_messages sid st =
     (case find_session st sid of
        None \<Rightarrow> (st, 0)
      | Some cs \<Rightarrow>
          (st\<lparr>st_session := Some (cs\<lparr>cs_rows := [], cs_prompt := [], cs_last_trim := None, cs_stub := None\<rparr>)\<rparr>,
           length (cs_rows cs)))"

section \<open>Compaction triggers\<close>

text \<open>
  The work handed to the background task (or awaited, for an administrator): the event, the
  messages whose facts are to be extracted and the highest \<open>seq\<close> among them.
\<close>

record compaction_job =
  job_event :: int
  job_messages :: "agent_message list"
  job_max :: int

definition live_watermark :: "store \<Rightarrow> int" where
  "live_watermark st = (case st_session st of None \<Rightarrow> 0 | Some cs \<Rightarrow> or_zero (cs_last_trim cs))"

definition raise_watermark :: "int \<Rightarrow> store \<Rightarrow> store" where
  "raise_watermark max_seq st =
     (case st_session st of
        None \<Rightarrow> st
      | Some cs \<Rightarrow>
          if max_seq > or_zero (cs_last_trim cs)
          then st\<lparr>st_session := Some (cs\<lparr>cs_last_trim := Some max_seq\<rparr>)\<rparr> else st)"

definition record_event :: "int \<Rightarrow> int \<Rightarrow> int \<Rightarrow> nat \<Rightarrow> store \<Rightarrow> store" where
  "record_event now min_seq max_seq n st =
     st\<lparr>st_events := st_events st @
          [\<lparr>ce_id = st_next_event st, ce_status = Pending, ce_min = Some min_seq, ce_max = Some max_seq,
            ce_count = n, ce_retry = 0, ce_triggered = now\<rparr>],
        st_next_event := st_next_event st + 1\<rparr>"

text \<open>The re-check of the live watermark: what is left of the dropped messages.\<close>

definition uncovered :: "int \<Rightarrow> agent_message list \<Rightarrow> agent_message list" where
  "uncovered watermark dropped =
     (if watermark = 0 then dropped
      else filter (\<lambda>m. case msg_seq m of None \<Rightarrow> True | Some q \<Rightarrow> q > watermark) dropped)"

definition trigger_compaction_for_dropped ::
  "bool \<Rightarrow> bool \<Rightarrow> int \<Rightarrow> agent_message list \<Rightarrow> store \<Rightarrow> store \<times> compaction_job option" where
  "trigger_compaction_for_dropped enabled commit_ok now dropped st =
     (if dropped = [] \<or> \<not> enabled then (st, None)
      else if seqs_from_dropped dropped = [] then (st, None)
      else let kept = uncovered (live_watermark st) dropped;
               qs = seqs_from_dropped kept
           in if qs = [] \<or> \<not> commit_ok then (st, None)
              else let low = Min (set qs); high = Max (set qs)
                   in (raise_watermark high (record_event now low high (length kept) st),
                       Some \<lparr>job_event = st_next_event st, job_messages = kept, job_max = high\<rparr>))"

definition advance_trim_watermark_only :: "int \<Rightarrow> store \<Rightarrow> store" where
  "advance_trim_watermark_only = raise_watermark"

definition set_history_stub_seq :: "int \<Rightarrow> store \<Rightarrow> store" where
  "set_history_stub_seq q st =
     (case st_session st of
        None \<Rightarrow> st
      | Some cs \<Rightarrow> if q > or_zero (cs_stub cs) then st\<lparr>st_session := Some (cs\<lparr>cs_stub := Some q\<rparr>)\<rparr> else st)"

record admin_result =
  ar_count :: nat
  ar_watermark :: "int option"
  ar_event :: "int option"
  ar_previous :: "int option"

definition most_recent_event_id :: "store \<Rightarrow> int option" where
  "most_recent_event_id st = (if st_events st = [] then None else Some (Max (ce_id ` set (st_events st))))"

text \<open>
  \<open>admin_compact_visible_messages\<close> up to its call of \<open>compact_session\<close>: the snapshot it plans on and
  the transaction that records it, which works on the store of that later moment.
\<close>

definition admin_selection :: "session_state \<Rightarrow> nat \<Rightarrow> stored_message list" where
  "admin_selection ss keep_recent =
     (let visible = filter (\<lambda>m. sm_seq m > or_zero (ss_last_trim ss)) (ss_messages ss)
      in if keep_recent > 0
         then (if keep_recent \<le> length visible then take (length visible - keep_recent) visible else [])
         else visible)"

definition admin_commit ::
  "timezone \<Rightarrow> int \<Rightarrow> session_state \<Rightarrow> stored_message list \<Rightarrow> store
     \<Rightarrow> store \<times> compaction_job option \<times> admin_result" where
  "admin_commit utc now ss selected st =
     (let noop = \<lambda>st w. (st, None, \<lparr>ar_count = 0, ar_watermark = w, ar_event = None,
                                     ar_previous = most_recent_event_id st\<rparr>)
      in if selected = [] then noop st (ss_last_trim ss)
         else let messages = stored_to_agent utc selected []; qs = seqs_from_dropped messages
              in if messages = [] then
                   (let top = sm_seq (last selected)
                    in noop (advance_trim_watermark_only top st) (Some top))
                 else if qs = [] then noop st (ss_last_trim ss)
                 else let low = Min (set qs); high = Max (set qs)
                      in (raise_watermark high (record_event now low high (length messages) st),
                          Some \<lparr>job_event = st_next_event st, job_messages = messages, job_max = high\<rparr>,
                          \<lparr>ar_count = length messages, ar_watermark = Some high,
                           ar_event = Some (st_next_event st), ar_previous = None\<rparr>))"

definition admin_compact_visible_messages ::
  "bool \<Rightarrow> timezone \<Rightarrow> string \<Rightarrow> int \<Rightarrow> int \<Rightarrow> store
     \<Rightarrow> py_error + store \<times> compaction_job option \<times> admin_result" where
  "admin_compact_visible_messages enabled utc fresh now keep_recent st =
     (if keep_recent < 0 then Inl ValueError
      else if \<not> enabled then
        Inr (st, None, \<lparr>ar_count = 0, ar_watermark = None, ar_event = None, ar_previous = None\<rparr>)
      else let (st', ss, _) = get_or_create_session fresh now st
           in Inr (admin_commit utc now ss (admin_selection ss (nat keep_recent)) st'))"

section \<open>Loading the history window\<close>

definition window_overflow_batch_rows :: nat where
  "window_overflow_batch_rows = 32"

definition window_overflow_max_rows_per_turn :: nat where
  "window_overflow_max_rows_per_turn = 200"

definition preceding_lookback_rows :: nat where
  "preceding_lookback_rows = 20"

definition compact_count :: "nat \<Rightarrow> nat \<Rightarrow> nat" where
  "compact_count limit n =
     min (n - 1)
       (min ((n - limit) + window_overflow_batch_rows) window_overflow_max_rows_per_turn)"

definition compact_overflow ::
  "bool \<Rightarrow> bool \<Rightarrow> timezone \<Rightarrow> int \<Rightarrow> nat \<Rightarrow> stored_message list \<Rightarrow> store
     \<Rightarrow> store \<times> compaction_job option" where
  "compact_overflow enabled commit_ok tz now limit visible st =
     (if length visible > limit \<and> enabled then
        let overflow = take (compact_count limit (length visible)) visible;
            messages = stored_to_agent tz overflow []
        in if messages \<noteq> [] then trigger_compaction_for_dropped enabled commit_ok now messages st
           else (advance_trim_watermark_only (sm_seq (last overflow)) st, None)
      else (st, None))"

definition window :: "nat \<Rightarrow> stored_message list \<Rightarrow> stored_message list" where
  "window limit visible =
     (if length visible > 1 then butlast (drop (length visible - limit) visible) else [])"

definition last_n :: "nat \<Rightarrow> 'a list \<Rightarrow> 'a list" where
  "last_n n xs = drop (length xs - n) xs"

definition preceding_rows :: "nat \<Rightarrow> session_state \<Rightarrow> stored_message list \<Rightarrow> store \<Rightarrow> stored_message list"
  where
  "preceding_rows limit ss visible st =
     (let near = last_n preceding_lookback_rows (take (length visible - limit) visible)
      in if window limit visible \<noteq> [] \<and> length near < preceding_lookback_rows
            \<and> or_zero (ss_last_trim ss) \<noteq> 0
         then get_messages_up_to_seq st (or_zero (ss_last_trim ss)) (preceding_lookback_rows - length near)
              @ near
         else near)"

text \<open>The renderer gets the window, the current row and the preceding rows.\<close>

type_synonym history_renderer =
  "stored_message list \<Rightarrow> stored_message option \<Rightarrow> timezone \<Rightarrow> stored_message list \<Rightarrow> agent_message list"

definition plain_renderer :: history_renderer where
  "plain_renderer rows current tz preceding = stored_to_agent tz rows preceding"

definition load_conversation_history ::
  "bool \<Rightarrow> bool \<Rightarrow> history_renderer \<Rightarrow> timezone \<Rightarrow> int \<Rightarrow> nat \<Rightarrow> session_state \<Rightarrow> store
     \<Rightarrow> store \<times> compaction_job option \<times> agent_message list" where
  "load_conversation_history enabled commit_ok render tz now limit ss st =
     (let visible = above (ss_last_trim ss) (ss_messages ss);
          (st', job) = compact_overflow enabled commit_ok tz now limit visible st;
          preceding = preceding_rows limit ss visible st'
      in (st', job,
          render (window limit visible) (if visible = [] then None else Some (last visible)) tz preceding))"

section \<open>Well-formed stores\<close>

definition rows_of :: "store \<Rightarrow> stored_message list" where
  "rows_of st = (case st_session st of None \<Rightarrow> [] | Some cs \<Rightarrow> cs_rows cs)"

definition wf_session :: "chat_session \<Rightarrow> bool" where
  "wf_session cs \<longleftrightarrow> rising_seqs (cs_rows cs) \<and> (\<forall>q \<in> set (seqs (cs_rows cs)). 1 \<le> q)
     \<and> (\<forall>w. cs_last_trim cs = Some w \<longrightarrow> 1 \<le> w \<and> (\<exists>q \<in> set (seqs (cs_rows cs)). w \<le> q))
     \<and> (\<forall>s. cs_stub cs = Some s \<longrightarrow> 1 \<le> s \<and> (\<exists>q \<in> set (seqs (cs_rows cs)). s \<le> q))"

definition wf_store :: "store \<Rightarrow> bool" where
  "wf_store st \<longleftrightarrow> (\<forall>cs. st_session st = Some cs \<longrightarrow> wf_session cs)"

lemma seqs_simps [simp]: "seqs [] = []" "seqs (m # ms) = sm_seq m # seqs ms" "seqs (xs @ ys) = seqs xs @ seqs ys"
  by (simp_all add: seqs_def)

lemma set_seqs [simp]: "set (seqs rows) = sm_seq ` set rows"
  by (simp add: seqs_def)

lemma or_zero_simps [simp]: "or_zero None = 0" "or_zero (Some n) = n"
  by (simp_all add: or_zero_def)

lemma rising_append_row:
  assumes "rising_seqs rows" and "\<forall>r \<in> set rows. sm_seq r < sm_seq m"
  shows "rising_seqs (rows @ [m])"
  using assms by (auto simp: rising_seqs_def sorted_wrt_append)

lemma rising_filter: "rising_seqs rows \<Longrightarrow> rising_seqs (filter P rows)"
  unfolding rising_seqs_def sorted_wrt_map by (rule sorted_wrt_filter)

lemma select_max_seq_ge: "m \<in> set (cs_rows cs) \<Longrightarrow> sm_seq m \<le> or_zero (select_max_seq cs)"
  by (auto simp: select_max_seq_def)

lemma select_max_seq_in:
  "cs_rows cs \<noteq> [] \<Longrightarrow> \<exists>m \<in> set (cs_rows cs). select_max_seq cs = Some (sm_seq m)"
proof -
  assume ne: "cs_rows cs \<noteq> []"
  have "Max (sm_seq ` set (cs_rows cs)) \<in> sm_seq ` set (cs_rows cs)" using ne by (intro Max_in) auto
  then obtain m where "m \<in> set (cs_rows cs)" "Max (sm_seq ` set (cs_rows cs)) = sm_seq m" by blast
  then show ?thesis using ne by (intro bexI [of _ m]) (simp_all add: select_max_seq_def)
qed

lemma insert_row_wf:
  assumes "wf_session cs" and "insert_row now ch d cs = (cs', row)"
  shows "wf_session cs'" and "cs_rows cs' = cs_rows cs @ [row]" and "\<forall>m \<in> set (cs_rows cs). sm_seq m < sm_seq row"
    and "cs_last_trim cs' = cs_last_trim cs" and "cs_stub cs' = cs_stub cs" and "1 \<le> sm_seq row"
proof -
  have row: "row = d\<lparr>sm_seq := or_zero (select_max_seq cs) + 1, sm_timestamp := Some now\<rparr>"
    and cs': "cs' = cs\<lparr>cs_rows := cs_rows cs @ [row], cs_last_message_at := now,
      cs_channel := set_channel ch (cs_channel cs)\<rparr>"
    using assms(2) by (auto simp: insert_row_def Let_def)
  show less: "\<forall>m \<in> set (cs_rows cs). sm_seq m < sm_seq row"
    using select_max_seq_ge [of _ cs] by (fastforce simp: row)
  have "0 \<le> or_zero (select_max_seq cs)"
  proof (cases "cs_rows cs = []")
    case True
    then show ?thesis by (simp add: select_max_seq_def)
  next
    case False
    then obtain m where "m \<in> set (cs_rows cs)" "select_max_seq cs = Some (sm_seq m)"
      using select_max_seq_in by blast
    then show ?thesis using assms(1) by (fastforce simp: wf_session_def)
  qed
  then show one: "1 \<le> sm_seq row" by (simp add: row)
  show rows: "cs_rows cs' = cs_rows cs @ [row]" and "cs_last_trim cs' = cs_last_trim cs"
    and "cs_stub cs' = cs_stub cs" by (simp_all add: cs')
  then show "wf_session cs'"
    using assms(1) one rising_append_row [OF _ less] unfolding wf_session_def by auto
qed

lemma reset_wf:
  assumes "rising_seqs (cs_rows cs)" and "\<forall>m \<in> set (cs_rows cs). 1 \<le> sm_seq m"
    and "\<forall>w. cs_last_trim cs = Some w \<longrightarrow> 1 \<le> w" and "\<forall>q. cs_stub cs = Some q \<longrightarrow> 1 \<le> q"
  shows "wf_session (reset_trim_watermark_if_orphaned cs)"
proof (cases "cs_rows cs = []")
  case True
  then show ?thesis
    using assms by (auto simp: wf_session_def reset_trim_watermark_if_orphaned_def select_max_seq_def
        rising_seqs_def split: option.splits)
next
  case False
  then obtain m where "m \<in> set (cs_rows cs)" "select_max_seq cs = Some (sm_seq m)"
    using select_max_seq_in by blast
  then show ?thesis
    using assms by (auto simp: wf_session_def reset_trim_watermark_if_orphaned_def Let_def
        intro: bexI [of _ m] split: option.splits)
qed

lemma wf_store_update:
  assumes "wf_store st" and "\<And>cs. st_session st = Some cs \<Longrightarrow> wf_session cs \<Longrightarrow> wf_session (f cs)"
  shows "wf_store (st\<lparr>st_session := map_option f (st_session st)\<rparr>)"
  using assms by (auto simp: wf_store_def)

section \<open>Steps\<close>

text \<open>
  What a turn does to the store, and what a deletion does.  A compaction trigger, the loader and
  the stub point get sequence numbers of rows the store holds: they are computed from a session
  loaded before, and no row goes away but by a deletion.
\<close>

inductive turn_step :: "store \<Rightarrow> store \<Rightarrow> bool" where
  opened: "turn_step st (fst (get_or_create_session fresh now st))"
| added: "add_message ss now ch d st = Inr (st', ss', row) \<Longrightarrow> turn_step st st'"
| added_by_id: "add_message_by_session_id sid now ch d st = Inr (st', row) \<Longrightarrow> turn_step st st'"
| updated: "turn_step st (fst (update_message ss q u st))"
| prompted: "turn_step st (fst (update_initial_system_prompt ss p st))"
| trimmed: "set (seqs_from_dropped dropped) \<subseteq> sm_seq ` set (rows_of st) \<Longrightarrow>
    turn_step st (fst (trigger_compaction_for_dropped enabled ok now dropped st))"
| stubbed: "q \<in> sm_seq ` set (rows_of st) \<Longrightarrow> turn_step st (set_history_stub_seq q st)"
| administered: "admin_compact_visible_messages enabled utc fresh now k st = Inr (st', job, r) \<Longrightarrow>
    turn_step st st'"
| loaded: "sm_seq ` set (ss_messages ss) \<subseteq> sm_seq ` set (rows_of st) \<Longrightarrow> 0 < limit \<Longrightarrow>
    turn_step st (fst (load_conversation_history enabled ok render tz now limit ss st))"

inductive delete_step :: "store \<Rightarrow> store \<Rightarrow> bool" where
  one: "delete_step st (fst (delete_message sid q st))"
| some: "delete_step st (fst (delete_messages_by_seqs sid qs st))"
| all: "delete_step st (fst (delete_messages sid st))"

inductive reachable :: "store \<Rightarrow> bool" where
  start: "reachable empty_store"
| turn: "reachable st \<Longrightarrow> turn_step st st' \<Longrightarrow> reachable st'"
| deletion: "reachable st \<Longrightarrow> delete_step st st' \<Longrightarrow> reachable st'"

subsection \<open>The effect of each step on rows, watermark and events\<close>

lemma rows_raise [simp]: "rows_of (raise_watermark w st) = rows_of st"
  by (simp add: raise_watermark_def rows_of_def split: option.splits)

lemma rows_record [simp]: "rows_of (record_event now a b n st) = rows_of st"
  by (simp add: record_event_def rows_of_def)

lemma rows_stub [simp]: "rows_of (set_history_stub_seq w st) = rows_of st"
  by (simp add: set_history_stub_seq_def rows_of_def split: option.splits)

lemma session_record [simp]: "st_session (record_event now a b n st) = st_session st"
  by (simp add: record_event_def)

lemma events_record [simp]:
  "st_events (record_event now a b n st) = st_events st @
     [\<lparr>ce_id = st_next_event st, ce_status = Pending, ce_min = Some a, ce_max = Some b,
       ce_count = n, ce_retry = 0, ce_triggered = now\<rparr>]"
  by (simp add: record_event_def)

lemma watermark_raise:
  "st_session st \<noteq> None \<Longrightarrow> live_watermark (raise_watermark w st) = max w (live_watermark st)"
  by (auto simp: raise_watermark_def live_watermark_def)

lemma watermark_raise_ge: "live_watermark st \<le> live_watermark (raise_watermark w st)"
  by (auto simp: raise_watermark_def live_watermark_def split: option.splits)

lemma watermark_record [simp]: "live_watermark (record_event now a b n st) = live_watermark st"
  by (simp add: live_watermark_def)

lemma watermark_stub [simp]: "live_watermark (set_history_stub_seq q st) = live_watermark st"
  by (simp add: live_watermark_def set_history_stub_seq_def split: option.splits)

lemma events_raise [simp]: "st_events (raise_watermark w st) = st_events st"
  by (simp add: raise_watermark_def split: option.splits)

lemma events_stub [simp]: "st_events (set_history_stub_seq w st) = st_events st"
  by (simp add: set_history_stub_seq_def split: option.splits)

lemma wf_raise:
  assumes "wf_store st" and "w \<in> sm_seq ` set (rows_of st)"
  shows "wf_store (raise_watermark w st)"
  using assms by (fastforce simp: wf_store_def wf_session_def raise_watermark_def rows_of_def split: option.splits)

lemma wf_stub:
  assumes "wf_store st" and "w \<in> sm_seq ` set (rows_of st)"
  shows "wf_store (set_history_stub_seq w st)"
  using assms
  by (fastforce simp: wf_store_def wf_session_def set_history_stub_seq_def rows_of_def split: option.splits)

lemma wf_record [simp]: "wf_store (record_event now a b n st) = wf_store st"
  by (simp add: wf_store_def)

text \<open>The outcomes of a trigger: nothing, or an event over the rows above the watermark.\<close>

lemma uncovered_seqs:
  "set (seqs_from_dropped (uncovered w ms)) = {q \<in> set (seqs_from_dropped ms). w = 0 \<or> q > w}"
  by (auto simp: uncovered_def set_seqs_from_dropped split: option.splits)

lemma trigger_cases:
  assumes "trigger_compaction_for_dropped enabled ok now dropped st = (st', job)"
  obtains (idle) "st' = st" and "job = None"
  | (fired) low high kept where "st' = raise_watermark high (record_event now low high (length kept) st)"
      and "job = Some \<lparr>job_event = st_next_event st, job_messages = kept, job_max = high\<rparr>"
      and "kept = uncovered (live_watermark st) dropped"
      and "low = Min (set (seqs_from_dropped kept))" and "high = Max (set (seqs_from_dropped kept))"
      and "seqs_from_dropped kept \<noteq> []" and "enabled" and "ok"
  using assms by (auto simp: trigger_compaction_for_dropped_def Let_def split: if_splits)

lemma Min_Max_seqs:
  assumes "seqs_from_dropped kept \<noteq> []" and "set (seqs_from_dropped kept) \<subseteq> sm_seq ` set rows"
  shows "Max (set (seqs_from_dropped kept)) \<in> sm_seq ` set rows"
    and "Min (set (seqs_from_dropped kept)) \<in> sm_seq ` set rows"
    and "Min (set (seqs_from_dropped kept)) \<le> Max (set (seqs_from_dropped kept))"
proof -
  have fin: "finite (set (seqs_from_dropped kept))" "set (seqs_from_dropped kept) \<noteq> {}"
    using assms(1) by auto
  show "Max (set (seqs_from_dropped kept)) \<in> sm_seq ` set rows"
    and "Min (set (seqs_from_dropped kept)) \<in> sm_seq ` set rows"
    using Max_in [OF fin] Min_in [OF fin] assms(2) by auto
  show "Min (set (seqs_from_dropped kept)) \<le> Max (set (seqs_from_dropped kept))"
    using Min_in [OF fin] by (intro Max_ge) (simp_all add: fin)
qed

lemma stored_to_agent_seqs:
  "set (seqs_from_dropped (stored_to_agent tz rows p)) \<subseteq> sm_seq ` set rows"
proof -
  obtain qs chunks where h: "stored_to_agent tz rows p = concat chunks" "list_all2 row_chunk qs chunks"
    "subseq qs (map sm_seq rows)" by (rule stored_to_agent_chunks)
  have "set (seqs_from_dropped (concat chunks)) = set qs"
    using h(2) by (induction rule: list_all2_induct) (auto simp: row_chunk_seqs)
  moreover have "set qs \<subseteq> sm_seq ` set rows"
    using h(3) by (auto dest: list_emb_set)
  ultimately show ?thesis using h(1) by simp
qed

lemma stored_to_agent_has_seq:
  "stored_to_agent tz rows p \<noteq> [] \<Longrightarrow> seqs_from_dropped (stored_to_agent tz rows p) \<noteq> []"
proof -
  assume ne: "stored_to_agent tz rows p \<noteq> []"
  obtain qs chunks where h: "stored_to_agent tz rows p = concat chunks" "list_all2 row_chunk qs chunks"
    by (rule stored_to_agent_chunks)
  show ?thesis
  proof (cases chunks)
    case Nil
    then show ?thesis using ne h by simp
  next
    case (Cons c cs)
    then obtain q where "row_chunk q c" using h(2) by (auto simp: list_all2_Cons2)
    then have "q \<in> set (seqs_from_dropped (stored_to_agent tz rows p))"
      using row_chunk_seqs [of q c] by (simp add: h(1) Cons)
    then show ?thesis by auto
  qed
qed

subsection \<open>Every turn step keeps the store well-formed and only moves the watermark up\<close>

text \<open>
  A pending event a step adds covers a range above the watermark before the step and not above
  the watermark after it.
\<close>

definition fresh_event :: "store \<Rightarrow> store \<Rightarrow> compaction_event \<Rightarrow> bool" where
  "fresh_event st st' e \<longleftrightarrow> (\<exists>low high. ce_min e = Some low \<and> ce_max e = Some high
     \<and> live_watermark st < low \<and> low \<le> high \<and> high \<le> live_watermark st')"

definition turn_effect :: "store \<Rightarrow> store \<Rightarrow> bool" where
  "turn_effect st st' \<longleftrightarrow> wf_store st' \<and> live_watermark st \<le> live_watermark st'
     \<and> prefix (seqs (rows_of st)) (seqs (rows_of st'))
     \<and> (st_events st' = st_events st \<or> (\<exists>e. st_events st' = st_events st @ [e] \<and> fresh_event st st' e))"

lemma effect_refl: "wf_store st \<Longrightarrow> turn_effect st st"
  by (simp add: turn_effect_def)

lemma effect_quiet:
  assumes "wf_store st'" and "live_watermark st' = live_watermark st"
    and "prefix (seqs (rows_of st)) (seqs (rows_of st'))" and "st_events st' = st_events st"
  shows "turn_effect st st'"
  using assms by (simp add: turn_effect_def)

lemma effect_raise:
  assumes "wf_store st" and "w \<in> sm_seq ` set (rows_of st)"
  shows "turn_effect st (raise_watermark w st)"
  using assms wf_raise watermark_raise_ge by (simp add: turn_effect_def)

lemma effect_event:
  assumes "wf_store st" and "high \<in> sm_seq ` set (rows_of st)" and "live_watermark st < low" and "low \<le> high"
  shows "turn_effect st (raise_watermark high (record_event now low high n st))"
proof -
  have ne: "st_session st \<noteq> None" using assms(2) by (cases "st_session st") (simp_all add: rows_of_def)
  then have w: "live_watermark (raise_watermark high (record_event now low high n st)) = max high (live_watermark st)"
    by (simp add: watermark_raise)
  moreover have "wf_store (raise_watermark high (record_event now low high n st))"
    using assms by (intro wf_raise) simp_all
  ultimately show ?thesis
    using assms by (auto simp: turn_effect_def fresh_event_def)
qed

lemma trigger_effect:
  assumes "wf_store st" and "set (seqs_from_dropped dropped) \<subseteq> sm_seq ` set (rows_of st)"
  shows "turn_effect st (fst (trigger_compaction_for_dropped enabled ok now dropped st))"
proof -
  obtain st' job where t: "trigger_compaction_for_dropped enabled ok now dropped st = (st', job)"
    by (cases "trigger_compaction_for_dropped enabled ok now dropped st")
  then show ?thesis
  proof (cases rule: trigger_cases)
    case idle
    then show ?thesis using t assms(1) by (simp add: effect_refl)
  next
    case (fired low high kept)
    have sub: "set (seqs_from_dropped kept) \<subseteq> sm_seq ` set (rows_of st)"
      using assms(2) by (auto simp: fired(3) uncovered_seqs)
    note mm = Min_Max_seqs [OF fired(6) sub]
    have "low \<in> set (seqs_from_dropped kept)" using fired(4,6) by (metis Min_in finite_set set_empty)
    moreover have "1 \<le> q" if "q \<in> sm_seq ` set (rows_of st)" for q
      using assms(1) that by (cases "st_session st") (auto simp: wf_store_def wf_session_def rows_of_def)
    ultimately have "live_watermark st < low" using sub by (fastforce simp: fired(3) uncovered_seqs)
    then show ?thesis
      using t fired effect_event [OF assms(1)] mm by simp
  qed
qed

lemma insert_effect:
  assumes "wf_store st" and "st_session st = Some cs" and "insert_row now ch d cs = (cs', row)"
  shows "turn_effect st (st\<lparr>st_session := Some cs'\<rparr>)"
proof -
  have cs: "wf_session cs" using assms(1,2) by (simp add: wf_store_def)
  note i = insert_row_wf [OF this assms(3)]
  show ?thesis
    by (rule effect_quiet) (use assms(2) i in \<open>auto simp: wf_store_def live_watermark_def rows_of_def\<close>)
qed

lemma insert_first_effect:
  assumes "st_session st = None" and "cs_rows cs = []" and "cs_last_trim cs = None" and "cs_stub cs = None"
    and "insert_row now ch d cs = (cs', row)"
  shows "turn_effect st (st\<lparr>st_session := Some cs'\<rparr>)"
proof -
  have cs: "wf_session cs" using assms by (simp add: wf_session_def rising_seqs_def)
  note i = insert_row_wf [OF this assms(5)]
  show ?thesis
    by (rule effect_quiet) (use assms i in \<open>auto simp: wf_store_def live_watermark_def rows_of_def\<close>)
qed

lemma find_session_Some: "find_session st sid = Some cs \<longleftrightarrow> st_session st = Some cs \<and> cs_id cs = sid"
  by (auto simp: find_session_def split: option.splits)

lemma find_session_None: "find_session st sid = None \<Longrightarrow> st_session st = None \<or> (\<exists>cs. st_session st = Some cs \<and> cs_id cs \<noteq> sid)"
  by (auto simp: find_session_def split: option.splits if_splits)

lemma add_message_cases:
  assumes "add_message ss now ch d st = Inr (st', ss', row)"
  obtains cs cs' where "st' = st\<lparr>st_session := Some cs'\<rparr>" and "insert_row now ch d cs = (cs', row)"
    and "st_session st = Some cs \<or>
      st_session st = None \<and> cs_rows cs = [] \<and> cs_last_trim cs = None \<and> cs_stub cs = None"
  using assms
  by (auto simp: add_message_def Let_def find_session_Some split: option.splits if_splits prod.splits)

lemma add_effect:
  assumes "wf_store st" and "add_message ss now ch d st = Inr (st', ss', row)"
  shows "turn_effect st st'"
  using add_message_cases [OF assms(2)] insert_effect [OF assms(1)] insert_first_effect
  by metis

lemma seqs_update_first [simp]: "map sm_seq (update_first q u rows) = map sm_seq rows"
  by (induction rows) (simp_all add: apply_update_def)

lemma set_seqs_update_first [simp]: "sm_seq ` set (update_first q u rows) = sm_seq ` set rows"
  by (metis list.set_map seqs_update_first)

lemma rising_update [simp]: "rising_seqs (update_first q u rows) = rising_seqs rows"
  unfolding rising_seqs_def by simp

lemma wf_session_seqs:
  assumes "map sm_seq (cs_rows cs') = map sm_seq (cs_rows cs)"
    and "cs_last_trim cs' = cs_last_trim cs" and "cs_stub cs' = cs_stub cs"
  shows "wf_session cs' = wf_session cs"
  using assms by (simp add: wf_session_def rising_seqs_def seqs_def del: set_map set_seqs)

lemma effect_same_seqs:
  assumes "wf_store st" and "st_session st = Some cs" and "map sm_seq (cs_rows cs') = map sm_seq (cs_rows cs)"
    and "cs_last_trim cs' = cs_last_trim cs" and "cs_stub cs' = cs_stub cs"
  shows "turn_effect st (st\<lparr>st_session := Some cs'\<rparr>)"
  by (rule effect_quiet)
    (use assms wf_session_seqs [OF assms(3-5)] in
      \<open>auto simp: wf_store_def live_watermark_def rows_of_def seqs_def\<close>)

lemma open_effect: "wf_store st \<Longrightarrow> turn_effect st (fst (get_or_create_session fresh now st))"
proof (cases "st_session st")
  case None
  then show ?thesis
    by (intro effect_quiet)
      (auto simp: get_or_create_session_def Let_def wf_store_def wf_session_def rising_seqs_def
        live_watermark_def rows_of_def)
next
  case (Some cs)
  assume "wf_store st"
  then show ?thesis using Some
    by (simp add: get_or_create_session_def Let_def effect_same_seqs [OF _ Some])
qed

lemma above_sub: "set (above w rows) \<subseteq> set rows"
  by (auto simp: above_def split: option.splits)

lemma rising_above: "rising_seqs rows \<Longrightarrow> rising_seqs (above w rows)"
  by (auto simp: above_def rising_filter split: option.splits)

lemma sort_rising: "rising_seqs rows \<Longrightarrow> sort_key sm_seq rows = rows"
  by (intro sort_key_id_if_sorted) (simp add: rising_seqs_def strict_sorted_iff)

lemma admin_selection_sub: "set (admin_selection ss k) \<subseteq> {m \<in> set (ss_messages ss). sm_seq m > or_zero (ss_last_trim ss)}"
  by (auto simp: admin_selection_def Let_def dest: in_set_takeD)

lemma admin_effect:
  assumes "wf_store st" and "admin_compact_visible_messages enabled utc fresh now k st = Inr (st', job, r)"
  shows "turn_effect st st'"
proof (cases "enabled")
  case False
  then show ?thesis
    using assms by (auto simp: admin_compact_visible_messages_def effect_refl split: if_splits)
next
  case True
  obtain st1 ss new where o: "get_or_create_session fresh now st = (st1, ss, new)"
    by (cases "get_or_create_session fresh now st") auto
  have e1: "turn_effect st st1" using open_effect [OF assms(1), of fresh now] o by simp
  have same: "rows_of st1 = rows_of st" "live_watermark st1 = live_watermark st"
      "st_events st1 = st_events st" "or_zero (ss_last_trim ss) = live_watermark st"
      "set (ss_messages ss) \<subseteq> set (rows_of st)"
    using o by (auto simp: get_or_create_session_def Let_def rows_of_def live_watermark_def
        session_to_state_def select_messages_above_watermark_def split: option.splits
        dest: subsetD [OF above_sub])
  let ?sel = "admin_selection ss (nat k)"
  let ?ms = "stored_to_agent utc ?sel []"
  have c: "admin_commit utc now ss ?sel st1 = (st', job, r)"
    using assms(2) True o by (simp add: admin_compact_visible_messages_def split: if_splits)
  have sel: "q \<in> sm_seq ` set (rows_of st1)" "live_watermark st1 < q" if "q \<in> sm_seq ` set ?sel" for q
    using admin_selection_sub [of ss "nat k"] that same by auto
  have wf1: "wf_store st1" using e1 by (simp add: turn_effect_def)
  have "turn_effect st1 st'"
  proof (cases "?sel = []")
    case True
    then show ?thesis using c wf1 by (auto simp: admin_commit_def Let_def effect_refl)
  next
    case ne: False
    show ?thesis
    proof (cases "?ms = []")
      case True
      have "turn_effect st1 (raise_watermark (sm_seq (last ?sel)) st1)"
        using ne by (intro effect_raise wf1 sel) simp
      then show ?thesis using c ne True by (auto simp: admin_commit_def Let_def advance_trim_watermark_only_def)
    next
      case False
      note has = stored_to_agent_has_seq [OF False]
      note mm = Min_Max_seqs [OF has stored_to_agent_seqs]
      have "st' = raise_watermark (Max (set (seqs_from_dropped ?ms)))
          (record_event now (Min (set (seqs_from_dropped ?ms))) (Max (set (seqs_from_dropped ?ms))) (length ?ms) st1)"
        using c ne False has by (simp add: admin_commit_def Let_def)
      then show ?thesis
        using effect_event [OF wf1 sel(1) [OF mm(1)] sel(2) [OF mm(2)] mm(3)] by simp
    qed
  qed
  then show ?thesis using e1 same by (auto simp: turn_effect_def fresh_event_def)
qed

lemma compact_count_pos: "0 < limit \<Longrightarrow> limit < n \<Longrightarrow> 0 < compact_count limit n"
  by (simp add: compact_count_def window_overflow_batch_rows_def window_overflow_max_rows_per_turn_def)

lemma overflow_effect:
  assumes "wf_store st" and "sm_seq ` set visible \<subseteq> sm_seq ` set (rows_of st)" and "0 < limit"
  shows "turn_effect st (fst (compact_overflow enabled ok tz now limit visible st))"
proof (cases "length visible > limit \<and> enabled")
  case True
  let ?o = "take (compact_count limit (length visible)) visible"
  have o: "sm_seq ` set ?o \<subseteq> sm_seq ` set (rows_of st)" using assms(2) by (auto dest: in_set_takeD)
  have "?o \<noteq> []" using compact_count_pos [OF assms(3)] True by auto
  then have last: "sm_seq (last ?o) \<in> sm_seq ` set (rows_of st)"
    using o by (metis image_eqI last_in_set subsetD)
  show ?thesis
    using True trigger_effect [OF assms(1) order_trans [OF stored_to_agent_seqs o]]
      effect_raise [OF assms(1) last]
    by (simp add: compact_overflow_def Let_def advance_trim_watermark_only_def)
next
  case False
  then have "compact_overflow enabled ok tz now limit visible st = (st, None)"
    unfolding compact_overflow_def by (simp only: if_False)
  then show ?thesis by (simp add: effect_refl assms(1))
qed

lemma load_effect:
  assumes "wf_store st" and "sm_seq ` set (ss_messages ss) \<subseteq> sm_seq ` set (rows_of st)" and "0 < limit"
  shows "turn_effect st (fst (load_conversation_history enabled ok render tz now limit ss st))"
proof -
  have "sm_seq ` set (above (ss_last_trim ss) (ss_messages ss)) \<subseteq> sm_seq ` set (rows_of st)"
    using assms(2) above_sub by blast
  from overflow_effect [OF assms(1) this assms(3), of enabled ok tz now]
  show ?thesis by (simp only: load_conversation_history_def Let_def split_beta fst_conv)
qed

lemma turn_step_effect: "turn_step st st' \<Longrightarrow> wf_store st \<Longrightarrow> turn_effect st st'"
proof (induction rule: turn_step.induct)
  case (opened st fresh now)
  then show ?case by (rule open_effect)
next
  case (added ss now ch d st st' ss' row)
  then show ?case by (intro add_effect)
next
  case (added_by_id sid now ch d st st' row)
  then show ?case
    by (auto simp: add_message_by_session_id_def find_session_Some split: option.splits prod.splits
        intro: insert_effect)
next
  case (updated st ss q u)
  then show ?case
    by (auto simp: update_message_def find_session_Some effect_refl split: option.splits
        intro: effect_same_seqs)
next
  case (prompted st ss p)
  then show ?case
    by (auto simp: update_initial_system_prompt_def find_session_Some effect_refl split: option.splits
        intro: effect_same_seqs)
next
  case (stubbed q st)
  then show ?case using wf_stub by (intro effect_quiet) simp_all
next
  case (trimmed dropped st enabled ok now)
  then show ?case by (intro trigger_effect)
next
  case (administered enabled utc fresh now k st st' job r)
  then show ?case by (intro admin_effect)
next
  case (loaded ss st limit enabled ok render tz now)
  then show ?case by (intro load_effect)
qed

lemma delete_rows_wf:
  assumes "wf_store st"
  shows "wf_store (fst (delete_rows doomed sid st))"
proof (cases "find_session st sid")
  case None
  then show ?thesis using assms by (simp add: delete_rows_def)
next
  case (Some cs)
  then have wf: "wf_session cs" and s: "st_session st = Some cs"
    using assms by (auto simp: find_session_Some wf_store_def)
  let ?cs = "cs\<lparr>cs_rows := filter (\<lambda>m. \<not> doomed m) (cs_rows cs)\<rparr>"
  show ?thesis
  proof (cases "filter doomed (cs_rows cs) = []")
    case True
    then have "filter (\<lambda>m. \<not> doomed m) (cs_rows cs) = cs_rows cs" by (simp add: filter_empty_conv)
    then show ?thesis using Some s wf True by (simp add: delete_rows_def Let_def wf_store_def)
  next
    case False
    have "wf_session (reset_trim_watermark_if_orphaned ?cs)"
      using wf by (intro reset_wf) (auto simp: wf_session_def intro: rising_filter)
    then show ?thesis using Some False by (simp add: delete_rows_def Let_def wf_store_def)
  qed
qed

lemma delete_step_wf: "delete_step st st' \<Longrightarrow> wf_store st \<Longrightarrow> wf_store st'"
proof (induction rule: delete_step.induct)
  case (one st sid q)
  then show ?case
    using delete_rows_wf by (simp add: delete_message_def split: prod.splits) (metis fst_conv)
next
  case (some st sid qs)
  then show ?case using delete_rows_wf by (simp add: delete_messages_by_seqs_def)
next
  case (all st sid)
  then show ?case
    by (auto simp: delete_messages_def wf_store_def wf_session_def rising_seqs_def split: option.splits)
qed

lemma reachable_wf: "reachable st \<Longrightarrow> wf_store st"
proof (induction rule: reachable.induct)
  case start
  show ?case by (simp add: empty_store_def wf_store_def)
next
  case (turn st st')
  then show ?case using turn_step_effect by (auto simp: turn_effect_def)
next
  case (deletion st st')
  then show ?case using delete_step_wf by blast
qed

section \<open>A sample conversation\<close>

text \<open>A conversation of \<open>n\<close> inbound messages, for the concrete instances below.\<close>

definition sample_draft :: "stored_message" where
  "sample_draft = \<lparr>sm_direction = INBOUND, sm_body = ''hi'', sm_processed_context = [], sm_interactions = [],
     sm_llm_reply_text = [], sm_timestamp = None, sm_seq = 0\<rparr>"

fun sample_store :: "nat \<Rightarrow> store" where
  "sample_store 0 = fst (get_or_create_session ''s'' 0 empty_store)"
| "sample_store (Suc n) = fst (projr (add_message_by_session_id ''s'' 0 [] sample_draft (sample_store n)))"

lemma sample_session: "\<exists>cs. st_session (sample_store n) = Some cs \<and> cs_id cs = ''s''"
  by (induction n)
    (auto simp: get_or_create_session_def empty_store_def add_message_by_session_id_def find_session_def
      insert_row_def Let_def)

lemma sample_run: "turn_step\<^sup>*\<^sup>* empty_store (sample_store n)"
proof (induction n)
  case 0
  show ?case by (simp add: r_into_rtranclp turn_step.opened)
next
  case (Suc n)
  obtain cs where cs: "st_session (sample_store n) = Some cs" "cs_id cs = ''s''"
    using sample_session by blast
  obtain st' row where a: "add_message_by_session_id ''s'' 0 [] sample_draft (sample_store n) = Inr (st', row)"
    using cs by (auto simp: add_message_by_session_id_def find_session_def split_beta)
  then have "turn_step (sample_store n) st'" by (rule turn_step.added_by_id)
  then show ?case using Suc.IH a by (simp add: rtranclp.rtrancl_into_rtrancl)
qed

lemma run_reachable: "turn_step\<^sup>*\<^sup>* st st' \<Longrightarrow> reachable st \<Longrightarrow> reachable st'"
  by (induction rule: rtranclp_induct) (auto intro: reachable.turn)

lemmas sample_eval = get_or_create_session_def empty_store_def add_message_by_session_id_def
  find_session_def insert_row_def select_max_seq_def sample_draft_def eval_nat_numeral Let_def
  set_channel_def session_to_state_def

lemma sample_2:
  "sample_store 2 = \<lparr>st_session = Some \<lparr>cs_id = ''s'', cs_channel = [], cs_prompt = [], cs_last_trim = None,
       cs_stub = None, cs_last_message_at = 0,
       cs_rows = [sample_draft\<lparr>sm_seq := 1, sm_timestamp := Some 0\<rparr>,
         sample_draft\<lparr>sm_seq := 2, sm_timestamp := Some 0\<rparr>]\<rparr>,
     st_events = [], st_next_event = 1\<rparr>"
  by (simp add: sample_eval)

lemmas trigger_eval = trigger_compaction_for_dropped_def live_watermark_def uncovered_def
  raise_watermark_def record_event_def

lemma sample_trim_run:
  "turn_step\<^sup>*\<^sup>* empty_store
     (fst (trigger_compaction_for_dropped True True 7 [UserMessage ''hi'' (Some 1)] (sample_store 2)))"
  by (rule rtranclp.rtrancl_into_rtrancl [OF sample_run], rule turn_step.trimmed)
    (simp add: sample_2 rows_of_def)

section \<open>Properties of the watermark\<close>



text \<open>
  Turns only ever move the watermark up and never lose or renumber a row: the seqs after any
  number of turn steps extend those before.
\<close>

theorem watermark_monotone:
  assumes "turn_step\<^sup>*\<^sup>* st st'" and "reachable st"
  shows "live_watermark st \<le> live_watermark st' \<and> prefix (seqs (rows_of st)) (seqs (rows_of st'))"
  using assms(1)
proof (induction rule: rtranclp_induct)
  case (step st1 st2)
  have "reachable st1" using step.hyps(1) assms(2)
    by (induction rule: rtranclp_induct) (auto intro: reachable.turn)
  then have "turn_effect st1 st2" using turn_step_effect [OF step.hyps(2)] reachable_wf by blast
  then show ?case using step.IH by (auto simp: turn_effect_def intro: prefix_order.trans)
qed simp

theorem watermark_monotone_witness:
  "live_watermark empty_store
     \<le> live_watermark (fst (trigger_compaction_for_dropped True True 7 [UserMessage ''hi'' (Some 1)] (sample_store 2)))"
  using watermark_monotone [OF sample_trim_run reachable.start] by blast



section \<open>The overflow window\<close>

definition visible_rows :: "store \<Rightarrow> stored_message list" where
  \<comment> \<open>what a session loaded now shows the loader\<close>
  "visible_rows st = (case st_session st of None \<Rightarrow> [] | Some cs \<Rightarrow> select_messages_above_watermark cs)"

definition job_input :: "compaction_job option \<Rightarrow> agent_message list" where
  "job_input job = (case job of None \<Rightarrow> [] | Some j \<Rightarrow> job_messages j)"

lemma visible_sub: "sm_seq ` set (visible_rows st) \<subseteq> sm_seq ` set (rows_of st)"
  using above_sub by (fastforce simp: visible_rows_def rows_of_def select_messages_above_watermark_def split: option.splits)

lemma visible_rising: "wf_store st \<Longrightarrow> rising_seqs (visible_rows st)"
  by (auto simp: visible_rows_def wf_store_def wf_session_def select_messages_above_watermark_def
      rising_above rising_seqs_def [of "[]"] split: option.splits)

lemma visible_above:
  assumes "wf_store st" and "m \<in> set (visible_rows st)"
  shows "live_watermark st < sm_seq m"
proof -
  obtain cs where cs: "st_session st = Some cs" "m \<in> set (above (cs_last_trim cs) (cs_rows cs))"
    using assms(2) by (cases "st_session st") (auto simp: visible_rows_def select_messages_above_watermark_def)
  then have "1 \<le> sm_seq m"
    using assms(1) above_sub by (fastforce simp: wf_store_def wf_session_def)
  then show ?thesis
    using cs by (cases "cs_last_trim cs") (auto simp: above_def live_watermark_def)
qed

lemma rising_split:
  assumes "rising_seqs rows"
  shows "rows = filter (\<lambda>m. sm_seq m \<le> w) rows @ filter (\<lambda>m. w < sm_seq m) rows"
  using assms
proof (induction rows)
  case (Cons m ms)
  have ms: "rising_seqs ms" and less: "\<forall>r \<in> set ms. sm_seq m < sm_seq r"
    using Cons.prems by (auto simp: rising_seqs_def)
  show ?case
  proof (cases "sm_seq m \<le> w")
    case True
    then show ?thesis using Cons.IH [OF ms] by simp
  next
    case False
    then have "filter (\<lambda>m. sm_seq m \<le> w) ms = []" using less by (fastforce simp: filter_empty_conv)
    then show ?thesis using False Cons.IH [OF ms] by simp
  qed
qed simp

text \<open>Rows above every seq of a rendering contribute nothing to it.\<close>

lemma rendering_below:
  assumes "rising_seqs rows" and "\<forall>q \<in> set (seqs_from_dropped (stored_to_agent tz rows p)). q \<le> w"
  shows "stored_to_agent tz (filter (\<lambda>m. sm_seq m \<le> w) rows) p = stored_to_agent tz rows p"
proof -
  let ?a = "filter (\<lambda>m. sm_seq m \<le> w) rows" and ?b = "filter (\<lambda>m. w < sm_seq m) rows"
  have split: "stored_to_agent tz rows p = stored_to_agent tz ?a p @ stored_to_agent tz ?b (p @ ?a)"
    by (subst rising_split [OF assms(1), of w])
      (simp add: stored_to_agent_def convert_rows_append)
  have "False" if q: "q \<in> set (seqs_from_dropped (stored_to_agent tz ?b (p @ ?a)))" for q
  proof -
    have "q \<in> sm_seq ` set ?b" using q stored_to_agent_seqs by blast
    moreover have "q \<in> set (seqs_from_dropped (stored_to_agent tz rows p))"
      by (subst split) (use q in simp)
    then have "q \<le> w" using assms(2) by blast
    ultimately show False by auto
  qed
  then have "seqs_from_dropped (stored_to_agent tz ?b (p @ ?a)) = []"
    by (meson last_in_set)
  then show ?thesis using stored_to_agent_has_seq split by (metis append.right_neutral)
qed

lemma uncovered_all:
  "\<forall>q \<in> set (seqs_from_dropped ms). w < q \<Longrightarrow> uncovered w ms = ms"
  by (auto simp: uncovered_def set_seqs_from_dropped intro!: filter_True split: option.splits)

lemma filter_take_below:
  assumes "rising_seqs rows" and "w \<in> sm_seq ` set (take k rows)"
  shows "filter (\<lambda>m. sm_seq m \<le> w) rows = filter (\<lambda>m. sm_seq m \<le> w) (take k rows)"
proof -
  have "filter (\<lambda>m. sm_seq m \<le> w) (drop k rows) = []"
    using assms unfolding rising_seqs_def
    by (subst (asm) append_take_drop_id [of k rows, symmetric])
      (fastforce simp: sorted_wrt_append filter_empty_conv simp del: append_take_drop_id)
  then show ?thesis by (metis append.right_neutral append_take_drop_id filter_append)
qed

text \<open>What the overflow branch does, with the seq it moves the watermark to.\<close>

lemma overflow_outcome:
  assumes "wf_store st" and "0 < limit" and "limit < length (visible_rows st)"
    and "compact_overflow True ok tz now limit (visible_rows st) st = (st', job)"
    and "ok \<or> stored_to_agent tz (take (compact_count limit (length (visible_rows st))) (visible_rows st)) [] = []"
  obtains w where "w \<in> sm_seq ` set (visible_rows st)" and "live_watermark st' = w"
    and "job_input job = stored_to_agent tz (filter (\<lambda>m. sm_seq m \<le> w) (visible_rows st)) []"
    and "rows_of st' = rows_of st"
proof -
  let ?v = "visible_rows st" and ?o = "take (compact_count limit (length (visible_rows st))) (visible_rows st)"
  let ?ms = "stored_to_agent tz ?o []"
  have rise: "rising_seqs ?v" using assms(1) by (rule visible_rising)
  then have rise_o: "rising_seqs ?o" by (auto simp: rising_seqs_def take_map [symmetric] sorted_wrt_take)
  have ne: "?o \<noteq> []" using compact_count_pos [OF assms(2,3)] assms(3) by auto
  have some: "st_session st \<noteq> None" using assms(3) by (cases "st_session st") (simp_all add: visible_rows_def)
  have above: "live_watermark st < q" if "q \<in> sm_seq ` set ?o" for q
    using that visible_above [OF assms(1)] by (auto dest: in_set_takeD)
  have sub: "sm_seq ` set ?o \<subseteq> sm_seq ` set ?v" by (auto dest: in_set_takeD)
  show ?thesis
  proof (cases "?ms = []")
    case True
    let ?w = "sm_seq (last ?o)"
    have st': "st' = raise_watermark ?w st" "job = None"
      using assms(3,4) True by (auto simp: compact_overflow_def advance_trim_watermark_only_def)
    have in_o: "?w \<in> sm_seq ` set ?o" using ne by simp
    have "stored_to_agent tz (filter (\<lambda>m. sm_seq m \<le> ?w) ?o) [] = ?ms"
      by (intro rendering_below rise_o) (simp add: True)
    then show ?thesis
      using that [of ?w] in_o sub above [OF in_o] st' True filter_take_below [OF rise in_o]
      by (auto simp: watermark_raise some job_input_def)
  next
    case False
    note has = stored_to_agent_has_seq [OF False]
    have all: "\<forall>q \<in> set (seqs_from_dropped ?ms). live_watermark st < q"
      using above stored_to_agent_seqs [of tz ?o "[]"] by blast
    let ?w = "Max (set (seqs_from_dropped ?ms))"
    note mm = Min_Max_seqs [OF has stored_to_agent_seqs]
    have "trigger_compaction_for_dropped True True now ?ms st = (st', job)"
      using assms(3-5) False by (simp add: compact_overflow_def)
    then have st': "st' = raise_watermark ?w (record_event now (Min (set (seqs_from_dropped ?ms))) ?w (length ?ms) st)"
      and job: "job_input job = ?ms"
      using False has by (auto simp: trigger_compaction_for_dropped_def uncovered_all [OF all] job_input_def Let_def)
    have "stored_to_agent tz (filter (\<lambda>m. sm_seq m \<le> ?w) ?o) [] = ?ms"
      by (intro rendering_below rise_o) (simp add: Max_ge)
    then show ?thesis
      using that [of ?w] mm(1) sub above [OF mm(1)] st' job filter_take_below [OF rise mm(1)]
      by (auto simp: watermark_raise some)
  qed
qed

text \<open>
  C13. The overflow branch hides exactly what it hands to compaction: whatever the outcome of the
  transaction, the messages of the compaction job are the rendering of the visible rows that
  fall at or below the new watermark, and no row is lost.
\<close>

theorem overflow_hides_what_it_compacts:
  assumes "reachable st" and "0 < limit"
    and "compact_overflow enabled commit_ok tz now limit (visible_rows st) st = (st', job)"
  shows "job_input job = stored_to_agent tz (filter (\<lambda>m. sm_seq m \<le> live_watermark st') (visible_rows st)) []
     \<and> rows_of st' = rows_of st"
proof -
  have wf: "wf_store st" using assms(1) by (rule reachable_wf)
  have idle: ?thesis if "st' = st" "job = None"
  proof -
    have "filter (\<lambda>m. sm_seq m \<le> live_watermark st) (visible_rows st) = []"
      using visible_above [OF wf] by (fastforce simp: filter_empty_conv)
    then have "stored_to_agent tz (filter (\<lambda>m. sm_seq m \<le> live_watermark st') (visible_rows st)) [] = []"
      by (simp add: that stored_to_agent_def)
    then show ?thesis by (simp add: that job_input_def)
  qed
  show ?thesis
  proof (cases "limit < length (visible_rows st) \<and> enabled")
    case False
    then have "compact_overflow enabled commit_ok tz now limit (visible_rows st) st = (st, None)"
      unfolding compact_overflow_def by (simp only: if_False)
    then show ?thesis using assms(3) idle by simp
  next
    case True
    show ?thesis
    proof (cases "commit_ok \<or> stored_to_agent tz (take (compact_count limit (length (visible_rows st))) (visible_rows st)) [] = []")
      case ok: True
      have "compact_overflow True commit_ok tz now limit (visible_rows st) st = (st', job)"
        using True assms(3) by simp
      from overflow_outcome [OF wf assms(2) _ this ok] show ?thesis using True by metis
    next
      case False
      then have "compact_overflow enabled commit_ok tz now limit (visible_rows st) st = (st, None)"
        using True by (simp add: compact_overflow_def trigger_compaction_for_dropped_def Let_def)
      then show ?thesis using assms(3) idle by simp
    qed
  qed
qed

theorem overflow_hides_what_it_compacts_witness:
  "let (st', job) = compact_overflow True True \<lparr>local_day = (\<lambda>t. t), local_stamp = (\<lambda>t. ''t'')\<rparr> 7 1
       (visible_rows (sample_store 2)) (sample_store 2)
   in length (job_input job) = 1 \<and> live_watermark st' = 1"
  (is "let (st', job) = compact_overflow True True ?tz 7 1 ?v ?st in _")
proof -
  obtain st' job where c: "compact_overflow True True ?tz 7 1 ?v ?st = (st', job)"
    by (cases "compact_overflow True True ?tz 7 1 ?v ?st")
  have "live_watermark st' = 1"
    using c by (auto simp: compact_overflow_def compact_count_def window_overflow_batch_rows_def
        window_overflow_max_rows_per_turn_def visible_rows_def select_messages_above_watermark_def above_def
        sample_2 sample_draft_def stored_to_agent_def convert_row_def row_content_def py_strip_def
        py_lstrip_def py_rstrip_def is_space_def state_after_def trigger_eval time_marker_def)
  moreover have "filter (\<lambda>m. sm_seq m \<le> 1) ?v = [sample_draft\<lparr>sm_seq := 1, sm_timestamp := Some 0\<rparr>]"
    by (simp add: visible_rows_def select_messages_above_watermark_def above_def sample_2)
  moreover have "length (stored_to_agent ?tz [sample_draft\<lparr>sm_seq := 1, sm_timestamp := Some 0\<rparr>] []) = 1"
    by (simp add: sample_draft_def stored_to_agent_def convert_row_def row_content_def py_strip_def
        py_lstrip_def py_rstrip_def is_space_def state_after_def time_marker_def)
  ultimately show ?thesis
    using overflow_hides_what_it_compacts [OF run_reachable [OF sample_run reachable.start] _ c] c by simp
qed

text \<open>
  C32. The backlog drains: when every turn's transaction commits, each load that finds the window
  overflowing hides at least one more row, so after at most as many turns as there are rows too
  many the visible conversation fits the limit again.
\<close>

definition overflow_turn :: "timezone \<Rightarrow> int \<Rightarrow> nat \<Rightarrow> store \<Rightarrow> store" where
  "overflow_turn tz now limit st = fst (compact_overflow True True tz now limit (visible_rows st) st)"

lemma visible_eq:
  assumes "wf_store st"
  shows "visible_rows st = filter (\<lambda>m. live_watermark st < sm_seq m) (rows_of st)"
proof (cases "st_session st")
  case (Some cs)
  then have "wf_session cs" using assms by (simp add: wf_store_def)
  then have "filter (\<lambda>m. 0 < sm_seq m) (cs_rows cs) = cs_rows cs"
    by (force simp: wf_session_def intro: filter_True)
  then show ?thesis
    using Some by (simp add: visible_rows_def select_messages_above_watermark_def above_def
        live_watermark_def rows_of_def split: option.splits)
qed (simp add: visible_rows_def rows_of_def)

lemma overflow_turn_progress:
  assumes "wf_store st" and "0 < limit" and "limit < length (visible_rows st)"
  shows "wf_store (overflow_turn tz now limit st)"
    and "length (visible_rows (overflow_turn tz now limit st)) < length (visible_rows st)"
proof -
  obtain st' job where c: "compact_overflow True True tz now limit (visible_rows st) st = (st', job)"
    by (cases "compact_overflow True True tz now limit (visible_rows st) st")
  then have st': "overflow_turn tz now limit st = st'" by (simp add: overflow_turn_def)
  show wf: "wf_store (overflow_turn tz now limit st)"
    using overflow_effect [OF assms(1) visible_sub assms(2), of True True tz now] c st'
    by (simp add: turn_effect_def)
  obtain w where w: "w \<in> sm_seq ` set (visible_rows st)" "live_watermark st' = w" "rows_of st' = rows_of st"
    using overflow_outcome [OF assms c] by metis
  then obtain m where m: "m \<in> set (visible_rows st)" "\<not> w < sm_seq m" by auto
  have "visible_rows st' = filter (\<lambda>m. w < sm_seq m) (visible_rows st)"
    using visible_above [OF assms(1) m(1)] m(2) w(2,3) wf
    by (auto simp: visible_eq assms(1) st' intro!: filter_cong)
  then show "length (visible_rows (overflow_turn tz now limit st)) < length (visible_rows st)"
    using m length_filter_less [of m "visible_rows st" "\<lambda>m. w < sm_seq m"] by (simp add: st')
qed

lemma overflow_turn_idle:
  "length (visible_rows st) \<le> limit \<Longrightarrow> overflow_turn tz now limit st = st"
  by (simp add: overflow_turn_def compact_overflow_def)



section \<open>The loaded history is the tail of the transcript\<close>

lemma last_n_append: "length ys \<le> n \<Longrightarrow> last_n (n - length ys) xs @ ys = last_n n (xs @ ys)"
  by (simp add: last_n_def)

lemma last_n_append_le: "n \<le> length ys \<Longrightarrow> last_n n (xs @ ys) = last_n n ys"
  by (simp add: last_n_def)

lemma rev_take_rev: "rev (take n (rev xs)) = last_n n xs"
  by (simp add: last_n_def take_rev)

text \<open>The rows the loader fetches below the watermark complete the twenty rows before the window.\<close>

lemma preceding_rows_eq:
  assumes "wf_store st" and "st_session st = Some cs"
    and "ss = session_to_state cs (select_messages_above_watermark cs)"
    and "rows_of st' = rows_of st" and "st_session st' \<noteq> None" and "window limit (visible_rows st) \<noteq> []"
  shows "preceding_rows limit ss (visible_rows st) st'
    = last_n preceding_lookback_rows
        (filter (\<lambda>m. sm_seq m \<le> live_watermark st) (rows_of st)
         @ take (length (visible_rows st) - limit) (visible_rows st))"
proof -
  let ?near = "take (length (visible_rows st) - limit) (visible_rows st)"
  let ?below = "filter (\<lambda>m. sm_seq m \<le> live_watermark st) (rows_of st)"
  have w: "or_zero (ss_last_trim ss) = live_watermark st"
    using assms(2,3) by (simp add: session_to_state_def live_watermark_def)
  have fetch: "get_messages_up_to_seq st' q n = last_n n (filter (\<lambda>m. sm_seq m \<le> q) (rows_of st))" for q n
    using assms(4,5) by (auto simp: get_messages_up_to_seq_def rev_take_rev rows_of_def)
  consider "preceding_lookback_rows \<le> length ?near" | "length ?near < preceding_lookback_rows" "live_watermark st = 0"
    | "length ?near < preceding_lookback_rows" "live_watermark st \<noteq> 0" by linarith
  then show ?thesis
  proof cases
    case 1
    then have "\<not> length (last_n preceding_lookback_rows ?near) < preceding_lookback_rows" by (simp add: last_n_def)
    then show ?thesis using 1 by (simp add: preceding_rows_def Let_def last_n_append_le)
  next
    case 2
    have "?below = []"
      using assms(1,2) 2(2) by (fastforce simp: wf_store_def wf_session_def rows_of_def filter_empty_conv)
    then show ?thesis using 2 by (simp add: preceding_rows_def Let_def w)
  next
    case 3
    then have near: "last_n preceding_lookback_rows ?near = ?near" by (simp add: last_n_def)
    then show ?thesis
      using 3 assms(6) last_n_append [of ?near preceding_lookback_rows ?below]
      by (simp add: preceding_rows_def Let_def w fetch)
  qed
qed

text \<open>Whether the last twenty rows decide the markers: they are all rows, or hold a visible one.\<close>

definition lookback_enough :: "stored_message list \<Rightarrow> bool" where
  "lookback_enough before \<longleftrightarrow> length before \<le> preceding_lookback_rows
     \<or> (let near = last_n preceding_lookback_rows before
        in \<exists>i < length near - 1. is_visible_row (near ! Suc i) (is_approval_prompt_row (near ! i)))"

lemma state_after_last_n: "lookback_enough before \<Longrightarrow> state_after (last_n preceding_lookback_rows before) = state_after before"
proof -
  assume l: "lookback_enough before"
  show ?thesis
  proof (cases "length before \<le> preceding_lookback_rows")
    case True
    then show ?thesis by (simp add: last_n_def)
  next
    case False
    let ?near = "last_n preceding_lookback_rows before"
    have "\<exists>i. Suc i < length ?near \<and> is_visible_row (?near ! Suc i) (is_approval_prompt_row (?near ! i))"
      using l False by (auto simp: lookback_enough_def Let_def less_diff_conv)
    from state_after_lookback [OF this, of "take (length before - preceding_lookback_rows) before"]
    show ?thesis by (simp add: last_n_def)
  qed
qed

text \<open>
  C9. The history a turn loads is a suffix of the rendering of the whole transcript: with the rows
  of the database being those before the window, the window and the current message, rendering
  everything but the current message gives the rendering of the older rows followed by exactly
  the loaded history, as long as the twenty rows looked back at hold a visible one.  So moving
  the watermark, or rolling the window, changes no message that stays in context.
\<close>

theorem loaded_history_is_transcript_suffix:
  assumes "reachable st" and "st_session st = Some cs" and "0 < limit"
    and "rows_of st = before @ window limit (visible_rows st) @ [current]"
    and "window limit (visible_rows st) \<noteq> []" and "lookback_enough before"
  shows "stored_to_agent tz (butlast (rows_of st)) [] = stored_to_agent tz before []
     @ snd (snd (load_conversation_history enabled commit_ok plain_renderer tz now limit
         (session_to_state cs (select_messages_above_watermark cs)) st))"
proof -
  have wf: "wf_store st" using assms(1) by (rule reachable_wf)
  let ?ss = "session_to_state cs (select_messages_above_watermark cs)"
  let ?v = "visible_rows st" and ?w = "window limit (visible_rows st)"
  have rise: "rising_seqs (rows_of st)"
    using wf assms(2) by (auto simp: wf_store_def wf_session_def rows_of_def)
  have "above (cs_last_trim cs) (select_messages_above_watermark cs) = select_messages_above_watermark cs"
    by (auto simp: select_messages_above_watermark_def above_def split: option.splits)
  then have vis: "above (ss_last_trim ?ss) (ss_messages ?ss) = ?v"
    using visible_rising [OF wf] assms(2) by (simp add: session_to_state_def visible_rows_def sort_rising)
  obtain st' job where c: "compact_overflow enabled commit_ok tz now limit ?v st = (st', job)"
    by (cases "compact_overflow enabled commit_ok tz now limit ?v st")
  have rows': "rows_of st' = rows_of st"
    and some': "st_session st' \<noteq> None"
    using c assms(2) by (auto simp: compact_overflow_def advance_trim_watermark_only_def Let_def
        trigger_compaction_for_dropped_def raise_watermark_def record_event_def rows_of_def
        split: if_splits)
  let ?b = "filter (\<lambda>m. sm_seq m \<le> live_watermark st) (rows_of st) @ take (length ?v - limit) ?v"
  have ne: "length ?v > 1" using assms(5) by (auto simp: window_def split: if_splits)
  have v: "?v = take (length ?v - limit) ?v @ ?w @ [last ?v]"
  proof -
    have "drop (length ?v - limit) ?v \<noteq> []" using ne assms(3) by auto
    then have "drop (length ?v - limit) ?v = ?w @ [last ?v]"
      using ne by (metis append_butlast_last_id last_drop length_drop length_greater_0_conv window_def zero_less_diff)
    then show ?thesis by (metis append_take_drop_id)
  qed
  have "rows_of st = filter (\<lambda>m. sm_seq m \<le> live_watermark st) (rows_of st) @ ?v"
    using rising_split [OF rise, of "live_watermark st"] visible_eq [OF wf] by simp
  then have "rows_of st = ?b @ ?w @ [last ?v]" using v by simp
  then have b: "before = ?b" using assms(4) by (metis append_assoc append_same_eq butlast_snoc)
  have pre: "preceding_rows limit ?ss ?v st' = last_n preceding_lookback_rows before"
    using preceding_rows_eq [OF wf assms(2) refl rows' some' assms(5)] b by simp
  have "snd (snd (load_conversation_history enabled commit_ok plain_renderer tz now limit ?ss st))
      = stored_to_agent tz ?w before"
    by (simp add: load_conversation_history_def vis c pre plain_renderer_def stored_to_agent_def
        state_after_last_n [OF assms(6)])
  moreover have "butlast (rows_of st) = before @ ?w" using assms(4) by (metis append_assoc butlast_snoc)
  ultimately show ?thesis by (simp add: stored_to_agent_def convert_rows_append)
qed

lemma sample_3:
  "sample_store 3 = \<lparr>st_session = Some \<lparr>cs_id = ''s'', cs_channel = [], cs_prompt = [], cs_last_trim = None,
       cs_stub = None, cs_last_message_at = 0,
       cs_rows = [sample_draft\<lparr>sm_seq := 1, sm_timestamp := Some 0\<rparr>,
         sample_draft\<lparr>sm_seq := 2, sm_timestamp := Some 0\<rparr>,
         sample_draft\<lparr>sm_seq := 3, sm_timestamp := Some 0\<rparr>]\<rparr>,
     st_events = [], st_next_event = 1\<rparr>"
  by (simp add: sample_eval)

theorem loaded_history_is_transcript_suffix_witness:
  "\<exists>cs. st_session (sample_store 3) = Some cs
     \<and> stored_to_agent \<lparr>local_day = (\<lambda>t. t), local_stamp = (\<lambda>t. ''t'')\<rparr> (butlast (rows_of (sample_store 3))) []
       = stored_to_agent \<lparr>local_day = (\<lambda>t. t), local_stamp = (\<lambda>t. ''t'')\<rparr>
           [sample_draft\<lparr>sm_seq := 1, sm_timestamp := Some 0\<rparr>] []
         @ snd (snd (load_conversation_history True True plain_renderer
             \<lparr>local_day = (\<lambda>t. t), local_stamp = (\<lambda>t. ''t'')\<rparr> 7 2
             (session_to_state cs (select_messages_above_watermark cs)) (sample_store 3)))"
proof -
  obtain cs where cs: "st_session (sample_store 3) = Some cs" using sample_session by blast
  have v: "window 2 (visible_rows (sample_store 3)) = [sample_draft\<lparr>sm_seq := 2, sm_timestamp := Some 0\<rparr>]"
    by (simp add: visible_rows_def select_messages_above_watermark_def above_def sample_3 window_def)
  have r: "rows_of (sample_store 3) = [sample_draft\<lparr>sm_seq := 1, sm_timestamp := Some 0\<rparr>]
      @ window 2 (visible_rows (sample_store 3)) @ [sample_draft\<lparr>sm_seq := 3, sm_timestamp := Some 0\<rparr>]"
    by (simp add: v) (simp add: sample_3 rows_of_def)
  show ?thesis
    using loaded_history_is_transcript_suffix [OF run_reachable [OF sample_run reachable.start] cs _ r] cs v
    by (auto simp: lookback_enough_def preceding_lookback_rows_def)
qed

section \<open>What the re-check of the watermark does not cover\<close>

text \<open>
  A trim computed before a deletion hides what comes after it.  The trigger re-reads the
  watermark but not the rows, so when the conversation is deleted between a turn's load and its
  trim, the watermark is raised to a seq no row has any more; the next message gets seq 1, below
  it, and the load does not show it.
\<close>

theorem stale_trim_hides_new_message:
  "let cleared = fst (delete_messages ''s'' (sample_store 3));
       trimmed = fst (trigger_compaction_for_dropped True True 7
         [UserMessage ''hi'' (Some 1), UserMessage ''hi'' (Some 2)] cleared);
       next = fst (projr (add_message_by_session_id ''s'' 8 [] sample_draft trimmed))
   in length (rows_of next) = 1 \<and> visible_rows next = []"
  by (simp add: Let_def sample_3 delete_messages_def find_session_def trigger_eval
      add_message_by_session_id_def insert_row_def select_max_seq_def sample_draft_def rows_of_def
      visible_rows_def select_messages_above_watermark_def above_def)

text \<open>
  Deleting the newest messages brings compacted ones back.  With rows still below the
  watermark, a partial delete of everything above it resets the watermark to none instead of
  keeping what it covered, so rows that a compaction event already covers are visible again and
  the next compaction records the same range a second time.
\<close>

theorem partial_delete_uncovers_compacted_rows:
  "let trimmed = fst (trigger_compaction_for_dropped True True 7 [UserMessage ''hi'' (Some 1)] (sample_store 2));
       deleted = fst (delete_message ''s'' 2 trimmed);
       again = fst (trigger_compaction_for_dropped True True 9 [UserMessage ''hi'' (Some 1)] deleted)
   in map sm_seq (visible_rows trimmed) = [2] \<and> map sm_seq (visible_rows deleted) = [1]
     \<and> map (\<lambda>e. (ce_min e, ce_max e)) (st_events again) = [(Some 1, Some 1), (Some 1, Some 1)]"
  by (simp add: Let_def sample_2 delete_message_def delete_rows_def find_session_def trigger_eval
      reset_trim_watermark_if_orphaned_def select_max_seq_def sample_draft_def rows_of_def
      visible_rows_def select_messages_above_watermark_def above_def)

end
