(* ===== verification/Permissions.thy ===== *)
theory Permissions
  imports Approval_Text
begin

text \<open>
  The permission store of \<open>approval.py\<close> (\<open>ApprovalStore\<close>).  A user's permissions are one JSON
  document the user may edit, so nothing is assumed of its shape: a read of a malformed document
  raises what the Python operations raise.  A stored row is \<open>None\<close> (no row), \<open>Some None\<close> (text that is
  not JSON) or \<open>Some (Some v)\<close>.  The tool registry is given by its factory names and the sub-tools
  (name and default level) of each.
\<close>

section \<open>Python operations on a JSON value\<close>

definition dict_get :: "json_dict \<Rightarrow> string \<Rightarrow> json \<Rightarrow> json" where
  "dict_get d k dflt = (case map_of d k of Some v \<Rightarrow> v | None \<Rightarrow> dflt)"

definition set_default :: "string \<Rightarrow> json \<Rightarrow> json_dict \<Rightarrow> json_dict" where
  "set_default k v d = (if k \<in> dom (map_of d) then d else AList.update k v d)"

fun py_get :: "json \<Rightarrow> string \<Rightarrow> json \<Rightarrow> py_error + json" where
  "py_get (JObj d) k dflt = Inr (dict_get d k dflt)"
| "py_get v k dflt = Inl AttributeError"

fun py_in :: "string \<Rightarrow> json \<Rightarrow> py_error + bool" where
  "py_in k (JObj d) = Inr (k \<in> dom (map_of d))"
| "py_in k (JList xs) = Inr (JStr k \<in> set xs)"
| "py_in k (JStr s) = Inr (contains k s)"
| "py_in k v = Inl TypeError"

fun py_item :: "json \<Rightarrow> string \<Rightarrow> py_error + json" where
  "py_item (JObj d) k = (case map_of d k of Some v \<Rightarrow> Inr v | None \<Rightarrow> Inl KeyError)"
| "py_item v k = Inl TypeError"

fun py_set_item :: "json \<Rightarrow> string \<Rightarrow> json \<Rightarrow> py_error + json" where
  "py_set_item (JObj d) k v = Inr (JObj (AList.update k v d))"
| "py_set_item w k v = Inl TypeError"

fun py_set_default :: "json \<Rightarrow> string \<Rightarrow> json \<Rightarrow> py_error + json" where
  "py_set_default (JObj d) k v = Inr (JObj (set_default k v d))"
| "py_set_default w k v = Inl AttributeError"

section \<open>fnmatch\<close>

text \<open>
  \<open>fnmatch.fnmatch\<close> on a POSIX system.  A character class ends at the first \<open>]\<close> that is not its
  first character (after a leading \<open>!\<close>); without one the \<open>[\<close> is a literal.
\<close>

definition class_end :: "string \<Rightarrow> nat option" where
  \<comment> \<open>the position of the closing bracket in what follows the opening one\<close>
  "class_end p =
     (let skip = (if p \<noteq> [] \<and> hd p = CHR ''!'' then 1 else 0);
          skip' = (if drop skip p \<noteq> [] \<and> hd (drop skip p) = CHR '']'' then skip + 1 else skip);
          rest = takeWhile (\<lambda>c. c \<noteq> CHR '']'') (drop skip' p)
      in if skip' + length rest < length p then Some (skip' + length rest) else None)"

fun class_ranges :: "string \<Rightarrow> (char \<times> char) list" where
  "class_ranges (a # d # b # cs) =
     (if d = CHR ''-'' then (a, b) # class_ranges cs else (a, a) # class_ranges (d # b # cs))"
| "class_ranges [a, b] = [(a, a), (b, b)]"
| "class_ranges [a] = [(a, a)]"
| "class_ranges [] = []"

definition in_class :: "string \<Rightarrow> char \<Rightarrow> bool" where
  "in_class stuff c =
     (let negated = stuff \<noteq> [] \<and> hd stuff = CHR ''!'';
          hit = (\<lambda>s. \<exists>(a, b) \<in> set (class_ranges s). a \<le> c \<and> c \<le> b)
      in if negated then \<not> hit (tl stuff) else hit stuff)"

function fnmatch :: "string \<Rightarrow> string \<Rightarrow> bool" where
  "fnmatch s [] = (s = [])"
| "fnmatch s (c # p) =
     (if c = CHR ''*'' then (if s = [] then fnmatch s p else fnmatch s p \<or> fnmatch (tl s) (c # p))
      else if s = [] then False
      else if c = CHR ''?'' then fnmatch (tl s) p
      else if c = CHR ''['' then
        (case class_end p of
           None \<Rightarrow> hd s = c \<and> fnmatch (tl s) p
         | Some n \<Rightarrow> in_class (take n p) (hd s) \<and> fnmatch (tl s) (drop (Suc n) p))
      else hd s = c \<and> fnmatch (tl s) p)"
  by pat_completeness auto
termination by (relation "measure (\<lambda>(s, p). length s + length p)") (auto simp: Suc_le_eq)

declare fnmatch.simps(2) [simp del]

section \<open>Resolving a permission\<close>

fun first_glob :: "string \<Rightarrow> json_dict \<Rightarrow> json option" where
  "first_glob resource [] = None"
| "first_glob resource ((pattern, level) # rest) =
     (if fnmatch resource pattern then Some level else first_glob resource rest)"

definition resolve_resource :: "json \<Rightarrow> string \<Rightarrow> py_error + permission_level option" where
  "resolve_resource resource_map resource =
     and_then (py_in resource resource_map) (\<lambda>present.
       if present then and_then (and_then (py_item resource_map resource) parse_level) (\<lambda>l. Inr (Some l))
       else case resource_map of
         JObj d \<Rightarrow>
           (case first_glob resource d of
              Some level \<Rightarrow> and_then (parse_level level) (\<lambda>l. Inr (Some l))
            | None \<Rightarrow> Inr None)
       | _ \<Rightarrow> Inl AttributeError)"

definition resolve_tool :: "json_dict \<Rightarrow> string \<Rightarrow> permission_level \<Rightarrow> py_error + permission_level" where
  "resolve_tool data tool_name dflt =
     (let tools = dict_get data ''tools'' (JObj [])
      in and_then (py_in tool_name tools) (\<lambda>present.
           if present then and_then (py_item tools tool_name) parse_level else Inr dflt))"

definition resolve_permission ::
  "json_dict \<Rightarrow> string \<Rightarrow> string option \<Rightarrow> permission_level \<Rightarrow> py_error + permission_level" where
  "resolve_permission data tool_name resource dflt =
     (case resource of
        None \<Rightarrow> resolve_tool data tool_name dflt
      | Some r \<Rightarrow>
          and_then (py_get (dict_get data ''resources'' (JObj [])) tool_name (JObj [])) (\<lambda>resource_map.
            and_then (resolve_resource resource_map r) (\<lambda>found.
              case found of Some l \<Rightarrow> Inr l | None \<Rightarrow> resolve_tool data tool_name dflt)))"

section \<open>The stored row\<close>

type_synonym permission_row = "json option option"

definition permissions_version :: int where
  "permissions_version = 1"

definition parse_row_data :: "permission_row \<Rightarrow> json_dict" where
  "parse_row_data row =
     (case row of
        Some (Some (JObj d)) \<Rightarrow> d
      | _ \<Rightarrow> [(''version'', JInt permissions_version), (''tools'', JObj []), (''resources'', JObj [])])"

definition check_permission ::
  "permission_row \<Rightarrow> string \<Rightarrow> string option \<Rightarrow> permission_level \<Rightarrow> py_error + permission_level" where
  "check_permission row = resolve_permission (parse_row_data row)"

definition save_permissions :: "json_dict \<Rightarrow> permission_row" where
  "save_permissions data = Some (Some (JObj data))"

text \<open>The defaults: every sub-tool of the factories in the order of their names.\<close>

type_synonym tool_registry = "(string \<times> (string \<times> string) list) list"

definition default_tools :: "tool_registry \<Rightarrow> json_dict" where
  "default_tools registry =
     fold (\<lambda>(name, level). AList.update name (JStr level))
       (concat (map snd (sort_key fst registry))) []"

definition generate_defaults :: "tool_registry \<Rightarrow> json_dict" where
  "generate_defaults registry =
     [(''version'', JInt permissions_version), (''tools'', JObj (default_tools registry)),
      (''resources'', JObj [])]"

definition reset_permissions :: "tool_registry \<Rightarrow> permission_row" where
  "reset_permissions registry = save_permissions (generate_defaults registry)"

text \<open>\<open>ensure_complete\<close>: the loop, then the read and the write, which are two transactions.\<close>

fun backfill :: "json_dict \<Rightarrow> json_dict \<Rightarrow> py_error + json_dict \<times> bool" where
  "backfill [] data = Inr (data, False)"
| "backfill ((name, level) # rest) data =
     and_then (py_in name (dict_get data ''tools'' (JObj []))) (\<lambda>present.
       if present then backfill rest data
       else let data' = set_default ''tools'' (JObj []) data
            in and_then (py_set_item (dict_get data' ''tools'' (JObj [])) name level) (\<lambda>tools.
              and_then (backfill rest (AList.update ''tools'' tools data')) (\<lambda>(data'', _).
                Inr (data'', True))))"

definition complete_permissions :: "tool_registry \<Rightarrow> permission_row \<Rightarrow> py_error + json_dict \<times> bool" where
  "complete_permissions registry row = backfill (default_tools registry) (parse_row_data row)"

definition write_back :: "json_dict \<times> bool \<Rightarrow> permission_row \<Rightarrow> permission_row" where
  "write_back result row = (if snd result then save_permissions (fst result) else row)"

definition ensure_complete :: "tool_registry \<Rightarrow> permission_row \<Rightarrow> py_error + permission_row \<times> json_dict" where
  "ensure_complete registry row =
     and_then (complete_permissions registry row) (\<lambda>result. Inr (write_back result row, fst result))"

definition get_never_tool_names :: "permission_row \<Rightarrow> string set" where
  "get_never_tool_names row =
     (case dict_get (parse_row_data row) ''tools'' (JObj []) of
        JObj tools \<Rightarrow> set (filter (\<lambda>name. map_of tools name = Some (JStr ''never'')) (keys tools))
      | _ \<Rightarrow> {})"

text \<open>\<open>set_permission\<close>: one transaction under the user's lock.\<close>

fun backfill_missing :: "json_dict \<Rightarrow> json_dict \<Rightarrow> py_error + json_dict" where
  "backfill_missing [] data = Inr data"
| "backfill_missing ((name, level) # rest) data =
     (let data' = set_default ''tools'' (JObj []) data
      in and_then (py_set_default (dict_get data' ''tools'' (JObj [])) name level) (\<lambda>tools.
           backfill_missing rest (AList.update ''tools'' tools data')))"

definition put_override :: "string \<Rightarrow> permission_level \<Rightarrow> string option \<Rightarrow> json_dict \<Rightarrow> py_error + json_dict" where
  "put_override tool_name level resource data =
     (case resource of
        Some r \<Rightarrow>
          (let data' = set_default ''resources'' (JObj []) data
           in and_then (py_set_default (dict_get data' ''resources'' (JObj [])) tool_name (JObj [])) (\<lambda>resources.
                and_then (py_get resources tool_name JNull) (\<lambda>inner.
                  and_then (py_set_item inner r (JStr (level_str level))) (\<lambda>inner'.
                    and_then (py_set_item resources tool_name inner') (\<lambda>resources'.
                      Inr (AList.update ''resources'' resources' data'))))))
      | None \<Rightarrow>
          (let data' = set_default ''tools'' (JObj []) data
           in and_then (py_set_item (dict_get data' ''tools'' (JObj [])) tool_name (JStr (level_str level)))
                (\<lambda>tools. Inr (AList.update ''tools'' tools data'))))"

definition set_permission ::
  "tool_registry \<Rightarrow> string \<Rightarrow> permission_level \<Rightarrow> string option \<Rightarrow> permission_row \<Rightarrow> py_error + permission_row"
  where
  "set_permission registry tool_name level resource row =
     and_then (backfill_missing (default_tools registry) (parse_row_data row)) (\<lambda>data.
       and_then (put_override tool_name level resource data) (\<lambda>data'. Inr (save_permissions data')))"

section \<open>Nothing is granted that nobody granted\<close>

lemma parse_level_ALWAYS: "parse_level v = Inr ALWAYS \<longleftrightarrow> v = JStr ''always''"
  by (auto simp: parse_level_def)

lemma py_item_Inr: "py_item w k = Inr v \<longleftrightarrow> (\<exists>d. w = JObj d \<and> map_of d k = Some v)"
  by (cases w) (auto split: option.splits)

lemma py_get_Inr: "py_get w k x = Inr v \<longleftrightarrow> (\<exists>d. w = JObj d \<and> v = dict_get d k x)"
  by (cases w) auto

lemma py_set_item_Inr: "py_set_item w k v = Inr w' \<longleftrightarrow> (\<exists>d. w = JObj d \<and> w' = JObj (AList.update k v d))"
  by (cases w) auto

lemma py_set_default_Inr: "py_set_default w k v = Inr w' \<longleftrightarrow> (\<exists>d. w = JObj d \<and> w' = JObj (set_default k v d))"
  by (cases w) auto

lemma first_glob_in: "first_glob r d = Some level \<Longrightarrow> \<exists>pattern. (pattern, level) \<in> set d \<and> fnmatch r pattern"
  by (induction d) (auto split: if_splits)

lemma resolve_resource_Some:
  assumes "resolve_resource m r = Inr (Some l)"
  obtains d pattern level where "m = JObj d" and "(pattern, level) \<in> set d" and "pattern = r \<or> fnmatch r pattern"
    and "parse_level level = Inr l"
proof -
  obtain present where p: "py_in r m = Inr present" using assms
    by (auto simp: resolve_resource_def and_then_Inr)
  show ?thesis
  proof (cases present)
    case True
    then obtain d v where "m = JObj d" "map_of d r = Some v" "parse_level v = Inr l"
      using assms p by (auto simp: resolve_resource_def and_then_Inr py_item_Inr)
    then show ?thesis using that map_of_SomeD by fastforce
  next
    case False
    then obtain d v where m: "m = JObj d" "first_glob r d = Some v" "parse_level v = Inr l"
      using assms p by (cases m) (auto simp: resolve_resource_def and_then_Inr split: option.splits)
    then show ?thesis using that first_glob_in [OF m(2)] by blast
  qed
qed

definition tool_grant :: "json_dict \<Rightarrow> string \<Rightarrow> bool" where
  "tool_grant data tool_name \<longleftrightarrow>
     (\<exists>tools. dict_get data ''tools'' (JObj []) = JObj tools \<and> map_of tools tool_name = Some (JStr ''always''))"

definition resource_grant :: "json_dict \<Rightarrow> string \<Rightarrow> string \<Rightarrow> bool" where
  "resource_grant data tool_name r \<longleftrightarrow>
     (\<exists>rs m pattern. dict_get data ''resources'' (JObj []) = JObj rs \<and> dict_get rs tool_name (JObj []) = JObj m
        \<and> (pattern, JStr ''always'') \<in> set m \<and> (pattern = r \<or> fnmatch r pattern))"

text \<open>
  A tool runs without asking only on a grant: whatever the shape of the stored document, a
  permission resolves to \<open>ALWAYS\<close> only when that is the tool's default, or the document holds the
  string \<open>always\<close> for the tool, or for the resource under its exact name or a matching pattern.
\<close>

theorem always_needs_grant:
  assumes "resolve_permission data tool_name resource dflt = Inr ALWAYS"
  shows "dflt = ALWAYS \<or> tool_grant data tool_name \<or> (\<exists>r. resource = Some r \<and> resource_grant data tool_name r)"
proof -
  have tool: "dflt = ALWAYS \<or> tool_grant data tool_name" if "resolve_tool data tool_name dflt = Inr ALWAYS"
    using that by (auto simp: resolve_tool_def Let_def and_then_Inr py_item_Inr parse_level_ALWAYS
        tool_grant_def split: if_splits)
  show ?thesis
  proof (cases resource)
    case None
    then show ?thesis using assms tool by (simp add: resolve_permission_def)
  next
    case (Some r)
    then obtain rs found where rs: "dict_get data ''resources'' (JObj []) = JObj rs"
      and found: "resolve_resource (dict_get rs tool_name (JObj [])) r = Inr found"
      and rest: "(case found of Some l \<Rightarrow> Inr l | None \<Rightarrow> resolve_tool data tool_name dflt) = Inr ALWAYS"
      using assms by (auto simp: resolve_permission_def and_then_Inr py_get_Inr)
    show ?thesis
    proof (cases found)
      case None
      then show ?thesis using rest tool by auto
    next
      case (Some l)
      then have "resolve_resource (dict_get rs tool_name (JObj [])) r = Inr (Some ALWAYS)" using found rest by simp
      then obtain d pattern level where "dict_get rs tool_name (JObj []) = JObj d" "(pattern, level) \<in> set d"
        "pattern = r \<or> fnmatch r pattern" "parse_level level = Inr ALWAYS" by (rule resolve_resource_Some)
      then show ?thesis using \<open>resource = Some r\<close> rs by (auto simp: resource_grant_def parse_level_ALWAYS)
    qed
  qed
qed

theorem always_needs_grant_witness:
  "resource_grant [(''resources'', JObj [(''web_fetch'', JObj [(''*.gov'', JStr ''always'')])])] ''web_fetch'' ''irs.gov''"
proof -
  let ?data = "[(''resources'', JObj [(''web_fetch'', JObj [(''*.gov'', JStr ''always'')])])]"
  have "fnmatch ''irs.gov'' ''*.gov''" by code_simp
  then have "resolve_permission ?data ''web_fetch'' (Some ''irs.gov'') ASK = Inr ALWAYS"
    by (simp add: resolve_permission_def resolve_resource_def dict_get_def parse_level_def)
  from always_needs_grant [OF this] show ?thesis
    by (simp add: tool_grant_def dict_get_def)
qed

section \<open>Setting a permission\<close>

lemma set_default_lookup:
  "map_of (set_default k v d) x = (if x = k \<and> map_of d k = None then Some v else map_of d x)"
  by (auto simp: set_default_def update_conv')

lemma dict_get_set_default: "dict_get (set_default k v d) k v = dict_get d k v"
  by (auto simp: dict_get_def set_default_lookup split: option.splits)

lemma dict_get_update: "dict_get (AList.update k v d) x y = (if x = k then v else dict_get d x y)"
  by (simp add: dict_get_def update_conv')

lemma dict_get_set_default_other: "x \<noteq> k \<Longrightarrow> dict_get (set_default k v d) x y = dict_get d x y"
  by (simp add: dict_get_def set_default_lookup)

text \<open>The tools after the backfill: the stored level where there is one, else the default.\<close>

lemma backfill_missing_tools:
  assumes "backfill_missing ds data = Inr data'"
  shows "(\<forall>k y. k \<noteq> ''tools'' \<longrightarrow> dict_get data' k y = dict_get data k y)
    \<and> (ds = [] \<and> data' = data
       \<or> (\<exists>t t'. dict_get data ''tools'' (JObj []) = JObj t \<and> dict_get data' ''tools'' (JObj []) = JObj t'
            \<and> map_of t' = map_of ds ++ map_of t))"
  using assms
proof (induction ds data rule: backfill_missing.induct)
  case (2 name level rest data)
  let ?d = "set_default ''tools'' (JObj []) data"
  obtain tools where t: "py_set_default (dict_get ?d ''tools'' (JObj [])) name level = Inr tools"
    and r: "backfill_missing rest (AList.update ''tools'' tools ?d) = Inr data'"
    using 2(2) by (auto simp: Let_def and_then_Inr)
  have "dict_get ?d ''tools'' (JObj []) = dict_get data ''tools'' (JObj [])" by (rule dict_get_set_default)
  then obtain t0 where t0: "dict_get data ''tools'' (JObj []) = JObj t0" "tools = JObj (set_default name level t0)"
    using t by (cases "dict_get data ''tools'' (JObj [])") auto
  have ih: "(\<forall>k y. k \<noteq> ''tools'' \<longrightarrow> dict_get data' k y = dict_get (AList.update ''tools'' tools ?d) k y)
    \<and> (rest = [] \<and> data' = AList.update ''tools'' tools ?d
       \<or> (\<exists>t t'. dict_get (AList.update ''tools'' tools ?d) ''tools'' (JObj []) = JObj t
            \<and> dict_get data' ''tools'' (JObj []) = JObj t' \<and> map_of t' = map_of rest ++ map_of t))"
    by (rule 2(1) [OF refl r])
  have put: "map_of rest ++ map_of (set_default name level t0) = map_of ((name, level) # rest) ++ map_of t0"
    by (rule ext) (auto simp: map_add_def set_default_lookup split: option.splits)
  have "\<exists>t'. dict_get data' ''tools'' (JObj []) = JObj t' \<and> map_of t' = map_of rest ++ map_of (set_default name level t0)"
    using ih t0(2) by (auto simp: dict_get_update)
  then show ?case
    using ih t0 put by (auto simp: dict_get_update dict_get_set_default_other fun_upd_def)
qed simp

lemma put_override_tool:
  assumes "put_override tool_name level None data = Inr data'"
  obtains t where "dict_get data ''tools'' (JObj []) = JObj t"
    and "dict_get data' ''tools'' (JObj []) = JObj (AList.update tool_name (JStr (level_str level)) t)"
    and "\<forall>k y. k \<noteq> ''tools'' \<longrightarrow> dict_get data' k y = dict_get data k y"
proof -
  obtain tools where t: "py_set_item (dict_get data ''tools'' (JObj [])) tool_name (JStr (level_str level)) = Inr tools"
    and d: "data' = AList.update ''tools'' tools (set_default ''tools'' (JObj []) data)"
    using assms by (auto simp: put_override_def Let_def and_then_Inr dict_get_set_default)
  then show ?thesis
    using that by (cases "dict_get data ''tools'' (JObj [])") (auto simp: dict_get_update dict_get_set_default_other)
qed

lemma put_override_resource:
  assumes "put_override tool_name level (Some r) data = Inr data'"
  obtains rs m where "dict_get data ''resources'' (JObj []) = JObj rs" and "dict_get rs tool_name (JObj []) = JObj m"
    and "dict_get data' ''resources'' (JObj []) = JObj (AList.update tool_name
        (JObj (AList.update r (JStr (level_str level)) m)) (set_default tool_name (JObj []) rs))"
    and "\<forall>k y. k \<noteq> ''resources'' \<longrightarrow> dict_get data' k y = dict_get data k y"
proof -
  obtain resources inner inner' resources' where
    r: "py_set_default (dict_get data ''resources'' (JObj [])) tool_name (JObj []) = Inr resources"
    and i: "py_get resources tool_name JNull = Inr inner" "py_set_item inner r (JStr (level_str level)) = Inr inner'"
      "py_set_item resources tool_name inner' = Inr resources'"
    and d: "data' = AList.update ''resources'' resources' (set_default ''resources'' (JObj []) data)"
    using assms by (auto simp: put_override_def Let_def and_then_Inr dict_get_set_default)
  obtain rs where rs: "dict_get data ''resources'' (JObj []) = JObj rs" "resources = JObj (set_default tool_name (JObj []) rs)"
    using r by (cases "dict_get data ''resources'' (JObj [])") auto
  have "inner = dict_get rs tool_name (JObj [])"
    using i(1) rs(2) by (auto simp: dict_get_def set_default_lookup split: option.splits if_splits)
  then obtain m where m: "dict_get rs tool_name (JObj []) = JObj m"
      "inner' = JObj (AList.update r (JStr (level_str level)) m)"
    using i(2) by (auto simp: py_set_item_Inr)
  show ?thesis
    by (rule that [OF rs(1) m(1)]) (use rs i(3) m d in \<open>auto simp: dict_get_update dict_get_set_default_other\<close>)
qed

lemma resolve_permission_cong:
  assumes "resolve_tool data t d = resolve_tool data' t d"
    and "py_get (dict_get data ''resources'' (JObj [])) t (JObj []) = py_get (dict_get data' ''resources'' (JObj [])) t (JObj [])"
  shows "resolve_permission data t r d = resolve_permission data' t r d"
  using assms by (simp add: resolve_permission_def split: option.splits)

lemma resolve_tool_cong:
  assumes "dict_get data ''tools'' (JObj []) = JObj t" and "dict_get data' ''tools'' (JObj []) = JObj t'"
    and "map_of t x = map_of t' x"
  shows "resolve_tool data x d = resolve_tool data' x d"
  using assms by (simp add: resolve_tool_def domIff)

text \<open>
  Setting a permission sets that one: afterwards the tool (and resource, if one was given)
  resolves to the level set, and every other tool that was stored or has no default of its own
  resolves as before, for every resource.
\<close>

theorem set_permission_effect:
  assumes "set_permission registry tool_name level resource row = Inr row'"
  shows "check_permission row' tool_name resource dflt = Inr level
     \<and> (other \<noteq> tool_name
        \<and> (other \<notin> dom (map_of (default_tools registry))
           \<or> (\<exists>t. dict_get (parse_row_data row) ''tools'' (JObj []) = JObj t \<and> other \<in> dom (map_of t)))
        \<longrightarrow> check_permission row' other r d = check_permission row other r d)"
proof -
  let ?old = "parse_row_data row"
  obtain data data' where b: "backfill_missing (default_tools registry) ?old = Inr data"
    and p: "put_override tool_name level resource data = Inr data'" and row': "row' = save_permissions data'"
    using assms by (auto simp: set_permission_def and_then_Inr)
  have new: "parse_row_data row' = data'" by (simp add: row' save_permissions_def parse_row_data_def)
  note bt = backfill_missing_tools [OF b]
  have unset: "resolve_permission data other r d = resolve_permission ?old other r d"
    if "other \<notin> dom (map_of (default_tools registry))
      \<or> (\<exists>t. dict_get ?old ''tools'' (JObj []) = JObj t \<and> other \<in> dom (map_of t))"
  proof (rule resolve_permission_cong)
    show "resolve_tool data other d = resolve_tool ?old other d"
    proof (cases "default_tools registry = [] \<and> data = ?old")
      case False
      then obtain t t' where t: "dict_get ?old ''tools'' (JObj []) = JObj t" "dict_get data ''tools'' (JObj []) = JObj t'"
        "map_of t' = map_of (default_tools registry) ++ map_of t"
        using bt by blast
      then have "map_of t' other = map_of t other" using that by (auto simp: map_add_def split: option.splits)
      then show ?thesis by (rule resolve_tool_cong [OF t(2,1)])
    qed simp
  qed (use bt in simp)
  show ?thesis
  proof (cases resource)
    case None
    then obtain t where t: "dict_get data ''tools'' (JObj []) = JObj t"
      "dict_get data' ''tools'' (JObj []) = JObj (AList.update tool_name (JStr (level_str level)) t)"
      "\<forall>k y. k \<noteq> ''tools'' \<longrightarrow> dict_get data' k y = dict_get data k y"
      using p by (auto elim: put_override_tool)
    have "resolve_permission data' other r d = resolve_permission data other r d" if "other \<noteq> tool_name"
    proof (rule resolve_permission_cong)
      show "resolve_tool data' other d = resolve_tool data other d"
        using that by (intro resolve_tool_cong [OF t(2,1)]) (simp add: update_conv')
    qed (use t(3) in simp)
    moreover have "resolve_permission data' tool_name None dflt = Inr level"
      using t(2) by (simp add: resolve_permission_def resolve_tool_def update_conv')
    ultimately show ?thesis using None unset by (simp add: check_permission_def new)
  next
    case (Some q)
    then obtain rs m where t: "dict_get data ''resources'' (JObj []) = JObj rs" "dict_get rs tool_name (JObj []) = JObj m"
      "dict_get data' ''resources'' (JObj []) = JObj (AList.update tool_name
        (JObj (AList.update q (JStr (level_str level)) m)) (set_default tool_name (JObj []) rs))"
      "\<forall>k y. k \<noteq> ''resources'' \<longrightarrow> dict_get data' k y = dict_get data k y"
      using p by (auto elim: put_override_resource)
    have "resolve_permission data' other r d = resolve_permission data other r d" if "other \<noteq> tool_name"
      by (rule resolve_permission_cong)
        (use that t in \<open>auto simp: resolve_tool_def dict_get_update dict_get_set_default_other\<close>)
    moreover have "resolve_permission data' tool_name (Some q) dflt = Inr level"
      using t(3) by (simp add: resolve_permission_def resolve_resource_def dict_get_update update_conv')
    ultimately show ?thesis using Some unset by (simp add: check_permission_def new)
  qed
qed

theorem set_permission_effect_witness:
  "\<exists>row'. set_permission [(''web'', [(''fetch'', ''ask'')])] ''fetch'' NEVER (Some ''a.com'')
       (Some (Some (JObj [(''tools'', JObj [(''send'', JStr ''always'')])]))) = Inr row'
     \<and> check_permission row' ''fetch'' (Some ''a.com'') ASK = Inr NEVER
     \<and> check_permission row' ''send'' None ASK = Inr ALWAYS"
proof -
  let ?row = "Some (Some (JObj [(''tools'', JObj [(''send'', JStr ''always'')])]))"
  obtain row' where s: "set_permission [(''web'', [(''fetch'', ''ask'')])] ''fetch'' NEVER (Some ''a.com'') ?row = Inr row'"
    by (simp add: set_permission_def default_tools_def parse_row_data_def set_default_def dict_get_def
        put_override_def)
  have "check_permission ?row ''send'' None ASK = Inr ALWAYS"
    by (simp add: check_permission_def resolve_permission_def resolve_tool_def parse_row_data_def
        dict_get_def parse_level_def)
  then show ?thesis
    using s set_permission_effect [OF s, where other = "''send''" and r = None and d = ASK and dflt = ASK]
    by (auto simp: default_tools_def)
qed

section \<open>NEVER hides a tool\<close>

text \<open>
  A tool set to \<open>NEVER\<close> is off: it is in the set of names the router removes from the model's
  schema, and every name in that set resolves to \<open>NEVER\<close> whatever its default.
\<close>

theorem never_hides_tool:
  assumes "set_permission registry tool_name NEVER None row = Inr row'"
  shows "tool_name \<in> get_never_tool_names row'
     \<and> (\<forall>name \<in> get_never_tool_names row'. check_permission row' name None dflt = Inr NEVER)"
proof -
  obtain data data' where p: "put_override tool_name NEVER None data = Inr data'" and row': "row' = save_permissions data'"
    using assms by (auto simp: set_permission_def and_then_Inr)
  have new: "parse_row_data row' = data'" by (simp add: row' save_permissions_def parse_row_data_def)
  obtain t where "dict_get data' ''tools'' (JObj []) = JObj (AList.update tool_name (JStr ''never'') t)"
    using p by (auto elim: put_override_tool)
  moreover have "check_permission row' name None dflt = Inr NEVER" if "name \<in> get_never_tool_names row'" for name
    using that by (auto simp: get_never_tool_names_def check_permission_def resolve_permission_def
        resolve_tool_def parse_level_def split: json.splits)
  ultimately show ?thesis by (auto simp: get_never_tool_names_def new update_conv' dom_def)
qed

theorem never_hides_tool_witness:
  "\<exists>row'. set_permission [] ''send'' NEVER None None = Inr row' \<and> ''send'' \<in> get_never_tool_names row'"
proof -
  obtain row' where s: "set_permission [] ''send'' NEVER None None = Inr row'"
    by (simp add: set_permission_def default_tools_def parse_row_data_def set_default_def dict_get_def
        put_override_def)
  then show ?thesis using never_hides_tool [OF s] by blast
qed

section \<open>Completing the permissions\<close>

lemma backfill_tools:
  assumes "backfill ds data = Inr (data', changed)" and "dict_get data ''tools'' (JObj []) = JObj t"
  shows "(\<not> changed \<longrightarrow> data' = data) \<and> (\<forall>k y. k \<noteq> ''tools'' \<longrightarrow> dict_get data' k y = dict_get data k y)
    \<and> (\<exists>t'. dict_get data' ''tools'' (JObj []) = JObj t' \<and> map_of t' = map_of ds ++ map_of t)"
  using assms
proof (induction ds data arbitrary: t changed rule: backfill.induct)
  case (2 name level rest data)
  show ?case
  proof (cases "name \<in> dom (map_of t)")
    case True
    then have "backfill rest data = Inr (data', changed)" using 2(3,4) by simp
    then have ih: "(\<not> changed \<longrightarrow> data' = data) \<and> (\<forall>k y. k \<noteq> ''tools'' \<longrightarrow> dict_get data' k y = dict_get data k y)
      \<and> (\<exists>t'. dict_get data' ''tools'' (JObj []) = JObj t' \<and> map_of t' = map_of rest ++ map_of t)"
      using 2(1) [of True, OF TrueI _ 2(4)] by blast
    have "map_of ((name, level) # rest) ++ map_of t = map_of rest ++ map_of t"
      using True by (auto simp: map_add_def fun_eq_iff split: option.splits)
    then show ?thesis using ih by (simp add: fun_upd_def)
  next
    case False
    let ?d = "AList.update ''tools'' (JObj (AList.update name level t)) (set_default ''tools'' (JObj []) data)"
    obtain c where r: "backfill rest ?d = Inr (data', c)" and ch: "changed"
      using 2(3,4) False by (auto simp: and_then_Inr Let_def dict_get_set_default)
    have d: "dict_get ?d ''tools'' (JObj []) = JObj (AList.update name level t)" by (simp add: dict_get_update)
    have ih: "(\<forall>k y. k \<noteq> ''tools'' \<longrightarrow> dict_get data' k y = dict_get ?d k y)
      \<and> (\<exists>t'. dict_get data' ''tools'' (JObj []) = JObj t' \<and> map_of t' = map_of rest ++ map_of (AList.update name level t))"
      using 2(2) [of False, OF _ refl r d] by blast
    have "map_of rest ++ map_of (AList.update name level t) = map_of ((name, level) # rest) ++ map_of t"
      using False by (auto simp: map_add_def fun_eq_iff update_conv' split: option.splits)
    then show ?thesis using ih ch by (auto simp: dict_get_update dict_get_set_default_other fun_upd_def)
  qed
qed simp

lemma backfill_idle:
  assumes "dict_get data ''tools'' (JObj []) = JObj t" and "dom (map_of ds) \<subseteq> dom (map_of t)"
  shows "backfill ds data = Inr (data, False)"
  using assms by (induction ds) auto

text \<open>
  Completing the permissions fills in exactly the missing tools: every tool with a default has
  an entry afterwards, no stored tool resolves differently for any resource, the returned document
  is the one the row now holds, and completing again changes nothing.
\<close>

theorem ensure_complete_fills_missing:
  assumes "ensure_complete registry row = Inr (row', data)"
    and "dict_get (parse_row_data row) ''tools'' (JObj []) = JObj t"
  shows "parse_row_data row' = data \<and> ensure_complete registry row' = Inr (row', data)
     \<and> (\<exists>t'. dict_get data ''tools'' (JObj []) = JObj t'
          \<and> dom (map_of t') = dom (map_of (default_tools registry)) \<union> dom (map_of t))
     \<and> (\<forall>name \<in> dom (map_of t). check_permission row' name r d = check_permission row name r d)"
proof -
  obtain changed where b: "backfill (default_tools registry) (parse_row_data row) = Inr (data, changed)"
    and row': "row' = write_back (data, changed) row"
    using assms(1) by (auto simp: ensure_complete_def complete_permissions_def and_then_Inr)
  note bt = backfill_tools [OF b assms(2)]
  have new: "parse_row_data row' = data"
    using bt by (auto simp: row' write_back_def save_permissions_def parse_row_data_def)
  obtain t' where t': "dict_get data ''tools'' (JObj []) = JObj t'" "map_of t' = map_of (default_tools registry) ++ map_of t"
    using bt by blast
  have "backfill (default_tools registry) data = Inr (data, False)"
    by (rule backfill_idle [OF t'(1)]) (auto simp: t'(2) map_add_def split: option.splits)
  then have again: "ensure_complete registry row' = Inr (row', data)"
    by (simp add: ensure_complete_def complete_permissions_def new write_back_def)
  have "check_permission row' name r d = check_permission row name r d" if "name \<in> dom (map_of t)" for name
    unfolding check_permission_def new
  proof (rule resolve_permission_cong)
    show "resolve_tool data name d = resolve_tool (parse_row_data row) name d"
      using that by (intro resolve_tool_cong [OF t'(1) assms(2)]) (auto simp: t'(2))
  qed (use bt in simp)
  then show ?thesis using new again t' by auto
qed

theorem ensure_complete_fills_missing_witness:
  "\<exists>row' data. ensure_complete [(''web'', [(''fetch'', ''ask'')])]
       (Some (Some (JObj [(''tools'', JObj [(''send'', JStr ''never'')])]))) = Inr (row', data)
     \<and> check_permission row' ''send'' None ASK = Inr NEVER \<and> parse_row_data row' = data"
proof -
  let ?row = "Some (Some (JObj [(''tools'', JObj [(''send'', JStr ''never'')])]))"
  have t: "dict_get (parse_row_data ?row) ''tools'' (JObj []) = JObj [(''send'', JStr ''never'')]"
    by (simp add: parse_row_data_def dict_get_def)
  obtain row' data where e: "ensure_complete [(''web'', [(''fetch'', ''ask'')])] ?row = Inr (row', data)"
    by (simp add: ensure_complete_def complete_permissions_def default_tools_def parse_row_data_def
        set_default_def dict_get_def)
  have "check_permission ?row ''send'' None ASK = Inr NEVER"
    by (simp add: check_permission_def resolve_permission_def resolve_tool_def parse_row_data_def
        dict_get_def parse_level_def)
  then show ?thesis using e ensure_complete_fills_missing [OF e t, of None ASK] by auto
qed

text \<open>
  Completing the permissions can lose an override: its read and its write are two
  transactions, so a \<open>NEVER\<close> that the user sets between them is overwritten by the document read
  before, and the tool asks again instead of being off.
\<close>

theorem ensure_complete_loses_update:
  "\<exists>result row1.
      complete_permissions [(''mail'', [(''send'', ''ask''), (''draft'', ''ask'')])]
        (Some (Some (JObj [(''tools'', JObj [(''send'', JStr ''ask'')])]))) = Inr result
    \<and> set_permission [(''mail'', [(''send'', ''ask''), (''draft'', ''ask'')])] ''send'' NEVER None
        (Some (Some (JObj [(''tools'', JObj [(''send'', JStr ''ask'')])]))) = Inr row1
    \<and> check_permission row1 ''send'' None ASK = Inr NEVER
    \<and> check_permission (write_back result row1) ''send'' None ASK = Inr ASK"
  by (simp add: complete_permissions_def set_permission_def default_tools_def parse_row_data_def
      set_default_def dict_get_def put_override_def save_permissions_def write_back_def
      check_permission_def resolve_permission_def resolve_tool_def parse_level_def)

end
