(* ===== verification/Approval_Gate.thy ===== *)
theory Approval_Gate
  imports Approval_Text
begin

text \<open>
  The approval gate of one user (\<open>approval.py\<close>: \<open>ApprovalGate\<close>, the pending row, the audit log,
  \<open>cleanup_orphaned_approvals\<close>) and how \<open>ingestion.process_inbound_from_bus\<close> feeds replies to it.

  The coroutines of the gate interleave at their awaits, so each stretch between two awaits is one
  action of \<open>gate_step\<close>, a partial function that is \<open>None\<close> where the action is not enabled.  A
  request and its \<open>PendingApproval\<close> object go by their index; a call of \<open>resolve\<close> and a reply
  whose classification is under way do too.  Writes of the pending row and of the log that fail
  are swallowed by the code and are not modelled.  The lemmas hold for every interleaving.
\<close>

section \<open>State\<close>

record pending_approval =
  pa_tool :: string
  pa_description :: string
  pa_event :: bool
  pa_decision :: "approval_decision option"
  pa_prompt :: string
  pa_reprompts :: nat

text \<open>Where a call of \<open>request_approval\<close> stands.\<close>

datatype request_phase =
    Logged                          \<comment> \<open>the \<open>requested\<close> row is written\<close>
  | Persisted                       \<comment> \<open>the pending row is written\<close>
  | Publishing                      \<comment> \<open>registered, the prompt is being sent\<close>
  | Waiting                         \<comment> \<open>in \<open>wait_for\<close>\<close>
  | Unregistered approval_decision bool
      \<comment> \<open>popped from \<open>_pending\<close>; \<open>True\<close> when it timed out\<close>
  | Reporting approval_decision     \<comment> \<open>row deleted, \<open>timed_out\<close> not yet logged\<close>
  | Returned approval_decision

text \<open>Where a call of \<open>resolve\<close> stands.\<close>

datatype resolver_phase = Deleting | Recording | Signalling | Resolved

datatype approval_event =
    Requested nat
  | Decided nat approval_decision
  | TimedOut nat

record approval_gate =
  g_pending :: "nat option"
  g_objects :: "pending_approval list"
  g_phases :: "request_phase list"
  g_resolvers :: "(nat \<times> approval_decision \<times> resolver_phase) list"
  g_replies :: "nat list"
  g_row :: "nat option"
  g_log :: "approval_event list"

definition new_gate :: approval_gate where
  "new_gate = \<lparr>g_pending = None, g_objects = [], g_phases = [], g_resolvers = [], g_replies = [],
     g_row = None, g_log = []\<rparr>"

definition has_pending :: "approval_gate \<Rightarrow> bool" where
  "has_pending g \<longleftrightarrow> g_pending g \<noteq> None"

definition max_approval_reprompts :: nat where
  "max_approval_reprompts = 2"

text \<open>\<open>note_ambiguous_reply\<close>: the prompt to send again, if the cap is not reached.\<close>

definition note_ambiguous_reply :: "approval_gate \<Rightarrow> approval_gate \<times> string option" where
  "note_ambiguous_reply g =
     (case g_pending g of
        None \<Rightarrow> (g, None)
      | Some i \<Rightarrow>
          (let p = g_objects g ! i
           in if pa_reprompts p \<ge> max_approval_reprompts then (g, None)
              else (g\<lparr>g_objects := (g_objects g)[i := p\<lparr>pa_reprompts := pa_reprompts p + 1\<rparr>]\<rparr>, Some (pa_prompt p))))"

text \<open>The synchronous head of \<open>resolve\<close>: the decision is set before the first await.\<close>

definition begin_resolve :: "approval_decision \<Rightarrow> approval_gate \<Rightarrow> approval_gate" where
  "begin_resolve d g =
     (case g_pending g of
        None \<Rightarrow> g
      | Some i \<Rightarrow>
          g\<lparr>g_objects := (g_objects g)[i := (g_objects g ! i)\<lparr>pa_decision := Some d\<rparr>],
            g_resolvers := g_resolvers g @ [(i, d, Deleting)]\<rparr>)"

section \<open>Actions\<close>

datatype gate_action =
    Request string string
  | Persist nat
  | Register nat "string option"
  | Published nat
  | PublishFailed nat
  | Expire nat
  | Wake nat
  | DropRow nat
  | Report nat
  | Resolve approval_decision
  | ResolverDelete nat
  | ResolverRecord nat
  | ResolverSignal nat
  | Reply string
  | Verdict nat classified

definition phase_is :: "approval_gate \<Rightarrow> nat \<Rightarrow> request_phase \<Rightarrow> bool" where
  "phase_is g i ph \<longleftrightarrow> i < length (g_phases g) \<and> g_phases g ! i = ph"

definition resolver_is :: "approval_gate \<Rightarrow> nat \<Rightarrow> resolver_phase \<Rightarrow> bool" where
  "resolver_is g k ph \<longleftrightarrow> k < length (g_resolvers g) \<and> snd (snd (g_resolvers g ! k)) = ph"

definition set_resolver :: "nat \<Rightarrow> resolver_phase \<Rightarrow> approval_gate \<Rightarrow> approval_gate" where
  "set_resolver k ph g =
     g\<lparr>g_resolvers := (g_resolvers g)[k := (fst (g_resolvers g ! k), fst (snd (g_resolvers g ! k)), ph)]\<rparr>"

definition set_phase :: "nat \<Rightarrow> request_phase \<Rightarrow> approval_gate \<Rightarrow> approval_gate" where
  "set_phase i ph g = g\<lparr>g_phases := (g_phases g)[i := ph]\<rparr>"

text \<open>A request leaves the gate: \<open>_pending.pop(user_id, None)\<close>, whoever is registered.\<close>

definition unregister :: "nat \<Rightarrow> approval_decision \<Rightarrow> bool \<Rightarrow> approval_gate \<Rightarrow> approval_gate" where
  "unregister i d timed g = set_phase i (Unregistered d timed) (g\<lparr>g_pending := None\<rparr>)"

text \<open>
  A verdict of the classifier on a reply, applied when it arrives: \<open>resolve\<close> looks up whatever is
  pending then.  An ambiguous reply is re-prompted up to the cap; after it, and for an unrelated
  message, the gate is interrupted.
\<close>

definition apply_verdict :: "classified \<Rightarrow> approval_gate \<Rightarrow> approval_gate" where
  "apply_verdict v g =
     (case v of
        Classified d \<Rightarrow> begin_resolve d g
      | AmbiguousReply \<Rightarrow>
          (case note_ambiguous_reply g of
             (g', Some prompt) \<Rightarrow> g'
           | (g', None) \<Rightarrow> begin_resolve INTERRUPTED g')
      | Unrelated \<Rightarrow> begin_resolve INTERRUPTED g)"

fun gate_step :: "gate_action \<Rightarrow> approval_gate \<Rightarrow> approval_gate option" where
  "gate_step (Request tool description) g =
     Some (g\<lparr>g_objects := g_objects g @
               [\<lparr>pa_tool = tool, pa_description = description, pa_event = False, pa_decision = None,
                 pa_prompt = [], pa_reprompts = 0\<rparr>],
             g_phases := g_phases g @ [Logged],
             g_log := g_log g @ [Requested (length (g_objects g))]\<rparr>)"
| "gate_step (Persist i) g =
     (if phase_is g i Logged then Some (set_phase i Persisted (g\<lparr>g_row := Some i\<rparr>)) else None)"
| "gate_step (Register i prompt) g =
     (if phase_is g i Persisted then
        let p = g_objects g ! i;
            shown = (case prompt of Some t \<Rightarrow> t | None \<Rightarrow> format_approval_message (pa_description p) False None)
        in Some (set_phase i Publishing
                   (g\<lparr>g_pending := Some i, g_objects := (g_objects g)[i := p\<lparr>pa_prompt := shown\<rparr>]\<rparr>))
      else None)"
| "gate_step (Published i) g = (if phase_is g i Publishing then Some (set_phase i Waiting g) else None)"
| "gate_step (PublishFailed i) g =
     (if phase_is g i Publishing then Some (unregister i DENIED False g) else None)"
| "gate_step (Expire i) g =
     (if phase_is g i Waiting \<and> \<not> pa_event (g_objects g ! i) then Some (unregister i DENIED True g) else None)"
| "gate_step (Wake i) g =
     (if phase_is g i Waiting \<and> pa_event (g_objects g ! i)
      then Some (unregister i (case pa_decision (g_objects g ! i) of Some d \<Rightarrow> d | None \<Rightarrow> DENIED) False g)
      else None)"
| "gate_step (DropRow i) g =
     (if i < length (g_phases g) then
        case g_phases g ! i of
          Unregistered d timed \<Rightarrow>
            Some (set_phase i (if timed then Reporting d else Returned d) (g\<lparr>g_row := None\<rparr>))
        | _ \<Rightarrow> None
      else None)"
| "gate_step (Report i) g =
     (if i < length (g_phases g) then
        case g_phases g ! i of
          Reporting d \<Rightarrow> Some (set_phase i (Returned d) (g\<lparr>g_log := g_log g @ [TimedOut i]\<rparr>))
        | _ \<Rightarrow> None
      else None)"
| "gate_step (Resolve d) g = Some (begin_resolve d g)"
| "gate_step (ResolverDelete k) g =
     (if resolver_is g k Deleting then Some (set_resolver k Recording (g\<lparr>g_row := None\<rparr>)) else None)"
| "gate_step (ResolverRecord k) g =
     (if resolver_is g k Recording then
        Some (set_resolver k Signalling
                (g\<lparr>g_log := g_log g @ [Decided (fst (g_resolvers g ! k)) (fst (snd (g_resolvers g ! k)))]\<rparr>))
      else None)"
| "gate_step (ResolverSignal k) g =
     (if resolver_is g k Signalling then
        let i = fst (g_resolvers g ! k)
        in Some (set_resolver k Resolved
                   (g\<lparr>g_objects := (g_objects g)[i := (g_objects g ! i)\<lparr>pa_event := True\<rparr>]\<rparr>))
      else None)"
| "gate_step (Reply text) g =
     (case g_pending g of
        None \<Rightarrow> Some g
      | Some i \<Rightarrow>
          (case parse_approval_response text of
             Some d \<Rightarrow> Some (begin_resolve d g)
           | None \<Rightarrow> Some (g\<lparr>g_replies := g_replies g @ [i]\<rparr>)))"
| "gate_step (Verdict k v) g = (if k < length (g_replies g) then Some (apply_verdict v g) else None)"

fun gate_run :: "gate_action list \<Rightarrow> approval_gate \<Rightarrow> approval_gate option" where
  "gate_run [] g = Some g"
| "gate_run (a # as) g = (case gate_step a g of None \<Rightarrow> None | Some g' \<Rightarrow> gate_run as g')"

inductive gate_reachable :: "approval_gate \<Rightarrow> bool" where
  fresh: "gate_reachable new_gate"
| step: "gate_reachable g \<Longrightarrow> gate_step a g = Some g' \<Longrightarrow> gate_reachable g'"

lemma gate_run_reachable: "gate_reachable g \<Longrightarrow> gate_run as g = Some g' \<Longrightarrow> gate_reachable g'"
  by (induction as arbitrary: g) (auto intro: gate_reachable.step split: option.splits)

section \<open>The routing of an inbound message around the gate\<close>

definition report_prefix :: string where
  "report_prefix = ''/report''"

definition report_reason_max_len :: nat where
  "report_reason_max_len = 4096"

definition parse_report_command :: "string \<Rightarrow> string option" where
  "parse_report_command text =
     (if text = [] then None
      else let stripped = py_strip text
           in if \<not> prefix report_prefix (py_lower stripped) then None
              else let rest = drop (length report_prefix) stripped
                   in if rest \<noteq> [] \<and> \<not> is_space (hd rest) then None
                      else Some (take report_reason_max_len (py_strip rest)))"

text \<open>What happens to an inbound message of a user whose channel is enabled.\<close>

datatype inbound_route =
    FileReport string
  | Consume approval_decision
  | Reprompt string
  | InterruptThenDispatch
  | Dispatch

text \<open>The verdict is the classifier's; it is consulted only when the fast path finds nothing.\<close>

definition route_inbound :: "string \<Rightarrow> bool \<Rightarrow> classified \<Rightarrow> approval_gate \<Rightarrow> inbound_route \<times> approval_gate" where
  "route_inbound text has_media verdict g =
     (case parse_report_command text of
        Some reason \<Rightarrow> (FileReport reason, g)
      | None \<Rightarrow>
          if \<not> (has_pending g \<and> text \<noteq> [] \<and> \<not> has_media) then (Dispatch, g)
          else let decision = (case parse_approval_response text of Some d \<Rightarrow> Classified d | None \<Rightarrow> verdict)
               in case decision of
                    Classified d \<Rightarrow> (Consume d, begin_resolve d g)
                  | AmbiguousReply \<Rightarrow>
                      (case note_ambiguous_reply g of
                         (g', Some prompt) \<Rightarrow>
                           (Reprompt (''Sorry, I didn'' @ [CHR 0x27] @ ''t catch that as a yes or no.'' @ [nl, nl] @ prompt), g')
                       | (g', None) \<Rightarrow> (InterruptThenDispatch, begin_resolve INTERRUPTED g'))
                  | Unrelated \<Rightarrow> (InterruptThenDispatch, begin_resolve INTERRUPTED g))"

section \<open>Orphans of a dead worker\<close>

record pending_row =
  pr_user :: string
  pr_tool :: string
  pr_channel :: string
  pr_chat :: string
  pr_created :: "int option"

definition orphan_max_age :: int where
  \<comment> \<open>one hour, in microseconds\<close>
  "orphan_max_age = 60 * 60 * 1000000"

text \<open>
  One pass over the rows: the rows left, the rows whose user was sent the recovery message.
  \<open>publish\<close> says whether the send of the message for a row succeeds.
\<close>

fun sweep_orphans ::
  "(pending_row \<Rightarrow> bool) \<Rightarrow> int \<Rightarrow> pending_row list \<Rightarrow> pending_row list \<times> pending_row list" where
  "sweep_orphans publish now [] = ([], [])"
| "sweep_orphans publish now (r # rows) =
     (let (left, recovered) = sweep_orphans publish now rows;
          expired = (case pr_created r of Some t \<Rightarrow> now - t > orphan_max_age | None \<Rightarrow> False)
      in if pr_channel r = [] \<or> pr_chat r = [] then (left, recovered)
         else if publish r then (left, r # recovered)
         else if expired then (left, recovered)
         else (r # left, recovered))"

definition cleanup_orphaned_approvals ::
  "bool \<Rightarrow> (pending_row \<Rightarrow> bool) \<Rightarrow> int \<Rightarrow> pending_row list \<Rightarrow> pending_row list \<times> pending_row list" where
  "cleanup_orphaned_approvals got_lock publish now rows =
     (if got_lock then sweep_orphans publish now rows else (rows, []))"

section \<open>Invariants of every interleaving\<close>

definition inv_shape :: "approval_gate \<Rightarrow> bool" where
  "inv_shape g \<longleftrightarrow> length (g_phases g) = length (g_objects g)
     \<and> (\<forall>i. g_pending g = Some i \<longrightarrow> i < length (g_objects g))
     \<and> (\<forall>i d ph. (i, d, ph) \<in> set (g_resolvers g) \<longrightarrow> i < length (g_objects g))
     \<and> (\<forall>i < length (g_objects g). Requested i \<in> set (g_log g))
     \<and> (\<forall>i < length (g_objects g). pa_reprompts (g_objects g ! i) \<le> max_approval_reprompts)"

text \<open>Every decision in an object, or on its way out of a request, was passed to \<open>resolve\<close> for it.\<close>

definition decided_for :: "approval_gate \<Rightarrow> nat \<Rightarrow> approval_decision \<Rightarrow> bool" where
  "decided_for g i d \<longleftrightarrow> (\<exists>ph. (i, d, ph) \<in> set (g_resolvers g))"

fun phase_decision :: "request_phase \<Rightarrow> approval_decision option" where
  "phase_decision (Unregistered d timed) = Some d"
| "phase_decision (Reporting d) = Some d"
| "phase_decision (Returned d) = Some d"
| "phase_decision ph = None"

definition inv_decision :: "approval_gate \<Rightarrow> bool" where
  "inv_decision g \<longleftrightarrow>
     (\<forall>i < length (g_objects g). \<forall>d. pa_decision (g_objects g ! i) = Some d \<longrightarrow> decided_for g i d)
     \<and> (\<forall>i < length (g_phases g). \<forall>d. phase_decision (g_phases g ! i) = Some d \<longrightarrow> d = DENIED \<or> decided_for g i d)"

definition logged_decision :: "approval_gate \<Rightarrow> nat \<Rightarrow> bool" where
  "logged_decision g i \<longleftrightarrow> (\<exists>d. Decided i d \<in> set (g_log g))"

definition inv_logged :: "approval_gate \<Rightarrow> bool" where
  "inv_logged g \<longleftrightarrow>
     (\<forall>(i, d, ph) \<in> set (g_resolvers g). ph \<in> {Signalling, Resolved} \<longrightarrow> logged_decision g i)
     \<and> (\<forall>i < length (g_objects g). pa_event (g_objects g ! i) \<longrightarrow> logged_decision g i)
     \<and> (\<forall>i < length (g_phases g). \<forall>d. phase_decision (g_phases g ! i) = Some d \<and> d \<noteq> DENIED \<longrightarrow> logged_decision g i)"

text \<open>No outcome of a request stands in the log before the request itself.\<close>

fun log_ordered :: "nat set \<Rightarrow> approval_event list \<Rightarrow> bool" where
  "log_ordered seen [] = True"
| "log_ordered seen (Requested i # es) = log_ordered (insert i seen) es"
| "log_ordered seen (Decided i d # es) = (i \<in> seen \<and> log_ordered seen es)"
| "log_ordered seen (TimedOut i # es) = (i \<in> seen \<and> log_ordered seen es)"

lemmas gate_defs = phase_is_def resolver_is_def set_phase_def set_resolver_def unregister_def begin_resolve_def
  note_ambiguous_reply_def apply_verdict_def

lemma begin_resolve_simps [simp]:
  "g_pending (begin_resolve d g) = g_pending g" "g_phases (begin_resolve d g) = g_phases g"
  "g_log (begin_resolve d g) = g_log g" "g_row (begin_resolve d g) = g_row g"
  "length (g_objects (begin_resolve d g)) = length (g_objects g)"
  by (auto simp: begin_resolve_def split: option.splits)

lemma note_simps [simp]:
  "g_pending (fst (note_ambiguous_reply g)) = g_pending g" "g_phases (fst (note_ambiguous_reply g)) = g_phases g"
  "g_log (fst (note_ambiguous_reply g)) = g_log g" "g_row (fst (note_ambiguous_reply g)) = g_row g"
  "g_resolvers (fst (note_ambiguous_reply g)) = g_resolvers g"
  "length (g_objects (fst (note_ambiguous_reply g))) = length (g_objects g)"
  by (auto simp: note_ambiguous_reply_def Let_def split: option.splits)

lemma set_phase_simps [simp]:
  "g_pending (set_phase i ph g) = g_pending g" "g_objects (set_phase i ph g) = g_objects g"
  "g_resolvers (set_phase i ph g) = g_resolvers g" "g_log (set_phase i ph g) = g_log g"
  "g_row (set_phase i ph g) = g_row g" "g_phases (set_phase i ph g) = (g_phases g)[i := ph]"
  by (simp_all add: set_phase_def)

lemma set_resolver_simps [simp]:
  "g_pending (set_resolver k ph g) = g_pending g" "g_objects (set_resolver k ph g) = g_objects g"
  "g_phases (set_resolver k ph g) = g_phases g" "g_log (set_resolver k ph g) = g_log g"
  "g_row (set_resolver k ph g) = g_row g"
  by (simp_all add: set_resolver_def)

lemma unregister_simps [simp]:
  "g_pending (unregister i d t g) = None" "g_objects (unregister i d t g) = g_objects g"
  "g_resolvers (unregister i d t g) = g_resolvers g" "g_log (unregister i d t g) = g_log g"
  "g_row (unregister i d t g) = g_row g" "g_phases (unregister i d t g) = (g_phases g)[i := Unregistered d t]"
  by (simp_all add: unregister_def)

lemma verdict_cases:
  obtains (resolved) d where "apply_verdict v g = begin_resolve d g"
  | (noted) "apply_verdict v g = fst (note_ambiguous_reply g)"
proof (cases v)
  case AmbiguousReply
  show ?thesis
  proof (cases "snd (note_ambiguous_reply g)")
    case None
    then have "fst (note_ambiguous_reply g) = g"
      by (auto simp: note_ambiguous_reply_def Let_def split: option.splits if_splits)
    then have "apply_verdict v g = begin_resolve INTERRUPTED g"
      using AmbiguousReply None by (simp add: apply_verdict_def split_beta)
    then show ?thesis by (rule resolved)
  next
    case (Some p)
    then show ?thesis
      using AmbiguousReply noted by (simp add: apply_verdict_def split_beta)
  qed
qed (use resolved in \<open>auto simp: apply_verdict_def\<close>)

text \<open>The steps that change more than a phase, in three groups.\<close>

lemma gate_step_cases [consumes 1, case_names request phase object resolver]:
  assumes "gate_step a g = Some g'"
  obtains (request) tool desc where "a = Request tool desc"
  | (phase) i ph where "i < length (g_phases g)" and "g_phases g' = (g_phases g)[i := ph]"
      and "g_resolvers g' = g_resolvers g"
      and "g_log g' = g_log g \<or> g_log g' = g_log g @ [TimedOut i]"
      and "phase_decision ph = phase_decision (g_phases g ! i) \<or> phase_decision ph = Some DENIED
         \<or> (phase_decision ph = pa_decision (g_objects g ! i) \<and> pa_event (g_objects g ! i))"
      and "g_pending g' = None \<or> g_pending g' = g_pending g \<or> g_pending g' = Some i"
      and "g_objects g' = g_objects g
         \<or> (\<exists>t. g_objects g' = (g_objects g)[i := (g_objects g ! i)\<lparr>pa_prompt := t\<rparr>])"
  | (object) d where "g' = begin_resolve d g \<or> g' = fst (note_ambiguous_reply g)
       \<or> g' = g \<or> (\<exists>i. g' = g\<lparr>g_replies := g_replies g @ [i]\<rparr>)"
  | (resolver) k i d ph ph' where "k < length (g_resolvers g)" and "g_resolvers g ! k = (i, d, ph)"
      and "g_resolvers g' = (g_resolvers g)[k := (i, d, ph')]"
      and "g_phases g' = g_phases g" and "g_pending g' = g_pending g"
      and "(ph, ph') = (Deleting, Recording) \<and> g_log g' = g_log g \<and> g_objects g' = g_objects g
         \<or> (ph, ph') = (Recording, Signalling) \<and> g_log g' = g_log g @ [Decided i d] \<and> g_objects g' = g_objects g
         \<or> (ph, ph') = (Signalling, Resolved) \<and> g_log g' = g_log g
             \<and> g_objects g' = (g_objects g)[i := (g_objects g ! i)\<lparr>pa_event := True\<rparr>]"
proof (cases a)
  case (Request tool desc)
  then show ?thesis by (rule request)
next
  case (Persist i)
  then show ?thesis
    by (intro phase [of i Persisted]) (use assms in \<open>auto simp: phase_is_def split: if_splits\<close>)
next
  case (Register i prompt)
  then show ?thesis
    by (intro phase [of i Publishing]) (use assms in \<open>auto simp: phase_is_def Let_def split: if_splits\<close>)
next
  case (Published i)
  then show ?thesis
    by (intro phase [of i Waiting]) (use assms in \<open>auto simp: phase_is_def split: if_splits\<close>)
next
  case (PublishFailed i)
  then show ?thesis
    by (intro phase [of i "Unregistered DENIED False"]) (use assms in \<open>auto simp: phase_is_def split: if_splits\<close>)
next
  case (Expire i)
  then show ?thesis
    by (intro phase [of i "Unregistered DENIED True"]) (use assms in \<open>auto simp: phase_is_def split: if_splits\<close>)
next
  case (Wake i)
  then show ?thesis
    by (intro phase [of i "Unregistered (case pa_decision (g_objects g ! i) of Some d \<Rightarrow> d | None \<Rightarrow> DENIED) False"])
      (use assms in \<open>auto simp: phase_is_def split: if_splits option.splits\<close>)
next
  case (DropRow i)
  then obtain d timed where "i < length (g_phases g)" "g_phases g ! i = Unregistered d timed"
    "g' = set_phase i (if timed then Reporting d else Returned d) (g\<lparr>g_row := None\<rparr>)"
    using assms by (auto split: if_splits request_phase.splits)
  then show ?thesis
    by (intro phase [of i "if timed then Reporting d else Returned d"]) auto
next
  case (Report i)
  then obtain d where "i < length (g_phases g)" "g_phases g ! i = Reporting d"
    "g' = set_phase i (Returned d) (g\<lparr>g_log := g_log g @ [TimedOut i]\<rparr>)"
    using assms by (auto split: if_splits request_phase.splits)
  then show ?thesis by (intro phase [of i "Returned d"]) auto
next
  case (Resolve d)
  then show ?thesis by (intro object [of d]) (use assms in simp)
next
  case (ResolverDelete k)
  then show ?thesis
    by (intro resolver [of k "fst (g_resolvers g ! k)" "fst (snd (g_resolvers g ! k))" Deleting Recording])
      (use assms in \<open>auto simp: resolver_is_def set_resolver_def prod_eq_iff split: if_splits\<close>)
next
  case (ResolverRecord k)
  then show ?thesis
    by (intro resolver [of k "fst (g_resolvers g ! k)" "fst (snd (g_resolvers g ! k))" Recording Signalling])
      (use assms in \<open>auto simp: resolver_is_def set_resolver_def prod_eq_iff split: if_splits\<close>)
next
  case (ResolverSignal k)
  then show ?thesis
    by (intro resolver [of k "fst (g_resolvers g ! k)" "fst (snd (g_resolvers g ! k))" Signalling Resolved])
      (use assms in \<open>auto simp: resolver_is_def set_resolver_def Let_def prod_eq_iff split: if_splits\<close>)
next
  case (Reply t)
  then show ?thesis using assms object by (auto split: option.splits)
next
  case (Verdict k v)
  then have "g' = apply_verdict v g" using assms by (simp split: if_splits)
  then show ?thesis using verdict_cases [of v g] object by metis
qed

lemma inv_shape_begin: "inv_shape g \<Longrightarrow> inv_shape (begin_resolve d g)"
  unfolding inv_shape_def
  by (cases "g_pending g") (auto simp: begin_resolve_def nth_list_update)

lemma inv_shape_note: "inv_shape g \<Longrightarrow> inv_shape (fst (note_ambiguous_reply g))"
  unfolding inv_shape_def
  by (cases "g_pending g") (auto simp: note_ambiguous_reply_def Let_def nth_list_update)

lemma inv_shape_step:
  assumes "gate_step a g = Some g'" and "inv_shape g"
  shows "inv_shape g'"
  using assms(1)
proof (cases rule: gate_step_cases)
  case (request tool desc)
  then show ?thesis using assms by (fastforce simp: inv_shape_def nth_append less_Suc_eq)
next
  case (phase i ph)
  have "\<forall>j < length (g_objects g'). pa_reprompts (g_objects g' ! j) \<le> max_approval_reprompts"
    using phase(1,7) assms(2) unfolding inv_shape_def by (auto simp: nth_list_update split: if_splits)
  moreover have len: "length (g_objects g') = length (g_objects g)" using phase(7) by auto
  moreover have "\<forall>j. g_pending g' = Some j \<longrightarrow> j < length (g_objects g')"
    using phase(1,6) assms(2) len unfolding inv_shape_def by auto
  moreover have "set (g_log g) \<subseteq> set (g_log g')" using phase(4) by auto
  ultimately show ?thesis
    using phase(2,3) assms(2) unfolding inv_shape_def by (simp add: subset_iff)
next
  case (object d)
  have "inv_shape (g\<lparr>g_replies := rs\<rparr>)" for rs using assms(2) by (simp add: inv_shape_def)
  then show ?thesis
    using object assms(2) inv_shape_begin inv_shape_note by blast
next
  case (resolver k i d ph ph')
  have i: "i < length (g_objects g)"
    using assms(2) resolver(1,2) unfolding inv_shape_def by (metis nth_mem)
  moreover have "\<forall>j < length (g_objects g'). pa_reprompts (g_objects g' ! j) \<le> max_approval_reprompts"
    using resolver(6) assms(2) i unfolding inv_shape_def by (auto simp: nth_list_update)
  moreover have "length (g_objects g') = length (g_objects g)" using resolver(6) by auto
  moreover have "set (g_resolvers g') \<subseteq> insert (i, d, ph') (set (g_resolvers g))"
    unfolding resolver(3) by (rule set_update_subset_insert)
  ultimately show ?thesis
    using assms(2) resolver(4-6) unfolding inv_shape_def by fastforce
qed

lemma decided_for_mono:
  "set (g_resolvers g) \<subseteq> set (g_resolvers g') \<Longrightarrow> decided_for g i d \<Longrightarrow> decided_for g' i d"
  by (auto simp: decided_for_def)

lemma decided_for_resolver:
  assumes "g_resolvers g ! k = (i, d, ph)" and "k < length (g_resolvers g)"
    and "g_resolvers g' = (g_resolvers g)[k := (i, d, ph')]"
  shows "decided_for g' j e = decided_for g j e"
proof -
  have "map (\<lambda>(i, d, ph). (i, d)) (g_resolvers g') = map (\<lambda>(i, d, ph). (i, d)) (g_resolvers g)"
    using assms by (simp add: map_update list_update_same_conv)
  then have "(\<lambda>(i, d, ph). (i, d)) ` set (g_resolvers g') = (\<lambda>(i, d, ph). (i, d)) ` set (g_resolvers g)"
    by (metis list.set_map)
  then show ?thesis unfolding decided_for_def by (force simp: image_iff set_eq_iff)
qed

lemma inv_decision_step:
  assumes "gate_step a g = Some g'" and "inv_shape g" and "inv_decision g"
  shows "inv_decision g'"
  using assms(1)
proof (cases rule: gate_step_cases)
  case (request tool desc)
  then show ?thesis
    using assms by (fastforce simp: inv_decision_def inv_shape_def decided_for_def nth_append less_Suc_eq)
next
  case (phase i ph)
  have same: "decided_for g' j d = decided_for g j d" for j d using phase(3) by (simp add: decided_for_def)
  have i: "i < length (g_objects g)" using phase(1) assms(2) by (simp add: inv_shape_def)
  have "phase_decision ph = Some d \<Longrightarrow> d = DENIED \<or> decided_for g i d" for d
    using phase(1,5) assms(3) i unfolding inv_decision_def by (metis option.inject)
  then show ?thesis
    using phase(1,2,7) assms(2,3) i unfolding inv_decision_def same inv_shape_def
    by (auto simp: nth_list_update split: if_splits)
next
  case (object d)
  have "inv_decision (begin_resolve d g)"
    using assms(2,3) by (cases "g_pending g")
      (auto simp: begin_resolve_def inv_decision_def inv_shape_def decided_for_def nth_list_update)
  moreover have "inv_decision (fst (note_ambiguous_reply g))"
    using assms(2,3) by (cases "g_pending g")
      (auto simp: note_ambiguous_reply_def Let_def inv_decision_def inv_shape_def decided_for_def nth_list_update)
  ultimately show ?thesis
    using object assms(3) by (auto simp: inv_decision_def decided_for_def)
next
  case (resolver k i d ph ph')
  note same = decided_for_resolver [OF resolver(2,1,3)]
  have "i < length (g_objects g)"
    using assms(2) resolver(1,2) unfolding inv_shape_def by (metis nth_mem)
  then show ?thesis
    using resolver(4,6) assms(3) unfolding inv_decision_def same
    by (auto simp: nth_list_update split: if_splits)
qed

lemma logged_mono: "set (g_log g) \<subseteq> set (g_log g') \<Longrightarrow> logged_decision g i \<Longrightarrow> logged_decision g' i"
  by (auto simp: logged_decision_def)

lemma inv_logged_step:
  assumes "gate_step a g = Some g'" and "inv_shape g" and "inv_logged g"
  shows "inv_logged g'"
  using assms(1)
proof (cases rule: gate_step_cases)
  case (request tool desc)
  then show ?thesis
    using assms by (auto simp: inv_logged_def inv_shape_def logged_decision_def nth_append less_Suc_eq)
next
  case (phase i ph)
  have same: "logged_decision g' j = logged_decision g j" for j
    using phase(4) by (auto simp: logged_decision_def)
  have i: "i < length (g_objects g)" using phase(1) assms(2) by (simp add: inv_shape_def)
  have "phase_decision ph = Some d \<Longrightarrow> d \<noteq> DENIED \<Longrightarrow> logged_decision g i" for d
    using phase(1,5) assms(3) i by (auto simp: inv_logged_def)
  then show ?thesis
    using phase(1,2,3,7) assms(2,3) i unfolding inv_logged_def same inv_shape_def
    by (auto simp: nth_list_update split: if_splits)
next
  case (object d)
  have "inv_logged (begin_resolve d g)"
    using assms(2,3) by (cases "g_pending g")
      (auto simp: begin_resolve_def inv_logged_def inv_shape_def logged_decision_def nth_list_update)
  moreover have "inv_logged (fst (note_ambiguous_reply g))"
    using assms(2,3) by (cases "g_pending g")
      (auto simp: note_ambiguous_reply_def Let_def inv_logged_def inv_shape_def logged_decision_def nth_list_update)
  ultimately show ?thesis
    using object assms(3) by (auto simp: inv_logged_def logged_decision_def)
next
  case (resolver k i d ph ph')
  have i: "i < length (g_objects g)"
    using assms(2) resolver(1,2) unfolding inv_shape_def by (metis nth_mem)
  have sub: "set (g_log g) \<subseteq> set (g_log g')" using resolver(6) by auto
  have "(i, d, ph) \<in> set (g_resolvers g)" using resolver(1,2) by (metis nth_mem)
  then have here: "logged_decision g' i" if "ph' \<in> {Signalling, Resolved}"
    using that resolver(6) assms(3) logged_mono [OF sub]
    by (auto simp: inv_logged_def logged_decision_def)
  have "set (g_resolvers g') \<subseteq> insert (i, d, ph') (set (g_resolvers g))"
    unfolding resolver(3) by (rule set_update_subset_insert)
  then have "\<forall>(j, e, q) \<in> set (g_resolvers g'). q \<in> {Signalling, Resolved} \<longrightarrow> logged_decision g' j"
    using assms(3) here logged_mono [OF sub] unfolding inv_logged_def by fastforce
  moreover have "\<forall>j < length (g_objects g'). pa_event (g_objects g' ! j) \<longrightarrow> logged_decision g' j"
    using resolver(6) assms(3) here logged_mono [OF sub] i unfolding inv_logged_def
    by (auto simp: nth_list_update split: if_splits)
  ultimately show ?thesis
    using resolver(4) assms(3) logged_mono [OF sub] unfolding inv_logged_def by metis
qed

lemma log_ordered_append:
  "log_ordered seen (es @ fs) \<longleftrightarrow> log_ordered seen es \<and> log_ordered (seen \<union> {i. Requested i \<in> set es}) fs"
proof (induction es arbitrary: seen)
  case (Cons e es)
  have "insert i seen \<union> {j. Requested j \<in> set es} = seen \<union> {j. j = i \<or> Requested j \<in> set es}" for i by auto
  then show ?case using Cons by (cases e) simp_all
qed simp

lemma log_ordered_step:
  assumes "gate_step a g = Some g'" and "inv_shape g" and "log_ordered {} (g_log g)"
  shows "log_ordered {} (g_log g')"
  using assms(1)
proof (cases rule: gate_step_cases)
  case (request tool desc)
  then show ?thesis using assms by (auto simp: log_ordered_append)
next
  case (phase i ph)
  then have "Requested i \<in> set (g_log g)" using assms(2) by (simp add: inv_shape_def)
  then show ?thesis using phase(4) assms(3) by (auto simp: log_ordered_append)
next
  case (object d)
  then show ?thesis using assms(3) by auto
next
  case (resolver k i d ph ph')
  have "Requested i \<in> set (g_log g)"
    using assms(2) resolver(1,2) unfolding inv_shape_def by (metis nth_mem)
  then show ?thesis using resolver(6) assms(3) by (auto simp: log_ordered_append)
qed

lemma gate_invariant:
  "gate_reachable g \<Longrightarrow> inv_shape g \<and> inv_decision g \<and> inv_logged g \<and> log_ordered {} (g_log g)"
proof (induction rule: gate_reachable.induct)
  case fresh
  show ?case by (simp add: new_gate_def inv_shape_def inv_decision_def inv_logged_def)
next
  case (step g a g')
  then show ?case
    using inv_shape_step inv_decision_step inv_logged_step log_ordered_step by blast
qed

section \<open>Properties\<close>


definition approved_run :: "gate_action list" where
  "approved_run = [Request ''send'' ''email Ann'', Persist 0, Register 0 None, Published 0, Reply ''yes'',
     ResolverDelete 0, ResolverRecord 0, ResolverSignal 0, Wake 0, DropRow 0]"

lemma parse_yes: "parse_approval_response ''yes'' = Some APPROVED"
  by code_simp

lemma gate_run_new: "gate_run as new_gate = Some g \<Longrightarrow> gate_reachable g"
  by (rule gate_run_reachable [OF gate_reachable.fresh])


text \<open>
  The audit log is in order: no outcome of a request, decided or timed out, is logged before
  the request itself.
\<close>

theorem audit_log_ordered:
  assumes "gate_reachable g" and "g_log g = before @ e # after" and "e = Decided i d \<or> e = TimedOut i"
  shows "Requested i \<in> set before"
proof -
  have "log_ordered {} (before @ e # after)" using gate_invariant [OF assms(1)] assms(2) by simp
  then show ?thesis using assms(3) by (auto simp: log_ordered_append)
qed

theorem audit_log_ordered_witness:
  "\<exists>g. gate_run approved_run new_gate = Some g \<and> g_log g = [Requested 0] @ Decided 0 APPROVED # []
     \<and> Requested 0 \<in> set [Requested 0]"
proof -
  obtain g where g: "gate_run approved_run new_gate = Some g" "g_log g = [Requested 0] @ Decided 0 APPROVED # []"
    by (simp add: approved_run_def new_gate_def gate_defs parse_yes Let_def eval_nat_numeral)
  then show ?thesis using audit_log_ordered [OF gate_run_new [OF g(1)] g(2)] by blast
qed

text \<open>The actions of a request itself; a \<open>Published\<close> stands for the send, which ends one way or the other.\<close>

definition own_action :: "nat \<Rightarrow> gate_action \<Rightarrow> bool" where
  "own_action i a \<longleftrightarrow> a \<in> {Persist i, Register i None, Published i, Expire i, Wake i, DropRow i, Report i}"

fun phase_rank :: "request_phase \<Rightarrow> nat" where
  "phase_rank Logged = 6"
| "phase_rank Persisted = 5"
| "phase_rank Publishing = 4"
| "phase_rank Waiting = 3"
| "phase_rank (Unregistered d timed) = (if timed then 2 else 1)"
| "phase_rank (Reporting d) = 1"
| "phase_rank (Returned d) = 0"

lemma own_action_enabled:
  assumes "i < length (g_phases g)" and "\<nexists>d. g_phases g ! i = Returned d"
  shows "\<exists>a g'. own_action i a \<and> gate_step a g = Some g' \<and> i < length (g_phases g')
     \<and> phase_rank (g_phases g' ! i) < phase_rank (g_phases g ! i)"
proof (cases "g_phases g ! i")
  case Logged
  then show ?thesis using assms(1) by (intro exI [of _ "Persist i"]) (simp add: own_action_def phase_is_def)
next
  case Persisted
  then show ?thesis using assms(1)
    by (intro exI [of _ "Register i None"]) (simp add: own_action_def phase_is_def Let_def)
next
  case Publishing
  then show ?thesis using assms(1) by (intro exI [of _ "Published i"]) (simp add: own_action_def phase_is_def)
next
  case Waiting
  then show ?thesis using assms(1)
    by (intro exI [of _ "if pa_event (g_objects g ! i) then Wake i else Expire i"])
      (simp add: own_action_def phase_is_def)
next
  case (Unregistered d timed)
  then show ?thesis using assms(1) by (intro exI [of _ "DropRow i"]) (simp add: own_action_def)
next
  case (Reporting d)
  then show ?thesis using assms(1) by (intro exI [of _ "Report i"]) (simp add: own_action_def)
qed (use assms(2) in blast)

text \<open>
  C33. A request never blocks for good: whatever the users and the other coroutines do, at most six
  actions of its own (the last of them a timeout, if nothing else came) make it return.
\<close>

theorem request_always_returns:
  assumes "gate_reachable g" and "i < length (g_phases g)"
  shows "\<exists>as g' d. length as \<le> 6 \<and> (\<forall>a \<in> set as. own_action i a) \<and> gate_run as g = Some g'
     \<and> g_phases g' ! i = Returned d"
proof -
  have "\<exists>as g' d. length as \<le> n \<and> (\<forall>a \<in> set as. own_action i a) \<and> gate_run as g = Some g' \<and> g_phases g' ! i = Returned d"
    if "phase_rank (g_phases g ! i) \<le> n" and "i < length (g_phases g)" for n g
    using that
  proof (induction n arbitrary: g)
    case 0
    then obtain d where "g_phases g ! i = Returned d" by (cases "g_phases g ! i") (auto split: if_splits)
    then show ?case by (intro exI [of _ "[]"] exI [of _ g] exI [of _ d]) simp
  next
    case (Suc n)
    show ?case
    proof (cases "\<exists>d. g_phases g ! i = Returned d")
      case True
      then show ?thesis by (auto intro!: exI [of _ "[]"])
    next
      case False
      then obtain a g1 where a: "own_action i a" "gate_step a g = Some g1" "i < length (g_phases g1)"
        "phase_rank (g_phases g1 ! i) < phase_rank (g_phases g ! i)"
        using own_action_enabled [OF Suc.prems(2)] by blast
      then obtain as g' d where "length as \<le> n" "\<forall>a \<in> set as. own_action i a" "gate_run as g1 = Some g'"
        "g_phases g' ! i = Returned d" using Suc.IH [of g1] Suc.prems(1) by force
      then show ?thesis using a by (intro exI [of _ "a # as"] exI [of _ g'] exI [of _ d]) simp
    qed
  qed
  moreover have "phase_rank (g_phases g ! i) \<le> 6" by (cases "g_phases g ! i") auto
  ultimately show ?thesis using assms(2) by blast
qed

theorem request_always_returns_witness:
  "\<exists>as g' d. length as \<le> 6 \<and> list_all (own_action 0) as
     \<and> gate_run as (the (gate_step (Request ''t'' ''d'') new_gate)) = Some g' \<and> g_phases g' ! 0 = Returned d"
proof -
  have "gate_step (Request ''t'' ''d'') new_gate = Some (the (gate_step (Request ''t'' ''d'') new_gate))" by simp
  then have "gate_reachable (the (gate_step (Request ''t'' ''d'') new_gate))"
    by (rule gate_reachable.step [OF gate_reachable.fresh])
  from request_always_returns [OF this, of 0] show ?thesis by (simp add: new_gate_def list_all_iff)
qed

section \<open>One request at a time\<close>

text \<open>
  The turns of a user run under one lock, and a turn asks one question at a time: a request starts
  when the earlier ones have returned.  Replies, classifications and resolvers still interleave.
\<close>

definition all_returned :: "approval_gate \<Rightarrow> bool" where
  "all_returned g \<longleftrightarrow> (\<forall>ph \<in> set (g_phases g). \<exists>d. ph = Returned d)"

inductive serial_reachable :: "approval_gate \<Rightarrow> bool" where
  serial_fresh: "serial_reachable new_gate"
| serial_request: "serial_reachable g \<Longrightarrow> all_returned g \<Longrightarrow> gate_step (Request tool desc) g = Some g' \<Longrightarrow>
    serial_reachable g'"
| serial_step: "serial_reachable g \<Longrightarrow> gate_step a g = Some g' \<Longrightarrow> (\<nexists>tool desc. a = Request tool desc) \<Longrightarrow>
    serial_reachable g'"

fun holds_row :: "request_phase \<Rightarrow> bool" where
  "holds_row Logged = False"
| "holds_row (Reporting d) = False"
| "holds_row (Returned d) = False"
| "holds_row ph = True"

fun registered :: "request_phase \<Rightarrow> bool" where
  "registered Publishing = True"
| "registered Waiting = True"
| "registered ph = False"

definition inv_serial :: "approval_gate \<Rightarrow> bool" where
  "inv_serial g \<longleftrightarrow>
     (\<forall>i < length (g_phases g). (\<nexists>d. g_phases g ! i = Returned d) \<longrightarrow> Suc i = length (g_phases g))
     \<and> (\<forall>i. g_pending g = Some i \<longleftrightarrow> i < length (g_phases g) \<and> registered (g_phases g ! i))
     \<and> (g_row g \<noteq> None \<longrightarrow> (\<exists>i < length (g_phases g). holds_row (g_phases g ! i)))"

lemma inv_serial_cong:
  assumes "inv_serial g" and "g_phases g' = g_phases g" and "g_pending g' = g_pending g"
    and "g_row g' = g_row g \<or> g_row g' = None"
  shows "inv_serial g'"
  using assms by (auto simp: inv_serial_def)

lemma inv_serial_phase:
  assumes "inv_serial g" and "i < length (g_phases g)" and "\<nexists>d. g_phases g ! i = Returned d"
    and "g_phases g' = (g_phases g)[i := ph]" and "g_pending g' = (if registered ph then Some i else None)"
    and "g_row g' = None \<or> holds_row ph"
  shows "inv_serial g'"
proof -
  have last: "Suc i = length (g_phases g)" using assms(1-3) by (simp add: inv_serial_def)
  have others: "\<exists>d. g_phases g ! j = Returned d" if "j < length (g_phases g)" "j \<noteq> i" for j
    using assms(1) that last unfolding inv_serial_def by (metis nat.inject)
  have unreg: "\<not> registered (g_phases g ! j)" if "j < length (g_phases g)" "j \<noteq> i" for j
    using others [OF that] by auto
  show ?thesis
    unfolding inv_serial_def assms(4)
  proof (intro conjI allI impI)
    fix j assume "j < length ((g_phases g)[i := ph])" "\<nexists>d. (g_phases g)[i := ph] ! j = Returned d"
    then show "Suc j = length ((g_phases g)[i := ph])" using others [of j] last by (cases "j = i") auto
  next
    fix j
    show "(g_pending g' = Some j) = (j < length ((g_phases g)[i := ph]) \<and> registered ((g_phases g)[i := ph] ! j))"
      using assms(2,5) unreg [of j] by (cases "j = i") auto
  next
    assume "g_row g' \<noteq> None"
    then show "\<exists>j < length ((g_phases g)[i := ph]). holds_row ((g_phases g)[i := ph] ! j)"
      using assms(2,6) by (intro exI [of _ i]) auto
  qed
qed

lemma inv_serial_current:
  assumes "inv_serial g" and "i < length (g_phases g)" and "\<nexists>d. g_phases g ! i = Returned d"
  shows "g_pending g = (if registered (g_phases g ! i) then Some i else None)"
    and "g_row g \<noteq> None \<longrightarrow> holds_row (g_phases g ! i)"
proof -
  have last: "Suc i = length (g_phases g)" using assms by (simp add: inv_serial_def)
  have only: "j = i" if "j < length (g_phases g)" "\<nexists>d. g_phases g ! j = Returned d" for j
    using assms(1) that last unfolding inv_serial_def by (metis nat.inject)
  have reg: "j = i" if "g_pending g = Some j" for j
  proof (rule only)
    show "j < length (g_phases g)" using assms(1) that unfolding inv_serial_def by blast
    have "registered (g_phases g ! j)" using assms(1) that unfolding inv_serial_def by blast
    then show "\<nexists>d. g_phases g ! j = Returned d" by (cases "g_phases g ! j") auto
  qed
  show "g_pending g = (if registered (g_phases g ! i) then Some i else None)"
  proof (cases "registered (g_phases g ! i)")
    case True
    then show ?thesis using assms(1,2) unfolding inv_serial_def by simp
  next
    case False
    have "g_pending g \<noteq> Some j" for j
      using reg [of j] False assms(1) unfolding inv_serial_def by metis
    then show ?thesis using False by (cases "g_pending g") auto
  qed
  show "g_row g \<noteq> None \<longrightarrow> holds_row (g_phases g ! i)"
  proof
    assume "g_row g \<noteq> None"
    then obtain j where j: "j < length (g_phases g)" "holds_row (g_phases g ! j)"
      using assms(1) by (auto simp: inv_serial_def)
    then have "j = i" by (intro only) auto
    then show "holds_row (g_phases g ! i)" using j(2) by simp
  qed
qed

lemma inv_serial_step:
  assumes "gate_step a g = Some g'" and "inv_serial g" and "\<nexists>tool desc. a = Request tool desc"
  shows "inv_serial g'"
proof (cases a)
  case (Request tool desc)
  then show ?thesis using assms(3) by blast
next
  case (Persist i)
  then show ?thesis
    using assms inv_serial_current(1) [OF assms(2), of i] by (intro inv_serial_phase [of g i g' Persisted])
      (auto simp: phase_is_def split: if_splits)
next
  case (Register i prompt)
  then show ?thesis
    using assms by (intro inv_serial_phase [of g i g' Publishing])
      (auto simp: phase_is_def Let_def split: if_splits)
next
  case (Published i)
  then show ?thesis
    using assms inv_serial_current(1) [OF assms(2), of i] by (intro inv_serial_phase [of g i g' Waiting])
      (auto simp: phase_is_def split: if_splits)
next
  case (PublishFailed i)
  then show ?thesis
    using assms by (intro inv_serial_phase [of g i g' "Unregistered DENIED False"])
      (auto simp: phase_is_def split: if_splits)
next
  case (Expire i)
  then show ?thesis
    using assms by (intro inv_serial_phase [of g i g' "Unregistered DENIED True"])
      (auto simp: phase_is_def split: if_splits)
next
  case (Wake i)
  then show ?thesis
    using assms by (intro inv_serial_phase [of g i g'
          "Unregistered (case pa_decision (g_objects g ! i) of Some d \<Rightarrow> d | None \<Rightarrow> DENIED) False"])
      (auto simp: phase_is_def split: if_splits)
next
  case (DropRow i)
  then obtain d timed where *: "i < length (g_phases g)" "g_phases g ! i = Unregistered d timed"
    "g' = set_phase i (if timed then Reporting d else Returned d) (g\<lparr>g_row := None\<rparr>)"
    using assms(1) by (auto split: if_splits request_phase.splits)
  have "g_pending g = None" using inv_serial_current(1) [OF assms(2) *(1)] *(2) by simp
  then show ?thesis
    using assms(2) * by (intro inv_serial_phase [of g i g' "if timed then Reporting d else Returned d"]) auto
next
  case (Report i)
  then obtain d where *: "i < length (g_phases g)" "g_phases g ! i = Reporting d"
    "g' = set_phase i (Returned d) (g\<lparr>g_log := g_log g @ [TimedOut i]\<rparr>)"
    using assms(1) by (auto split: if_splits request_phase.splits)
  have "g_pending g = None" "g_row g = None" using inv_serial_current [OF assms(2) *(1)] *(2) by simp_all
  then show ?thesis
    using assms(2) * by (intro inv_serial_phase [of g i g' "Returned d"]) auto
next
  case (Resolve d)
  then show ?thesis using assms by (intro inv_serial_cong [OF assms(2)]) auto
next
  case (ResolverDelete k)
  then show ?thesis using assms by (intro inv_serial_cong [OF assms(2)]) (auto split: if_splits)
next
  case (ResolverRecord k)
  then show ?thesis using assms by (intro inv_serial_cong [OF assms(2)]) (auto split: if_splits)
next
  case (ResolverSignal k)
  then show ?thesis using assms by (intro inv_serial_cong [OF assms(2)]) (auto simp: Let_def split: if_splits)
next
  case (Reply t)
  then show ?thesis using assms by (intro inv_serial_cong [OF assms(2)]) (auto split: option.splits)
next
  case (Verdict k v)
  then have "g' = apply_verdict v g" using assms(1) by (simp split: if_splits)
  then show ?thesis
    using verdict_cases [of v g] by (intro inv_serial_cong [OF assms(2)]) (metis begin_resolve_simps note_simps)+
qed

lemma serial_invariant: "serial_reachable g \<Longrightarrow> inv_serial g"
proof (induction rule: serial_reachable.induct)
  case serial_fresh
  show ?case by (simp add: inv_serial_def new_gate_def)
next
  case (serial_request g tool desc g')
  have returned: "\<exists>d. g_phases g ! i = Returned d" if "i < length (g_phases g)" for i
    using serial_request.hyps(2) that by (auto simp: all_returned_def)
  then have "g_pending g = None" and "g_row g = None"
    using serial_request.IH unfolding inv_serial_def
    by (metis option.exhaust registered.simps(7), metis holds_row.simps(3))
  moreover have "\<not> registered (g_phases g ! i)" if "i < length (g_phases g)" for i
    using returned [OF that] by auto
  ultimately show ?case
    using serial_request.hyps(3) returned by (fastforce simp: inv_serial_def nth_append less_Suc_eq)
next
  case (serial_step g a g')
  then show ?case using inv_serial_step by blast
qed

text \<open>
  The gate leaks nothing: with one request at a time, once every request has returned nothing
  is registered as pending and no row is left that a later boot would take for an orphan, however
  replies, classifications and timeouts interleaved.
\<close>

theorem gate_left_clean:
  assumes "serial_reachable g" and "all_returned g"
  shows "\<not> has_pending g \<and> g_row g = None"
proof -
  have "\<exists>d. g_phases g ! i = Returned d" if "i < length (g_phases g)" for i
    using assms(2) that by (auto simp: all_returned_def)
  then show ?thesis
    using serial_invariant [OF assms(1)] unfolding inv_serial_def has_pending_def
    by (metis holds_row.simps(3) option.exhaust registered.simps(7))
qed

lemma serial_run:
  "serial_reachable g \<Longrightarrow> gate_run as g = Some g' \<Longrightarrow> (\<forall>a \<in> set as. \<nexists>tool desc. a = Request tool desc)
     \<Longrightarrow> serial_reachable g'"
proof (induction as arbitrary: g)
  case (Cons a as)
  then obtain g1 where "gate_step a g = Some g1" "gate_run as g1 = Some g'" by (auto split: option.splits)
  then show ?case using Cons serial_reachable.serial_step [of g a g1] by simp
qed simp

theorem gate_left_clean_witness:
  "\<exists>g. gate_run approved_run new_gate = Some g \<and> \<not> has_pending g \<and> g_row g = None"
proof -
  obtain g1 where g1: "gate_step (hd approved_run) new_gate = Some g1" by (simp add: approved_run_def)
  obtain g where g: "gate_run (tl approved_run) g1 = Some g" "g_phases g = [Returned APPROVED]"
    using g1 by (auto simp: approved_run_def new_gate_def gate_defs parse_yes Let_def eval_nat_numeral)
  have "serial_reachable g1"
    by (rule serial_reachable.serial_request [OF serial_reachable.serial_fresh])
      (use g1 in \<open>auto simp: approved_run_def all_returned_def new_gate_def\<close>)
  then have "serial_reachable g" using g(1) by (rule serial_run) (auto simp: approved_run_def)
  from gate_left_clean [OF this] have "\<not> has_pending g \<and> g_row g = None"
    using g(2) by (simp add: all_returned_def)
  moreover have "gate_run approved_run new_gate = Some g"
    using g1 g(1) by (simp add: approved_run_def)
  ultimately show ?thesis by blast
qed

section \<open>What a reply resolves\<close>

text \<open>
  C40. A reply can approve a request it was not given to.  The classifier is awaited between the
  check for a pending approval and the call of \<open>resolve\<close>, which looks only at what is pending
  then: a first reply goes to the classifier, a second one (the word yes) settles the request, the
  turn asks about its next action, and the first reply's verdict approves that one.
\<close>

definition late_verdict_run :: "gate_action list" where
  "late_verdict_run =
     [Request ''send'' ''email Ann'', Persist 0, Register 0 None, Published 0,
      Reply ''sounds fine to me'', Reply ''yes'', ResolverDelete 0, ResolverRecord 0, ResolverSignal 0,
      Wake 0, DropRow 0,
      Request ''delete'' ''delete all photos'', Persist 1, Register 1 None, Published 1,
      Verdict 0 (Classified APPROVED), ResolverDelete 1, ResolverRecord 1, ResolverSignal 1, Wake 1, DropRow 1]"

lemma parse_sounds: "parse_approval_response ''sounds fine to me'' = None"
  by code_simp


text \<open>
  A timeout can overtake an answer: \<open>resolve\<close> sets the decision, then awaits two writes before
  it wakes the request, so a request whose timeout fires in between returns \<open>DENIED\<close> although the
  user approved it in time, and the log says it timed out before it says it was approved.
\<close>

theorem timeout_overtakes_approval:
  "\<exists>g. gate_run [Request ''send'' ''email Ann'', Persist 0, Register 0 None, Published 0, Reply ''yes'',
        Expire 0, DropRow 0, Report 0, ResolverDelete 0, ResolverRecord 0, ResolverSignal 0] new_gate = Some g
     \<and> g_phases g = [Returned DENIED] \<and> g_log g = [Requested 0, TimedOut 0, Decided 0 APPROVED]"
  by (simp add: new_gate_def gate_defs parse_yes Let_def eval_nat_numeral)

section \<open>Orphans\<close>

definition malformed :: "pending_row \<Rightarrow> bool" where
  "malformed r \<longleftrightarrow> pr_channel r = [] \<or> pr_chat r = []"

definition expired :: "int \<Rightarrow> pending_row \<Rightarrow> bool" where
  "expired now r \<longleftrightarrow> (\<exists>t. pr_created r = Some t \<and> now - t > orphan_max_age)"

text \<open>
  The sweep of orphaned approvals: with the lock, exactly the well-formed rows whose message
  went out are recovered, once each and in order, and the rows left for a later boot are exactly
  the well-formed ones whose message failed and that are not over an hour old.  Without the lock
  nothing is sent or deleted.
\<close>

theorem orphan_sweep_outcome:
  "cleanup_orphaned_approvals got_lock publish now rows =
     (if got_lock
      then (filter (\<lambda>r. \<not> malformed r \<and> \<not> publish r \<and> \<not> expired now r) rows,
            filter (\<lambda>r. \<not> malformed r \<and> publish r) rows)
      else (rows, []))"
proof -
  have "sweep_orphans publish now rows =
     (filter (\<lambda>r. \<not> malformed r \<and> \<not> publish r \<and> \<not> expired now r) rows,
      filter (\<lambda>r. \<not> malformed r \<and> publish r) rows)"
    by (induction rows) (auto simp: malformed_def expired_def split: option.splits)
  then show ?thesis by (simp add: cleanup_orphaned_approvals_def)
qed

end
