(* ===== verification/Tools.thy ===== *)
theory Tools
  imports History Permissions
begin

text \<open>
  What a tool is to the agent loop, and the helpers its calls go through:
  \<open>agent/tools/base.py\<close> (\<open>Tool\<close>, \<open>ToolResult\<close>), \<open>agent/tool_errors.py\<close> (hints and the
  formatting of validation errors), \<open>agent/core_support.py\<close> (the coercion of numbers for string
  fields, the concurrency buckets), \<open>agent/skills/loader.py\<close> (the delimited SKILL.md blocks) and
  \<open>_execute_single_tool\<close>, \<open>_validate_tool_args\<close>, \<open>_attach_first_use_skill_guidance\<close> of
  \<open>agent/core.py\<close>.

  The parts of a tool that are not the loop's are functions in its record: the pydantic model as
  \<open>t_validate\<close> (the dumped arguments or the list of errors), the one-line summary of its schema,
  the callables of its approval policy, which may raise. What a tool call itself returns is chosen
  by the caller of \<open>execute_single_tool\<close>, as is the scrubbing of an exception's text.
\<close>

section \<open>Tools and their results\<close>

datatype tool_error_kind =
    KValidation
  | KService
  | KNotFound
  | KPermission
  | KAuth
  | KInternal
  | KInterrupted

record tool_result =
  tr_content :: string
  tr_is_error :: bool
  tr_error_kind :: "tool_error_kind option"
  tr_hint :: string
  tr_receipt :: "stored_receipt option"

text \<open>A call of \<open>tool.function\<close>: its result, or the type and text of its exception.\<close>

datatype tool_outcome = ToolReturned tool_result | ToolRaised string string

text \<open>One entry of \<open>ValidationError.errors()\<close>.\<close>

datatype loc_part = LKey string | LIndex int

record validation_error =
  ve_loc :: "loc_part list"
  ve_msg :: string
  ve_type :: string
  ve_input :: json

type_synonym validation = "validation_error list + json_dict"

record approval_policy =
  ap_default_level :: permission_level
  ap_resource_extractor :: "(json_dict \<Rightarrow> py_error + string option) option"
  ap_description_builder :: "(json_dict \<Rightarrow> py_error + string) option"
  ap_preview_builder :: "(json_dict \<Rightarrow> py_error + string option) option"
  ap_resource_noun :: "string option"

text \<open>\<open>concurrency_group\<close>: a static string, or a function of the validated arguments.\<close>

datatype concurrency_group = StaticGroup string | GroupOf "json_dict \<Rightarrow> string option"

record tool =
  t_name :: string
  t_validate :: "json_dict \<Rightarrow> validation"
  t_params_summary :: string
  t_tags :: "string list"
  t_approval_policy :: "approval_policy option"
  t_read_only_when :: "(json_dict \<Rightarrow> py_error + bool) option"
  t_concurrency_group :: "concurrency_group option"

definition is_mutating_call :: "tool \<Rightarrow> json_dict \<Rightarrow> bool" where
  "is_mutating_call t args =
     (if ''read_only'' \<in> set (t_tags t) then False
      else case t_read_only_when t of
        None \<Rightarrow> True
      | Some reads \<Rightarrow> (case reads args of Inr b \<Rightarrow> \<not> b | Inl _ \<Rightarrow> True))"

text \<open>\<open>register_tools\<close>: a later tool of the same name replaces the earlier one.\<close>

definition register_tools :: "tool list \<Rightarrow> (string \<times> tool) list" where
  "register_tools tools = fold (\<lambda>t. AList.update (t_name t) t) tools []"

definition get_tool_tags :: "(string \<times> tool) list \<Rightarrow> string \<Rightarrow> string list" where
  "get_tool_tags tools_by_name tool_name =
     (case map_of tools_by_name tool_name of Some t \<Rightarrow> t_tags t | None \<Rightarrow> [])"

section \<open>Hints\<close>

definition default_error_hint :: string where
  "default_error_hint = ''[Analyze the error above and try a different approach.]''"

definition truncation_hint :: string where
  "truncation_hint =
     ''[Your previous response was cut short (hit the token limit) and the tool call''
     @ '' was incomplete. Simplify your approach: use smaller payloads, break the''
     @ '' operation into multiple steps, or omit optional fields.]''"

fun error_kind_hints :: "tool_error_kind \<Rightarrow> string" where
  "error_kind_hints KValidation =
     ''[Check the expected parameter format and try again with corrected arguments.]''"
| "error_kind_hints KNotFound =
     ''[The requested resource was not found. Verify the identifier and try again.]''"
| "error_kind_hints KService =
     ''[An external service is temporarily unavailable.''
     @ '' Try a different approach or inform the user.]''"
| "error_kind_hints KPermission =
     ''[You do not have permission for this operation. Inform the user.]''"
| "error_kind_hints KAuth =
     ''[This integration is not connected. Do not retry.''
     @ '' Let the user know they need to authenticate via the web dashboard.]''"
| "error_kind_hints KInternal =
     ''[An internal error occurred.''
     @ '' Inform the user that this operation is temporarily unavailable.]''"
| "error_kind_hints KInterrupted =
     ''[The user changed the subject instead of responding to the approval prompt.''
     @ '' Do not retry this tool. In one short sentence, tell the user you are''
     @ '' skipping the specific action they did not approve (name it) and that''
     @ '' they can ask for it again later. If the user'' @ [CHR 0x27] @ ''s new message follows''
     @ '' this result, answer it in the same reply. Otherwise end your turn;''
     @ '' it is handled separately.]''"

definition build_error_hint :: "tool_result \<Rightarrow> string" where
  "build_error_hint r =
     (if tr_hint r \<noteq> [] then
        (if \<not> prefix ''['' (tr_hint r) then ''['' @ tr_hint r @ '']'' else tr_hint r)
      else case tr_error_kind r of
        Some kind \<Rightarrow> error_kind_hints kind
      | None \<Rightarrow> default_error_hint)"

section \<open>Validation\<close>

fun loc_str :: "loc_part \<Rightarrow> string" where
  "loc_str (LKey k) = k"
| "loc_str (LIndex i) = int_str i"

definition format_validation_error :: "string \<Rightarrow> validation_error list \<Rightarrow> tool \<Rightarrow> string" where
  "format_validation_error tool_name errors t =
     py_join [nl]
       ([''Validation error for '' @ tool_name @ '':'']
        @ map (\<lambda>err. ''  '' @ py_join '' -> '' (map loc_str (ve_loc err)) @ '': '' @ ve_msg err
                 @ '' (type='' @ ve_type err @ '')'') errors
        @ (if t_params_summary t \<noteq> [] then [[nl] @ ''Expected parameters: '' @ t_params_summary t]
           else []))"

text \<open>\<open>xs[i]\<close> of a list counts a negative index from the end; \<open>None\<close> is its IndexError.\<close>

definition py_index :: "nat \<Rightarrow> int \<Rightarrow> nat option" where
  "py_index n i =
     (if 0 \<le> i \<and> i < int n then Some (nat i)
      else if i < 0 \<and> 0 \<le> i + int n then Some (nat (i + int n))
      else None)"

text \<open>
  The walk to \<open>loc[:-1]\<close> and the assignment to \<open>loc[-1]\<close>; \<open>None\<close> where the source catches
  KeyError, IndexError or TypeError. The keys of a JSON object are strings, so an index never
  names an entry of one.
\<close>

fun put_at :: "loc_part list \<Rightarrow> json \<Rightarrow> json \<Rightarrow> json option" where
  "put_at [] v container = None"
| "put_at [LKey k] v (JObj d) = Some (JObj (AList.update k v d))"
| "put_at [LIndex i] v (JList xs) =
     (case py_index (length xs) i of Some n \<Rightarrow> Some (JList (xs[n := v])) | None \<Rightarrow> None)"
| "put_at (LKey k # p # loc) v (JObj d) =
     (case map_of d k of
        Some w \<Rightarrow> map_option (\<lambda>w'. JObj (AList.update k w' d)) (put_at (p # loc) v w)
      | None \<Rightarrow> None)"
| "put_at (LIndex i # p # loc) v (JList xs) =
     (case py_index (length xs) i of
        Some n \<Rightarrow> map_option (\<lambda>w'. JList (xs[n := w'])) (put_at (p # loc) v (xs ! n))
      | None \<Rightarrow> None)"
| "put_at _ v container = None"

text \<open>\<open>str(value)\<close> of the numbers the coercion accepts.\<close>

fun number_str :: "json \<Rightarrow> string option" where
  "number_str (JInt i) = Some (int_str i)"
| "number_str (JFloat t) = Some t"
| "number_str _ = None"

fun coerce_errors :: "validation_error list \<Rightarrow> json \<Rightarrow> json \<times> bool" where
  "coerce_errors [] coerced = (coerced, False)"
| "coerce_errors (err # errors) coerced =
     (if ve_type err \<noteq> ''string_type'' then coerce_errors errors coerced
      else case number_str (ve_input err) of
        None \<Rightarrow> coerce_errors errors coerced
      | Some t \<Rightarrow>
          (case put_at (ve_loc err) (JStr t) coerced of
             None \<Rightarrow> coerce_errors errors coerced
           | Some coerced' \<Rightarrow> (fst (coerce_errors errors coerced'), True)))"

definition stringify_numbers_for_string_fields ::
  "json_dict \<Rightarrow> validation_error list \<Rightarrow> json_dict option" where
  "stringify_numbers_for_string_fields tool_args errors =
     (case coerce_errors errors (JObj tool_args) of
        (JObj d, True) \<Rightarrow> Some d
      | _ \<Rightarrow> None)"

definition validate_tool_args :: "tool \<Rightarrow> json_dict \<Rightarrow> json_dict \<times> string option" where
  "validate_tool_args t tool_args =
     (case t_validate t tool_args of
        Inr validated \<Rightarrow> (validated, None)
      | Inl errors \<Rightarrow>
          (case stringify_numbers_for_string_fields tool_args errors of
             Some coerced_args \<Rightarrow>
               (case t_validate t coerced_args of
                  Inr validated \<Rightarrow> (validated, None)
                | Inl retry_errors \<Rightarrow>
                    (tool_args, Some (format_validation_error (t_name t) retry_errors t)))
           | None \<Rightarrow> (tool_args, Some (format_validation_error (t_name t) errors t))))"

section \<open>Skill guidance\<close>

definition marker_open :: string where
  "marker_open = ''[skill-guidance: ''"

definition marker_close :: string where
  "marker_close = ''[/skill-guidance: ''"

definition skill_delivery_marker :: "string \<Rightarrow> string" where
  "skill_delivery_marker factory_name = marker_open @ factory_name @ '']''"

definition skill_guidance_block :: "string \<Rightarrow> string \<Rightarrow> string" where
  "skill_guidance_block factory_name instructions =
     [nl, nl] @ skill_delivery_marker factory_name @ [nl] @ instructions
     @ [nl] @ marker_close @ factory_name @ '']''"

text \<open>The character class of the two patterns.\<close>

definition name_char :: "char \<Rightarrow> bool" where
  "name_char c \<longleftrightarrow>
     (CHR ''A'' \<le> c \<and> c \<le> CHR ''Z'') \<or> (CHR ''a'' \<le> c \<and> c \<le> CHR ''z'')
     \<or> (CHR ''0'' \<le> c \<and> c \<le> CHR ''9'') \<or> c = CHR ''_'' \<or> c = CHR ''-''"

text \<open>
  A match of \<open>_SKILL_MARKER_RE\<close> at the head of a text: the name and what follows the bracket. The
  class has no bracket, so a match is never found by backtracking and no two matches overlap.
\<close>

definition marker_at :: "string \<Rightarrow> (string \<times> string) option" where
  "marker_at s =
     (if prefix marker_open s then
        (let rest = drop (length marker_open) s;
             name = takeWhile name_char rest;
             after = dropWhile name_char rest
         in if name \<noteq> [] \<and> prefix '']'' after then Some (name, drop 1 after) else None)
      else None)"

fun extract_delivered_skills :: "string \<Rightarrow> string list" where
  "extract_delivered_skills [] = []"
| "extract_delivered_skills (c # s) =
     (case marker_at (c # s) of Some (name, _) \<Rightarrow> [name] | None \<Rightarrow> []) @ extract_delivered_skills s"

text \<open>The text after the first occurrence of a closing line: what the lazy match stops at.\<close>

fun after_first :: "string \<Rightarrow> string \<Rightarrow> string option" where
  "after_first sub [] = (if sub = [] then Some [] else None)"
| "after_first sub (c # s) =
     (if prefix sub (c # s) then Some (drop (length sub) (c # s)) else after_first sub s)"

text \<open>The opening lines of a block at the head of a text, and the whole delimited block.\<close>

definition opening_at :: "string \<Rightarrow> (string \<times> string) option" where
  "opening_at s =
     (if prefix [nl, nl] s then
        (case marker_at (drop 2 s) of
           Some (name, after) \<Rightarrow> if prefix [nl] after then Some (name, drop 1 after) else None
         | None \<Rightarrow> None)
      else None)"

definition block_at :: "string \<Rightarrow> string option" where
  "block_at s =
     (case opening_at s of
        Some (name, body) \<Rightarrow> after_first ([nl] @ marker_close @ name @ '']'') body
      | None \<Rightarrow> None)"

lemma marker_at_length: "marker_at s = Some (name, r) \<Longrightarrow> length r \<le> length s"
proof -
  assume "marker_at s = Some (name, r)"
  then have "r = drop 1 (dropWhile name_char (drop (length marker_open) s))"
    by (auto simp: marker_at_def Let_def split: if_splits)
  then show ?thesis
    using length_dropWhile_le [of name_char "drop (length marker_open) s"] by simp
qed

lemma after_first_length: "after_first sub s = Some r \<Longrightarrow> length r \<le> length s"
  by (induction s) (auto split: if_splits)

lemma opening_at_length: "opening_at s = Some (name, r) \<Longrightarrow> length r < length s"
proof -
  assume h: "opening_at s = Some (name, r)"
  then obtain after where m: "marker_at (drop 2 s) = Some (name, after)" and r: "r = drop 1 after"
    and p: "prefix [nl, nl] s"
    by (auto simp: opening_at_def split: if_splits option.splits)
  have "length after \<le> length s - 2" using marker_at_length [OF m] by simp
  then show ?thesis using r p prefix_length_le [of "[nl, nl]" s] by auto
qed

lemma block_at_length: "block_at s = Some r \<Longrightarrow> length r < length s"
  by (auto simp: block_at_def split: option.splits dest!: opening_at_length after_first_length)

text \<open>\<open>_DELIMITED_BLOCK_RE.subn\<close>: the text without the blocks, and whether there was one.\<close>

function subn_blocks :: "string \<Rightarrow> string \<times> bool" where
  "subn_blocks s =
     (case block_at s of
        Some r \<Rightarrow> (fst (subn_blocks r), True)
      | None \<Rightarrow>
          (case s of [] \<Rightarrow> ([], False)
           | c # s' \<Rightarrow> (let (out, found) = subn_blocks s' in (c # out, found))))"
  by pat_completeness auto
termination
  by (relation "measure length") (auto dest: block_at_length)

declare subn_blocks.simps [simp del]

text \<open>
  \<open>text[:starts[-1]]\<close> for the opening lines of the older rows, which \<open>finditer\<close> finds without
  overlaps; \<open>None\<close> when there are none.
\<close>

function before_last_opening :: "string \<Rightarrow> string option" where
  "before_last_opening s =
     (case opening_at s of
        Some (name, rest) \<Rightarrow>
          (case before_last_opening rest of
             Some t \<Rightarrow> Some (take (length s - length rest) s @ t)
           | None \<Rightarrow> Some [])
      | None \<Rightarrow>
          (case s of [] \<Rightarrow> None
           | c # s' \<Rightarrow> map_option ((#) c) (before_last_opening s')))"
  by pat_completeness auto
termination
  by (relation "measure length") (auto dest: opening_at_length)

declare before_last_opening.simps [simp del]

definition strip_skill_guidance :: "string \<Rightarrow> string" where
  "strip_skill_guidance t =
     (case subn_blocks t of
        (stripped, True) \<Rightarrow> stripped
      | (_, False) \<Rightarrow> (case before_last_opening t of Some start \<Rightarrow> start | None \<Rightarrow> t))"

subsection \<open>What is appended can be taken off again\<close>

lemma append_overlap:
  "xs @ ys = ws @ zs \<Longrightarrow> (\<exists>u. xs = ws @ u) \<or> (\<exists>v. v \<noteq> [] \<and> ws = xs @ v \<and> ys = v @ zs)"
  by (metis append_eq_append_conv2 append_self_conv)

lemma after_first_append:
  assumes "sub \<noteq> []" and "hd sub \<notin> set (tl sub)" and "\<not> contains sub s"
  shows "after_first sub (s @ sub) = Some []"
  using assms(3)
proof (induction s)
  case Nil
  then show ?case using assms(1) by (cases sub) auto
next
  case (Cons c s)
  have "\<not> prefix sub ((c # s) @ sub)"
  proof
    assume "prefix sub ((c # s) @ sub)"
    then obtain z where z: "(c # s) @ sub = sub @ z" by (rule prefixE)
    from append_overlap [OF z]
    consider u where "c # s = sub @ u" | v where "sub = (c # s) @ v" "v \<noteq> []" "sub = v @ z"
      by blast
    then show False
    proof cases
      case 1
      then have "c # s = [] @ sub @ u" by simp
      then show False using Cons.prems unfolding contains_iff by blast
    next
      case 2
      then have "hd sub \<in> set v" by (metis hd_append2 list.set_sel(1))
      moreover have "tl sub = s @ v" using 2(1) by simp
      ultimately show False using assms(2) by simp
    qed
  qed
  moreover have "\<not> contains sub s"
    using Cons.prems unfolding contains_iff by (metis append_Cons)
  ultimately show ?case using Cons.IH by simp
qed

lemma marker_at_marker:
  assumes "name \<noteq> []" and "\<forall>c \<in> set name. name_char c"
  shows "marker_at (marker_open @ name @ CHR '']'' # rest) = Some (name, rest)"
proof -
  have "\<not> name_char (CHR '']'')" by code_simp
  then have "takeWhile name_char (name @ CHR '']'' # rest) = name"
    "dropWhile name_char (name @ CHR '']'' # rest) = CHR '']'' # rest"
    using assms(2) by (simp_all add: takeWhile_append2 dropWhile_append2)
  then show ?thesis using assms(1) by (simp add: marker_at_def)
qed

lemma block_at_block:
  assumes "name \<noteq> []" and "\<forall>c \<in> set name. name_char c"
    and "\<not> contains ([nl] @ marker_close @ name @ '']'') instructions"
  shows "block_at (skill_guidance_block name instructions) = Some []"
proof -
  have "opening_at (skill_guidance_block name instructions)
      = Some (name, instructions @ [nl] @ marker_close @ name @ '']'')"
    using marker_at_marker [OF assms(1,2)]
    by (simp add: opening_at_def skill_guidance_block_def skill_delivery_marker_def)
  moreover have "nl \<notin> set (marker_close @ name @ '']'')"
  proof -
    have "\<not> name_char nl" and "nl \<notin> set (marker_close @ '']'')" by code_simp+
    then show ?thesis using assms(2) by auto
  qed
  ultimately show ?thesis
    using after_first_append [of "[nl] @ marker_close @ name @ '']''" instructions] assms(3)
    by (simp add: block_at_def)
qed

lemma opening_prefix: "opening_at s \<noteq> None \<Longrightarrow> prefix ([nl, nl] @ marker_open) s"
  by (auto simp: opening_at_def marker_at_def prefix_def split: if_splits)

text \<open>The opening lines overlap no shifted copy of themselves.\<close>

lemma opening_no_border:
  "v \<noteq> [] \<Longrightarrow> u \<noteq> [] \<Longrightarrow> [nl, nl] @ marker_open = u @ v \<Longrightarrow> \<not> prefix v ([nl, nl] @ marker_open)"
proof -
  let ?O = "[nl, nl] @ marker_open"
  assume h: "v \<noteq> []" "u \<noteq> []" "?O = u @ v"
  have all: "list_all (\<lambda>k. drop k ?O \<noteq> take (19 - k) ?O) [1..<19]" by code_simp
  have len: "length ?O = 19" by code_simp
  then have k: "length u + length v = 19" using arg_cong [OF h(3), of length] by (simp only: length_append)
  then have "length u \<in> set [1..<19]" using h(1,2) by (cases u; cases v) auto
  then have "drop (length u) ?O \<noteq> take (19 - length u) ?O"
    using all unfolding list_all_iff by blast
  then have "v \<noteq> take (length v) ?O" using h(3) k by (metis add_diff_cancel_left' append_eq_conv_conj)
  then show ?thesis by (metis append_eq_conv_conj prefix_def)
qed

lemma no_opening_before:
  assumes "\<not> contains ([nl, nl] @ marker_open) t" and "t \<noteq> []"
  shows "opening_at (t @ [nl, nl] @ marker_open @ w) = None"
proof (rule ccontr)
  let ?O = "[nl, nl] @ marker_open"
  assume "opening_at (t @ [nl, nl] @ marker_open @ w) \<noteq> None"
  from opening_prefix [OF this] have "\<exists>z. t @ ?O @ w = ?O @ z" by (simp add: prefix_def)
  then obtain z where z: "t @ ?O @ w = ?O @ z" ..
  from append_overlap [OF z]
  consider u where "t = ?O @ u" | v where "?O = t @ v" "v \<noteq> []" "?O @ w = v @ z"
    by blast
  then show False
  proof cases
    case 1
    then have "t = [] @ ?O @ u" by simp
    then show False using assms(1) unfolding contains_iff by blast
  next
    case 2
    have "length v \<le> length ?O" using arg_cong [OF 2(1), of length] by simp
    then have "prefix v ?O" using 2(3) by (metis prefixI prefix_length_prefix)
    then show False using opening_no_border [OF 2(2) assms(2) 2(1)] by blast
  qed
qed

lemma subn_blocks_append:
  assumes "\<not> contains ([nl, nl] @ marker_open) t" and "block_at ([nl, nl] @ marker_open @ w) = Some []"
  shows "subn_blocks (t @ [nl, nl] @ marker_open @ w) = (t, True)"
  using assms(1)
proof (induction t)
  case Nil
  have "subn_blocks [] = ([], False)"
    by (subst subn_blocks.simps) (simp add: block_at_def opening_at_def)
  then show ?case using assms(2) by (subst subn_blocks.simps) simp
next
  case (Cons c t)
  have "\<not> contains ([nl, nl] @ marker_open) t"
    using Cons.prems unfolding contains_iff by (metis append_Cons)
  then have "subn_blocks (t @ [nl, nl] @ marker_open @ w) = (t, True)" by (rule Cons.IH)
  moreover have "block_at ((c # t) @ [nl, nl] @ marker_open @ w) = None"
    using no_opening_before [OF Cons.prems] by (simp add: block_at_def)
  ultimately show ?case by (subst subn_blocks.simps) simp
qed

lemma extract_append: "set (extract_delivered_skills s) \<subseteq> set (extract_delivered_skills (t @ s))"
  by (induction t) auto

text \<open>
  Delivering a category's SKILL.md in a tool result is recorded and reversible: the appended
  block marks the category as delivered, and stripping the result gives back exactly the result
  it was appended to, provided the guidance does not itself contain its closing line and the
  result has no opening line of its own.
\<close>

theorem skill_guidance_roundtrip:
  assumes "name \<noteq> []" and "\<forall>c \<in> set name. name_char c"
    and "\<not> contains ([nl] @ marker_close @ name @ '']'') instructions"
    and "\<not> contains ([nl, nl] @ marker_open) result"
  shows "strip_skill_guidance (result @ skill_guidance_block name instructions) = result
    \<and> name \<in> set (extract_delivered_skills (result @ skill_guidance_block name instructions))"
proof
  have split: "skill_guidance_block name instructions
      = [nl, nl] @ marker_open @ name @ '']'' @ [nl] @ instructions @ [nl] @ marker_close @ name @ '']''"
    by (simp add: skill_guidance_block_def skill_delivery_marker_def)
  show "strip_skill_guidance (result @ skill_guidance_block name instructions) = result"
    using subn_blocks_append [OF assms(4), of "name @ '']'' @ [nl] @ instructions @ [nl] @ marker_close @ name @ '']''"]
      block_at_block [OF assms(1-3)]
    by (simp add: strip_skill_guidance_def split)
  have delivered: "name \<in> set (extract_delivered_skills (marker_open @ name @ CHR '']'' # r))" for r
  proof -
    obtain c s where cs: "marker_open = c # s" by (simp add: marker_open_def)
    show ?thesis using marker_at_marker [OF assms(1,2), of r] by (simp add: cs)
  qed
  let ?r = "[nl] @ instructions @ [nl] @ marker_close @ name @ '']''"
  show "name \<in> set (extract_delivered_skills (result @ skill_guidance_block name instructions))"
    using delivered [of ?r] extract_append [of "marker_open @ name @ CHR '']'' # ?r" "result @ [nl, nl]"]
    by (simp add: split subset_iff)
qed

theorem skill_guidance_roundtrip_witness:
  "strip_skill_guidance (''ok'' @ skill_guidance_block ''calendar'' ''Use ISO dates.'') = ''ok''"
proof (rule skill_guidance_roundtrip [THEN conjunct1])
  show "\<forall>c \<in> set ''calendar''. name_char c" by code_simp
  show "\<not> contains ([nl] @ marker_close @ ''calendar'' @ '']'') ''Use ISO dates.''" by code_simp
  show "\<not> contains ([nl, nl] @ marker_open) ''ok''" by code_simp
qed simp

text \<open>
  \<open>_attach_first_use_skill_guidance\<close>. The registry is \<open>None\<close> or the function from a tool name
  to its specialist factory; \<open>instructions\<close> is \<open>get_skill_instructions\<close> over the loaded files.
\<close>

definition attach_first_use_skill_guidance ::
  "(string \<Rightarrow> string option) option \<Rightarrow> (string \<Rightarrow> string option) \<Rightarrow> string set
     \<Rightarrow> stored_interaction \<times> agent_message \<Rightarrow> string set \<times> stored_interaction \<times> agent_message" where
  "attach_first_use_skill_guidance registry instructions delivered rm =
     (let (record, msg) = rm;
          content = (case msg of ToolResultMessage i c e \<Rightarrow> c | _ \<Rightarrow> []);
          delivered' = delivered \<union> set (extract_delivered_skills content)
      in case registry of
           None \<Rightarrow> (delivered', record, msg)
         | Some factory_of \<Rightarrow>
             (case factory_of (si_name record) of
                None \<Rightarrow> (delivered', record, msg)
              | Some category \<Rightarrow>
                  if category \<in> delivered' then (delivered', record, msg)
                  else (case instructions category of
                          None \<Rightarrow> (insert category delivered', record, msg)
                        | Some [] \<Rightarrow> (insert category delivered', record, msg)
                        | Some instr \<Rightarrow>
                            (let block = skill_guidance_block category instr
                             in (insert category delivered',
                                 record\<lparr>si_result := si_result record @ block\<rparr>,
                                 case msg of
                                   ToolResultMessage i c e \<Rightarrow> ToolResultMessage i (c @ block) e
                                 | _ \<Rightarrow> msg)))))"

section \<open>One call\<close>

definition raised_cap :: nat where
  "raised_cap = 1500"

definition execute_single_tool ::
  "(string \<Rightarrow> string) \<Rightarrow> (string \<times> tool) list \<Rightarrow> tool_call_request \<Rightarrow> json_dict \<Rightarrow> tool_outcome
     \<Rightarrow> stored_interaction \<times> agent_message \<times> string" where
  "execute_single_tool scrub tools_by_name tc_req validated_args outcome =
     (let name = tc_name tc_req;
          tags = get_tool_tags tools_by_name name;
          build = (\<lambda>result is_error receipt label.
            (\<lparr>si_id = tc_id tc_req, si_name = name, si_args = validated_args, si_result = result,
              si_is_error = is_error, si_tags = tags, si_receipt = receipt\<rparr>,
             ToolResultMessage (tc_id tc_req) result is_error, label))
      in case outcome of
           ToolReturned r \<Rightarrow>
             if tr_is_error r
             then build (tr_content r @ [nl, nl] @ build_error_hint r) True None (''Failed: '' @ name)
             else build (tr_content r) False (tr_receipt r) (''Called '' @ name)
         | ToolRaised ty exc \<Rightarrow>
             build (take raised_cap
                 (''Error: tool '' @ name @ '' raised '' @ scrub (ty @ '': '' @ exc)
                  @ [nl, nl] @ error_kind_hints KInternal))
               True None (''Failed: '' @ name))"

text \<open>An entry threaded through the round: the index of the call, its tool, its arguments.\<close>

type_synonym tool_entry = "nat \<times> tool \<times> json_dict"

definition resolve_concurrency_group :: "tool \<Rightarrow> json_dict \<Rightarrow> string option" where
  "resolve_concurrency_group t validated_args =
     (case t_concurrency_group t of
        None \<Rightarrow> None
      | Some (StaticGroup g) \<Rightarrow> Some g
      | Some (GroupOf f) \<Rightarrow> f validated_args)"

text \<open>The \<open>buckets\<close> dict: keys in order of first use, each with its entries in order.\<close>

definition entry_group :: "tool_entry \<Rightarrow> string option" where
  "entry_group e = resolve_concurrency_group (fst (snd e)) (snd (snd e))"

definition add_to_bucket ::
  "nat \<times> tool_entry \<Rightarrow> (string option \<times> (nat \<times> tool_entry) list) list
     \<Rightarrow> (string option \<times> (nat \<times> tool_entry) list) list" where
  "add_to_bucket pe buckets =
     (let key = entry_group (snd pe);
          items = (case map_of buckets key of Some xs \<Rightarrow> xs | None \<Rightarrow> [])
      in AList.update key (items @ [pe]) buckets)"

definition units_of_bucket ::
  "string option \<times> (nat \<times> tool_entry) list \<Rightarrow> (nat \<times> tool_entry) list list" where
  "units_of_bucket b = (case fst b of None \<Rightarrow> map (\<lambda>item. [item]) (snd b) | Some g \<Rightarrow> [snd b])"

definition bucket_by_concurrency_group :: "tool_entry list \<Rightarrow> (nat \<times> tool_entry) list list" where
  "bucket_by_concurrency_group approved =
     concat (map units_of_bucket (fold add_to_bucket (enumerate 0 approved) []))"

end
