(* ===== verification/Tool_Round.thy ===== *)
theory Tool_Round
  imports Tools
begin

text \<open>
  \<open>_execute_tool_round\<close> of \<open>backend/app/agent/core.py\<close>: all calls of one model response are
  validated, then approved, then the approved ones run. What the round changes is threaded through
  a \<open>round_state\<close>: the turn's lists of actions and records, the results of the round, the
  categories whose guidance was delivered, the turn's approval cache, the stored permissions, and
  the prompts the user was sent. The user's answers and the outcomes of the tools come from
  outside: \<open>env_answers n\<close> is what the gate returns for the n-th prompt of the turn,
  \<open>env_outcomes p\<close> what the tool at position \<open>p\<close> of the approved calls does.

  The approved calls run concurrently. A run is an interleaving of the units of
  \<open>_bucket_by_concurrency_group\<close>, each a sequence of starts and finishes; the results are read
  back by position, whatever the interleaving was.

  Not modelled: events, telemetry, the typing indicator and the duplicate-call warning, none of
  which changes this state; and changes of the permissions by another request during the round.
\<close>

section \<open>State and environment\<close>

record parsed_tool_call =
  pc_id :: string
  pc_name :: string
  pc_arguments :: "json_dict option"

type_synonym approval_key = "string \<times> string option"

record round_state =
  rs_actions :: "string list"
  rs_records :: "stored_interaction list"
  rs_results :: "agent_message list"
  rs_delivered :: "string set"
  rs_cache :: "(approval_key \<times> approval_decision) list"
  rs_perms :: permission_row
  rs_prompts :: "(approval_key \<times> string) list"

record round_env =
  env_tools :: "(string \<times> tool) list"
  env_registry :: "(string \<Rightarrow> string option) option"
  env_instructions :: "string \<Rightarrow> string option"
  env_scrub :: "string \<Rightarrow> string"
  env_defaults :: tool_registry
  env_can_prompt :: bool
  env_truncated :: bool
  env_answers :: "nat \<Rightarrow> approval_decision"
  env_outcomes :: "nat \<Rightarrow> tool_outcome"

text \<open>The typed requests \<open>process_message\<close> builds from the parsed calls.\<close>

definition to_requests :: "parsed_tool_call list \<Rightarrow> tool_call_request list" where
  "to_requests raw = map (\<lambda>p. \<lparr>tc_id = pc_id p, tc_name = pc_name p,
     tc_arguments = (case pc_arguments p of Some a \<Rightarrow> a | None \<Rightarrow> [])\<rparr>) raw"

section \<open>Phase 1: validation\<close>

definition note_action :: "string \<Rightarrow> round_state \<Rightarrow> round_state" where
  "note_action label st = st\<lparr>rs_actions := rs_actions st @ [label]\<rparr>"

definition add_result :: "agent_message \<Rightarrow> round_state \<Rightarrow> round_state" where
  "add_result msg st = st\<lparr>rs_results := rs_results st @ [msg]\<rparr>"

definition add_record :: "stored_interaction \<Rightarrow> round_state \<Rightarrow> round_state" where
  "add_record r st = st\<lparr>rs_records := rs_records st @ [r]\<rparr>"

definition error_record :: "round_env \<Rightarrow> tool_call_request \<Rightarrow> json_dict \<Rightarrow> string \<Rightarrow> stored_interaction" where
  "error_record env tc args result =
     \<lparr>si_id = tc_id tc, si_name = tc_name tc, si_args = args, si_result = result, si_is_error = True,
      si_tags = get_tool_tags (env_tools env) (tc_name tc), si_receipt = None\<rparr>"

definition error_message :: "tool_call_request \<Rightarrow> string \<Rightarrow> agent_message" where
  "error_message tc content = ToolResultMessage (tc_id tc) content True"

text \<open>A result and its record, with the guidance of the tool's category on its first use.\<close>

definition add_with_guidance ::
  "round_env \<Rightarrow> stored_interaction \<Rightarrow> agent_message \<Rightarrow> round_state \<Rightarrow> round_state" where
  "add_with_guidance env record msg st =
     (let (delivered, record', msg') =
            attach_first_use_skill_guidance (env_registry env) (env_instructions env) (rs_delivered st)
              (record, msg)
      in add_result msg' (add_record record' (st\<lparr>rs_delivered := delivered\<rparr>)))"

definition unknown_tool_text :: "round_env \<Rightarrow> string \<Rightarrow> string" where
  "unknown_tool_text env tool_name =
     ''Error: unknown tool '' @ [CHR 0x22] @ tool_name @ [CHR 0x22] @ ''. Available tools: ''
     @ py_join '', '' (sort (keys (env_tools env))) @ [nl, nl] @ default_error_hint"

text \<open>
  One pass of the loop: the call is answered with an error and \<open>None\<close> comes back, or it becomes
  an entry. \<open>raw_args\<close> is \<open>parsed_raw[i].arguments\<close>.
\<close>

definition validate_call ::
  "round_env \<Rightarrow> nat \<Rightarrow> tool_call_request \<Rightarrow> json_dict option \<Rightarrow> round_state
     \<Rightarrow> round_state \<times> tool_entry option" where
  "validate_call env i tc raw_args st =
     (let name = tc_name tc
      in if tc_arguments tc = [] \<and> raw_args = None then
           (note_action (''Failed: '' @ name @ '' (bad args)'')
              (add_result (error_message tc (''Error: malformed arguments for '' @ name)) st), None)
         else case map_of (env_tools env) name of
           None \<Rightarrow> (add_result (error_message tc (unknown_tool_text env name)) st, None)
         | Some t \<Rightarrow>
             (case validate_tool_args t (tc_arguments tc) of
                (validated, None) \<Rightarrow> (st, Some (i, t, validated))
              | (_, Some err) \<Rightarrow>
                  (let hint = (if env_truncated env then truncation_hint else error_kind_hints KValidation);
                       result = err @ [nl, nl] @ hint
                   in (add_with_guidance env (error_record env tc (tc_arguments tc) result)
                         (error_message tc result)
                         (note_action (''Failed: '' @ name @ '' (validation)'') st), None))))"

fun validate_calls ::
  "round_env \<Rightarrow> nat \<Rightarrow> (tool_call_request \<times> json_dict option) list \<Rightarrow> round_state
     \<Rightarrow> round_state \<times> tool_entry list" where
  "validate_calls env i [] st = (st, [])"
| "validate_calls env i ((tc, raw_args) # rest) st =
     (let (st', entry) = validate_call env i tc raw_args st;
          (st'', entries) = validate_calls env (Suc i) rest st'
      in (st'', (case entry of Some e \<Rightarrow> [e] | None \<Rightarrow> []) @ entries))"

section \<open>Phase 2: permission levels\<close>

definition get_tool_permission ::
  "permission_row \<Rightarrow> tool \<Rightarrow> json_dict \<Rightarrow> py_error + permission_level \<times> string option \<times> string" where
  "get_tool_permission row t args =
     (case t_approval_policy t of
        None \<Rightarrow> Inr (ALWAYS, None, t_name t)
      | Some policy \<Rightarrow>
          and_then (case ap_resource_extractor policy of Some f \<Rightarrow> f args | None \<Rightarrow> Inr None) (\<lambda>resource.
            and_then (check_permission row (t_name t) resource (ap_default_level policy)) (\<lambda>level.
              and_then (case ap_description_builder policy of Some f \<Rightarrow> f args | None \<Rightarrow> Inr (t_name t))
                (\<lambda>description.
                   Inr (level, resource,
                     if level = ASK then
                       (case ap_preview_builder policy of
                          Some f \<Rightarrow>
                            (case f args of
                               Inr (Some previewed) \<Rightarrow> if previewed \<noteq> [] then previewed else description
                             | _ \<Rightarrow> description)
                        | None \<Rightarrow> description)
                     else description)))))"

type_synonym ask_entry = "tool_entry \<times> string option \<times> string"

fun partition_entries ::
  "permission_row \<Rightarrow> tool_entry list \<Rightarrow> py_error + tool_entry list \<times> ask_entry list \<times> tool_entry list" where
  "partition_entries row [] = Inr ([], [], [])"
| "partition_entries row (e # es) =
     and_then (get_tool_permission row (fst (snd e)) (snd (snd e))) (\<lambda>(level, resource, description).
       and_then (partition_entries row es) (\<lambda>(auto_es, ask_es, deny_es).
         Inr (case level of
                ALWAYS \<Rightarrow> (e # auto_es, ask_es, deny_es)
              | NEVER \<Rightarrow> (auto_es, ask_es, e # deny_es)
              | ASK \<Rightarrow> (auto_es, (e, resource, description) # ask_es, deny_es))))"

text \<open>The error a call ends with when it may not run, for whichever reason.\<close>

definition refuse_entry ::
  "round_env \<Rightarrow> tool_call_request list \<Rightarrow> string \<Rightarrow> (tool_call_request \<Rightarrow> string) \<Rightarrow> tool_entry
     \<Rightarrow> round_state \<Rightarrow> round_state" where
  "refuse_entry env calls label text_of e st =
     (let tc = calls ! fst e; msg = text_of tc
      in add_result (error_message tc msg)
           (add_record (error_record env tc (snd (snd e)) msg)
             (note_action (label @ '': '' @ tc_name tc) st)))"

definition denied_text :: "tool_call_request \<Rightarrow> string" where
  "denied_text tc =
     ''Error: permission denied for tool '' @ [CHR 0x27] @ tc_name tc @ [CHR 0x27] @ [nl, nl]
     @ error_kind_hints KPermission"

definition interrupted_text :: "string \<Rightarrow> string" where
  "interrupted_text description =
     ''Tool request interrupted: the user moved on to a different topic instead of approving ''
     @ [CHR 0x22] @ description @ [CHR 0x22]
     @ ''. Do not proactively retry this tool; only call it again if the user explicitly asks.''
     @ [nl, nl] @ error_kind_hints KInterrupted"

definition deny_entry ::
  "round_env \<Rightarrow> tool_call_request list \<Rightarrow> tool_entry \<Rightarrow> round_state \<Rightarrow> round_state" where
  "deny_entry env calls = refuse_entry env calls ''Denied'' denied_text"

definition interrupt_entry ::
  "round_env \<Rightarrow> tool_call_request list \<Rightarrow> ask_entry \<Rightarrow> round_state \<Rightarrow> round_state" where
  "interrupt_entry env calls a =
     refuse_entry env calls ''Interrupted'' (\<lambda>_. interrupted_text (snd (snd a))) (fst a)"

section \<open>Phase 2: asking\<close>

text \<open>\<open>set_permission\<close>, whose exceptions are logged and dropped.\<close>

definition persist_level ::
  "round_env \<Rightarrow> string \<Rightarrow> permission_level \<Rightarrow> string option \<Rightarrow> round_state \<Rightarrow> round_state" where
  "persist_level env name level resource st =
     (case set_permission (env_defaults env) name level resource (rs_perms st) of
        Inr row \<Rightarrow> st\<lparr>rs_perms := row\<rparr>
      | Inl _ \<Rightarrow> st)"

definition resource_noun_of :: "tool \<Rightarrow> string option" where
  "resource_noun_of t = (case t_approval_policy t of Some p \<Rightarrow> ap_resource_noun p | None \<Rightarrow> None)"

definition ask_key :: "ask_entry \<Rightarrow> approval_key" where
  "ask_key a = (t_name (fst (snd (fst a))), fst (snd a))"

text \<open>The decision on one entry: from the cache, from the user, or DENIED when nobody can be asked.\<close>

definition decide :: "round_env \<Rightarrow> ask_entry \<Rightarrow> round_state \<Rightarrow> approval_decision \<times> round_state" where
  "decide env a st =
     (let t = fst (snd (fst a)); resource = fst (snd a); description = snd (snd a)
      in case map_of (rs_cache st) (ask_key a) of
           Some cached \<Rightarrow> (cached, st)
         | None \<Rightarrow>
             if env_can_prompt env then
               (let noun = resource_noun_of t;
                    prompt = format_approval_message description (resource \<noteq> None \<and> noun \<noteq> None) noun;
                    decision = env_answers env (length (rs_prompts st));
                    st' = st\<lparr>rs_prompts := rs_prompts st @ [(ask_key a, prompt)]\<rparr>
                in (decision,
                    if decision \<noteq> INTERRUPTED
                    then st'\<lparr>rs_cache := AList.update (ask_key a) decision (rs_cache st')\<rparr> else st'))
             else (DENIED, st))"

definition remember_allow ::
  "round_env \<Rightarrow> ask_entry \<Rightarrow> approval_decision \<Rightarrow> round_state \<Rightarrow> round_state" where
  "remember_allow env a decision st =
     (let t = fst (snd (fst a))
      in if decision = ALWAYS_ALLOW \<or> decision = ALWAYS_ALLOW_ALL then
           persist_level env (t_name t) ALWAYS
             (if decision = ALWAYS_ALLOW_ALL \<and> resource_noun_of t \<noteq> None then None else fst (snd a)) st
         else st)"

definition remember_deny ::
  "round_env \<Rightarrow> ask_entry \<Rightarrow> approval_decision \<Rightarrow> round_state \<Rightarrow> round_state" where
  "remember_deny env a decision st =
     (if decision = ALWAYS_DENY
      then persist_level env (t_name (fst (snd (fst a)))) NEVER (fst (snd a)) st else st)"

fun ask_loop ::
  "round_env \<Rightarrow> tool_call_request list \<Rightarrow> ask_entry list \<Rightarrow> round_state \<Rightarrow> tool_entry list
     \<Rightarrow> round_state \<times> tool_entry list" where
  "ask_loop env calls [] st approved = (st, approved)"
| "ask_loop env calls (a # rest) st approved =
     (let (decision, st') = decide env a st
      in if allows decision then
           ask_loop env calls rest (remember_allow env a decision st') (approved @ [fst a])
         else if decision = INTERRUPTED then (fold (interrupt_entry env calls) (a # rest) st', approved)
         else ask_loop env calls rest
                (deny_entry env calls (fst a) (remember_deny env a decision st')) approved)"

definition approve_entries ::
  "round_env \<Rightarrow> tool_call_request list \<Rightarrow> tool_entry list \<Rightarrow> round_state
     \<Rightarrow> py_error + round_state \<times> tool_entry list" where
  "approve_entries env calls entries st =
     and_then (partition_entries (rs_perms st) entries) (\<lambda>(auto_es, ask_es, deny_es).
       Inr (ask_loop env calls ask_es (fold (deny_entry env calls) deny_es st) auto_es))"

section \<open>Phase 2: running\<close>

datatype run_event = Started nat | Finished nat

definition unit_trace :: "(nat \<times> tool_entry) list \<Rightarrow> run_event list" where
  "unit_trace unit = concat (map (\<lambda>(pos, e). [Started pos, Finished pos]) unit)"

text \<open>\<open>asyncio.gather\<close>: any merge of the units' sequences.\<close>

inductive interleaved :: "'a list list \<Rightarrow> 'a list \<Rightarrow> bool" where
  finished: "\<forall>u \<in> set us. u = [] \<Longrightarrow> interleaved us []"
| advance: "i < length us \<Longrightarrow> us ! i = x # rest \<Longrightarrow> interleaved (us[i := rest]) tr
    \<Longrightarrow> interleaved us (x # tr)"

definition run_unit ::
  "round_env \<Rightarrow> tool_call_request list \<Rightarrow> (nat \<times> tool_entry) list
     \<Rightarrow> (nat \<times> stored_interaction \<times> agent_message \<times> string) list" where
  "run_unit env calls unit =
     map (\<lambda>(pos, idx, t, args). (pos,
       execute_single_tool (env_scrub env) (env_tools env) (calls ! idx) args (env_outcomes env pos))) unit"

text \<open>The reads of \<open>results_by_pos\<close>, in order; a missing position is a KeyError.\<close>

fun collect_results :: "(nat \<times> 'r) list \<Rightarrow> nat list \<Rightarrow> py_error + 'r list" where
  "collect_results by_pos [] = Inr []"
| "collect_results by_pos (p # ps) =
     (case map_of by_pos p of
        None \<Rightarrow> Inl KeyError
      | Some r \<Rightarrow> and_then (collect_results by_pos ps) (\<lambda>rs. Inr (r # rs)))"

definition add_output ::
  "round_env \<Rightarrow> stored_interaction \<times> agent_message \<times> string \<Rightarrow> round_state \<Rightarrow> round_state" where
  "add_output env out st =
     (let (record, msg, label) = out;
          (delivered, record', msg') =
            attach_first_use_skill_guidance (env_registry env) (env_instructions env) (rs_delivered st)
              (record, msg)
      in add_result msg' (add_record record' (note_action label (st\<lparr>rs_delivered := delivered\<rparr>))))"

definition execute_approved ::
  "round_env \<Rightarrow> tool_call_request list \<Rightarrow> tool_entry list \<Rightarrow> round_state \<Rightarrow> py_error + round_state" where
  "execute_approved env calls approved st =
     (let unit_outputs = map (run_unit env calls) (bucket_by_concurrency_group approved);
          by_pos = fold (\<lambda>(pos, out). AList.update pos out) (concat unit_outputs) []
      in and_then (collect_results by_pos [0..<length approved]) (\<lambda>outs.
           Inr (fold (add_output env) outs st)))"

section \<open>The round\<close>

definition execute_tool_round ::
  "round_env \<Rightarrow> parsed_tool_call list \<Rightarrow> round_state \<Rightarrow> py_error + round_state \<times> tool_entry list" where
  "execute_tool_round env raw st =
     (let calls = to_requests raw;
          (st1, entries) = validate_calls env 0 (zip calls (map pc_arguments raw)) (st\<lparr>rs_results := []\<rparr>)
      in and_then (approve_entries env calls entries st1) (\<lambda>(st2, approved).
           and_then (execute_approved env calls approved st2) (\<lambda>st3. Inr (st3, approved))))"

section \<open>The buckets\<close>

definition in_group :: "string option \<Rightarrow> (nat \<times> tool_entry) list \<Rightarrow> (nat \<times> tool_entry) list" where
  "in_group k = filter (\<lambda>pe. entry_group (snd pe) = k)"

lemma distinct_buckets: "distinct (keys (fold add_to_bucket xs []))"
proof (induction xs rule: rev_induct)
  case (snoc x xs)
  then show ?case by (auto simp: add_to_bucket_def Let_def keys_update)
qed simp

lemma lookup_bucket:
  "map_of (fold add_to_bucket xs []) k = (if in_group k xs = [] then None else Some (in_group k xs))"
  by (induction xs arbitrary: k rule: rev_induct)
    (auto simp: add_to_bucket_def Let_def in_group_def update_conv' split: option.splits)

lemma bucket_in_group:
  "b \<in> set (fold add_to_bucket xs []) \<Longrightarrow> snd b = in_group (fst b) xs \<and> snd b \<noteq> []"
  using lookup_bucket [of xs "fst b"] map_of_eq_Some_iff [of "fold add_to_bucket xs []" "fst b" "snd b"]
    distinct_buckets [of xs]
  by (auto simp: keys_def split: if_splits)

lemma mset_add_to_bucket:
  "mset (concat (map snd (add_to_bucket x b))) = add_mset x (mset (concat (map snd b)))"
proof -
  have "map_of b k = Some v \<Longrightarrow>
      mset (concat (map snd (AList.update k (v @ [x]) b))) = add_mset x (mset (concat (map snd b)))" for k v
    by (induction b) (auto split: if_splits)
  moreover have "map_of b k = None \<Longrightarrow>
      mset (concat (map snd (AList.update k [x] b))) = add_mset x (mset (concat (map snd b)))" for k
    by (induction b) (auto split: if_splits)
  ultimately show ?thesis by (simp add: add_to_bucket_def Let_def split: option.split)
qed

lemma mset_buckets: "mset (concat (map snd (fold add_to_bucket xs []))) = mset xs"
  by (induction xs rule: rev_induct) (simp_all add: mset_add_to_bucket)

lemma concat_units_of_bucket: "concat (units_of_bucket b) = snd b"
  by (simp add: units_of_bucket_def split: option.split)

lemma units_mset: "mset (concat (bucket_by_concurrency_group es)) = mset (enumerate 0 es)"
proof -
  have "concat (concat (map units_of_bucket bs)) = concat (map snd bs)" for bs
    by (induction bs) (simp_all add: concat_units_of_bucket)
  then show ?thesis by (simp add: bucket_by_concurrency_group_def mset_buckets)
qed

lemma group_is_unit:
  assumes "in_group (Some g) (enumerate 0 es) \<noteq> []"
  shows "in_group (Some g) (enumerate 0 es) \<in> set (bucket_by_concurrency_group es)"
proof -
  have "(Some g, in_group (Some g) (enumerate 0 es)) \<in> set (fold add_to_bucket (enumerate 0 es) [])"
    using lookup_bucket [of "enumerate 0 es" "Some g"] assms by (auto intro: map_of_SomeD)
  then show ?thesis by (force simp: bucket_by_concurrency_group_def units_of_bucket_def)
qed

section \<open>Every interleaving\<close>

lemma mset_advance:
  "i < length us \<Longrightarrow> us ! i = x # rest \<Longrightarrow> mset (concat us) = add_mset x (mset (concat (us[i := rest])))"
  using id_take_nth_drop [of i us] upd_conv_take_nth_drop [of i us rest]
  by (metis (no_types, lifting) append_Cons concat.simps(2) concat_append mset.simps(2)
      mset_append union_mset_add_mset_right)

lemma interleaved_mset: "interleaved us tr \<Longrightarrow> mset tr = mset (concat us)"
proof (induction rule: interleaved.induct)
  case (finished us)
  then show ?case by (simp add: concat_eq_Nil_conv)
next
  case (advance i us x rest tr)
  then show ?case using mset_advance [of i us x rest] by simp
qed

lemma interleaved_subseq: "interleaved us tr \<Longrightarrow> j < length us \<Longrightarrow> subseq (us ! j) tr"
proof (induction arbitrary: j rule: interleaved.induct)
  case (finished us)
  then have "us ! j = []" using nth_mem by blast
  then show ?case by simp
next
  case (advance i us x rest tr)
  then have "subseq (us[i := rest] ! j) tr" by simp
  then show ?case using advance.hyps advance.prems by (cases "i = j") auto
qed

lemma subseq_concat_map: "subseq xs ys \<Longrightarrow> subseq (concat (map f xs)) (concat (map f ys))"
  by (induction rule: list_emb.induct) (auto intro: list_emb_append2 list_emb_append_mono)

lemma subseq_pair: "p < q \<Longrightarrow> q < length xs \<Longrightarrow> subseq [xs ! p, xs ! q] xs"
proof -
  assume h: "p < q" "q < length xs"
  have "xs = take q xs @ xs ! q # drop (Suc q) xs" using h id_take_nth_drop by blast
  moreover have "xs ! p \<in> set (take q xs)"
    using h nth_mem [of p "take q xs"] by simp
  then have "subseq [xs ! p] (take q xs)" by (simp add: subseq_singleton_left)
  then have "subseq ([xs ! p] @ [xs ! q]) (take q xs @ xs ! q # drop (Suc q) xs)"
    by (rule list_emb_append_mono) simp
  ultimately show ?thesis by simp
qed

lemma events_enumerate:
  "(\<Sum>e\<in>#mset (enumerate m xs). {#Started (fst e), Finished (fst e)#})
     = mset (concat (map (\<lambda>n. [Started n, Finished n]) [m..<m + length xs]))"
proof (induction xs arbitrary: m)
  case (Cons x xs)
  have "[m..<m + length (x # xs)] = m # [Suc m..<Suc m + length xs]"
    by (simp add: upt_conv_Cons del: upt_Suc)
  then show ?case using Cons.IH [of "Suc m"] by (simp del: upt_Suc)
qed simp

lemma units_trace_mset:
  assumes "interleaved (map unit_trace (bucket_by_concurrency_group es)) tr"
  shows "mset tr = mset (concat (map (\<lambda>n. [Started n, Finished n]) [0..<length es]))"
proof -
  have "mset tr = mset (concat (map unit_trace (bucket_by_concurrency_group es)))"
    using assms(1) by (rule interleaved_mset)
  also have "concat (map unit_trace us) = unit_trace (concat us)" for us
    by (induction us) (simp_all add: unit_trace_def)
  also have "mset (unit_trace us) = (\<Sum>e\<in>#mset us. {#Started (fst e), Finished (fst e)#})" for us
    by (induction us) (auto simp: unit_trace_def)
  also have "mset (concat (bucket_by_concurrency_group es)) = mset (enumerate 0 es)" by (rule units_mset)
  also note events_enumerate
  finally show ?thesis by simp
qed

lemma group_in_order:
  assumes "interleaved (map unit_trace (bucket_by_concurrency_group es)) tr"
    and "p < q" and "q < length es"
    and "entry_group (es ! p) = Some g" and "entry_group (es ! q) = Some g"
  shows "subseq [Started p, Finished p, Started q, Finished q] tr"
proof -
  let ?en = "enumerate 0 es" and ?u = "in_group (Some g) (enumerate 0 es)"
  have en: "?en ! p = (p, es ! p)" "?en ! q = (q, es ! q)"
    using assms(2,3) by (simp_all add: nth_enumerate_eq)
  have "subseq [?en ! p, ?en ! q] ?en" using assms(2,3) by (intro subseq_pair) simp_all
  then have "subseq (filter (\<lambda>pe. entry_group (snd pe) = Some g) [?en ! p, ?en ! q]) ?u"
    unfolding in_group_def by (rule subseq_filter)
  then have sub: "subseq [(p, es ! p), (q, es ! q)] ?u" using assms(4,5) en by simp
  then have "?u \<noteq> []" by auto
  then obtain j where j: "j < length (bucket_by_concurrency_group es)" "bucket_by_concurrency_group es ! j = ?u"
    using group_is_unit by (metis in_set_conv_nth)
  have "subseq [Started p, Finished p, Started q, Finished q] (unit_trace ?u)"
    using subseq_concat_map [OF sub, of "\<lambda>(pos, e). [Started pos, Finished pos]"]
    by (simp add: unit_trace_def)
  moreover have "subseq (unit_trace ?u) tr"
    using interleaved_subseq [OF assms(1), of j] j by simp
  ultimately show ?thesis by (rule subseq_order.order_trans)
qed

text \<open>
  Concurrent calls stay out of each other's way: in every interleaving of the schedule units
  each approved call starts once and finishes once, and two calls of one concurrency group run
  one after the other in the order the model asked for them.
\<close>

theorem same_group_calls_serialized:
  assumes "interleaved (map unit_trace (bucket_by_concurrency_group es)) tr"
    and "p < q" and "q < length es"
    and "entry_group (es ! p) = Some g" and "entry_group (es ! q) = Some g"
  shows "mset tr = mset (concat (map (\<lambda>n. [Started n, Finished n]) [0..<length es]))
    \<and> subseq [Started p, Finished p, Started q, Finished q] tr"
  using units_trace_mset [OF assms(1)] group_in_order [OF assms] by simp

text \<open>A round with two writes to one file and an ungrouped call between them.\<close>

definition demo_tool :: "string \<Rightarrow> approval_policy option \<Rightarrow> concurrency_group option \<Rightarrow> tool" where
  "demo_tool name policy grp =
     \<lparr>t_name = name, t_validate = Inr, t_params_summary = [], t_tags = [], t_approval_policy = policy,
      t_read_only_when = None,
      t_concurrency_group = grp\<rparr>"

definition demo_entries :: "tool_entry list" where
  "demo_entries =
     [(0, demo_tool ''write_file'' None (Some (StaticGroup ''file'')), []),
      (1, demo_tool ''search'' None None, []),
      (2, demo_tool ''write_file'' None (Some (StaticGroup ''file'')), [])]"

theorem same_group_calls_serialized_witness:
  "subseq [Started 0, Finished 0, Started 2, Finished 2]
     [Started 1, Started 0, Finished 0, Started 2, Finished 1, Finished 2]"
proof (rule same_group_calls_serialized [where es = demo_entries and g = "''file''", THEN conjunct2])
  have units: "map unit_trace (bucket_by_concurrency_group demo_entries)
      = [[Started 0, Finished 0, Started 2, Finished 2], [Started 1, Finished 1]]"
    by (simp add: bucket_by_concurrency_group_def demo_entries_def add_to_bucket_def entry_group_def
        resolve_concurrency_group_def demo_tool_def units_of_bucket_def unit_trace_def)
  show "interleaved (map unit_trace (bucket_by_concurrency_group demo_entries))
      [Started 1, Started 0, Finished 0, Started 2, Finished 1, Finished 2]"
    unfolding units
    by (rule advance [of 1] advance [of 0] finished | simp)+
qed (simp_all add: demo_entries_def demo_tool_def entry_group_def resolve_concurrency_group_def)

section \<open>What each step answers\<close>

definition answered :: "round_state \<Rightarrow> string multiset" where
  "answered st = mset (map tool_result_id (rs_results st))"

definition only_results :: "round_state \<Rightarrow> bool" where
  "only_results st \<longleftrightarrow> (\<forall>m \<in> set (rs_results st). is_tool_result m)"

definition call_id :: "tool_call_request list \<Rightarrow> tool_entry \<Rightarrow> string" where
  "call_id calls e = tc_id (calls ! fst e)"

lemma results_frame [simp]:
  "rs_results (note_action label st) = rs_results st"
  "rs_results (add_record r st) = rs_results st"
  "rs_results (add_result m st) = rs_results st @ [m]"
  "rs_results (persist_level env name level resource st) = rs_results st"
  "rs_results (remember_allow env a d st) = rs_results st"
  "rs_results (remember_deny env a d st) = rs_results st"
  by (simp_all add: note_action_def add_record_def add_result_def persist_level_def remember_allow_def
      remember_deny_def Let_def split: sum.split)

text \<open>What the approvals depend on: the permissions, the cache and the prompts.\<close>

definition consent :: "round_state
    \<Rightarrow> permission_row \<times> (approval_key \<times> approval_decision) list \<times> (approval_key \<times> string) list" where
  "consent st = (rs_perms st, rs_cache st, rs_prompts st)"

lemma consent_frame [simp]:
  "consent (note_action label st) = consent st"
  "consent (add_record r st) = consent st"
  "consent (add_result m st) = consent st"
  by (simp_all add: note_action_def add_record_def add_result_def consent_def)

lemma guided_result:
  assumes "attach_first_use_skill_guidance reg instr delivered (r, ToolResultMessage i c e) = (d, r', m)"
  shows "is_tool_result m \<and> tool_result_id m = i \<and> si_id r' = si_id r"
  using assms by (auto simp: attach_first_use_skill_guidance_def Let_def split: option.splits if_splits list.splits)

lemma add_with_guidance_answers:
  "answered (add_with_guidance env r (ToolResultMessage i c e) st) = add_mset i (answered st)"
  "only_results st \<Longrightarrow> only_results (add_with_guidance env r (ToolResultMessage i c e) st)"
  "consent (add_with_guidance env r (ToolResultMessage i c e) st) = consent st"
  by (auto simp: add_with_guidance_def answered_def only_results_def consent_def add_result_def add_record_def
      dest!: guided_result split: prod.splits)

lemma error_message_result [simp]:
  "is_tool_result (error_message tc c)" "tool_result_id (error_message tc c) = tc_id tc"
  by (simp_all add: error_message_def)

lemma validate_call_answers:
  assumes "validate_call env i tc raw_args st = (st', entry)"
  shows "answered st' + (case entry of None \<Rightarrow> {#} | Some e \<Rightarrow> {#tc_id tc#}) = add_mset (tc_id tc) (answered st)"
    and "only_results st \<Longrightarrow> only_results st'" and "consent st' = consent st"
    and "entry = Some (j, t, args) \<Longrightarrow>
      j = i \<and> map_of (env_tools env) (tc_name tc) = Some t \<and> validate_tool_args t (tc_arguments tc) = (args, None)"
proof -
  show "answered st' + (case entry of None \<Rightarrow> {#} | Some e \<Rightarrow> {#tc_id tc#}) = add_mset (tc_id tc) (answered st)"
    using assms
    by (auto simp: validate_call_def error_message_def Let_def add_with_guidance_answers
        split: if_splits option.splits prod.splits) (simp_all add: answered_def)
  show "only_results st \<Longrightarrow> only_results st'"
    using assms
    by (auto simp: validate_call_def error_message_def Let_def
        split: if_splits option.splits prod.splits intro!: add_with_guidance_answers)
      (simp_all add: only_results_def)
  show "consent st' = consent st"
    using assms
    by (auto simp: validate_call_def error_message_def Let_def add_with_guidance_answers
        split: if_splits option.splits prod.splits)
  show "entry = Some (j, t, args) \<Longrightarrow>
      j = i \<and> map_of (env_tools env) (tc_name tc) = Some t \<and> validate_tool_args t (tc_arguments tc) = (args, None)"
    using assms by (auto simp: validate_call_def Let_def split: if_splits option.splits prod.splits)
qed

text \<open>
  The calls from index \<open>i\<close> on: what is answered and what goes on is all of them, and an entry is
  a call of a registered tool whose arguments its model accepts.
\<close>

definition valid_entry :: "round_env \<Rightarrow> tool_call_request list \<Rightarrow> tool_entry \<Rightarrow> bool" where
  "valid_entry env calls e \<longleftrightarrow>
     fst e < length calls
     \<and> map_of (env_tools env) (tc_name (calls ! fst e)) = Some (fst (snd e))
     \<and> validate_tool_args (fst (snd e)) (tc_arguments (calls ! fst e)) = (snd (snd e), None)"

lemma validate_calls_answers:
  assumes "validate_calls env i pairs st = (st', entries)"
    and "\<forall>k < length pairs. i + k < length calls \<and> calls ! (i + k) = fst (pairs ! k)"
  shows "answered st' + mset (map (call_id calls) entries) = answered st + mset (map (\<lambda>p. tc_id (fst p)) pairs)
    \<and> (only_results st \<longrightarrow> only_results st') \<and> consent st' = consent st
    \<and> (\<forall>e \<in> set entries. valid_entry env calls e)"
  using assms
proof (induction env i pairs st arbitrary: st' entries rule: validate_calls.induct)
  case (2 env i tc raw_args rest st)
  obtain st1 entry where c: "validate_call env i tc raw_args st = (st1, entry)" by fastforce
  obtain st2 es where r: "validate_calls env (Suc i) rest st1 = (st2, es)" by fastforce
  have calls: "i < length calls" "calls ! i = tc" using "2.prems"(2) by (metis add.right_neutral fst_conv length_Cons
        nth_Cons_0 zero_less_Suc)+
  have "\<forall>k < length rest. Suc i + k < length calls \<and> calls ! (Suc i + k) = fst (rest ! k)"
    using "2.prems"(2) by (metis Suc_less_eq add_Suc_right add_Suc length_Cons nth_Cons_Suc)
  then have IH: "answered st2 + mset (map (call_id calls) es) = answered st1 + mset (map (\<lambda>p. tc_id (fst p)) rest)
      \<and> (only_results st1 \<longrightarrow> only_results st2) \<and> consent st2 = consent st1
      \<and> (\<forall>e \<in> set es. valid_entry env calls e)"
    using "2.IH" [OF c [symmetric] refl] r by blast
  have out: "st' = st2" "entries = (case entry of Some e \<Rightarrow> [e] | None \<Rightarrow> []) @ es"
    using "2.prems"(1) c r by simp_all
  have "\<forall>e. entry = Some e \<longrightarrow> call_id calls e = tc_id tc \<and> valid_entry env calls e"
    using validate_call_answers(4) [OF c] calls by (auto simp: call_id_def valid_entry_def)
  then have "mset (map (call_id calls) entries)
      = (case entry of None \<Rightarrow> {#} | Some e \<Rightarrow> {#tc_id tc#}) + mset (map (call_id calls) es)"
    and "\<forall>e \<in> set entries. valid_entry env calls e"
    using IH out(2) by (auto split: option.splits)
  then show ?case using IH validate_call_answers(1-3) [OF c] out(1)
    by (auto simp: union_assoc [symmetric] ac_simps)
qed auto

lemma deny_entry_answers:
  "answered (deny_entry env calls e st) = add_mset (call_id calls e) (answered st)"
  "only_results st \<Longrightarrow> only_results (deny_entry env calls e st)"
  "consent (deny_entry env calls e st) = consent st"
  by (simp_all add: deny_entry_def refuse_entry_def Let_def answered_def only_results_def call_id_def)

lemma interrupt_entry_answers:
  "answered (interrupt_entry env calls a st) = add_mset (call_id calls (fst a)) (answered st)"
  "only_results st \<Longrightarrow> only_results (interrupt_entry env calls a st)"
  "consent (interrupt_entry env calls a st) = consent st"
  by (simp_all add: interrupt_entry_def refuse_entry_def Let_def answered_def only_results_def call_id_def)

lemma fold_answers:
  assumes "\<And>x st. answered (f x st) = add_mset (g x) (answered st)"
    and "\<And>x st. only_results st \<Longrightarrow> only_results (f x st)"
  shows "answered (fold f xs st) = answered st + mset (map g xs)"
    and "only_results st \<Longrightarrow> only_results (fold f xs st)"
  using assms by (induction xs arbitrary: st) auto

lemma fold_consent: "(\<And>x st. consent (f x st) = consent st) \<Longrightarrow> consent (fold f xs st) = consent st"
  by (induction xs arbitrary: st) auto

lemma decide_results: "decide env a st = (d, st') \<Longrightarrow> rs_results st' = rs_results st"
  by (auto simp: decide_def Let_def split: option.splits if_splits)

lemma answered_cong: "rs_results st = rs_results st' \<Longrightarrow> answered st = answered st' \<and> only_results st = only_results st'"
  by (simp add: answered_def only_results_def)

lemma ask_loop_answers:
  assumes "ask_loop env calls asks st approved = (st', approved')"
  shows "answered st' + mset (map (call_id calls) approved')
      = answered st + mset (map (call_id calls) approved) + mset (map (\<lambda>a. call_id calls (fst a)) asks)
    \<and> (only_results st \<longrightarrow> only_results st') \<and> set approved' \<subseteq> set approved \<union> fst ` set asks"
  using assms
proof (induction env calls asks st approved arbitrary: st' approved' rule: ask_loop.induct)
  case (2 env calls a rest st approved)
  obtain d st1 where d: "decide env a st = (d, st1)" by fastforce
  have same: "answered st1 = answered st" "only_results st1 = only_results st"
    using answered_cong [OF decide_results [OF d]] by simp_all
  consider (yes) "allows d" | (stop) "\<not> allows d" "d = INTERRUPTED" | (no) "\<not> allows d" "d \<noteq> INTERRUPTED"
    by blast
  then show ?case
  proof cases
    case yes
    have "answered (remember_allow env a d st1) = answered st" "only_results (remember_allow env a d st1) = only_results st"
      using answered_cong [of "remember_allow env a d st1" st1] same by simp_all
    then show ?thesis using "2.IH"(1) [OF d [symmetric] refl] "2.prems" d yes by (auto simp: ac_simps)
  next
    case stop
    then have "st' = fold (interrupt_entry env calls) (a # rest) st1" "approved' = approved"
      using "2.prems" d by simp_all
    then show ?thesis
      using same fold_answers [where f = "interrupt_entry env calls" and g = "\<lambda>a. call_id calls (fst a)"
            and xs = "a # rest" and st = st1, OF interrupt_entry_answers(1,2)] by (auto simp: ac_simps)
  next
    case no
    let ?st = "deny_entry env calls (fst a) (remember_deny env a d st1)"
    have "answered ?st = add_mset (call_id calls (fst a)) (answered st)" "only_results st \<longrightarrow> only_results ?st"
      using answered_cong [of "remember_deny env a d st1" st1] same by (simp_all add: deny_entry_answers)
    then show ?thesis using "2.IH"(2) [OF d [symmetric] refl] "2.prems" d no by (auto simp: ac_simps)
  qed
qed auto

lemma partition_entries_split:
  assumes "partition_entries row es = Inr (auto_es, ask_es, deny_es)"
  shows "mset es = mset auto_es + mset (map fst ask_es) + mset deny_es
    \<and> (\<forall>e \<in> set auto_es. \<exists>r d. get_tool_permission row (fst (snd e)) (snd (snd e)) = Inr (ALWAYS, r, d))
    \<and> (\<forall>a \<in> set ask_es. get_tool_permission row (fst (snd (fst a))) (snd (snd (fst a)))
          = Inr (ASK, fst (snd a), snd (snd a)))"
  using assms
proof (induction es arbitrary: auto_es ask_es deny_es)
  case (Cons e es)
  from Cons.prems obtain level r d as ks ds where
    p: "get_tool_permission row (fst (snd e)) (snd (snd e)) = Inr (level, r, d)"
    and q: "partition_entries row es = Inr (as, ks, ds)"
    by (auto simp: and_then_Inr)
  have "auto_es = (if level = ALWAYS then e # as else as)" "deny_es = (if level = NEVER then e # ds else ds)"
    "ask_es = (if level = ASK then (e, r, d) # ks else ks)"
    using Cons.prems p q by (cases level; simp)+
  then show ?case using Cons.IH [OF q] p by (cases level) simp_all
qed simp

lemma lookup_outputs:
  "(\<forall>(k, v) \<in> set xs. v = g k) \<Longrightarrow>
     map_of (fold (\<lambda>(k, v). AList.update k v) xs al) k
       = (if k \<in> fst ` set xs then Some (g k) else map_of al k)"
  by (induction xs arbitrary: al) (auto simp: update_conv')

lemma collect_results_Inr:
  "\<forall>p \<in> set ps. map_of by_pos p = Some (g p) \<Longrightarrow> collect_results by_pos ps = Inr (map g ps)"
  by (induction ps) auto

text \<open>Whatever the units were, the results come back in the order of the approved calls.\<close>

definition call_output ::
  "round_env \<Rightarrow> tool_call_request list \<Rightarrow> tool_entry list \<Rightarrow> nat \<Rightarrow> stored_interaction \<times> agent_message \<times> string" where
  "call_output env calls approved p =
     execute_single_tool (env_scrub env) (env_tools env) (calls ! fst (approved ! p)) (snd (snd (approved ! p)))
       (env_outcomes env p)"

lemma execute_approved_outputs:
  "execute_approved env calls approved st
     = Inr (fold (add_output env) (map (call_output env calls approved) [0..<length approved]) st)"
proof -
  let ?units = "bucket_by_concurrency_group approved"
  let ?outs = "concat (map (run_unit env calls) ?units)"
  have set_units: "set (concat ?units) = set (enumerate 0 approved)"
    using units_mset by (metis set_mset_mset)
  have "concat (map (run_unit env calls) us) = run_unit env calls (concat us)" for us
    by (induction us) (simp_all add: run_unit_def)
  note outs = this [of ?units]
  have "\<forall>(k, v) \<in> set ?outs. v = call_output env calls approved k"
    unfolding outs run_unit_def
    by (auto simp: set_units [simplified] in_set_enumerate_eq call_output_def split: prod.splits)
  moreover have "fst ` set ?outs = {0..<length approved}"
  proof -
    have "fst ` set ?outs = fst ` set (concat ?units)"
      unfolding outs run_unit_def by (force simp: image_image split: prod.splits)
    also have "\<dots> = set (map fst (enumerate 0 approved))" unfolding set_units by (rule set_map [symmetric])
    finally show ?thesis unfolding map_fst_enumerate by simp
  qed
  ultimately have "\<forall>p \<in> set [0..<length approved].
      map_of (fold (\<lambda>(pos, out). AList.update pos out) ?outs []) p = Some (call_output env calls approved p)"
    using lookup_outputs [of ?outs "call_output env calls approved" "[]"] by simp
  from collect_results_Inr [OF this] show ?thesis by (simp add: execute_approved_def Let_def)
qed

lemma call_output_id:
  "call_output env calls approved p = (r, m, label) \<Longrightarrow>
     \<exists>c e. m = ToolResultMessage (call_id calls (approved ! p)) c e"
  by (auto simp: call_output_def execute_single_tool_def Let_def call_id_def split: tool_outcome.splits if_splits)

lemma add_output_answers:
  assumes "out = (r, ToolResultMessage i c e, label)"
  shows "answered (add_output env out st) = add_mset i (answered st)"
    and "only_results st \<Longrightarrow> only_results (add_output env out st)"
    and "consent (add_output env out st) = consent st"
  using assms
  by (auto simp: add_output_def answered_def only_results_def consent_def add_result_def add_record_def
      note_action_def dest!: guided_result split: prod.splits)

lemma add_outputs_answers:
  "\<forall>p \<in> set ps. p < length approved \<Longrightarrow> outs = map (call_output env calls approved) ps \<Longrightarrow>
     answered (fold (add_output env) outs st) = answered st + mset (map (\<lambda>p. call_id calls (approved ! p)) ps)
     \<and> (only_results st \<longrightarrow> only_results (fold (add_output env) outs st))
     \<and> consent (fold (add_output env) outs st) = consent st"
proof (induction ps arbitrary: st outs)
  case (Cons p ps)
  obtain r c e label where o: "call_output env calls approved p
      = (r, ToolResultMessage (call_id calls (approved ! p)) c e, label)"
    using call_output_id [of env calls approved p] by (metis prod.exhaust)
  show ?case using Cons add_output_answers [OF o] by (auto simp: o)
qed simp

lemma execute_approved_answers:
  assumes "execute_approved env calls approved st = Inr st'"
  shows "answered st' = answered st + mset (map (call_id calls) approved)"
    and "only_results st \<Longrightarrow> only_results st'" and "consent st' = consent st"
proof -
  have "map (\<lambda>p. call_id calls (approved ! p)) [0..<length approved] = map (call_id calls) approved"
    by (rule nth_equalityI) simp_all
  moreover have "st' = fold (add_output env) (map (call_output env calls approved) [0..<length approved]) st"
    using assms by (simp add: execute_approved_outputs)
  ultimately show "answered st' = answered st + mset (map (call_id calls) approved)"
    and "only_results st \<Longrightarrow> only_results st'" and "consent st' = consent st"
    using add_outputs_answers [OF _ refl, of "[0..<length approved]" approved env calls st] by simp_all
qed

text \<open>The whole round, cut at its two awaits: validated entries, approved entries, the end.\<close>

lemma execute_tool_round_cases:
  assumes "execute_tool_round env raw st = Inr (st', approved)"
  obtains st1 entries st2 where
    "validate_calls env 0 (zip (to_requests raw) (map pc_arguments raw)) (st\<lparr>rs_results := []\<rparr>) = (st1, entries)"
    "approve_entries env (to_requests raw) entries st1 = Inr (st2, approved)"
    "execute_approved env (to_requests raw) approved st2 = Inr st'"
  using assms by (auto simp: execute_tool_round_def and_then_Inr Let_def split: prod.splits)

lemma validated:
  assumes "validate_calls env 0 (zip (to_requests raw) (map pc_arguments raw)) (st\<lparr>rs_results := []\<rparr>) = (st1, entries)"
  shows "answered st1 + mset (map (call_id (to_requests raw)) entries) = mset (map pc_id raw)"
    and "only_results st1" and "consent st1 = consent st"
    and "\<forall>e \<in> set entries. valid_entry env (to_requests raw) e"
proof -
  let ?calls = "to_requests raw" and ?pairs = "zip (to_requests raw) (map pc_arguments raw)"
  have l: "length ?calls = length raw" by (simp add: to_requests_def)
  have "map (\<lambda>p. tc_id (fst p)) ?pairs = map pc_id raw"
    by (rule nth_equalityI) (simp_all add: to_requests_def)
  moreover have "answered (st\<lparr>rs_results := []\<rparr>) = {#}" "only_results (st\<lparr>rs_results := []\<rparr>)"
    "consent (st\<lparr>rs_results := []\<rparr>) = consent st"
    by (simp_all add: answered_def only_results_def consent_def)
  moreover have "\<forall>k < length ?pairs. 0 + k < length ?calls \<and> ?calls ! (0 + k) = fst (?pairs ! k)"
    using l by simp
  ultimately show "answered st1 + mset (map (call_id ?calls) entries) = mset (map pc_id raw)"
    and "only_results st1" and "consent st1 = consent st" and "\<forall>e \<in> set entries. valid_entry env ?calls e"
    using validate_calls_answers [OF assms, of ?calls] by simp_all
qed

lemma approve_entries_answers:
  assumes "approve_entries env calls entries st = Inr (st', approved)"
  shows "answered st' + mset (map (call_id calls) approved) = answered st + mset (map (call_id calls) entries)"
    and "only_results st \<Longrightarrow> only_results st'" and "set approved \<subseteq> set entries"
proof -
  from assms obtain as ks ds where
    p: "partition_entries (rs_perms st) entries = Inr (as, ks, ds)"
    and a: "ask_loop env calls ks (fold (deny_entry env calls) ds st) as = (st', approved)"
    by (auto simp: approve_entries_def and_then_Inr)
  note split = partition_entries_split [OF p]
  have "mset (map (call_id calls) entries) = image_mset (call_id calls) (mset as + mset (map fst ks) + mset ds)"
    using split by (metis mset_map)
  then show "answered st' + mset (map (call_id calls) approved) = answered st + mset (map (call_id calls) entries)"
    using ask_loop_answers [OF a]
      fold_answers(1) [where f = "deny_entry env calls" and g = "call_id calls" and xs = ds and st = st,
        OF deny_entry_answers(1,2)]
    by (simp add: ac_simps image_mset.compositionality comp_def)
  show "only_results st \<Longrightarrow> only_results st'"
    using ask_loop_answers [OF a]
      fold_answers(2) [where f = "deny_entry env calls" and g = "call_id calls" and xs = ds and st = st,
        OF deny_entry_answers(1,2)] by simp
  have "set_mset (mset entries) = set_mset (mset as + mset (map fst ks) + mset ds)" using split by simp
  then show "set approved \<subseteq> set entries" using ask_loop_answers [OF a] by auto
qed

section \<open>Every call is answered\<close>

lemma execute_tool_round_answers:
  assumes "execute_tool_round env raw st = Inr (st', approved)"
  shows "paired (AssistantMessage content (to_requests raw) q # rs_results st')"
proof -
  from assms obtain st1 entries st2 where
    v: "validate_calls env 0 (zip (to_requests raw) (map pc_arguments raw)) (st\<lparr>rs_results := []\<rparr>) = (st1, entries)"
    and a: "approve_entries env (to_requests raw) entries st1 = Inr (st2, approved)"
    and x: "execute_approved env (to_requests raw) approved st2 = Inr st'"
    by (rule execute_tool_round_cases)
  have "answered st' = mset (map pc_id raw)"
    using validated(1) [OF v] approve_entries_answers(1) [OF a] execute_approved_answers(1) [OF x] by simp
  moreover have "map tc_id (to_requests raw) = map pc_id raw" by (simp add: to_requests_def)
  moreover have "only_results st'"
    using validated(2) [OF v] approve_entries_answers(2) [OF a] execute_approved_answers(2) [OF x] by simp
  ultimately show ?thesis by (intro paired_round) (simp_all add: answered_def only_results_def)
qed

text \<open>
  C1. However a round goes (malformed arguments, unknown tools, validation errors, denials, an
  interruption, tools that fail or raise), every tool call of the model's response gets exactly one
  tool result and nothing else does, so the response followed by the results keeps the API's
  pairing contract.
\<close>

theorem tool_round_answers_every_call:
  assumes "execute_tool_round env raw st = Inr (st', approved)"
  shows "paired (AssistantMessage content (to_requests raw) q # rs_results st')"
  using assms by (rule execute_tool_round_answers)

section \<open>Only permitted calls run\<close>

text \<open>
  A decision has a ground: it was in the turn's cache when the round began, or it is the user's
  answer to a prompt of this round about the same tool and resource.
\<close>

definition grounded ::
  "round_env \<Rightarrow> round_state \<Rightarrow> (approval_key \<times> string) list \<Rightarrow> approval_key \<Rightarrow> approval_decision \<Rightarrow> bool" where
  "grounded env st0 prompts key d \<longleftrightarrow>
     map_of (rs_cache st0) key = Some d
     \<or> (\<exists>n. length (rs_prompts st0) \<le> n \<and> n < length prompts \<and> fst (prompts ! n) = key \<and> env_answers env n = d)"

definition cache_grounded :: "round_env \<Rightarrow> round_state \<Rightarrow> round_state \<Rightarrow> bool" where
  "cache_grounded env st0 st \<longleftrightarrow>
     length (rs_prompts st0) \<le> length (rs_prompts st)
     \<and> (\<forall>key d. map_of (rs_cache st) key = Some d \<longrightarrow> grounded env st0 (rs_prompts st) key d)"

lemma grounded_append: "grounded env st0 ps key d \<Longrightarrow> grounded env st0 (ps @ qs) key d"
  unfolding grounded_def by (metis length_append nth_append trans_less_add1)

lemma grounded_prefix: "prefix ps qs \<Longrightarrow> grounded env st0 ps key d \<Longrightarrow> grounded env st0 qs key d"
  by (auto simp: prefix_def intro: grounded_append)

text \<open>What the bookkeeping around a decision leaves alone.\<close>

definition asked :: "round_state \<Rightarrow> (approval_key \<times> approval_decision) list \<times> (approval_key \<times> string) list" where
  "asked st = (rs_cache st, rs_prompts st)"

lemma asked_persist [simp]: "asked (persist_level env name level resource st) = asked st"
  by (simp add: asked_def persist_level_def split: sum.split)

lemma asked_frame [simp]:
  "asked (remember_allow env a d st) = asked st"
  "asked (remember_deny env a d st) = asked st"
  "asked (deny_entry env calls e st) = asked st"
  "asked (interrupt_entry env calls a st) = asked st"
  by (simp_all add: remember_allow_def remember_deny_def Let_def)
    (simp_all add: deny_entry_def interrupt_entry_def refuse_entry_def asked_def note_action_def
      add_record_def add_result_def Let_def)

lemma fold_asked: "(\<And>x st. asked (f x st) = asked st) \<Longrightarrow> asked (fold f xs st) = asked st"
  by (induction xs arbitrary: st) auto

lemma asked_fold [simp]:
  "asked (fold (interrupt_entry env calls) as st) = asked st"
  "asked (fold (deny_entry env calls) es st) = asked st"
  by (rule fold_asked, simp)+

lemma asked_eq: "asked st = asked st' \<longleftrightarrow> rs_cache st = rs_cache st' \<and> rs_prompts st = rs_prompts st'"
  by (simp add: asked_def)

lemma cache_grounded_cong: "asked st = asked st' \<Longrightarrow> cache_grounded env st0 st = cache_grounded env st0 st'"
  by (simp add: cache_grounded_def asked_eq)

lemma decide_grounded:
  assumes "decide env a st = (d, st')" and "cache_grounded env st0 st"
  shows "cache_grounded env st0 st'" and "allows d \<Longrightarrow> grounded env st0 (rs_prompts st') (ask_key a) d"
    and "prefix (rs_prompts st) (rs_prompts st')"
proof -
  have asks: "grounded env st0 (rs_prompts st @ [(ask_key a, prompt)]) (ask_key a)
      (env_answers env (length (rs_prompts st)))" for prompt
    using assms(2) unfolding grounded_def cache_grounded_def
    by (metis fst_conv length_append_singleton lessI nth_append_length)
  show "cache_grounded env st0 st'"
    using assms asks grounded_append
    by (fastforce simp: decide_def cache_grounded_def Let_def update_conv' split: option.splits if_splits)
  show "prefix (rs_prompts st) (rs_prompts st')"
    using assms(1) by (auto simp: decide_def Let_def split: option.splits if_splits)
  show "grounded env st0 (rs_prompts st') (ask_key a) d" if "allows d"
  proof (cases "map_of (rs_cache st) (ask_key a)")
    case None
    then show ?thesis
      using assms(1) asks that by (auto simp: decide_def Let_def allows_def split: if_splits)
  next
    case (Some d')
    moreover from this have "grounded env st0 (rs_prompts st) (ask_key a) d'"
      using assms(2) unfolding cache_grounded_def by blast
    ultimately show ?thesis using assms(1) by (simp add: decide_def Let_def)
  qed
qed

lemma ask_loop_grounded:
  assumes "ask_loop env calls asks st approved = (st', approved')" and "cache_grounded env st0 st"
  shows "prefix (rs_prompts st) (rs_prompts st')
    \<and> (\<forall>e \<in> set approved'. e \<in> set approved
        \<or> (\<exists>a \<in> set asks. fst a = e \<and> (\<exists>d. allows d \<and> grounded env st0 (rs_prompts st') (ask_key a) d)))"
  using assms
proof (induction env calls asks st approved arbitrary: st' approved' rule: ask_loop.induct)
  case (2 env calls a rest st approved)
  obtain d st1 where d: "decide env a st = (d, st1)" by fastforce
  note g = decide_grounded [OF d "2.prems"(2)]
  consider (yes) "allows d" | (stop) "\<not> allows d" "d = INTERRUPTED" | (no) "\<not> allows d" "d \<noteq> INTERRUPTED"
    by blast
  then show ?case
  proof cases
    case yes
    let ?st = "remember_allow env a d st1"
    have same: "asked ?st = asked st1" by simp
    have "ask_loop env calls rest ?st (approved @ [fst a]) = (st', approved')"
      using "2.prems"(1) d yes by simp
    from "2.IH"(1) [OF d [symmetric] refl yes this] g(1) cache_grounded_cong [OF same, of env st0]
    have IH: "prefix (rs_prompts ?st) (rs_prompts st')"
      "\<forall>e \<in> set approved'. e \<in> set (approved @ [fst a])
        \<or> (\<exists>a \<in> set rest. fst a = e \<and> (\<exists>d. allows d \<and> grounded env st0 (rs_prompts st') (ask_key a) d))"
      by blast+
    have p: "prefix (rs_prompts st1) (rs_prompts st')" using IH(1) same [unfolded asked_eq] by simp
    then have "prefix (rs_prompts st) (rs_prompts st')"
      and "grounded env st0 (rs_prompts st') (ask_key a) d"
      using g(2,3) yes grounded_prefix prefix_order.order_trans by blast+
    then show ?thesis using IH(2) yes by auto
  next
    case stop
    then have st': "st' = fold (interrupt_entry env calls) (a # rest) st1" and "approved' = approved"
      using "2.prems" d by simp_all
    have "asked st' = asked st1" unfolding st' by (rule asked_fold)
    then show ?thesis using g(3) \<open>approved' = approved\<close> by (simp add: asked_eq)
  next
    case no
    let ?st = "deny_entry env calls (fst a) (remember_deny env a d st1)"
    have same: "asked ?st = asked st1" by simp
    have "ask_loop env calls rest ?st approved = (st', approved')"
      using "2.prems"(1) d no by simp
    from "2.IH"(2) [OF d [symmetric] refl no this] g(1) cache_grounded_cong [OF same, of env st0]
    have IH: "prefix (rs_prompts ?st) (rs_prompts st')"
      "\<forall>e \<in> set approved'. e \<in> set approved
        \<or> (\<exists>a \<in> set rest. fst a = e \<and> (\<exists>d. allows d \<and> grounded env st0 (rs_prompts st') (ask_key a) d))"
      by blast+
    have "prefix (rs_prompts st1) (rs_prompts st')" using IH(1) same [unfolded asked_eq] by simp
    then show ?thesis using IH(2) g(3) prefix_order.order_trans by auto
  qed
qed auto

text \<open>
  C2. A tool runs only when it may: every executed call is one the model made, of a registered
  tool, with arguments its schema accepts, and either its permission (stored or default) is ALWAYS
  for exactly these arguments, or it is ASK and an allowing decision for this tool and resource
  was made by the user, in this round or earlier in the turn. A call whose permission is NEVER is
  never among them.
\<close>

theorem only_permitted_calls_run:
  assumes "execute_tool_round env raw st = Inr (st', approved)" and "(i, t, args) \<in> set approved"
  shows "i < length raw \<and> map_of (env_tools env) (pc_name (raw ! i)) = Some t
    \<and> (\<exists>resource description.
         get_tool_permission (rs_perms st) t args = Inr (ALWAYS, resource, description)
         \<or> get_tool_permission (rs_perms st) t args = Inr (ASK, resource, description)
           \<and> (\<exists>d. allows d \<and> grounded env st (rs_prompts st') (t_name t, resource) d))"
proof -
  from assms(1) obtain st1 entries st2 where
    v: "validate_calls env 0 (zip (to_requests raw) (map pc_arguments raw)) (st\<lparr>rs_results := []\<rparr>) = (st1, entries)"
    and a: "approve_entries env (to_requests raw) entries st1 = Inr (st2, approved)"
    and x: "execute_approved env (to_requests raw) approved st2 = Inr st'"
    by (rule execute_tool_round_cases)
  from a obtain as ks ds where
    p: "partition_entries (rs_perms st1) entries = Inr (as, ks, ds)"
    and l: "ask_loop env (to_requests raw) ks (fold (deny_entry env (to_requests raw)) ds st1) as = (st2, approved)"
    by (auto simp: approve_entries_def and_then_Inr)
  have same: "rs_perms st1 = rs_perms st" "rs_cache st1 = rs_cache st" "rs_prompts st1 = rs_prompts st"
    "rs_prompts st' = rs_prompts st2"
    using validated(3) [OF v] execute_approved_answers(3) [OF x] by (simp_all add: consent_def)
  have "(i, t, args) \<in> set entries" using approve_entries_answers(3) [OF a] assms(2) by blast
  then have "valid_entry env (to_requests raw) (i, t, args)" using validated(4) [OF v] by blast
  then have "i < length raw \<and> map_of (env_tools env) (pc_name (raw ! i)) = Some t"
    by (auto simp: valid_entry_def to_requests_def)
  moreover have "cache_grounded env st st1"
    using same by (simp add: cache_grounded_def grounded_def)
  then have "cache_grounded env st (fold (deny_entry env (to_requests raw)) ds st1)"
    using cache_grounded_cong [OF asked_fold(2)] by blast
  from ask_loop_grounded [OF l this] assms(2) same(4)
  have "(i, t, args) \<in> set as \<or> (\<exists>a \<in> set ks. fst a = (i, t, args)
      \<and> (\<exists>d. allows d \<and> grounded env st (rs_prompts st') (ask_key a) d))" by auto
  then have "\<exists>resource description.
      get_tool_permission (rs_perms st) t args = Inr (ALWAYS, resource, description)
      \<or> get_tool_permission (rs_perms st) t args = Inr (ASK, resource, description)
        \<and> (\<exists>d. allows d \<and> grounded env st (rs_prompts st') (t_name t, resource) d)"
    using partition_entries_split [OF p] same(1) by (fastforce simp: ask_key_def)
  ultimately show ?thesis by blast
qed

section \<open>Nobody is asked twice\<close>

lemma decide_asks:
  assumes "decide env a st = (d, st')"
  obtains (silent) "asked st' = asked st" "d \<noteq> INTERRUPTED \<or> map_of (rs_cache st) (ask_key a) = Some d"
  | (prompt) p where "map_of (rs_cache st) (ask_key a) = None"
      "rs_prompts st' = rs_prompts st @ [(ask_key a, p)]" "d = env_answers env (length (rs_prompts st))"
      "d \<noteq> INTERRUPTED \<longrightarrow> rs_cache st' = AList.update (ask_key a) d (rs_cache st)"
  using assms by (auto simp: decide_def asked_eq Let_def split: option.splits if_splits)

definition asked_once :: "round_env \<Rightarrow> round_state \<Rightarrow> (approval_key \<times> string) list \<Rightarrow> bool" where
  "asked_once env st news \<longleftrightarrow>
     distinct (map fst news) \<and> (\<forall>p \<in> set news. map_of (rs_cache st) (fst p) = None)
     \<and> (\<forall>n. Suc n < length news \<longrightarrow> env_answers env (length (rs_prompts st) + n) \<noteq> INTERRUPTED)"

lemma asked_once_Nil [simp]: "asked_once env st []"
  by (simp add: asked_once_def)

lemma asked_once_cong: "asked st = asked st' \<Longrightarrow> asked_once env st = asked_once env st'"
  by (simp add: asked_once_def asked_eq fun_eq_iff)

lemma asked_once_Cons:
  assumes "asked_once env st' news" and "rs_prompts st' = rs_prompts st @ [(key, p)]"
    and "rs_cache st' = AList.update key d (rs_cache st)" and "map_of (rs_cache st) key = None"
    and "env_answers env (length (rs_prompts st)) \<noteq> INTERRUPTED"
  shows "asked_once env st ((key, p) # news)"
proof -
  have "fst q \<noteq> key \<and> map_of (rs_cache st) (fst q) = None" if "q \<in> set news" for q
    using assms(1,3) that by (auto simp: asked_once_def update_conv' split: if_splits)
  moreover have "env_answers env (length (rs_prompts st) + n) \<noteq> INTERRUPTED"
    if "Suc n < length ((key, p) # news)" for n
    using assms(1,2,5) that by (cases n) (auto simp: asked_once_def)
  ultimately show ?thesis using assms(1,4) by (auto simp: asked_once_def)
qed

lemma ask_loop_once:
  assumes "ask_loop env calls asks st approved = (st', approved')"
  shows "\<exists>news. rs_prompts st' = rs_prompts st @ news \<and> asked_once env st news"
  using assms
proof (induction env calls asks st approved arbitrary: st' approved' rule: ask_loop.induct)
  case (2 env calls a rest st approved)
  obtain d st1 where d: "decide env a st = (d, st1)" by fastforce
  have next_state: "\<exists>st2. asked st2 = asked st1
      \<and> (\<exists>news. rs_prompts st' = rs_prompts st2 @ news \<and> asked_once env st2 news)" if "allows d \<or> d \<noteq> INTERRUPTED"
  proof (cases "allows d")
    case True
    then have "ask_loop env calls rest (remember_allow env a d st1) (approved @ [fst a]) = (st', approved')"
      using "2.prems" d by simp
    from "2.IH"(1) [OF d [symmetric] refl True this] asked_frame(1) show ?thesis by blast
  next
    case False
    then have "ask_loop env calls rest (deny_entry env calls (fst a) (remember_deny env a d st1)) approved
        = (st', approved')"
      using "2.prems" d that by simp
    moreover have "d \<noteq> INTERRUPTED" using False that by simp
    moreover have "asked (deny_entry env calls (fst a) (remember_deny env a d st1)) = asked st1" by simp
    ultimately show ?thesis using "2.IH"(2) [OF d [symmetric] refl False] by blast
  qed
  show ?case
  proof (cases "allows d \<or> d \<noteq> INTERRUPTED")
    case True
    then obtain news where n: "rs_prompts st' = rs_prompts st1 @ news" "asked_once env st1 news"
      using next_state asked_once_cong by (metis asked_eq)
    have "d \<noteq> INTERRUPTED" using True by (auto simp: allows_def)
    from d show ?thesis
    proof (cases rule: decide_asks)
      case silent
      then show ?thesis using n asked_once_cong by (metis asked_eq)
    next
      case (prompt p)
      then show ?thesis using n asked_once_Cons [of env st1 news st "ask_key a" p d] \<open>d \<noteq> INTERRUPTED\<close> by auto
    qed
  next
    case False
    then have "st' = fold (interrupt_entry env calls) (a # rest) st1"
      using "2.prems" d by (simp add: allows_def)
    then have "asked st' = asked st1" using asked_fold(1) by metis
    moreover have "\<exists>news. rs_prompts st1 = rs_prompts st @ news \<and> asked_once env st news"
      using d by (cases rule: decide_asks) (auto simp: asked_eq asked_once_def)
    ultimately show ?thesis by (simp add: asked_eq)
  qed
qed auto

text \<open>
  C37. The user is asked at most once about a tool and resource: the prompts of a round are about
  distinct keys, none of which the turn had a decision for, and an interruption ends the asking:
  only the answer to the last prompt can be one.
\<close>

theorem user_asked_once:
  assumes "execute_tool_round env raw st = Inr (st', approved)"
  shows "\<exists>news. rs_prompts st' = rs_prompts st @ news \<and> distinct (map fst news)
    \<and> (\<forall>p \<in> set news. map_of (rs_cache st) (fst p) = None)
    \<and> (\<forall>n. Suc n < length news \<longrightarrow> env_answers env (length (rs_prompts st) + n) \<noteq> INTERRUPTED)"
proof -
  from assms obtain st1 entries st2 where
    v: "validate_calls env 0 (zip (to_requests raw) (map pc_arguments raw)) (st\<lparr>rs_results := []\<rparr>) = (st1, entries)"
    and a: "approve_entries env (to_requests raw) entries st1 = Inr (st2, approved)"
    and x: "execute_approved env (to_requests raw) approved st2 = Inr st'"
    by (rule execute_tool_round_cases)
  from a obtain as ks ds where
    "ask_loop env (to_requests raw) ks (fold (deny_entry env (to_requests raw)) ds st1) as = (st2, approved)"
    by (auto simp: approve_entries_def and_then_Inr)
  from ask_loop_once [OF this] obtain news where
    n: "rs_prompts st2 = rs_prompts (fold (deny_entry env (to_requests raw)) ds st1) @ news"
      "asked_once env (fold (deny_entry env (to_requests raw)) ds st1) news" by blast
  have "asked st1 = asked st" using validated(3) [OF v] by (simp add: asked_def consent_def)
  then have same: "asked (fold (deny_entry env (to_requests raw)) ds st1) = asked st" by simp
  have "rs_prompts st' = rs_prompts st2"
    using execute_approved_answers(3) [OF x] by (simp add: consent_def)
  then have "rs_prompts st' = rs_prompts st @ news" using n(1) same [unfolded asked_eq] by simp
  moreover have "asked_once env st news" using n(2) asked_once_cong [OF same] by simp
  ultimately show ?thesis unfolding asked_once_def by blast
qed

section \<open>Runs\<close>

text \<open>
  A turn in which the model sends two messages with a tool that asks: the policy extracts no
  resource and describes the call by its text.
\<close>

definition demo_policy :: approval_policy where
  "demo_policy =
     \<lparr>ap_default_level = ASK, ap_resource_extractor = None,
      ap_description_builder = Some (\<lambda>args. case map_of args ''text'' of
         Some (JStr s) \<Rightarrow> Inr (''send '' @ s) | _ \<Rightarrow> Inl KeyError),
      ap_preview_builder = None, ap_resource_noun = None\<rparr>"

definition demo_env :: "(nat \<Rightarrow> approval_decision) \<Rightarrow> round_env" where
  "demo_env answers =
     \<lparr>env_tools = register_tools [demo_tool ''send'' (Some demo_policy) None, demo_tool ''now'' None None],
      env_registry = None, env_instructions = (\<lambda>_. None), env_scrub = id, env_defaults = [],
      env_can_prompt = True, env_truncated = False, env_answers = answers,
      env_outcomes = (\<lambda>_. ToolReturned \<lparr>tr_content = ''done'', tr_is_error = False, tr_error_kind = None,
        tr_hint = [], tr_receipt = None\<rparr>)\<rparr>"

definition demo_raw :: "parsed_tool_call list" where
  "demo_raw =
     [\<lparr>pc_id = ''a'', pc_name = ''send'', pc_arguments = Some [(''text'', JStr ''A'')]\<rparr>,
      \<lparr>pc_id = ''b'', pc_name = ''gone'', pc_arguments = Some []\<rparr>,
      \<lparr>pc_id = ''c'', pc_name = ''send'', pc_arguments = Some [(''text'', JStr ''B'')]\<rparr>,
      \<lparr>pc_id = ''d'', pc_name = ''now'', pc_arguments = Some []\<rparr>]"

definition new_round :: round_state where
  "new_round = \<lparr>rs_actions = [], rs_records = [], rs_results = [], rs_delivered = {}, rs_cache = [],
     rs_perms = None, rs_prompts = []\<rparr>"

lemmas demo_defs = demo_env_def demo_raw_def new_round_def demo_tool_def demo_policy_def register_tools_def

lemmas round_defs =
  execute_tool_round_def to_requests_def validate_call_def validate_tool_args_def approve_entries_def
  get_tool_permission_def check_permission_def resolve_permission_def resolve_tool_def parse_row_data_def
  dict_get_def decide_def ask_key_def resource_noun_of_def allows_def remember_allow_def remember_deny_def
  deny_entry_def interrupt_entry_def refuse_entry_def note_action_def add_result_def add_record_def
  add_with_guidance_def attach_first_use_skill_guidance_def persist_level_def

lemma add_output_prompts [simp]: "rs_prompts (add_output env out st) = rs_prompts st"
  by (auto simp: add_output_def add_result_def add_record_def note_action_def split: prod.splits)

definition demo_approved :: "tool_entry list" where
  "demo_approved =
     [(3, demo_tool ''now'' None None, []),
      (0, demo_tool ''send'' (Some demo_policy) None, [(''text'', JStr ''A'')]),
      (2, demo_tool ''send'' (Some demo_policy) None, [(''text'', JStr ''B'')])]"

lemma demo_round:
  "\<exists>st'. execute_tool_round (demo_env (\<lambda>_. APPROVED)) demo_raw new_round = Inr (st', demo_approved)
     \<and> rs_prompts st' = [((''send'', None), format_approval_message ''send A'' False None)]"
  by (simp add: demo_defs demo_approved_def round_defs Let_def execute_approved_outputs)

theorem tool_round_answers_every_call_witness:
  "\<exists>st'. paired (AssistantMessage None (to_requests demo_raw) None # rs_results st')
     \<and> execute_tool_round (demo_env (\<lambda>_. APPROVED)) demo_raw new_round = Inr (st', demo_approved)"
  using demo_round tool_round_answers_every_call by blast

theorem only_permitted_calls_run_witness:
  "\<exists>d prompts. allows d \<and> grounded (demo_env (\<lambda>_. APPROVED)) new_round prompts (''send'', None) d"
proof -
  let ?t = "demo_tool ''send'' (Some demo_policy) None"
  obtain st' where r: "execute_tool_round (demo_env (\<lambda>_. APPROVED)) demo_raw new_round = Inr (st', demo_approved)"
    using demo_round by blast
  have "(0, ?t, [(''text'', JStr ''A'')]) \<in> set demo_approved" by (simp add: demo_approved_def)
  from only_permitted_calls_run [OF r this] show ?thesis
    by (auto simp: demo_defs round_defs Let_def)
qed

theorem user_asked_once_witness:
  "\<exists>st' news. execute_tool_round (demo_env (\<lambda>_. APPROVED)) demo_raw new_round = Inr (st', demo_approved)
     \<and> rs_prompts st' = rs_prompts new_round @ news \<and> distinct (map fst news)"
  using demo_round user_asked_once by blast

text \<open>
  A yes goes further than its prompt says. The prompt shows one action and offers
  "yes: allow this once", but the answer is cached for the tool and resource: a tool whose policy
  extracts no resource then runs every further call of the turn, with other arguments the user
  never saw, on that one answer.
\<close>

theorem one_yes_runs_other_calls:
  "\<exists>st'. execute_tool_round (demo_env (\<lambda>_. APPROVED)) demo_raw new_round = Inr (st', demo_approved)
     \<and> (2, demo_tool ''send'' (Some demo_policy) None, [(''text'', JStr ''B'')]) \<in> set demo_approved
     \<and> map snd (rs_prompts st') = [format_approval_message ''send A'' False None]"
  using demo_round by (auto simp: demo_approved_def)

end
