(* ===== verification/Caches.thy ===== *)
theory Caches
  imports Prelude
begin

text \<open>
  The bounded maps of the process and the request limiter: \<open>StoreCache\<close> of
  \<open>backend/app/agent/store_cache.py\<close> and \<open>InMemoryRateLimiter\<close> of
  \<open>backend/app/services/rate_limiter.py\<close>, with the interface \<open>bounded_memo\<close> that the
  per-user caches of the agent share: what is put can be looked up until it is evicted, an
  eviction never invents or changes an entry, and the size stays within a cap. The token cache
  (theory \<open>Agent_Loop\<close>), the workspace snapshots (theory \<open>Prompt_Epoch\<close>) and the store
  caches are instances.
\<close>

section \<open>Bounded memos\<close>

locale bounded_memo =
  fixes put :: "'k \<Rightarrow> 'v \<Rightarrow> 'c \<Rightarrow> 'c"
    and lookup :: "'c \<Rightarrow> 'k \<Rightarrow> 'v option"
    and entries :: "'c \<Rightarrow> nat"
    and ok :: "'c \<Rightarrow> bool"
    and empty :: 'c
    and cap :: nat
  assumes ok_empty: "ok empty"
    and lookup_empty: "lookup empty k = None"
    and entries_empty: "entries empty \<le> cap"
    and ok_put: "ok c \<Longrightarrow> ok (put k v c)"
    and lookup_put: "ok c \<Longrightarrow> lookup (put k v c) k = Some v"
    and lookup_other: "ok c \<Longrightarrow> k' \<noteq> k \<Longrightarrow> lookup (put k v c) k' = Some w \<Longrightarrow> lookup c k' = Some w"
    and entries_put: "ok c \<Longrightarrow> entries (put k v c) \<le> cap"
begin

definition after :: "('k \<times> 'v) list \<Rightarrow> 'c" where
  "after kvs = fold (\<lambda>(k, v). put k v) kvs empty"

lemma after_snoc: "after (kvs @ [(k, v)]) = put k v (after kvs)"
  by (simp add: after_def)

lemma ok_after: "ok (after kvs)"
  by (induction kvs rule: rev_induct) (auto simp: after_snoc ok_put after_def ok_empty)

lemma entries_after: "entries (after kvs) \<le> cap"
proof (cases kvs rule: rev_cases)
  case (snoc xs x)
  then show ?thesis using entries_put ok_after by (cases x) (simp add: after_snoc)
qed (simp add: after_def entries_empty)

text \<open>A lookup gives the last value put under the key, or nothing.\<close>

lemma lookup_after: "lookup (after kvs) k = Some v \<Longrightarrow> map_of (rev kvs) k = Some v"
proof (induction kvs arbitrary: v rule: rev_induct)
  case Nil
  then show ?case by (simp add: after_def lookup_empty)
next
  case (snoc x xs)
  obtain k' v' where x: "x = (k', v')" by fastforce
  show ?case
  proof (cases "k = k'")
    case True
    then show ?thesis using snoc.prems lookup_put [OF ok_after] by (simp add: x after_snoc)
  next
    case False
    then show ?thesis
      using snoc.IH lookup_other [OF ok_after False] snoc.prems by (auto simp: x after_snoc)
  qed
qed

end

section \<open>The ordered dictionary with eviction\<close>

definition lru_put :: "nat \<Rightarrow> 'k \<Rightarrow> 'v \<Rightarrow> ('k \<times> 'v) list \<Rightarrow> ('k \<times> 'v) list" where
  "lru_put n k v d = od_evict n (od_put k v d)"

lemma lru_put_last:
  assumes "0 < n" and "distinct (keys d)"
  shows "\<exists>d'. lru_put n k v d = d' @ [(k, v)]"
  using assms by (auto simp: lru_put_def od_put_eq od_evict_def)

lemma distinct_od_evict: "distinct (keys d) \<Longrightarrow> distinct (keys (od_evict n d))"
  by (simp add: keys_od_evict distinct_drop)

lemma lru_bounded_memo:
  assumes "0 < n"
  shows "bounded_memo (lru_put n) map_of length (\<lambda>d. distinct (keys d)) [] n"
proof
  fix c :: "('k \<times> 'v) list" and k v assume c: "distinct (keys c)"
  then have put: "distinct (keys (od_put k v c))" by (rule distinct_od_put)
  then show "distinct (keys (lru_put n k v c))" by (simp add: lru_put_def distinct_od_evict)
  have d: "distinct (keys (lru_put n k v c))" using put by (simp add: lru_put_def distinct_od_evict)
  obtain d' where last: "lru_put n k v c = d' @ [(k, v)]" using lru_put_last [OF assms c] by blast
  with d have "map_of d' k = None" by (auto simp: keys_def dom_map_of_conv_image_fst map_of_eq_None_iff)
  then show "map_of (lru_put n k v c) k = Some v" by (simp add: last map_add_def)
  show "length (lru_put n k v c) \<le> n" by (simp add: lru_put_def length_od_evict)
  fix k' w assume "k' \<noteq> k" "map_of (lru_put n k v c) k' = Some w"
  then show "map_of c k' = Some w"
    using map_of_od_evict_subset [OF put, of n] map_of_od_put [OF c, of k v]
    by (auto simp: lru_put_def map_le_def dom_def)
qed simp_all

section \<open>The store cache\<close>

definition store_cache_max :: nat where
  "store_cache_max = 256"

text \<open>\<open>StoreCache.get\<close>: the store of a key, created and put last when it is absent.\<close>

definition store_cache_get :: "(string \<Rightarrow> 'v) \<Rightarrow> nat \<Rightarrow> string \<Rightarrow> (string \<times> 'v) list \<Rightarrow> 'v \<times> (string \<times> 'v) list" where
  "store_cache_get factory max_size key d =
     (case map_of d key of
        Some v \<Rightarrow> (v, od_move_to_end key d)
      | None \<Rightarrow>
          (let s = factory key; d' = AList.update key s d
           in (s, if max_size < length d' then tl d' else d')))"

lemma update_new: "map_of d k = None \<Longrightarrow> AList.update k v d = d @ [(k, v)]"
  by (induction d) (auto split: if_splits)

lemma length_move_to_end: "distinct (keys d) \<Longrightarrow> length (od_move_to_end k d) = length d"
  using keys_od_put [of d k]
proof (cases "map_of d k")
  case (Some v)
  assume d: "distinct (keys d)"
  then have "length (keys (AList.delete k d)) = card (dom (map_of d) - {k})"
    by (simp add: keys_delete distinct_card [symmetric] set_diff_eq flip: Collect_mem_eq)
  moreover have "length d = card (dom (map_of d))" using d distinct_card [OF d] by simp
  moreover have "Suc (card (dom (map_of d) - {k})) = card (dom (map_of d))"
    using Some by (intro card_Suc_Diff1) (auto simp: finite_dom_map_of)
  ultimately show ?thesis using Some by (simp add: od_move_to_end_def)
qed (simp add: od_move_to_end_def)

lemma store_cache_get_put:
  assumes "distinct (keys d)" and "length d \<le> n"
  shows "store_cache_get factory n key d =
    (case map_of d key of Some v \<Rightarrow> (v, lru_put n key v d) | None \<Rightarrow> (factory key, lru_put n key (factory key) d))"
proof (cases "map_of d key")
  case None
  then have "AList.delete key d = d" by (simp add: delete_id map_of_eq_None_iff)
  then have put: "od_put key s d = d @ [(key, s)]" for s using assms(1) by (simp add: od_put_eq)
  have upd: "AList.update key s d = d @ [(key, s)]" for s
    using None by (rule update_new)
  have "(if n < Suc (length d) then tl (d @ [(key, s)]) else d @ [(key, s)])
      = drop (Suc (length d) - n) (d @ [(key, s)])" for s
    using assms(2) by (cases "n = length d"; cases d) auto
  then show ?thesis using None by (simp add: store_cache_get_def lru_put_def od_evict_def put upd Let_def)
next
  case (Some v)
  have "AList.update key v d = d"
    using Some by (induction d) auto
  then have "lru_put n key v d = od_evict n (od_move_to_end key d)" by (simp add: lru_put_def od_put_def)
  moreover have "length (od_move_to_end key d) \<le> n"
    using assms by (simp add: length_move_to_end)
  ultimately show ?thesis using Some by (simp add: store_cache_get_def od_evict_def)
qed

interpretation store_cache: bounded_memo "lru_put store_cache_max :: string \<Rightarrow> 'v \<Rightarrow> _"
  map_of length "\<lambda>d. distinct (keys d)" "[]" store_cache_max
  by (rule lru_bounded_memo) (simp add: store_cache_max_def)

text \<open>A cached store is handed out again while it is cached, and the cache stays within its bound.\<close>

lemma store_cache_get_stored:
  assumes "distinct (keys d)" and "length d \<le> store_cache_max"
    and "store_cache_get factory store_cache_max key d = (s, d')"
  shows "map_of d' key = Some s \<and> length d' \<le> store_cache_max \<and> distinct (keys d')
    \<and> (map_of d key = Some s \<or> map_of d key = None \<and> s = factory key)"
  using assms(3) store_cache.lookup_put [OF assms(1)] store_cache.entries_put [OF assms(1)]
    store_cache.ok_put [OF assms(1)]
  by (auto simp: store_cache_get_put [OF assms(1,2)] split: option.splits)

section \<open>The request limiter\<close>

text \<open>
  \<open>_requests\<close> is a dict of lists; times are monotonic clock ticks. The peer is the forwarded
  header (only with a trusted proxy) or the address of the connection.
\<close>

definition get_client_ip :: "bool \<Rightarrow> string option \<Rightarrow> string option \<Rightarrow> string" where
  "get_client_ip trust_proxy forwarded client =
     (case forwarded of
        Some f \<Rightarrow> if trust_proxy \<and> f \<noteq> [] then py_strip (takeWhile (\<lambda>c. c \<noteq> CHR '','') f)
                  else (case client of Some h \<Rightarrow> h | None \<Rightarrow> ''unknown'')
      | None \<Rightarrow> (case client of Some h \<Rightarrow> h | None \<Rightarrow> ''unknown''))"

definition requests_of :: "(string \<times> int list) list \<Rightarrow> string \<Rightarrow> int list" where
  "requests_of d key = (case map_of d key of Some ts \<Rightarrow> ts | None \<Rightarrow> [])"

definition prune_requests :: "int \<Rightarrow> string \<Rightarrow> int \<Rightarrow> (string \<times> int list) list \<Rightarrow> (string \<times> int list) list" where
  "prune_requests window key now d =
     (let kept = dropWhile (\<lambda>t. t < now - window) (requests_of d key)
      in if kept = [] then AList.delete key d else AList.update key kept d)"

text \<open>\<open>check\<close>: whether the request passes (a 429 otherwise), and the counts after it.\<close>

definition check_rate :: "nat \<Rightarrow> int \<Rightarrow> string \<Rightarrow> int \<Rightarrow> (string \<times> int list) list \<Rightarrow> bool \<times> (string \<times> int list) list" where
  "check_rate max_requests window key now d =
     (let pruned = prune_requests window key now d; ts = requests_of pruned key
      in if max_requests \<le> length ts then (False, AList.update key ts pruned)
         else (True, AList.update key (ts @ [now]) pruned))"

text \<open>The requests of a run, in order, with the times of those that passed per key.\<close>

fun run_checks ::
  "nat \<Rightarrow> int \<Rightarrow> (string \<times> int) list \<Rightarrow> (string \<times> int list) list \<Rightarrow> (string \<times> int) list" where
  "run_checks m window [] d = []"
| "run_checks m window ((key, now) # rest) d =
     (let (passed, d') = check_rate m window key now d
      in (if passed then [(key, now)] else []) @ run_checks m window rest d')"

definition passed_times :: "string \<Rightarrow> (string \<times> int) list \<Rightarrow> int list" where
  "passed_times key ps = map snd (filter (\<lambda>p. fst p = key) ps)"

lemma requests_of_prune:
  "requests_of (prune_requests window key now d) k =
     (if k = key then dropWhile (\<lambda>t. t < now - window) (requests_of d k) else requests_of d k)"
  by (cases "k = key") (auto simp: prune_requests_def requests_of_def Let_def delete_conv' update_conv'
      simp del: dropWhile_eq_Nil_conv)

lemma check_rate_spec:
  assumes "check_rate m window key now d = (ok, d')"
  defines "kept \<equiv> dropWhile (\<lambda>t. t < now - window) (requests_of d key)"
  shows "ok \<longleftrightarrow> length kept < m"
    and "requests_of d' k = (if k = key then kept @ (if ok then [now] else []) else requests_of d k)"
proof -
  let ?p = "prune_requests window key now d"
  have ts: "requests_of ?p key = kept" "\<And>k. k \<noteq> key \<Longrightarrow> requests_of ?p k = requests_of d k"
    by (simp_all add: requests_of_prune kept_def)
  have upd: "requests_of (AList.update key v ?p) k = (if k = key then v else requests_of ?p k)" for v k
    by (simp add: requests_of_def update_conv')
  show "ok \<longleftrightarrow> length kept < m" using assms(1) ts(1) by (auto simp: check_rate_def Let_def split: if_splits)
  then show "requests_of d' k = (if k = key then kept @ (if ok then [now] else []) else requests_of d k)"
    using assms(1) ts upd by (auto simp: check_rate_def Let_def split: if_splits)
qed

text \<open>
  The counts of a key are the end of what passed for it so far; what is forgotten is older than
  the window, and any \<open>m + 1\<close> consecutive passes span more than a window.
\<close>

definition spaced :: "nat \<Rightarrow> int \<Rightarrow> int list \<Rightarrow> bool" where
  "spaced m window ts \<longleftrightarrow> (\<forall>i. i + m < length ts \<longrightarrow> ts ! i + window < ts ! (i + m))"

definition counted :: "nat \<Rightarrow> int \<Rightarrow> int \<Rightarrow> (string \<times> int list) list \<Rightarrow> (string \<times> int) list \<Rightarrow> bool" where
  "counted m window now d ps \<longleftrightarrow>
     (\<forall>key. spaced m window (passed_times key ps)
        \<and> (\<exists>old. passed_times key ps = old @ requests_of d key \<and> (\<forall>t \<in> set old. t < now - window)))"

lemma spaced_snoc:
  assumes "spaced m window ts" and "ts = old @ kept" and "\<forall>t \<in> set old. t < now - window" and "length kept < m"
  shows "spaced m window (ts @ [now])"
  unfolding spaced_def
proof (intro allI impI)
  fix i assume i: "i + m < length (ts @ [now])"
  show "(ts @ [now]) ! i + window < (ts @ [now]) ! (i + m)"
  proof (cases "i + m < length ts")
    case True
    then show ?thesis using assms(1) by (auto simp: spaced_def nth_append)
  next
    case False
    then have m: "i + m = length ts" using i by simp
    then have "i < length old" using assms(2,4) by simp
    then have "ts ! i \<in> set old" using assms(2) by (simp add: nth_append)
    then have "ts ! i + window < now" using assms(3) by auto
    then show ?thesis using m assms(4) by (simp add: nth_append)
  qed
qed

lemma counted_check:
  assumes "counted m window now0 d ps" and "now0 \<le> now" and "check_rate m window key now d = (ok, d')"
  shows "counted m window now d' (ps @ (if ok then [(key, now)] else []))"
  unfolding counted_def
proof
  fix k
  obtain old where k: "spaced m window (passed_times k ps)" "passed_times k ps = old @ requests_of d k"
    "\<forall>t \<in> set old. t < now0 - window" using assms(1) unfolding counted_def by blast
  let ?drop = "takeWhile (\<lambda>t. t < now - window) (requests_of d k)"
  let ?kept = "dropWhile (\<lambda>t. t < now - window) (requests_of d k)"
  have older: "\<forall>t \<in> set (old @ ?drop). t < now - window" using k(3) assms(2) by (auto dest: set_takeWhileD)
  have split: "passed_times k ps = (old @ ?drop) @ ?kept" using k(2) by simp
  note spec = check_rate_spec [OF assms(3)]
  have new: "passed_times k (ps @ (if ok then [(key, now)] else []))
      = passed_times k ps @ (if k = key \<and> ok then [now] else [])" by (auto simp: passed_times_def)
  show "spaced m window (passed_times k (ps @ (if ok then [(key, now)] else [])))
    \<and> (\<exists>old. passed_times k (ps @ (if ok then [(key, now)] else [])) = old @ requests_of d' k
        \<and> (\<forall>t \<in> set old. t < now - window))"
  proof (cases "k = key")
    case True
    have "ok \<Longrightarrow> spaced m window (passed_times k ps @ [now])"
      using spaced_snoc [OF k(1) split older] spec(1) True by simp
    moreover have "passed_times k ps @ (if ok then [now] else []) = (old @ ?drop) @ requests_of d' k"
      using spec(2) [of k] split True by simp
    ultimately show ?thesis using new True k(1) older by (cases ok) auto
  next
    case False
    then show ?thesis using new k spec(2) [of k] assms(2) by fastforce
  qed
qed

lemma run_checks_spaced:
  assumes "counted m window now0 d ps" and "sorted (map snd checks)" and "\<forall>p \<in> set checks. now0 \<le> snd p"
  shows "spaced m window (passed_times key (ps @ run_checks m window checks d))"
  using assms
proof (induction m window checks d arbitrary: ps now0 rule: run_checks.induct)
  case (1 m window d)
  then show ?case by (auto simp: counted_def)
next
  case (2 m window k now rest d)
  obtain ok d' where c: "check_rate m window k now d = (ok, d')" by fastforce
  have now: "now0 \<le> now" using "2.prems"(3) by simp
  have "spaced m window (passed_times key ((ps @ (if ok then [(k, now)] else [])) @ run_checks m window rest d'))"
    using "2.prems"(2) by (intro "2.IH" [OF c [symmetric] refl counted_check [OF "2.prems"(1) now c]]) auto
  then show ?case using c by simp
qed

text \<open>
  The limiter is a true sliding window: of the requests of one client that pass, no more than
  the maximum fall into any window, so a request and the one that passes \<open>max_requests\<close> passes
  later are more than a window apart, whatever other clients send.
\<close>

theorem rate_limit_sliding_window:
  assumes "sorted (map snd checks)" and "i + m < length (passed_times key (run_checks m window checks []))"
  shows "passed_times key (run_checks m window checks []) ! i + window
    < passed_times key (run_checks m window checks []) ! (i + m)"
proof -
  obtain now0 where now0: "\<forall>p \<in> set checks. now0 \<le> snd p"
    using assms(1) by (cases checks) auto
  have "counted m window now0 [] []" by (simp add: counted_def spaced_def passed_times_def requests_of_def)
  from run_checks_spaced [OF this assms(1) now0, of key] assms(2) show ?thesis by (simp add: spaced_def)
qed

theorem rate_limit_sliding_window_witness:
  "passed_times ''a'' (run_checks 2 60 [(''a'', 0), (''a'', 10), (''b'', 20), (''a'', 30), (''a'', 61)] []) = [0, 10, 61]
     \<and> 0 + 60 < (61::int)"
proof -
  let ?run = "passed_times ''a'' (run_checks 2 60 [(''a'', 0), (''a'', 10), (''b'', 20), (''a'', 30), (''a'', 61)] [])"
  have run: "?run = [0, 10, 61]"
    by code_simp
  from rate_limit_sliding_window [of "[(''a'', 0), (''a'', 10), (''b'', 20), (''a'', 30), (''a'', 61)]" 0 2 "''a''" 60]
  show ?thesis unfolding run by simp
qed

end
