(* ===== verification/Prompt_Epoch.thy ===== *)
theory Prompt_Epoch
  imports Session_Store Tools Caches
begin

text \<open>
  \<open>backend/app/agent/prompt_epoch.py\<close>: the cache epoch a turn belongs to (\<open>find_epoch\<close>), the
  rebuild of the history an epoch inherits (\<open>build_history_view\<close>), the shedding of history by a
  mid-session trim (\<open>shed_history_view\<close>), the renderer that stores what it did
  (\<open>EpochHistoryRenderer\<close>), and the workspace updates laid out on the history
  (\<open>WorkspaceTurn\<close>, \<open>_remember\<close>).

  A row's timestamp is in microseconds (see \<open>History\<close>). The settings the functions read are the
  fields of \<open>epoch_config\<close>. \<open>int(budget * 0.6)\<close> is \<open>budget * 6 div 10\<close>, which is what the
  float product truncates to for every budget below three million tokens.
\<close>

section \<open>Epochs\<close>

record epoch_config =
  ec_idle :: int
  ec_budget :: nat
  ec_verbatim :: nat
  ec_max_turns :: nat

definition is_cold_gap :: "epoch_config \<Rightarrow> int option \<Rightarrow> int \<Rightarrow> bool" where
  "is_cold_gap cfg previous current =
     (case previous of None \<Rightarrow> True | Some p \<Rightarrow> current - p > ec_idle cfg)"

definition touches_cache :: "stored_message list \<Rightarrow> nat \<Rightarrow> bool" where
  "touches_cache rows i \<longleftrightarrow>
     sm_direction (rows ! i) = INBOUND \<or> (i > 0 \<and> sm_direction (rows ! (i - 1)) = INBOUND)"

text \<open>The latest touching index below \<open>n\<close>.\<close>

fun prev_touch :: "stored_message list \<Rightarrow> nat \<Rightarrow> nat option" where
  "prev_touch rows 0 = None"
| "prev_touch rows (Suc n) = (if touches_cache rows n then Some n else prev_touch rows n)"

text \<open>Whether the row at \<open>i\<close> opened an epoch; \<open>continue\<close> of the loop is \<open>False\<close> here.\<close>

definition opens_epoch :: "epoch_config \<Rightarrow> stored_message list \<Rightarrow> nat \<Rightarrow> bool" where
  "opens_epoch cfg rows i =
     (sm_direction (rows ! i) = INBOUND
      \<and> (case sm_timestamp (rows ! i) of
           None \<Rightarrow> False
         | Some at \<Rightarrow>
             (case prev_touch rows i of
                None \<Rightarrow> is_cold_gap cfg None at
              | Some p \<Rightarrow>
                  (case sm_timestamp (rows ! p) of
                     None \<Rightarrow> False
                   | Some previous \<Rightarrow> is_cold_gap cfg (Some previous) at))))"

fun epoch_boundary :: "epoch_config \<Rightarrow> stored_message list \<Rightarrow> nat \<Rightarrow> nat" where
  "epoch_boundary cfg rows 0 = 0"
| "epoch_boundary cfg rows (Suc n) = (if opens_epoch cfg rows n then n else epoch_boundary cfg rows n)"

record prompt_epoch =
  pe_key :: int
  pe_cold_start :: bool
  pe_turn_seq :: "int option"

definition find_epoch ::
  "epoch_config \<Rightarrow> stored_message list \<Rightarrow> stored_message \<Rightarrow> prompt_epoch \<times> nat" where
  "find_epoch cfg rows current =
     (let all_rows = rows @ [current];
          boundary = epoch_boundary cfg all_rows (length all_rows);
          cold_start = (\<forall>r \<in> set (drop boundary all_rows). sm_direction r = INBOUND)
      in (\<lparr>pe_key = sm_seq (all_rows ! boundary), pe_cold_start = cold_start,
           pe_turn_seq = Some (sm_seq current)\<rparr>, boundary))"

section \<open>Rendering with elided results\<close>

definition epoch_chars_per_token :: nat where
  "epoch_chars_per_token = 2"

definition elide_min_chars :: nat where
  "elide_min_chars = 300"

fun estimate_chars :: "agent_message \<Rightarrow> nat" where
  "estimate_chars (AssistantMessage c tcs s) =
     length (opt_text c)
     + sum_list (map (\<lambda>tc. length (tc_name tc) + length (json_dumps (JObj (tc_arguments tc)))) tcs)"
| "estimate_chars (SystemMessage c) = length c"
| "estimate_chars (UserMessage c s) = length c"
| "estimate_chars (ToolResultMessage i c e) = length c"

definition estimate_tokens :: "agent_message list \<Rightarrow> nat" where
  "estimate_tokens ms = sum_list (map estimate_chars ms) div epoch_chars_per_token"

text \<open>\<open>_group_turns\<close>: the groups so far, the last one open.\<close>

definition add_to_turns ::
  "stored_message \<Rightarrow> stored_message list list \<Rightarrow> stored_message list list" where
  "add_to_turns row groups =
     (if sm_direction row = INBOUND \<or> groups = [] then groups @ [[row]]
      else butlast groups @ [last groups @ [row]])"

definition group_turns :: "stored_message list \<Rightarrow> stored_message list list" where
  "group_turns rows = fold add_to_turns rows []"

definition elided_result_stub :: "string \<Rightarrow> nat \<Rightarrow> string" where
  "elided_result_stub tool_name chars =
     ''[tool result elided: '' @ tool_name @ '', '' @ nat_str chars
     @ '' chars; re-run only if it just reads]''"

definition is_write :: "(string \<times> tool) list \<Rightarrow> string \<Rightarrow> json_dict \<Rightarrow> bool" where
  "is_write tools_by_name name args =
     (case map_of tools_by_name name of None \<Rightarrow> True | Some t \<Rightarrow> is_mutating_call t args)"

text \<open>The index of the group a seq belongs to.\<close>

definition group_of :: "stored_message list list \<Rightarrow> int \<Rightarrow> nat option" where
  "group_of groups =
     fold (\<lambda>(g, rows) m. fold (\<lambda>row m. m(sm_seq row \<mapsto> g)) rows m) (enumerate 0 groups) Map.empty"

record render_state =
  rd_calls :: "string \<Rightarrow> (string \<times> json_dict) option"
  rd_group :: "nat option"
  rd_row_seq :: "int option"

definition new_render :: render_state where
  "new_render = \<lparr>rd_calls = Map.empty, rd_group = None, rd_row_seq = None\<rparr>"

text \<open>One pass of the loop before the elision: the row the message is of, and its calls.\<close>

definition track_row :: "(int \<Rightarrow> nat option) \<Rightarrow> agent_message \<Rightarrow> render_state \<Rightarrow> render_state" where
  "track_row groups m st =
     (let st' = (case msg_seq m of
                   Some q \<Rightarrow> st\<lparr>rd_group := groups q, rd_row_seq := Some q\<rparr>
                 | None \<Rightarrow> st)
      in st'\<lparr>rd_calls := fold (\<lambda>tc calls. calls(tc_id tc \<mapsto> (tc_name tc, tc_arguments tc)))
               (msg_tool_calls m) (rd_calls st')\<rparr>)"

definition is_old :: "nat \<Rightarrow> int option \<Rightarrow> render_state \<Rightarrow> bool" where
  "is_old verbatim_from stub_before st \<longleftrightarrow>
     (case rd_group st of Some g \<Rightarrow> g < verbatim_from | None \<Rightarrow> False)
     \<or> (case (stub_before, rd_row_seq st) of (Some b, Some q) \<Rightarrow> q < b | _ \<Rightarrow> False)"

text \<open>The content an old result is sent with, and whether it was elided.\<close>

definition elide_result ::
  "(string \<times> tool) list \<Rightarrow> (string \<times> json_dict) option \<Rightarrow> string \<Rightarrow> string \<times> bool" where
  "elide_result tools_by_name call content =
     (let plain = strip_skill_guidance content
      in case call of
           Some (name, args) \<Rightarrow>
             if length plain > elide_min_chars \<and> \<not> is_write tools_by_name name args
             then (elided_result_stub name (length plain), True) else (plain, False)
         | None \<Rightarrow> (plain, False))"

fun elide_message ::
  "(string \<times> tool) list \<Rightarrow> nat \<Rightarrow> int option \<Rightarrow> render_state \<Rightarrow> agent_message \<Rightarrow> agent_message \<times> bool" where
  "elide_message tools_by_name verbatim_from stub_before st (ToolResultMessage i c e) =
     (if is_old verbatim_from stub_before st then
        (let (c', elided) = elide_result tools_by_name (rd_calls st i) c
         in (ToolResultMessage i c' e, elided))
      else (ToolResultMessage i c e, False))"
| "elide_message tools_by_name verbatim_from stub_before st m = (m, False)"

text \<open>The loop: what is sent, the part of it the epoch inherited, the number of stubs.\<close>

fun render_loop ::
  "(string \<times> tool) list \<Rightarrow> (int \<Rightarrow> nat option) \<Rightarrow> nat \<Rightarrow> int option \<Rightarrow> agent_message list \<Rightarrow> render_state
     \<Rightarrow> agent_message list \<times> agent_message list \<times> nat" where
  "render_loop tools_by_name groups verbatim_from stub_before [] st = ([], [], 0)"
| "render_loop tools_by_name groups verbatim_from stub_before (m # ms) st =
     (let st' = track_row groups m st;
          (m', elided) = elide_message tools_by_name verbatim_from stub_before st' m;
          (out, pre, n) = render_loop tools_by_name groups verbatim_from stub_before ms st'
      in (m' # out, (if rd_group st' \<noteq> None then m' # pre else pre), (if elided then Suc n else n)))"

definition render_rows ::
  "timezone \<Rightarrow> (string \<times> tool) list \<Rightarrow> stored_message list list \<Rightarrow> stored_message list \<Rightarrow> nat
     \<Rightarrow> stored_message list \<Rightarrow> int option \<Rightarrow> agent_message list \<times> nat \<times> nat" where
  "render_rows tz tools_by_name pre_groups post verbatim_from preceding stub_before =
     (let (out, pre, n) = render_loop tools_by_name (group_of pre_groups) verbatim_from stub_before
            (stored_to_agent tz (concat pre_groups @ post) preceding) new_render
      in (out, estimate_tokens pre, n))"

section \<open>The view of one turn\<close>

record history_view =
  hv_messages :: "agent_message list"
  hv_epoch :: prompt_epoch
  hv_dropped :: "stored_message list"
  hv_elided :: nat

text \<open>The \<open>while True\<close> of \<open>fit_verbatim\<close>, from a window of \<open>verbatim\<close> turns down.\<close>

fun fit_window ::
  "epoch_config \<Rightarrow> timezone \<Rightarrow> (string \<times> tool) list \<Rightarrow> stored_message list list \<Rightarrow> stored_message list
     \<Rightarrow> stored_message list \<Rightarrow> int option \<Rightarrow> nat \<Rightarrow> agent_message list \<times> nat \<times> nat" where
  "fit_window cfg tz tools_by_name kept post preceding stub_before 0 =
     render_rows tz tools_by_name kept post (length kept) preceding stub_before"
| "fit_window cfg tz tools_by_name kept post preceding stub_before (Suc verbatim) =
     (let (messages, tokens, n) =
            render_rows tz tools_by_name kept post (length kept - Suc verbatim) preceding stub_before
      in if tokens \<le> ec_budget cfg then (messages, tokens, n)
         else fit_window cfg tz tools_by_name kept post preceding stub_before verbatim)"

definition rows_before ::
  "stored_message list \<Rightarrow> stored_message list list \<Rightarrow> nat \<Rightarrow> stored_message list" where
  "rows_before preceding groups first = preceding @ concat (take first groups)"

definition fit_verbatim ::
  "epoch_config \<Rightarrow> timezone \<Rightarrow> (string \<times> tool) list \<Rightarrow> stored_message list list \<Rightarrow> stored_message list
     \<Rightarrow> stored_message list \<Rightarrow> int option \<Rightarrow> nat \<Rightarrow> agent_message list \<times> nat \<times> nat" where
  "fit_verbatim cfg tz tools_by_name groups post preceding stub_before first =
     (let kept = drop first groups
      in fit_window cfg tz tools_by_name kept post (rows_before preceding groups first) stub_before
           (min (ec_verbatim cfg) (length kept)))"

definition drop_target :: "epoch_config \<Rightarrow> nat" where
  "drop_target cfg = ec_budget cfg * 6 div 10"

text \<open>Step 3: the first group kept, from the tokens of the groups kept so far.\<close>

function drop_turns ::
  "epoch_config \<Rightarrow> timezone \<Rightarrow> (string \<times> tool) list \<Rightarrow> stored_message list list \<Rightarrow> stored_message list
     \<Rightarrow> stored_message list \<Rightarrow> int option \<Rightarrow> nat \<Rightarrow> nat \<Rightarrow> nat" where
  "drop_turns cfg tz tools_by_name groups post preceding stub_before start tokens =
     (if start < length groups - 1
         \<and> (tokens > drop_target cfg \<or> length groups - start > ec_max_turns cfg)
      then drop_turns cfg tz tools_by_name groups post preceding stub_before (Suc start)
             (fst (snd (render_rows tz tools_by_name (drop (Suc start) groups) post (length groups)
                          (rows_before preceding groups (Suc start)) stub_before)))
      else start)"
  by pat_completeness auto
termination
  by (relation "measure (\<lambda>(cfg, tz, tools, groups, post, preceding, stub, start, tokens). length groups - start)")
    auto

declare drop_turns.simps [simp del]

definition plain_view ::
  "timezone \<Rightarrow> stored_message list \<Rightarrow> stored_message list \<Rightarrow> prompt_epoch \<Rightarrow> history_view" where
  "plain_view tz rows preceding epoch =
     \<lparr>hv_messages = stored_to_agent tz rows preceding, hv_epoch = epoch, hv_dropped = [], hv_elided = 0\<rparr>"

text \<open>The rebuild of a history whose first \<open>boundary > 0\<close> rows were inherited.\<close>

definition rebuild_view ::
  "epoch_config \<Rightarrow> timezone \<Rightarrow> (string \<times> tool) list \<Rightarrow> stored_message list \<Rightarrow> stored_message list
     \<Rightarrow> int option \<Rightarrow> prompt_epoch \<Rightarrow> nat \<Rightarrow> history_view" where
  "rebuild_view cfg tz tools_by_name rows preceding stub_before epoch boundary =
     (let groups = group_turns (take boundary rows);
          post = drop boundary rows;
          fit = fit_verbatim cfg tz tools_by_name groups post preceding stub_before;
          (messages, tokens, n) = fit 0
      in if tokens > ec_budget cfg \<or> length groups > ec_max_turns cfg then
           (let start = drop_turns cfg tz tools_by_name groups post preceding stub_before 0 tokens;
                (messages', tokens', n') = fit start
            in \<lparr>hv_messages = messages', hv_epoch = epoch, hv_dropped = concat (take start groups),
                hv_elided = n'\<rparr>)
         else \<lparr>hv_messages = messages, hv_epoch = epoch, hv_dropped = [], hv_elided = n\<rparr>)"

definition build_history_view ::
  "epoch_config \<Rightarrow> timezone \<Rightarrow> (string \<times> tool) list \<Rightarrow> bool \<Rightarrow> stored_message list
     \<Rightarrow> stored_message option \<Rightarrow> stored_message list \<Rightarrow> int option \<Rightarrow> history_view" where
  "build_history_view cfg tz tools_by_name compact rows current preceding stub_before =
     (case current of
        None \<Rightarrow> plain_view tz rows preceding \<lparr>pe_key = 0, pe_cold_start = True, pe_turn_seq = None\<rparr>
      | Some cur \<Rightarrow>
          (let (epoch, boundary) = find_epoch cfg rows cur
           in if \<not> compact \<or> (boundary = 0 \<and> stub_before = None) then plain_view tz rows preceding epoch
              else if boundary = 0 then
                (let (messages, tokens, n) = render_rows tz tools_by_name [] rows 0 preceding stub_before
                 in \<lparr>hv_messages = messages, hv_epoch = epoch, hv_dropped = [], hv_elided = n\<rparr>)
              else rebuild_view cfg tz tools_by_name rows preceding stub_before epoch boundary))"

section \<open>Shedding history for a trim\<close>

record shed_view =
  sv_view :: history_view
  sv_stub :: int

definition stub_line ::
  "stored_message list list \<Rightarrow> stored_message \<Rightarrow> int option \<Rightarrow> nat \<Rightarrow> int" where
  "stub_line groups current stub_before verbatim =
     (let line = (if verbatim \<noteq> 0 then sm_seq (hd (groups ! (length groups - verbatim))) else sm_seq current)
      in case stub_before of None \<Rightarrow> line | Some b \<Rightarrow> max line b)"

definition shed_render ::
  "epoch_config \<Rightarrow> timezone \<Rightarrow> (string \<times> tool) list \<Rightarrow> stored_message list list \<Rightarrow> stored_message
     \<Rightarrow> stored_message list \<Rightarrow> int option \<Rightarrow> nat \<Rightarrow> nat \<Rightarrow> history_view" where
  "shed_render cfg tz tools_by_name groups current preceding stub_before start verbatim =
     (let dropped = concat (take start groups);
          view = build_history_view cfg tz tools_by_name True (concat (drop start groups)) (Some current)
                   (preceding @ dropped) (Some (stub_line groups current stub_before verbatim))
      in view\<lparr>hv_dropped := dropped @ hv_dropped view\<rparr>)"

text \<open>\<open>widest\<close>: the windows from \<open>verbatim\<close> turns down, the first that fits.\<close>

fun widest_from ::
  "(nat \<Rightarrow> history_view) \<Rightarrow> (nat \<Rightarrow> int) \<Rightarrow> (agent_message list \<Rightarrow> bool) \<Rightarrow> nat \<Rightarrow> shed_view option" where
  "widest_from render line fits_prompt 0 =
     (if fits_prompt (hv_messages (render 0)) then Some \<lparr>sv_view = render 0, sv_stub = line 0\<rparr> else None)"
| "widest_from render line fits_prompt (Suc v) =
     (if fits_prompt (hv_messages (render (Suc v)))
      then Some \<lparr>sv_view = render (Suc v), sv_stub = line (Suc v)\<rparr>
      else widest_from render line fits_prompt v)"

text \<open>The binary search for the fewest turns dropped.\<close>

function fewest_drops :: "(nat \<Rightarrow> bool) \<Rightarrow> nat \<Rightarrow> nat \<Rightarrow> nat" where
  "fewest_drops ok low high =
     (if low < high then
        (let middle = (low + high) div 2
         in if ok middle then fewest_drops ok low middle else fewest_drops ok (Suc middle) high)
      else low)"
  by pat_completeness auto
termination
  by (relation "measure (\<lambda>(ok, low, high). high - low)") auto

declare fewest_drops.simps [simp del]

definition shed_history_view ::
  "epoch_config \<Rightarrow> timezone \<Rightarrow> (string \<times> tool) list \<Rightarrow> (agent_message list \<Rightarrow> bool)
     \<Rightarrow> stored_message list \<Rightarrow> stored_message \<Rightarrow> stored_message list \<Rightarrow> int option \<Rightarrow> shed_view" where
  "shed_history_view cfg tz tools_by_name fits_prompt rows current preceding stub_before =
     (let groups = group_turns rows;
          line = stub_line groups current stub_before;
          render = shed_render cfg tz tools_by_name groups current preceding stub_before;
          widest = (\<lambda>start. widest_from (render start) line fits_prompt
                       (min (ec_verbatim cfg) (length groups - start)));
          last = length groups - 1
      in case widest 0 of
           Some found \<Rightarrow> found
         | None \<Rightarrow>
             if last \<ge> 1 then
               (let low = fewest_drops (\<lambda>middle. fits_prompt (hv_messages (render middle 0))) 1 last
                in case widest low of
                     Some found \<Rightarrow> found
                   | None \<Rightarrow> \<lparr>sv_view = render low 0, sv_stub = line 0\<rparr>)
             else \<lparr>sv_view = render 0 0, sv_stub = line 0\<rparr>)"

section \<open>The live renderer\<close>

record renderer =
  er_compact :: bool
  er_tools :: "(string \<times> tool) list"
  er_stub :: "int option"
  er_persist :: bool
  er_epoch :: "prompt_epoch option"
  er_rendered :: "(stored_message list \<times> stored_message \<times> stored_message list) option"

text \<open>A renderer that compacts must be given the tools.\<close>

definition new_renderer ::
  "bool \<Rightarrow> (string \<times> tool) list option \<Rightarrow> int option \<Rightarrow> bool \<Rightarrow> py_error + renderer" where
  "new_renderer compact tools_by_name stub_before persist =
     (if compact \<and> tools_by_name = None then Inl ValueError
      else Inr \<lparr>er_compact = compact, er_tools = (case tools_by_name of Some t \<Rightarrow> t | None \<Rightarrow> []),
                er_stub = stub_before, er_persist = persist, er_epoch = None, er_rendered = None\<rparr>)"

definition compact_dropped ::
  "bool \<Rightarrow> bool \<Rightarrow> bool \<Rightarrow> int \<Rightarrow> timezone \<Rightarrow> stored_message list \<Rightarrow> stored_message list \<Rightarrow> store
     \<Rightarrow> agent_message list \<times> store \<times> compaction_job option" where
  "compact_dropped persist enabled commit_ok now tz dropped_rows preceding st =
     (let dropped = stored_to_agent tz dropped_rows preceding
      in if dropped_rows = [] \<or> \<not> persist \<or> \<not> enabled then (dropped, st, None)
         else let (st', job) = trigger_compaction_for_dropped enabled commit_ok now dropped st
              in (dropped, advance_trim_watermark_only (sm_seq (last dropped_rows)) st', job))"

definition render_history ::
  "epoch_config \<Rightarrow> timezone \<Rightarrow> bool \<Rightarrow> bool \<Rightarrow> int \<Rightarrow> stored_message list \<Rightarrow> stored_message option
     \<Rightarrow> stored_message list \<Rightarrow> renderer \<times> store
     \<Rightarrow> agent_message list \<times> (renderer \<times> store) \<times> compaction_job option" where
  "render_history cfg tz enabled commit_ok now rows current preceding rs =
     (let (r, st) = rs;
          view = build_history_view cfg tz (er_tools r) (er_compact r) rows current preceding (er_stub r);
          (_, st', job) = compact_dropped (er_persist r) enabled commit_ok now tz (hv_dropped view) preceding st;
          rendered = (case current of
             Some cur \<Rightarrow> Some (drop (length (hv_dropped view)) rows, cur, preceding @ hv_dropped view)
           | None \<Rightarrow> er_rendered r)
      in (hv_messages view, (r\<lparr>er_epoch := Some (hv_epoch view), er_rendered := rendered\<rparr>, st'), job))"

record shed_history =
  sh_messages :: "agent_message list"
  sh_dropped :: "agent_message list"

definition shed ::
  "epoch_config \<Rightarrow> timezone \<Rightarrow> bool \<Rightarrow> bool \<Rightarrow> int \<Rightarrow> (agent_message list \<Rightarrow> bool) \<Rightarrow> renderer \<times> store
     \<Rightarrow> shed_history option \<times> (renderer \<times> store) \<times> compaction_job option" where
  "shed cfg tz enabled commit_ok now fits_prompt rs =
     (let (r, st) = rs
      in case er_rendered r of
           None \<Rightarrow> (None, rs, None)
         | Some (rows, current, preceding) \<Rightarrow>
             if \<not> er_compact r \<or> rows = [] then (None, rs, None)
             else
               (let sv = shed_history_view cfg tz (er_tools r) fits_prompt rows current preceding (er_stub r);
                    view = sv_view sv;
                    st1 = (if er_persist r then set_history_stub_seq (sv_stub sv) st else st);
                    (dropped, st2, job) =
                      compact_dropped (er_persist r) enabled commit_ok now tz (hv_dropped view) preceding st1
                in (Some \<lparr>sh_messages = hv_messages view, sh_dropped = dropped\<rparr>,
                    (r\<lparr>er_stub := Some (sv_stub sv),
                       er_rendered := Some (drop (length (hv_dropped view)) rows, current,
                          preceding @ hv_dropped view)\<rparr>, st2), job)))"

section \<open>Workspace updates\<close>

record workspace_snapshot =
  ws_soul :: string
  ws_user :: string
  ws_memory :: string

text \<open>
  \<open>system_prompt.render_workspace_updates\<close>. The body of the unified diff is \<open>difflib\<close>'s, the
  parameter \<open>udiff old new\<close>.
\<close>

definition describe_change :: "(string \<Rightarrow> string \<Rightarrow> string) \<Rightarrow> string \<Rightarrow> string \<Rightarrow> string \<Rightarrow> string" where
  "describe_change udiff filename old new =
     (let delta = filename @ '' changed since it was last shown above. Apply this''
            @ '' diff to it ('' @ [CHR 0x22] @ ''-'' @ [CHR 0x22] @ '' removed, '' @ [CHR 0x22] @ ''+''
            @ [CHR 0x22] @ '' added, '' @ [CHR 0x22] @ '' '' @ [CHR 0x22] @ '' unchanged context):'' @ [nl]
            @ udiff old new
      in if length delta < length new then delta
         else filename @ '' changed since it was last shown above. It now reads:'' @ [nl] @ new)"

definition render_workspace_updates ::
  "(string \<Rightarrow> string \<Rightarrow> string) \<Rightarrow> workspace_snapshot \<Rightarrow> workspace_snapshot \<Rightarrow> string" where
  "render_workspace_updates udiff shown live =
     py_join [nl, nl]
       (map (\<lambda>(filename, old, new). describe_change udiff filename old new)
         (filter (\<lambda>(filename, old, new). old \<noteq> new)
           [(''SOUL.md'', ws_soul shown, ws_soul live),
            (''USER.md'', ws_user shown, ws_user live),
            (''MEMORY.md'', ws_memory shown, ws_memory live)]))"

definition append_workspace_updates :: "string \<Rightarrow> string \<Rightarrow> string" where
  "append_workspace_updates t updates =
     (if updates = [] then t
      else let section_text = ''## Workspace Updates'' @ [nl] @ updates
           in if t \<noteq> [] then t @ [nl, nl] @ section_text else section_text)"

record workspace_delivery =
  dl_seq :: int
  dl_text :: string
  dl_shown :: workspace_snapshot

record epoch_workspace =
  ew_key :: int
  ew_snapshot :: workspace_snapshot
  ew_deliveries :: "workspace_delivery list"

definition snapshot_store_max :: nat where
  "snapshot_store_max = 1024"

text \<open>\<open>_remember\<close>: the user's entry, most recently used last.\<close>

definition remember_workspace ::
  "string \<Rightarrow> prompt_epoch \<Rightarrow> workspace_snapshot \<Rightarrow> (string \<times> epoch_workspace) list
     \<Rightarrow> epoch_workspace \<times> (string \<times> epoch_workspace) list" where
  "remember_workspace user_id epoch live snapshots =
     (let fresh = \<lparr>ew_key = pe_key epoch, ew_snapshot = live, ew_deliveries = []\<rparr>;
          entry = (case map_of snapshots user_id of
             Some e \<Rightarrow> if ew_key e = pe_key epoch \<or> \<not> pe_cold_start epoch
                       then e\<lparr>ew_key := pe_key epoch\<rparr> else fresh
           | None \<Rightarrow> fresh)
      in (entry, od_evict snapshot_store_max (od_put user_id entry snapshots)))"

interpretation workspace_store: bounded_memo "lru_put snapshot_store_max :: string \<Rightarrow> epoch_workspace \<Rightarrow> _"
  map_of length "\<lambda>d. distinct (keys d)" "[]" snapshot_store_max
  by (rule lru_bounded_memo) (simp add: snapshot_store_max_def)

lemma remember_workspace_put:
  "snd (remember_workspace user_id epoch live s)
     = lru_put snapshot_store_max user_id (fst (remember_workspace user_id epoch live s)) s"
  by (simp add: remember_workspace_def lru_put_def Let_def)

text \<open>What \<open>_remember\<close> returns is what the store holds for the user afterwards.\<close>

lemma remembered_workspace_stored:
  "distinct (keys s) \<Longrightarrow> remember_workspace user_id epoch live s = (e, s') \<Longrightarrow>
     map_of s' user_id = Some e \<and> length s' \<le> snapshot_store_max"
  using workspace_store.lookup_put [of s user_id e] workspace_store.entries_put [of s user_id e]
    remember_workspace_put [of user_id epoch live s] by simp

definition present_seqs :: "agent_message list \<Rightarrow> int set" where
  "present_seqs history = set (List.map_filter (\<lambda>m. if is_user m then msg_seq m else None) history)"

definition seen_deliveries :: "workspace_delivery list \<Rightarrow> agent_message list \<Rightarrow> nat" where
  "seen_deliveries deliveries history =
     length (takeWhile (\<lambda>d. dl_seq d \<in> present_seqs history) deliveries)"

definition shown_after :: "epoch_workspace \<Rightarrow> nat \<Rightarrow> workspace_snapshot" where
  "shown_after entry seen = (if seen = 0 then ew_snapshot entry else dl_shown (ew_deliveries entry ! (seen - 1)))"

definition workspace_preview ::
  "(string \<Rightarrow> string \<Rightarrow> string) \<Rightarrow> epoch_workspace \<Rightarrow> workspace_snapshot \<Rightarrow> agent_message list \<Rightarrow> string" where
  "workspace_preview udiff entry live history =
     render_workspace_updates udiff (shown_after entry (seen_deliveries (ew_deliveries entry) history)) live"

text \<open>An earlier update on the message of its row: \<open>by_seq\<close> keeps the last one of a seq.\<close>

definition lay_update :: "workspace_delivery list \<Rightarrow> agent_message \<Rightarrow> agent_message" where
  "lay_update deliveries m =
     (case m of
        UserMessage c (Some q) \<Rightarrow>
          (case map_of (rev (map (\<lambda>d. (dl_seq d, dl_text d)) deliveries)) q of
             Some t \<Rightarrow> UserMessage (append_workspace_updates c t) (Some q)
           | None \<Rightarrow> m)
      | _ \<Rightarrow> m)"

definition workspace_apply ::
  "(string \<Rightarrow> string \<Rightarrow> string) \<Rightarrow> workspace_snapshot \<Rightarrow> int option \<Rightarrow> agent_message list \<Rightarrow> epoch_workspace
     \<Rightarrow> epoch_workspace \<times> agent_message list \<times> string" where
  "workspace_apply udiff live turn_seq history entry =
     (let seen = seen_deliveries (ew_deliveries entry) history;
          deliveries = take seen (ew_deliveries entry);
          updates = render_workspace_updates udiff (shown_after entry seen) live;
          recorded = (case turn_seq of
             Some q \<Rightarrow> if updates \<noteq> [] then [\<lparr>dl_seq = q, dl_text = updates, dl_shown = live\<rparr>] else []
           | None \<Rightarrow> [])
      in (entry\<lparr>ew_deliveries := deliveries @ recorded\<rparr>, map (lay_update deliveries) history, updates))"

section \<open>Turns\<close>

text \<open>Groups as \<open>group_turns\<close> leaves them; only the first may start with a reply.\<close>

definition turn_group :: "stored_message list \<Rightarrow> bool" where
  "turn_group g \<longleftrightarrow> g \<noteq> [] \<and> (\<forall>r \<in> set (tl g). sm_direction r = OUTBOUND)"

definition turn_groups :: "stored_message list list \<Rightarrow> bool" where
  "turn_groups gs \<longleftrightarrow> (\<forall>g \<in> set gs. turn_group g) \<and> (\<forall>g \<in> set (tl gs). sm_direction (hd g) = INBOUND)"

lemma add_to_turns_spec:
  assumes "turn_groups gs"
  shows "turn_groups (add_to_turns r gs) \<and> concat (add_to_turns r gs) = concat gs @ [r]"
proof (cases gs rule: rev_cases)
  case Nil
  then show ?thesis by (simp add: add_to_turns_def turn_groups_def turn_group_def)
next
  case (snoc gs' g)
  show ?thesis
  proof (cases "sm_direction r = INBOUND")
    case True
    then show ?thesis
      using assms snoc by (cases gs') (auto simp: add_to_turns_def turn_groups_def turn_group_def)
  next
    case False
    then have "sm_direction r = OUTBOUND" by (cases "sm_direction r") simp_all
    then show ?thesis
      using assms snoc by (cases gs') (auto simp: add_to_turns_def turn_groups_def turn_group_def)
  qed
qed

lemma group_turns_spec: "turn_groups (group_turns rows) \<and> concat (group_turns rows) = rows"
proof (induction rows rule: rev_induct)
  case Nil
  show ?case by (simp add: group_turns_def turn_groups_def)
next
  case (snoc r rows)
  then show ?case using add_to_turns_spec [of "group_turns rows" r] by (simp add: group_turns_def)
qed

lemma fold_reply_rows:
  "\<forall>r \<in> set rs. sm_direction r = OUTBOUND \<Longrightarrow> fold add_to_turns rs (gs @ [g]) = gs @ [g @ rs]"
  by (induction rs arbitrary: g) (auto simp: add_to_turns_def)

lemma fold_turns:
  "\<forall>g \<in> set gs. turn_group g \<and> sm_direction (hd g) = INBOUND \<Longrightarrow> fold add_to_turns (concat gs) acc = acc @ gs"
proof (induction gs arbitrary: acc)
  case (Cons g gs)
  obtain r rs where g: "g = r # rs" "sm_direction r = INBOUND" "\<forall>x \<in> set rs. sm_direction x = OUTBOUND"
    using Cons.prems by (cases g) (auto simp: turn_group_def)
  have "fold add_to_turns g acc = acc @ [g]"
    using fold_reply_rows [OF g(3), of acc "[r]"] g by (simp add: add_to_turns_def)
  then show ?case using Cons by simp
qed simp

lemma group_turns_concat:
  assumes "turn_groups gs"
  shows "group_turns (concat gs) = gs"
proof (cases gs)
  case (Cons g gs')
  obtain r rs where g: "g = r # rs" "\<forall>x \<in> set rs. sm_direction x = OUTBOUND"
    using assms Cons by (cases g) (auto simp: turn_groups_def turn_group_def)
  have "fold add_to_turns g [] = [g]"
    using fold_reply_rows [OF g(2), of "[]" "[r]"] g by (simp add: add_to_turns_def)
  then show ?thesis
    using fold_turns [of gs' "[g]"] assms Cons by (simp add: group_turns_def turn_groups_def)
qed (simp add: group_turns_def)

lemma turn_groups_drop: "turn_groups gs \<Longrightarrow> turn_groups (drop k gs)"
proof -
  assume h: "turn_groups gs"
  have "set (drop k gs) \<subseteq> set gs" by (rule set_drop_subset)
  moreover have "set (tl (drop k gs)) \<subseteq> set (tl gs)"
    by (metis drop_Suc set_drop_subset tl_drop)
  ultimately show ?thesis using h unfolding turn_groups_def by blast
qed

lemma turn_groups_inbound:
  "turn_groups gs \<Longrightarrow> 0 < k \<Longrightarrow> k < length gs \<Longrightarrow> sm_direction (hd (gs ! k)) = INBOUND \<and> gs ! k \<noteq> []"
  using nth_tl [of "k - 1" gs] nth_mem [of "k - 1" "tl gs"] nth_mem [of k gs]
  by (auto simp: turn_groups_def turn_group_def)

section \<open>Epochs do not move when rows before them go\<close>

lemma prev_touch_drop:
  assumes "sm_direction (hd ys) = INBOUND" and "ys \<noteq> []" and "0 < j" and "j \<le> length ys"
  shows "\<exists>p < j. prev_touch ys j = Some p \<and> prev_touch (xs @ ys) (length xs + j) = Some (length xs + p)"
  using assms(3,4)
proof (induction j)
  case (Suc n)
  show ?case
  proof (cases "n = 0")
    case True
    then show ?thesis using assms(1,2) by (simp add: touches_cache_def nth_append hd_conv_nth)
  next
    case False
    then have "touches_cache (xs @ ys) (length xs + n) = touches_cache ys n"
      using Suc.prems by (cases n) (auto simp: touches_cache_def nth_append)
    then show ?thesis using Suc False by (auto intro: less_SucI)
  qed
qed simp

lemma opens_epoch_drop:
  assumes "sm_direction (hd ys) = INBOUND" and "ys \<noteq> []" and "0 < j" and "j < length ys"
  shows "opens_epoch cfg (xs @ ys) (length xs + j) = opens_epoch cfg ys j"
proof -
  obtain p where "p < j" "prev_touch ys j = Some p"
    "prev_touch (xs @ ys) (length xs + j) = Some (length xs + p)"
    using prev_touch_drop [OF assms(1-3)] assms(4) by (metis less_imp_le)
  then show ?thesis
    using assms(4) by (cases "sm_timestamp (ys ! j)") (simp_all add: opens_epoch_def nth_append)
qed

lemma epoch_boundary_less: "epoch_boundary cfg rows n \<le> n - 1"
  by (induction n) auto

lemma epoch_boundary_drop:
  assumes "sm_direction (hd ys) = INBOUND" and "ys \<noteq> []" and "n \<le> length ys"
    and "length xs < epoch_boundary cfg (xs @ ys) (length xs + n)"
  shows "epoch_boundary cfg (xs @ ys) (length xs + n) = length xs + epoch_boundary cfg ys n"
  using assms(3,4)
proof (induction n)
  case 0
  then show ?case using epoch_boundary_less [of cfg "xs @ ys" "length xs"] by simp
next
  case (Suc n)
  show ?case
  proof (cases "n = 0")
    case True
    then show ?thesis
      using Suc.prems epoch_boundary_less [of cfg "xs @ ys" "Suc (length xs)"] by simp
  next
    case False
    then have "opens_epoch cfg (xs @ ys) (length xs + n) = opens_epoch cfg ys n"
      using opens_epoch_drop [OF assms(1,2)] Suc.prems(1) by simp
    then show ?thesis using Suc by (auto split: if_splits)
  qed
qed

lemma find_epoch_drop:
  assumes "sm_direction (hd ys) = INBOUND" and "ys \<noteq> []" and "length xs < b"
    and "find_epoch cfg (xs @ ys) cur = (epoch, b)"
  shows "find_epoch cfg ys cur = (epoch, b - length xs)"
proof -
  let ?all = "ys @ [cur]"
  have b: "epoch_boundary cfg (xs @ ?all) (length xs + length ?all) = b"
    using assms(4) by (simp add: find_epoch_def Let_def)
  have "b = length xs + epoch_boundary cfg ?all (length ?all)"
    using epoch_boundary_drop [of ?all "length ?all" xs cfg] assms(1-3) b by simp
  then have b': "epoch_boundary cfg ?all (length ?all) = b - length xs" by simp
  have "(xs @ ?all) ! b = ?all ! (b - length xs)" using assms(3) by (simp add: nth_append)
  moreover have "drop b (xs @ ?all) = drop (b - length xs) ?all" using assms(3) by simp
  ultimately show ?thesis using assms(4) b b' by (auto simp: find_epoch_def Let_def)
qed

section \<open>A rebuild is a fixed point\<close>

lemma group_of_less:
  assumes "group_of gs q = Some g"
  shows "g < length gs"
proof -
  have inner: "fold (\<lambda>row m. m(sm_seq row \<mapsto> g)) rows m q = Some h \<Longrightarrow> h = g \<or> m q = Some h" for rows m g h
  proof (induction rows arbitrary: m)
    case (Cons r rows)
    then show ?case using Cons.IH [of "m(sm_seq r \<mapsto> g)"] by (auto split: if_splits)
  qed simp
  have "fold (\<lambda>(g, rows) m. fold (\<lambda>row m. m(sm_seq row \<mapsto> g)) rows m) (enumerate k gs) m q = Some h \<Longrightarrow>
      h < k + length gs \<or> m q = Some h" for k m h
  proof (induction gs arbitrary: k m)
    case (Cons rows gs)
    let ?m = "fold (\<lambda>row m. m(sm_seq row \<mapsto> k)) rows m"
    have "fold (\<lambda>(g, rows) m. fold (\<lambda>row m. m(sm_seq row \<mapsto> g)) rows m) (enumerate (Suc k) gs) ?m q = Some h"
      using Cons.prems by (simp del: fun_upd_apply)
    from Cons.IH [OF this] inner [of k rows m h] show ?case by auto
  qed simp
  from this [of 0 Map.empty g] assms show ?thesis by (simp add: group_of_def)
qed

text \<open>With no turn left verbatim it does not matter how far beyond them the window ends.\<close>

lemma render_loop_all_old:
  assumes "\<forall>q g. groups q = Some g \<longrightarrow> g < v \<and> g < w" and "\<forall>g. rd_group st = Some g \<longrightarrow> g < v \<and> g < w"
  shows "render_loop tools groups v stub ms st = render_loop tools groups w stub ms st"
  using assms(2)
proof (induction ms arbitrary: st)
  case (Cons m ms)
  let ?st = "track_row groups m st"
  have g: "\<forall>g. rd_group ?st = Some g \<longrightarrow> g < v \<and> g < w"
    using assms(1) Cons.prems by (auto simp: track_row_def Let_def split: option.splits)
  then have "is_old v stub ?st = is_old w stub ?st"
    by (cases "rd_group ?st") (auto simp: is_old_def)
  then have "elide_message tools v stub ?st m = elide_message tools w stub ?st m"
    by (cases m) simp_all
  then show ?case using Cons.IH [OF g] by simp
qed simp

lemma render_rows_all_old:
  "length gs \<le> v \<Longrightarrow> length gs \<le> w \<Longrightarrow>
     render_rows tz tools gs post v preceding stub = render_rows tz tools gs post w preceding stub"
  using render_loop_all_old [of "group_of gs" v w new_render tools stub
      "stored_to_agent tz (concat gs @ post) preceding"] group_of_less [of gs]
  by (fastforce simp: render_rows_def new_render_def)

lemma fit_window_budget:
  "fst (snd (render_rows tz tools kept post (length kept) preceding stub)) \<le> ec_budget cfg \<Longrightarrow>
     fst (snd (fit_window cfg tz tools kept post preceding stub v)) \<le> ec_budget cfg"
  by (induction v) (auto simp: Let_def split: prod.splits)

lemma drop_target_le: "drop_target cfg \<le> ec_budget cfg"
  by (simp add: drop_target_def)

lemma fit_verbatim_shift:
  "fit_verbatim cfg tz tools (drop k gs) post (rows_before preceding gs k) stub 0
     = fit_verbatim cfg tz tools gs post preceding stub k"
  by (simp add: fit_verbatim_def rows_before_def)

lemma drop_turns_ge: "start \<le> drop_turns cfg tz tools groups post preceding stub start tokens"
proof (induction cfg tz tools groups post preceding stub start tokens rule: drop_turns.induct)
  case (1 cfg tz tools groups post preceding stub start tokens)
  then show ?case by (subst drop_turns.simps) (auto dest: Suc_leD)
qed

text \<open>Where step 3 stops: at the newest turn, or within the lower budget and the turn cap.\<close>

lemma drop_turns_stops:
  assumes "drop_turns cfg tz tools groups post preceding stub start tokens = s"
  shows "start \<le> s \<and> (start < s \<longrightarrow> s \<le> length groups - 1 \<and>
    (s = length groups - 1 \<or>
      fst (snd (render_rows tz tools (drop s groups) post (length groups) (rows_before preceding groups s) stub))
        \<le> drop_target cfg \<and> length groups - s \<le> ec_max_turns cfg))"
  using assms
proof (induction cfg tz tools groups post preceding stub start tokens arbitrary: s rule: drop_turns.induct)
  case (1 cfg tz tools groups post preceding stub start tokens)
  let ?t = "\<lambda>k. fst (snd (render_rows tz tools (drop k groups) post (length groups)
      (rows_before preceding groups k) stub))"
  show ?case
  proof (cases "start < length groups - 1 \<and> (tokens > drop_target cfg \<or> length groups - start > ec_max_turns cfg)")
    case False
    then have "s = start" using "1.prems" by (subst (asm) drop_turns.simps) auto
    then show ?thesis by simp
  next
    case True
    then have s: "drop_turns cfg tz tools groups post preceding stub (Suc start) (?t (Suc start)) = s"
      using "1.prems" by (subst (asm) drop_turns.simps) auto
    note IH = "1.IH" [OF True s]
    show ?thesis
    proof (cases "s = Suc start")
      case same: True
      then have "\<not> (Suc start < length groups - 1 \<and> (?t (Suc start) > drop_target cfg
          \<or> length groups - Suc start > ec_max_turns cfg))"
        using s drop_turns.simps [of cfg tz tools groups post preceding stub "Suc start" "?t (Suc start)"]
          drop_turns_ge [of "Suc (Suc start)"] by (metis Suc_n_not_le_n)
      then show ?thesis using True same by auto
    next
      case False
      then show ?thesis using IH by auto
    qed
  qed
qed

lemma rebuild_drops:
  assumes "v = rebuild_view cfg tz tools rows preceding stub epoch boundary" and "hv_dropped v \<noteq> []"
  defines "groups \<equiv> group_turns (take boundary rows)"
  obtains k where "0 < k" and "k < length groups" and "hv_dropped v = concat (take k groups)"
    and "hv_messages v = fst (fit_verbatim cfg tz tools groups (drop boundary rows) preceding stub k)"
    and "hv_elided v = snd (snd (fit_verbatim cfg tz tools groups (drop boundary rows) preceding stub k))"
    and "hv_epoch v = epoch"
    and "k = length groups - 1 \<or>
      fst (snd (fit_verbatim cfg tz tools groups (drop boundary rows) preceding stub k)) \<le> ec_budget cfg
        \<and> length groups - k \<le> ec_max_turns cfg"
proof -
  let ?post = "drop boundary rows"
  let ?fit = "fit_verbatim cfg tz tools groups ?post preceding stub"
  define s where "s = drop_turns cfg tz tools groups ?post preceding stub 0 (fst (snd (?fit 0)))"
  have v: "v = \<lparr>hv_messages = fst (?fit s), hv_epoch = epoch, hv_dropped = concat (take s groups),
      hv_elided = snd (snd (?fit s))\<rparr>"
    using assms(1,2) by (auto simp: rebuild_view_def groups_def s_def Let_def split: prod.splits if_splits)
  have "s \<noteq> 0"
  proof
    assume "s = 0"
    then have "hv_dropped v = []" using v by simp
    then show False using assms(2) by simp
  qed
  with drop_turns_stops [OF s_def [symmetric]]
  have stop: "s \<le> length groups - 1" "s = length groups - 1 \<or>
      fst (snd (render_rows tz tools (drop s groups) ?post (length groups) (rows_before preceding groups s) stub))
        \<le> drop_target cfg \<and> length groups - s \<le> ec_max_turns cfg" by simp_all
  have "fst (snd (?fit s)) \<le> ec_budget cfg"
    if "fst (snd (render_rows tz tools (drop s groups) ?post (length groups) (rows_before preceding groups s) stub))
        \<le> drop_target cfg"
    unfolding fit_verbatim_def Let_def
    using that drop_target_le [of cfg] render_rows_all_old [of "drop s groups" "length groups" "length (drop s groups)"]
    by (intro fit_window_budget) simp
  then have "s = length groups - 1 \<or> fst (snd (?fit s)) \<le> ec_budget cfg \<and> length groups - s \<le> ec_max_turns cfg"
    using stop(2) by blast
  then show ?thesis using \<open>s \<noteq> 0\<close> stop(1) v by (intro that [of s]) simp_all
qed

lemma rebuild_again:
  assumes "0 < k" and "k < length groups" and "turn_groups groups" and "concat groups = take boundary rows"
    and "k = length groups - 1 \<or>
      fst (snd (fit_verbatim cfg tz tools groups (drop boundary rows) preceding stub k)) \<le> ec_budget cfg
        \<and> length groups - k \<le> ec_max_turns cfg"
    and "boundary \<le> length rows"
  defines "n \<equiv> length (concat (take k groups))"
  shows "rebuild_view cfg tz tools (drop n rows) (preceding @ concat (take k groups)) stub epoch (boundary - n)
     = \<lparr>hv_messages = fst (fit_verbatim cfg tz tools groups (drop boundary rows) preceding stub k),
        hv_epoch = epoch, hv_dropped = [],
        hv_elided = snd (snd (fit_verbatim cfg tz tools groups (drop boundary rows) preceding stub k))\<rparr>"
proof -
  let ?fit = "fit_verbatim cfg tz tools groups (drop boundary rows) preceding stub k"
  have split: "take boundary rows = concat (take k groups) @ concat (drop k groups)"
    using assms(4) by (metis append_take_drop_id concat_append)
  have "length (concat groups) = boundary" using assms(4,6) by simp
  then have nb: "n \<le> boundary" using split assms(6) unfolding n_def
    by (metis le_add1 length_append length_take min.absorb2)
  have "take (boundary - n) (drop n rows) = drop n (take boundary rows)" by (simp add: drop_take)
  also have "\<dots> = concat (drop k groups)" unfolding split n_def by simp
  finally have pre: "group_turns (take (boundary - n) (drop n rows)) = drop k groups"
    using group_turns_concat [OF turn_groups_drop [OF assms(3)]] by simp
  have post: "drop (boundary - n) (drop n rows) = drop boundary rows" using nb by simp
  have fit: "fit_verbatim cfg tz tools (drop k groups) (drop boundary rows) (preceding @ concat (take k groups)) stub 0
      = ?fit"
    using fit_verbatim_shift [of cfg tz tools k groups _ preceding] by (simp add: rows_before_def)
  have one: "drop_turns cfg tz tools (drop k groups) (drop boundary rows) (preceding @ concat (take k groups)) stub 0 t = 0"
    if "k = length groups - 1" for t
    using that by (subst drop_turns.simps) simp
  obtain ms t e where f: "?fit = (ms, t, e)" by (metis prod.exhaust)
  note unfolded = rebuild_view_def pre post fit [unfolded f] f Let_def
  show ?thesis
  proof (cases "t \<le> ec_budget cfg \<and> length groups - k \<le> ec_max_turns cfg")
    case True
    then show ?thesis unfolding unfolded by simp
  next
    case False
    then have "k = length groups - 1" using assms(5) f by auto
    then have z: "drop_turns cfg tz tools (drop k groups) (drop boundary rows)
        (preceding @ concat (take k groups)) stub 0 t = 0" by (rule one)
    show ?thesis unfolding unfolded by (simp add: z fit [unfolded f])
  qed
qed

lemma fixed_point:
  "build_history_view cfg tz tools compact
     (drop (length (hv_dropped (build_history_view cfg tz tools compact rows (Some cur) preceding stub))) rows)
     (Some cur) (preceding @ hv_dropped (build_history_view cfg tz tools compact rows (Some cur) preceding stub)) stub
   = (build_history_view cfg tz tools compact rows (Some cur) preceding stub)\<lparr>hv_dropped := []\<rparr>"
proof -
  let ?v = "build_history_view cfg tz tools compact rows (Some cur) preceding stub"
  obtain epoch b where e: "find_epoch cfg rows cur = (epoch, b)" by fastforce
  show ?thesis
  proof (cases "hv_dropped ?v = []")
    case True
    then show ?thesis by simp
  next
    case False
    then have reb: "compact" "0 < b" "?v = rebuild_view cfg tz tools rows preceding stub epoch b"
      using e by (auto simp: build_history_view_def plain_view_def split: if_splits prod.splits)
    define gs where "gs = group_turns (take b rows)"
    from rebuild_drops [OF reb(3) False, folded gs_def] obtain k where
      k: "0 < k" "k < length gs" "hv_dropped ?v = concat (take k gs)"
      and m: "hv_messages ?v = fst (fit_verbatim cfg tz tools gs (drop b rows) preceding stub k)"
        "hv_elided ?v = snd (snd (fit_verbatim cfg tz tools gs (drop b rows) preceding stub k))"
        "hv_epoch ?v = epoch"
      and stop: "k = length gs - 1 \<or> fst (snd (fit_verbatim cfg tz tools gs (drop b rows) preceding stub k))
          \<le> ec_budget cfg \<and> length gs - k \<le> ec_max_turns cfg" .
    have gs: "turn_groups gs" "concat gs = take b rows" using group_turns_spec by (simp_all add: gs_def)
    have b: "b \<le> length rows"
      using e epoch_boundary_less [of cfg "rows @ [cur]" "Suc (length rows)"]
      by (auto simp: find_epoch_def Let_def)
    let ?n = "length (concat (take k gs))"
    have hd: "sm_direction (hd (gs ! k)) = INBOUND" "gs ! k \<noteq> []" using turn_groups_inbound [OF gs(1) k(1,2)] by auto
    have rows: "rows = concat (take k gs) @ gs ! k @ concat (drop (Suc k) gs) @ drop b rows"
      using gs(2) k(2) by (metis append.assoc append_take_drop_id concat.simps(2) concat_append id_take_nth_drop)
    let ?ys = "gs ! k @ concat (drop (Suc k) gs) @ drop b rows"
    have "length (concat gs) = ?n + length (gs ! k) + length (concat (drop (Suc k) gs))"
      using k(2) by (metis (no_types, lifting) add.assoc concat.simps(2) concat_append id_take_nth_drop length_append)
    then have nb: "?n < b" using hd(2) gs(2) b by simp
    have "find_epoch cfg (concat (take k gs) @ ?ys) cur = (epoch, b)" using e rows by simp
    then have e': "find_epoch cfg ?ys cur = (epoch, b - ?n)"
      using find_epoch_drop [of ?ys "concat (take k gs)" b cfg cur epoch] hd nb by simp
    have ys: "drop ?n rows = ?ys" by (subst rows) simp
    have "build_history_view cfg tz tools compact ?ys (Some cur) (preceding @ concat (take k gs)) stub
        = rebuild_view cfg tz tools ?ys (preceding @ concat (take k gs)) stub epoch (b - ?n)"
      using e' nb reb(1) by (simp add: build_history_view_def)
    also have "\<dots> = ?v\<lparr>hv_dropped := []\<rparr>"
      using rebuild_again [OF k(1,2) gs stop b, of epoch] m unfolding ys by (cases ?v) simp
    finally show ?thesis unfolding k(3) ys .
  qed
qed

text \<open>
  C14. Rebuilding the inherited history is a fixed point. When a cold start drops turns, the next
  rendering of the rows that remain (they follow the dropped ones, as they do once the watermark
  has moved) finds the same epoch, drops nothing more and renders the same messages.
\<close>

theorem rebuild_is_fixed_point:
  "build_history_view cfg tz tools compact
     (drop (length (hv_dropped (build_history_view cfg tz tools compact rows (Some cur) preceding stub))) rows)
     (Some cur) (preceding @ hv_dropped (build_history_view cfg tz tools compact rows (Some cur) preceding stub)) stub
   = (build_history_view cfg tz tools compact rows (Some cur) preceding stub)\<lparr>hv_dropped := []\<rparr>"
  by (rule fixed_point)

section \<open>Only results of reads become stubs\<close>

definition all_calls :: "agent_message list \<Rightarrow> tool_call_request set" where
  "all_calls ms = set (concat (map msg_tool_calls ms))"

text \<open>What a message may be sent as, given the calls in the history.\<close>

definition elided_from ::
  "(string \<times> tool) list \<Rightarrow> tool_call_request set \<Rightarrow> agent_message \<Rightarrow> agent_message \<Rightarrow> bool" where
  "elided_from tools calls m m' \<longleftrightarrow>
     m' = m
     \<or> (\<exists>i c e. m = ToolResultMessage i c e
          \<and> (m' = ToolResultMessage i (strip_skill_guidance c) e
             \<or> (\<exists>tc \<in> calls. tc_id tc = i \<and> \<not> is_write tools (tc_name tc) (tc_arguments tc)
                  \<and> m' = ToolResultMessage i (elided_result_stub (tc_name tc) (length (strip_skill_guidance c))) e)))"

definition known_calls :: "tool_call_request set \<Rightarrow> render_state \<Rightarrow> bool" where
  "known_calls calls st \<longleftrightarrow> (\<forall>i name args. rd_calls st i = Some (name, args) \<longrightarrow>
     (\<exists>tc \<in> calls. tc_id tc = i \<and> tc_name tc = name \<and> tc_arguments tc = args))"

lemma known_calls_track:
  assumes "known_calls calls st" and "set (msg_tool_calls m) \<subseteq> calls"
  shows "known_calls calls (track_row groups m st)"
proof -
  have "\<forall>i name args. fold (\<lambda>tc c. c(tc_id tc \<mapsto> (tc_name tc, tc_arguments tc))) tcs f i = Some (name, args) \<longrightarrow>
      (\<exists>tc \<in> calls. tc_id tc = i \<and> tc_name tc = name \<and> tc_arguments tc = args)"
    if "\<forall>i name args. f i = Some (name, args) \<longrightarrow>
      (\<exists>tc \<in> calls. tc_id tc = i \<and> tc_name tc = name \<and> tc_arguments tc = args)" and "set tcs \<subseteq> calls" for tcs f
    using that
  proof (induction tcs arbitrary: f)
    case (Cons tc tcs)
    have "\<forall>i name args. (f(tc_id tc \<mapsto> (tc_name tc, tc_arguments tc))) i = Some (name, args) \<longrightarrow>
        (\<exists>tc \<in> calls. tc_id tc = i \<and> tc_name tc = name \<and> tc_arguments tc = args)"
      using Cons.prems by auto
    from Cons.IH [OF this] Cons.prems(2) show ?case by simp
  qed simp
  from this [of "rd_calls st" "msg_tool_calls m"] assms show ?thesis
    by (simp add: known_calls_def track_row_def Let_def split: option.split)
qed

lemma elide_message_from:
  assumes "known_calls calls st"
  shows "elided_from tools calls m (fst (elide_message tools v stub st m))"
proof (cases m)
  case (ToolResultMessage i c e)
  show ?thesis
  proof (cases "rd_calls st i")
    case None
    then show ?thesis using ToolResultMessage by (simp add: elided_from_def elide_result_def Let_def)
  next
    case (Some call)
    then obtain name args where "rd_calls st i = Some (name, args)" by (cases call) auto
    then show ?thesis
      using assms ToolResultMessage by (fastforce simp: elided_from_def elide_result_def known_calls_def Let_def)
  qed
qed (simp_all add: elided_from_def)

lemma render_loop_from:
  assumes "known_calls calls st" and "all_calls ms \<subseteq> calls"
  shows "list_all2 (elided_from tools calls) ms (fst (render_loop tools groups v stub ms st))"
  using assms
proof (induction ms arbitrary: st)
  case (Cons m ms)
  have k: "known_calls calls (track_row groups m st)"
    using known_calls_track [OF Cons.prems(1)] Cons.prems(2) by (simp add: all_calls_def)
  have "all_calls ms \<subseteq> calls" using Cons.prems(2) by (simp add: all_calls_def)
  from Cons.IH [OF k this] elide_message_from [OF k, of tools m v stub] show ?case
    by (auto simp: Let_def split: prod.splits)
qed simp

lemma render_rows_from:
  "list_all2 (elided_from tools (all_calls (stored_to_agent tz (concat kept @ post) preceding)))
     (stored_to_agent tz (concat kept @ post) preceding)
     (fst (render_rows tz tools kept post v preceding stub))"
  using render_loop_from [of "all_calls (stored_to_agent tz (concat kept @ post) preceding)" new_render
      "stored_to_agent tz (concat kept @ post) preceding" tools "group_of kept" v stub]
  by (auto simp: render_rows_def known_calls_def new_render_def split: prod.splits)

lemma fit_window_is_render: "\<exists>w. fit_window cfg tz tools kept post preceding stub v = render_rows tz tools kept post w preceding stub"
proof (induction v)
  case (Suc v)
  then show ?case by (auto simp: Let_def split: prod.split) metis
qed auto

lemma fit_verbatim_is_render:
  "\<exists>w. fit_verbatim cfg tz tools groups post preceding stub k
     = render_rows tz tools (drop k groups) post w (rows_before preceding groups k) stub"
  using fit_window_is_render by (simp add: fit_verbatim_def Let_def)

lemma elided_from_refl: "list_all2 (elided_from tools calls) ms ms"
  by (simp add: list_all2_same elided_from_def)

text \<open>The view of a turn shows the rows it keeps, rendered after the rows it dropped.\<close>

lemma view_of_kept_rows:
  assumes "build_history_view cfg tz tools compact rows (Some cur) preceding stub = v"
  shows "rows = hv_dropped v @ drop (length (hv_dropped v)) rows
    \<and> list_all2 (elided_from tools (all_calls (stored_to_agent tz (drop (length (hv_dropped v)) rows) (preceding @ hv_dropped v))))
        (stored_to_agent tz (drop (length (hv_dropped v)) rows) (preceding @ hv_dropped v)) (hv_messages v)"
proof -
  obtain epoch b where e: "find_epoch cfg rows cur = (epoch, b)" by fastforce
  consider (plain) "hv_messages v = stored_to_agent tz rows preceding" "hv_dropped v = []"
    | (warm) "hv_messages v = fst (render_rows tz tools [] rows 0 preceding stub)" "hv_dropped v = []"
    | (cold) "v = rebuild_view cfg tz tools rows preceding stub epoch b"
    using assms e by (auto simp: build_history_view_def plain_view_def Let_def split: if_splits prod.splits)
  then show ?thesis
  proof cases
    case plain
    then show ?thesis by (simp add: elided_from_refl)
  next
    case warm
    then show ?thesis using render_rows_from [where tz = tz and kept = "[]" and post = rows and preceding = preceding] by simp
  next
    case cold
    define gs where "gs = group_turns (take b rows)"
    have gs: "concat gs = take b rows" using group_turns_spec by (simp add: gs_def)
    have view: "rows = concat (take k gs) @ concat (drop k gs) @ drop b rows"
      "list_all2 (elided_from tools (all_calls (stored_to_agent tz (concat (drop k gs) @ drop b rows) (preceding @ concat (take k gs)))))
         (stored_to_agent tz (concat (drop k gs) @ drop b rows) (preceding @ concat (take k gs)))
         (fst (fit_verbatim cfg tz tools gs (drop b rows) preceding stub k))" for k
    proof -
      show "rows = concat (take k gs) @ concat (drop k gs) @ drop b rows"
        using gs by (metis append.assoc append_take_drop_id concat_append)
      obtain w where "fit_verbatim cfg tz tools gs (drop b rows) preceding stub k
          = render_rows tz tools (drop k gs) (drop b rows) w (rows_before preceding gs k) stub"
        using fit_verbatim_is_render by blast
      then show "list_all2 (elided_from tools (all_calls (stored_to_agent tz (concat (drop k gs) @ drop b rows) (preceding @ concat (take k gs)))))
         (stored_to_agent tz (concat (drop k gs) @ drop b rows) (preceding @ concat (take k gs)))
         (fst (fit_verbatim cfg tz tools gs (drop b rows) preceding stub k))"
        using render_rows_from [where tz = tz and kept = "drop k gs" and post = "drop b rows"
            and preceding = "rows_before preceding gs k"]
        by (simp add: rows_before_def)
    qed
    have "\<exists>k. hv_dropped v = concat (take k gs)
        \<and> hv_messages v = fst (fit_verbatim cfg tz tools gs (drop b rows) preceding stub k)"
    proof (cases "hv_dropped v = []")
      case True
      then have "hv_messages v = fst (fit_verbatim cfg tz tools gs (drop b rows) preceding stub 0)
          \<or> (\<exists>k. hv_dropped v = concat (take k gs)
              \<and> hv_messages v = fst (fit_verbatim cfg tz tools gs (drop b rows) preceding stub k))"
        using cold by (auto simp: rebuild_view_def gs_def Let_def split: prod.splits if_splits)
      then show ?thesis using True by (auto intro: exI [of _ 0])
    next
      case False
      then show ?thesis using rebuild_drops [OF cold False] by (metis gs_def)
    qed
    then obtain k where "hv_dropped v = concat (take k gs)"
      "hv_messages v = fst (fit_verbatim cfg tz tools gs (drop b rows) preceding stub k)" by blast
    moreover have "drop (length (concat (take k gs))) rows = concat (drop k gs) @ drop b rows"
      by (subst view(1) [of k]) simp
    ultimately show ?thesis using view [of k] by simp
  qed
qed

text \<open>Elision keeps the shape of the conversation.\<close>

lemma elided_from_shape:
  "elided_from tools calls m m' \<Longrightarrow>
     (m' = m \<or> is_tool_result m) \<and> is_tool_result m' = is_tool_result m \<and> tool_result_id m' = tool_result_id m"
  by (auto simp: elided_from_def)

lemma same_shape_results:
  assumes "list_all2 (elided_from tools calls) ms ms'"
  shows "list_all2 (elided_from tools calls) (dropWhile is_tool_result ms) (dropWhile is_tool_result ms')
    \<and> map tool_result_id (takeWhile is_tool_result ms) = map tool_result_id (takeWhile is_tool_result ms')"
  using assms by (induction rule: list_all2_induct) (auto dest: elided_from_shape)

lemma paired_elided: "list_all2 (elided_from tools calls) ms ms' \<Longrightarrow> paired ms \<Longrightarrow> paired ms'"
proof (induction ms arbitrary: ms' rule: paired.induct)
  case (5 c tcs s ms)
  then obtain ms1 where ms1: "ms' = AssistantMessage c tcs s # ms1" "list_all2 (elided_from tools calls) ms ms1"
    by (auto simp: list_all2_Cons1 dest: elided_from_shape)
  note r = same_shape_results [OF ms1(2)]
  then have "mset (map tool_result_id (takeWhile is_tool_result ms1))
      = mset (map tool_result_id (takeWhile is_tool_result ms))" by metis
  then show ?case using "5.IH" [of "dropWhile is_tool_result ms1"] "5.prems"(2) r ms1(1) by simp
qed (auto simp: list_all2_Cons1 dest: elided_from_shape)

text \<open>
  Rebuilding or shedding the history never loses a write. The messages a turn sends are the
  conversion of the rows it keeps, message by message, except that old tool results may lose
  delivered guidance and a result may become a stub only when its call is of a registered tool
  that, for those arguments, just reads; and the result still pairs every call with its result.
\<close>

theorem rebuild_only_stubs_reads:
  assumes "build_history_view cfg tz tools compact rows (Some cur) preceding stub = v"
  shows "list_all2 (elided_from tools
        (all_calls (stored_to_agent tz (drop (length (hv_dropped v)) rows) (preceding @ hv_dropped v))))
      (stored_to_agent tz (drop (length (hv_dropped v)) rows) (preceding @ hv_dropped v)) (hv_messages v)
    \<and> paired (hv_messages v)"
  using view_of_kept_rows [OF assms] paired_elided stored_to_agent_paired by blast

section \<open>An epoch's history grows by appending\<close>

lemma render_loop_append:
  "fst (render_loop tools groups v stub (xs @ ys) st)
     = fst (render_loop tools groups v stub xs st)
       @ fst (render_loop tools groups v stub ys (fold (track_row groups) xs st))
   \<and> fst (snd (render_loop tools groups v stub (xs @ ys) st))
     = fst (snd (render_loop tools groups v stub xs st))
       @ fst (snd (render_loop tools groups v stub ys (fold (track_row groups) xs st)))"
proof (induction xs arbitrary: st)
  case (Cons x xs)
  show ?case using Cons.IH [of "track_row groups x st"] by (auto simp: Let_def split: prod.splits)
qed simp

text \<open>Messages of rows outside the inherited groups do not count towards the budget.\<close>

lemma render_loop_outside:
  assumes "\<forall>m \<in> set ms. \<forall>q. msg_seq m = Some q \<longrightarrow> groups q = None"
    and "rd_group st = None \<or> (ms \<noteq> [] \<longrightarrow> msg_seq (hd ms) \<noteq> None)"
  shows "fst (snd (render_loop tools groups v stub ms st)) = []"
  using assms
proof (induction ms arbitrary: st)
  case (Cons m ms)
  have "rd_group (track_row groups m st) = None"
    using Cons.prems by (auto simp: track_row_def Let_def split: option.splits)
  with Cons.IH [of "track_row groups m st"] Cons.prems(1)
  show ?case by (auto simp: Let_def split: prod.splits)
qed simp

lemma hd_row_chunk: "row_chunk q c \<Longrightarrow> c \<noteq> [] \<and> msg_seq (hd c) = Some q"
  by (cases rule: row_chunk_cases) auto

lemma rendered_group_seqs:
  "m \<in> set (stored_to_agent tz rows p) \<Longrightarrow> msg_seq m = Some q \<Longrightarrow> q \<in> sm_seq ` set rows"
  "stored_to_agent tz rows p \<noteq> [] \<Longrightarrow> msg_seq (hd (stored_to_agent tz rows p)) \<noteq> None"
proof -
  obtain qs chunks where h: "stored_to_agent tz rows p = concat chunks" "list_all2 row_chunk qs chunks"
    "subseq qs (map sm_seq rows)" by (rule stored_to_agent_chunks)
  have qs: "set qs \<subseteq> sm_seq ` set rows" using list_emb_set [OF h(3)] by force
  show "q \<in> sm_seq ` set rows" if "m \<in> set (stored_to_agent tz rows p)" "msg_seq m = Some q"
  proof -
    obtain c where "c \<in> set chunks" "m \<in> set c" using h(1) \<open>m \<in> set _\<close> by auto
    moreover obtain q' where "q' \<in> set qs" "row_chunk q' c"
      using list_all2_right [OF h(2)] \<open>c \<in> set chunks\<close> by blast
    ultimately have "q \<in> {q'}"
      using row_chunk_seqs [of q' c] that(2) unfolding set_seqs_from_dropped by blast
    then show ?thesis using \<open>q' \<in> set qs\<close> qs by blast
  qed
  show "msg_seq (hd (stored_to_agent tz rows p)) \<noteq> None" if "stored_to_agent tz rows p \<noteq> []"
    using h(1,2) that hd_row_chunk by (cases rule: list.exhaust [of chunks]) (auto simp: list_all2_Cons2)
qed

lemma group_of_seqs: "group_of gs q = Some g \<Longrightarrow> q \<in> sm_seq ` set (concat gs)"
proof -
  have inner: "fold (\<lambda>row m. m(sm_seq row \<mapsto> g)) rows m q = Some h \<Longrightarrow> q \<in> sm_seq ` set rows \<or> m q = Some h" for rows m g h
  proof (induction rows arbitrary: m)
    case (Cons r rows)
    then show ?case using Cons.IH [of "m(sm_seq r \<mapsto> g)"] by (auto split: if_splits)
  qed simp
  have "fold (\<lambda>(g, rows) m. fold (\<lambda>row m. m(sm_seq row \<mapsto> g)) rows m) (enumerate k gs) m q = Some h \<Longrightarrow>
      q \<in> sm_seq ` set (concat gs) \<or> m q = Some h" for k m h
  proof (induction gs arbitrary: k m)
    case (Cons rows gs)
    let ?m = "fold (\<lambda>row m. m(sm_seq row \<mapsto> k)) rows m"
    have "fold (\<lambda>(g, rows) m. fold (\<lambda>row m. m(sm_seq row \<mapsto> g)) rows m) (enumerate (Suc k) gs) ?m q = Some h"
      using Cons.prems by (simp del: fun_upd_apply)
    from Cons.IH [OF this] inner [of k rows m h] show ?case by auto
  qed simp
  from this [of 0 Map.empty g] show "group_of gs q = Some g \<Longrightarrow> q \<in> sm_seq ` set (concat gs)"
    by (simp add: group_of_def)
qed

lemma render_rows_append:
  assumes "sm_seq ` set ext \<inter> sm_seq ` set (concat kept) = {}"
  shows "\<exists>suf. fst (render_rows tz tools kept (post @ ext) v preceding stub)
        = fst (render_rows tz tools kept post v preceding stub) @ suf"
    and "fst (snd (render_rows tz tools kept (post @ ext) v preceding stub))
        = fst (snd (render_rows tz tools kept post v preceding stub))"
proof -
  let ?more = "stored_to_agent tz ext (preceding @ concat kept @ post)"
  let ?ms = "stored_to_agent tz (concat kept @ post) preceding"
  have ms: "stored_to_agent tz (concat kept @ post @ ext) preceding = ?ms @ ?more"
    using conversion_slice [of tz "concat kept @ post" ext preceding] by simp
  have out: "\<forall>m \<in> set ?more. \<forall>q. msg_seq m = Some q \<longrightarrow> group_of kept q = None"
    using rendered_group_seqs(1) group_of_seqs assms by (metis disjoint_iff not_None_eq)
  note app = render_loop_append [of tools "group_of kept" v stub ?ms ?more new_render]
  have pre: "fst (snd (render_loop tools (group_of kept) v stub ?more (fold (track_row (group_of kept)) ?ms new_render))) = []"
    using out rendered_group_seqs(2) by (intro render_loop_outside) auto
  show "\<exists>suf. fst (render_rows tz tools kept (post @ ext) v preceding stub)
        = fst (render_rows tz tools kept post v preceding stub) @ suf"
    using app by (auto simp: render_rows_def ms split: prod.splits)
  show "fst (snd (render_rows tz tools kept (post @ ext) v preceding stub))
        = fst (snd (render_rows tz tools kept post v preceding stub))"
    using app pre by (auto simp: render_rows_def ms split: prod.splits)
qed

lemma fit_window_append:
  assumes "sm_seq ` set ext \<inter> sm_seq ` set (concat kept) = {}"
  shows "(\<exists>suf. fst (fit_window cfg tz tools kept (post @ ext) preceding stub v)
        = fst (fit_window cfg tz tools kept post preceding stub v) @ suf)
    \<and> fst (snd (fit_window cfg tz tools kept (post @ ext) preceding stub v))
        = fst (snd (fit_window cfg tz tools kept post preceding stub v))"
proof (induction v)
  case 0
  show ?case using render_rows_append [OF assms] by simp
next
  case (Suc v)
  then show ?case
    using render_rows_append [OF assms, of tz tools post "length kept - Suc v" preceding stub]
    by (auto simp: Let_def split: prod.splits)
qed

lemma drop_turns_append:
  "sm_seq ` set ext \<inter> sm_seq ` set (concat groups) = {} \<Longrightarrow>
     drop_turns cfg tz tools groups (post @ ext) preceding stub start tokens
     = drop_turns cfg tz tools groups post preceding stub start tokens"
proof (induction cfg tz tools groups post preceding stub start tokens rule: drop_turns.induct)
  case (1 cfg tz tools groups post preceding stub start tokens)
  have "set (concat (drop (Suc start) groups)) \<subseteq> set (concat groups)"
    using set_drop_subset [of "Suc start" groups] by auto
  then have "sm_seq ` set ext \<inter> sm_seq ` set (concat (drop (Suc start) groups)) = {}" using "1.prems" by blast
  note same = render_rows_append(2) [OF this, of tz tools post "length groups" "rows_before preceding groups (Suc start)" stub]
  show ?case
  proof (cases "start < length groups - 1 \<and> (tokens > drop_target cfg \<or> length groups - start > ec_max_turns cfg)")
    case True
    note IH = "1.IH" [OF True "1.prems"]
    show ?thesis
      by (subst (1 2) drop_turns.simps) (use True IH in \<open>simp add: same\<close>)
  next
    case False
    then show ?thesis by (subst (1 2) drop_turns.simps) auto
  qed
qed

text \<open>
  C25. Within an epoch the history only grows by appending: when a later turn finds the same
  boundary in a transcript that continues the earlier one, it drops the same rows and what it
  renders starts with what the earlier turn rendered, so the cached prefix stays valid.
\<close>

theorem epoch_history_grows_by_appending:
  assumes "find_epoch cfg rows cur = (e, b)" and "find_epoch cfg (rows @ ext) cur' = (e', b)"
    and "distinct (map sm_seq (rows @ ext))"
  shows "\<exists>suf. hv_messages (build_history_view cfg tz tools compact (rows @ ext) (Some cur') preceding stub)
        = hv_messages (build_history_view cfg tz tools compact rows (Some cur) preceding stub) @ suf
    \<and> hv_dropped (build_history_view cfg tz tools compact (rows @ ext) (Some cur') preceding stub)
        = hv_dropped (build_history_view cfg tz tools compact rows (Some cur) preceding stub)"
proof -
  have b: "b \<le> length rows"
    using assms(1) epoch_boundary_less [of cfg "rows @ [cur]" "Suc (length rows)"]
    by (auto simp: find_epoch_def Let_def)
  have plain: "\<exists>suf. stored_to_agent tz (rows @ ext) preceding = stored_to_agent tz rows preceding @ suf"
    using conversion_slice by blast
  have warm: "\<exists>suf. fst (render_rows tz tools [] (rows @ ext) 0 preceding stub)
      = fst (render_rows tz tools [] rows 0 preceding stub) @ suf"
    by (rule render_rows_append(1)) simp
  define gs where "gs = group_turns (take b rows)"
  have gs: "concat gs = take b rows" using group_turns_spec by (simp add: gs_def)
  have disj: "sm_seq ` set ext \<inter> sm_seq ` set (concat gs) = {}"
    using assms(3) set_take_subset [of b rows] unfolding gs by auto
  have fit: "(\<exists>suf. fst (fit_verbatim cfg tz tools gs (drop b rows @ ext) preceding stub k)
        = fst (fit_verbatim cfg tz tools gs (drop b rows) preceding stub k) @ suf)
    \<and> fst (snd (fit_verbatim cfg tz tools gs (drop b rows @ ext) preceding stub k))
        = fst (snd (fit_verbatim cfg tz tools gs (drop b rows) preceding stub k))" for k
  proof -
    have "set (concat (drop k gs)) \<subseteq> set (concat gs)" using set_drop_subset [of k gs] by auto
    then have "sm_seq ` set ext \<inter> sm_seq ` set (concat (drop k gs)) = {}" using disj by blast
    then show ?thesis unfolding fit_verbatim_def Let_def by (rule fit_window_append)
  qed
  have rebuild: "\<exists>suf. hv_messages (rebuild_view cfg tz tools (rows @ ext) preceding stub e' b)
        = hv_messages (rebuild_view cfg tz tools rows preceding stub e b) @ suf
    \<and> hv_dropped (rebuild_view cfg tz tools (rows @ ext) preceding stub e' b)
        = hv_dropped (rebuild_view cfg tz tools rows preceding stub e b)"
  proof -
    have "take b (rows @ ext) = take b rows" "drop b (rows @ ext) = drop b rows @ ext" using b by simp_all
    then show ?thesis
      using fit [of 0] fit [of "drop_turns cfg tz tools gs (drop b rows) preceding stub 0
            (fst (snd (fit_verbatim cfg tz tools gs (drop b rows) preceding stub 0)))"]
        drop_turns_append [OF disj]
      by (auto simp: rebuild_view_def gs_def [symmetric] Let_def split: prod.splits)
  qed
  show ?thesis
    using plain warm rebuild assms(1,2)
    by (auto simp: build_history_view_def plain_view_def Let_def split: prod.splits)
qed

section \<open>A trim's history is the next turn's\<close>

lemma widest_from_cases:
  "widest_from render line fits_prompt n = Some sv \<Longrightarrow> \<exists>v. sv = \<lparr>sv_view = render v, sv_stub = line v\<rparr>"
  by (induction n) (auto split: if_splits)

lemma shed_history_view_cases:
  "\<exists>start verbatim. shed_history_view cfg tz tools fits_prompt rows cur preceding stub
     = \<lparr>sv_view = shed_render cfg tz tools (group_turns rows) cur preceding stub start verbatim,
        sv_stub = stub_line (group_turns rows) cur stub verbatim\<rparr>"
  by (auto simp: shed_history_view_def Let_def split: option.splits dest!: widest_from_cases)

text \<open>
  C24. What a mid-session trim sends is what every later turn renders: with the stub seq the trim
  stored and the dropped turns below the watermark, rendering the rows that remain gives the same
  messages and drops nothing, whatever the fit test was. The stub seq never moves back.
\<close>

theorem shed_matches_next_turn:
  "let sv = shed_history_view cfg tz tools fits_prompt rows cur preceding stub;
       dropped = hv_dropped (sv_view sv);
       later = build_history_view cfg tz tools True (drop (length dropped) rows) (Some cur)
                 (preceding @ dropped) (Some (sv_stub sv))
   in rows = dropped @ drop (length dropped) rows
      \<and> hv_messages later = hv_messages (sv_view sv) \<and> hv_dropped later = []
      \<and> (case stub of Some b \<Rightarrow> b \<le> sv_stub sv | None \<Rightarrow> True)"
proof -
  obtain start verbatim where sv: "shed_history_view cfg tz tools fits_prompt rows cur preceding stub
     = \<lparr>sv_view = shed_render cfg tz tools (group_turns rows) cur preceding stub start verbatim,
        sv_stub = stub_line (group_turns rows) cur stub verbatim\<rparr>"
    using shed_history_view_cases by blast
  define gs where "gs = group_turns rows"
  define line where "line = stub_line gs cur stub verbatim"
  define d where "d = concat (take start gs)"
  define kept where "kept = concat (drop start gs)"
  have rows: "rows = d @ kept"
    using group_turns_spec [of rows] by (metis append_take_drop_id concat_append d_def gs_def kept_def)
  let ?v = "build_history_view cfg tz tools True kept (Some cur) (preceding @ d) (Some line)"
  have view: "sv_view (shed_history_view cfg tz tools fits_prompt rows cur preceding stub)
      = ?v\<lparr>hv_dropped := d @ hv_dropped ?v\<rparr>"
    unfolding sv by (simp add: shed_render_def gs_def d_def kept_def line_def Let_def)
  have stub': "sv_stub (shed_history_view cfg tz tools fits_prompt rows cur preceding stub) = line"
    unfolding sv by (simp add: gs_def line_def)
  have "kept = hv_dropped ?v @ drop (length (hv_dropped ?v)) kept" using view_of_kept_rows [OF refl] by blast
  moreover have "build_history_view cfg tz tools True (drop (length (hv_dropped ?v)) kept) (Some cur)
      ((preceding @ d) @ hv_dropped ?v) (Some line) = ?v\<lparr>hv_dropped := []\<rparr>"
    by (rule fixed_point)
  moreover have "drop (length (d @ hv_dropped ?v)) rows = drop (length (hv_dropped ?v)) kept"
    unfolding rows by simp
  moreover have "case stub of Some b \<Rightarrow> b \<le> line | None \<Rightarrow> True"
    by (simp add: line_def stub_line_def Let_def split: option.split)
  ultimately show ?thesis unfolding Let_def view stub' by (simp add: rows)
qed

text \<open>The search finds the fewest drops when dropping more never stops fitting.\<close>

lemma fewest_drops_least:
  assumes "low \<le> high" and "\<And>i j. low \<le> i \<Longrightarrow> i \<le> j \<Longrightarrow> j \<le> high \<Longrightarrow> ok i \<Longrightarrow> ok j"
  shows "low \<le> fewest_drops ok low high \<and> fewest_drops ok low high \<le> high
    \<and> (fewest_drops ok low high < high \<longrightarrow> ok (fewest_drops ok low high))
    \<and> (\<forall>i. low \<le> i \<and> i < fewest_drops ok low high \<longrightarrow> \<not> ok i)"
  using assms
proof (induction ok low high rule: fewest_drops.induct)
  case (1 ok low high)
  let ?m = "(low + high) div 2"
  show ?case
  proof (cases "low < high")
    case True
    then have m: "low \<le> ?m" "?m < high" by auto
    have mono: "ok j" if "low \<le> i" "i \<le> j" "j \<le> ?m" "ok i" for i j
      using "1.prems"(2) [OF that(1,2) _ that(4)] that(3) m by simp
    have mono': "ok j" if "Suc ?m \<le> i" "i \<le> j" "j \<le> high" "ok i" for i j
      using "1.prems"(2) [OF _ that(2,3,4)] that(1) m by simp
    show ?thesis
    proof (cases "ok ?m")
      case ok: True
      have "fewest_drops ok low high = fewest_drops ok low ?m"
        by (subst fewest_drops.simps) (simp add: True ok)
      moreover have "low \<le> fewest_drops ok low ?m \<and> fewest_drops ok low ?m \<le> ?m
          \<and> (fewest_drops ok low ?m < ?m \<longrightarrow> ok (fewest_drops ok low ?m))
          \<and> (\<forall>i. low \<le> i \<and> i < fewest_drops ok low ?m \<longrightarrow> \<not> ok i)"
        by (rule "1.IH"(1) [OF True refl ok m(1)]) (rule mono)
      ultimately show ?thesis using m ok by (metis le_neq_implies_less less_imp_le order_trans)
    next
      case no: False
      have "fewest_drops ok low high = fewest_drops ok (Suc ?m) high"
        by (subst fewest_drops.simps) (simp add: True no)
      moreover have "\<not> ok i" if "low \<le> i" "i \<le> ?m" for i
        using "1.prems"(2) [OF that] m no by auto
      moreover have "Suc ?m \<le> fewest_drops ok (Suc ?m) high \<and> fewest_drops ok (Suc ?m) high \<le> high
          \<and> (fewest_drops ok (Suc ?m) high < high \<longrightarrow> ok (fewest_drops ok (Suc ?m) high))
          \<and> (\<forall>i. Suc ?m \<le> i \<and> i < fewest_drops ok (Suc ?m) high \<longrightarrow> \<not> ok i)"
        by (rule "1.IH"(2) [OF True refl no Suc_leI [OF m(2)]]) (rule mono')
      ultimately show ?thesis using m by (metis Suc_leD not_less_eq_eq order_trans)
    qed
  next
    case False
    then show ?thesis using "1.prems"(1) by (subst (1 2 3 4) fewest_drops.simps) auto
  qed
qed

section \<open>Workspace updates reach the model once\<close>

text \<open>Each recorded update takes the model from the documents of the one before to its own.\<close>

definition update_chain :: "(string \<Rightarrow> string \<Rightarrow> string) \<Rightarrow> epoch_workspace \<Rightarrow> bool" where
  "update_chain udiff entry \<longleftrightarrow>
     (\<forall>i < length (ew_deliveries entry).
        dl_text (ew_deliveries entry ! i)
          = render_workspace_updates udiff (shown_after entry i) (dl_shown (ew_deliveries entry ! i)))"

lemma no_change_no_update: "render_workspace_updates udiff live live = []"
  by (simp add: render_workspace_updates_def)

lemma describe_change_not_Nil: "filename \<noteq> [] \<Longrightarrow> describe_change udiff filename old new \<noteq> []"
  by (simp add: describe_change_def Let_def)

lemma py_join_eq_Nil: "\<forall>x \<in> set xs. x \<noteq> [] \<Longrightarrow> py_join sep xs = [] \<longleftrightarrow> xs = []"
  by (cases xs rule: remdups_adj.cases) auto

lemma no_update_iff: "render_workspace_updates udiff shown live = [] \<longleftrightarrow> shown = live"
proof -
  have "render_workspace_updates udiff shown live = [] \<longleftrightarrow>
      ws_soul shown = ws_soul live \<and> ws_user shown = ws_user live \<and> ws_memory shown = ws_memory live"
    unfolding render_workspace_updates_def
    by (subst py_join_eq_Nil) (auto simp: describe_change_not_Nil)
  then show ?thesis by (cases shown; cases live) simp
qed

lemma seen_le: "seen_deliveries ds history \<le> length ds"
  by (simp add: seen_deliveries_def length_takeWhile_le)

lemma seen_all:
  "\<forall>d \<in> set ds. dl_seq d \<in> present_seqs history \<Longrightarrow> seen_deliveries ds history = length ds"
  by (simp add: seen_deliveries_def takeWhile_eq_all_conv [THEN iffD2])

lemma seen_present: "d \<in> set (take (seen_deliveries ds history) ds) \<Longrightarrow> dl_seq d \<in> present_seqs history"
  unfolding seen_deliveries_def
  by (metis (mono_tags, lifting) set_takeWhileD takeWhile_eq_take)

text \<open>
  C26. Workspace updates refine the live documents. Whatever the trim kept, the deliveries a turn
  keeps sit on messages of its history and form a chain of changes from the epoch's snapshot, and
  the update on the current turn takes the last of them to the live documents. A later turn whose
  history holds those rows and this one has nothing to send until a document changes.
\<close>

theorem workspace_update_sent_once:
  assumes "update_chain udiff entry"
    and "workspace_apply udiff live (Some q) history entry = (entry', view, updates)"
    and "insert q (present_seqs history) \<subseteq> present_seqs later"
  shows "update_chain udiff entry'
    \<and> ew_snapshot entry' = ew_snapshot entry
    \<and> (\<forall>d \<in> set (ew_deliveries entry'). dl_seq d \<in> insert q (present_seqs history))
    \<and> shown_after entry' (length (ew_deliveries entry')) = live
    \<and> workspace_preview udiff entry' live later = []"
proof -
  define n where "n = seen_deliveries (ew_deliveries entry) history"
  have n: "n \<le> length (ew_deliveries entry)" unfolding n_def by (rule seen_le)
  have up: "updates = render_workspace_updates udiff (shown_after entry n) live"
    and e: "entry' = entry\<lparr>ew_deliveries := take n (ew_deliveries entry)
        @ (if updates \<noteq> [] then [\<lparr>dl_seq = q, dl_text = updates, dl_shown = live\<rparr>] else [])\<rparr>"
    using assms(2) by (auto simp: workspace_apply_def n_def Let_def)
  have shown: "shown_after entry' i = shown_after entry i" if "i \<le> n" for i
    using that n by (auto simp: shown_after_def e nth_append)
  have "update_chain udiff entry'"
    using assms(1) shown n up by (auto simp: update_chain_def e nth_append less_Suc_eq)
  moreover have live: "shown_after entry' (length (ew_deliveries entry')) = live"
  proof (cases "updates = []")
    case True
    then show ?thesis using up no_update_iff shown [of n] n by (simp add: e)
  next
    case False
    then show ?thesis using n by (simp add: shown_after_def e nth_append)
  qed
  moreover have "\<forall>d \<in> set (ew_deliveries entry'). dl_seq d \<in> insert q (present_seqs history)"
    using seen_present by (auto simp: e n_def)
  moreover from this have "seen_deliveries (ew_deliveries entry') later = length (ew_deliveries entry')"
    using assms(3) by (intro seen_all) auto
  ultimately show ?thesis by (simp add: workspace_preview_def no_change_no_update e)
qed

section \<open>Runs\<close>

definition demo_row :: "direction \<Rightarrow> int \<Rightarrow> int \<Rightarrow> stored_message" where
  "demo_row d at q =
     \<lparr>sm_direction = d, sm_body = ''hi'', sm_processed_context = [], sm_interactions = [],
      sm_llm_reply_text = [], sm_timestamp = Some at, sm_seq = q\<rparr>"

definition demo_cfg :: epoch_config where
  "demo_cfg = \<lparr>ec_idle = 3600, ec_budget = 1, ec_verbatim = 1, ec_max_turns = 2\<rparr>"

definition demo_tz :: timezone where
  "demo_tz = \<lparr>local_day = (\<lambda>t. t div 86400), local_stamp = (\<lambda>t. ''t'')\<rparr>"

text \<open>Two quiet turns, then a gap of two hours.\<close>

definition demo_rows :: "stored_message list" where
  "demo_rows = [demo_row INBOUND 0 1, demo_row OUTBOUND 5 2, demo_row INBOUND 60 3, demo_row OUTBOUND 65 4]"

lemma demo_epochs:
  "find_epoch demo_cfg demo_rows (demo_row INBOUND 7265 5)
     = (\<lparr>pe_key = 5, pe_cold_start = True, pe_turn_seq = Some 5\<rparr>, 4)"
  "find_epoch demo_cfg (demo_rows @ [demo_row INBOUND 7265 5, demo_row OUTBOUND 7270 6]) (demo_row INBOUND 7300 7)
     = (\<lparr>pe_key = 5, pe_cold_start = False, pe_turn_seq = Some 7\<rparr>, 4)"
  by (simp_all add: find_epoch_def demo_rows_def demo_row_def demo_cfg_def opens_epoch_def is_cold_gap_def
      touches_cache_def Let_def nth_Cons' eval_nat_numeral)

theorem rebuild_only_stubs_reads_witness:
  "paired (hv_messages (build_history_view demo_cfg demo_tz [] True demo_rows (Some (demo_row INBOUND 7265 5)) [] None))"
  using rebuild_only_stubs_reads [OF refl] by blast

theorem epoch_history_grows_by_appending_witness:
  "\<exists>suf. hv_messages (build_history_view demo_cfg demo_tz [] True
        (demo_rows @ [demo_row INBOUND 7265 5, demo_row OUTBOUND 7270 6]) (Some (demo_row INBOUND 7300 7)) [] None)
     = hv_messages (build_history_view demo_cfg demo_tz [] True demo_rows (Some (demo_row INBOUND 7265 5)) [] None) @ suf"
proof -
  have "distinct (map sm_seq (demo_rows @ [demo_row INBOUND 7265 5, demo_row OUTBOUND 7270 6]))"
    by (simp add: demo_rows_def demo_row_def)
  from epoch_history_grows_by_appending [OF demo_epochs this] show ?thesis by blast
qed

definition demo_docs :: "string \<Rightarrow> workspace_snapshot" where
  "demo_docs memory = \<lparr>ws_soul = ''s'', ws_user = ''u'', ws_memory = memory\<rparr>"

theorem workspace_update_sent_once_witness:
  "workspace_preview (\<lambda>old new. new)
     (fst (workspace_apply (\<lambda>old new. new) (demo_docs ''new'') (Some 7) [UserMessage ''a'' (Some 5)]
        \<lparr>ew_key = 5, ew_snapshot = demo_docs ''old'', ew_deliveries = []\<rparr>))
     (demo_docs ''new'') [UserMessage ''a'' (Some 5), UserMessage ''b'' (Some 7)] = []"
proof -
  let ?entry = "\<lparr>ew_key = 5, ew_snapshot = demo_docs ''old'', ew_deliveries = []\<rparr>"
  let ?apply = "workspace_apply (\<lambda>old new. new) (demo_docs ''new'') (Some 7) [UserMessage ''a'' (Some 5)] ?entry"
  have c: "update_chain (\<lambda>old new. new) ?entry" by (simp add: update_chain_def)
  have a: "?apply = (fst ?apply, fst (snd ?apply), snd (snd ?apply))" by simp
  have p: "insert 7 (present_seqs [UserMessage ''a'' (Some 5)])
      \<subseteq> present_seqs [UserMessage ''a'' (Some 5), UserMessage ''b'' (Some 7)]"
    by (simp add: present_seqs_def map_filter_def)
  show ?thesis using workspace_update_sent_once [OF c a p] by (elim conjE)
qed

end
