(* ===== verification/Agent_Loop.thy ===== *)
theory Agent_Loop
  imports Prompt_Epoch Tool_Round Caches
begin

text \<open>
  The turn of the agent: \<open>assemble_prompt\<close>, \<open>_call_llm_with_retry\<close>, \<open>_trim_and_retry\<close>,
  \<open>process_message\<close> and \<open>_wrap_up_after_max_rounds\<close> of \<open>backend/app/agent/core.py\<close>, with
  \<open>_WorkspaceLayout\<close>, \<open>llm_parsing.py\<close>, the token cache and the overflow probes of
  \<open>core_support.py\<close> and the token fit of \<open>services/llm_service.py\<close>.

  The outside is the environment of a turn: \<open>le_llm n\<close> is what the n-th API call of the turn
  does, \<open>le_drain n\<close> what the n-th drain of the mid-turn inbox returns, \<open>le_outcomes r p\<close> what
  the tool at position \<open>p\<close> of round \<open>r\<close> does. Every API call is logged in the state, in order.
  Waiting between attempts, events, observers, usage rows and cache markers change none of it.
\<close>

section \<open>Responses\<close>

datatype response_block =
    RText string
  | RThinking string
  | RToolUse "string option" "string option" "json_dict option"
  | ROther

record llm_usage =
  us_input :: nat
  us_output :: "nat option"
  us_cache_creation :: "nat option"
  us_cache_read :: "nat option"

record llm_response =
  rsp_content :: "response_block list"
  rsp_stop_reason :: "string option"
  rsp_usage :: "llm_usage option"

fun block_call :: "response_block \<Rightarrow> parsed_tool_call list" where
  "block_call (RToolUse i n a) = [\<lparr>pc_id = opt_text i, pc_name = opt_text n, pc_arguments = a\<rparr>]"
| "block_call b = []"

definition parse_tool_calls :: "llm_response \<Rightarrow> parsed_tool_call list" where
  "parse_tool_calls r = concat (map block_call (rsp_content r))"

fun block_text :: "response_block \<Rightarrow> string list" where
  "block_text (RText t) = (if t \<noteq> [] then [t] else [])"
| "block_text b = []"

definition get_response_text :: "llm_response \<Rightarrow> string" where
  "get_response_text r = concat (concat (map block_text (rsp_content r)))"

fun block_thinking :: "response_block \<Rightarrow> string list" where
  "block_thinking (RThinking t) = (if t \<noteq> [] then [t] else [])"
| "block_thinking b = []"

definition get_response_thinking :: "llm_response \<Rightarrow> string" where
  "get_response_thinking r = py_join [nl, nl] (concat (map block_thinking (rsp_content r)))"

section \<open>Errors of a call\<close>

datatype llm_error =
    RateLimitError
  | ProviderFault
  | ContextLengthExceeded
  | InvalidRequest string string "string option"
      \<comment> \<open>\<open>message\<close>, \<open>str(exc)\<close> and the text of \<open>original_exception\<close>\<close>
  | ContentFilterError
  | AuthenticationError
  | OtherError
  | RetryLoopExited

datatype llm_outcome = Responded llm_response | Raised llm_error

definition context_overflow_probes :: "string list" where
  "context_overflow_probes =
     [''prompt is too long'', ''input is too long'', ''context_length_exceeded'',
      ''reduce the length of the messages'', ''please reduce your prompt'']"

definition is_context_overflow :: "string \<Rightarrow> string \<Rightarrow> string option \<Rightarrow> bool" where
  "is_context_overflow message exc original =
     (let parts = [message, exc] @ (case original of Some o' \<Rightarrow> [o'] | None \<Rightarrow> []);
          haystack = py_lower (py_join '' '' parts)
      in list_ex (\<lambda>probe. contains probe haystack) context_overflow_probes)"

section \<open>Token budgets\<close>

datatype thinking_config =
    NoThinking
  | AdaptiveThinking string
  | EnabledThinking "nat option"
  | DisabledThinking

definition effort_to_budget :: "(string \<times> nat) list" where
  "effort_to_budget =
     [(''minimal'', 1024), (''low'', 2048), (''medium'', 8192), (''high'', 24576), (''xhigh'', 32768)]"

definition thinking_reply_allowance :: nat where
  "thinking_reply_allowance = 4096"

definition fit_max_tokens_to_reasoning :: "nat \<Rightarrow> thinking_config \<Rightarrow> nat" where
  "fit_max_tokens_to_reasoning max_tokens thinking =
     (let fit = (\<lambda>budget. case budget of
            Some b \<Rightarrow> if b < max_tokens then max_tokens else b + thinking_reply_allowance
          | None \<Rightarrow> max_tokens)
      in case thinking of
           AdaptiveThinking effort \<Rightarrow> fit (map_of effort_to_budget effort)
         | EnabledThinking budget \<Rightarrow> fit budget
         | _ \<Rightarrow> max_tokens)"

definition max_tokens_ceiling :: nat where
  "max_tokens_ceiling = 16384"

definition valid_stop_reasons :: "string option list" where
  "valid_stop_reasons =
     [Some ''end_turn'', Some ''max_tokens'', Some ''tool_use'', Some ''stop_sequence'', None]"

definition last_input_tokens_max :: nat where
  "last_input_tokens_max = 1024"

definition remember_input_tokens :: "string \<Rightarrow> nat \<Rightarrow> (string \<times> nat) list \<Rightarrow> (string \<times> nat) list" where
  "remember_input_tokens user_id tokens cache = od_evict last_input_tokens_max (od_put user_id tokens cache)"

definition recall_input_tokens :: "string \<Rightarrow> (string \<times> nat) list \<Rightarrow> nat option" where
  "recall_input_tokens user_id cache = map_of cache user_id"

interpretation token_cache: bounded_memo remember_input_tokens "\<lambda>c u. recall_input_tokens u c" length
  "\<lambda>d. distinct (keys d)" "[]" last_input_tokens_max
proof -
  have eq: "remember_input_tokens = lru_put last_input_tokens_max"
    by (intro ext) (simp add: remember_input_tokens_def lru_put_def)
  have "(\<lambda>c u. recall_input_tokens u c) = map_of" by (intro ext) (simp add: recall_input_tokens_def)
  then show "bounded_memo remember_input_tokens (\<lambda>c u. recall_input_tokens u c) length
      (\<lambda>d. distinct (keys d)) [] last_input_tokens_max"
    unfolding eq by (simp only:) (rule lru_bounded_memo, simp add: last_input_tokens_max_def)
qed

text \<open>
  The recalled token count of a user is the last one recorded for that user, never another
  user's or an older one, and the cache holds at most 1024 users.
\<close>

theorem recalled_tokens_are_latest:
  assumes "recall_input_tokens u (fold (\<lambda>(u, n). remember_input_tokens u n) counts []) = Some n"
  shows "map_of (rev counts) u = Some n
    \<and> length (fold (\<lambda>(u, n). remember_input_tokens u n) counts []) \<le> 1024"
  using token_cache.lookup_after [of u counts n] token_cache.entries_after [of counts] assms
  by (simp add: token_cache.after_def last_input_tokens_max_def)

theorem recalled_tokens_are_latest_witness:
  "map_of (rev [(''u'', 10), (''v'', 20), (''u'', 30::nat)]) ''u'' = Some 30"
  using recalled_tokens_are_latest [of "''u''" "[(''u'', 10), (''v'', 20), (''u'', 30::nat)]" 30]
  by (simp add: remember_input_tokens_def recall_input_tokens_def od_put_def od_move_to_end_def od_evict_def
      last_input_tokens_max_def AList.delete_eq)

section \<open>The workspace layout of a turn\<close>

text \<open>
  \<open>_WorkspaceLayout\<close>: the dynamic half without the updates, the current turn's text around a
  dynamic half, and what the last \<open>apply\<close> laid out. The source finds its messages by identity;
  here they are found by value, which is the same as long as no other message of the turn
  equals one of them (stored messages carry distinct seqs, and only the current turn has none).
\<close>

record layout =
  ly_entry :: epoch_workspace
  ly_live :: workspace_snapshot
  ly_turn_seq :: "int option"
  ly_dynamic :: string
  ly_body :: "string \<Rightarrow> string"
  ly_anchor :: "agent_message option"
  ly_anchor_body :: string
  ly_sent :: "(agent_message \<times> agent_message) list"

definition layout_current_turn ::
  "(string \<Rightarrow> string \<Rightarrow> string) \<Rightarrow> agent_message list \<Rightarrow> layout \<Rightarrow> agent_message \<times> layout" where
  "layout_current_turn udiff history ly =
     (let dynamic = append_workspace_updates (ly_dynamic ly)
            (workspace_preview udiff (ly_entry ly) (ly_live ly) history);
          anchor_text = ly_body ly dynamic;
          anchor = UserMessage anchor_text None
      in (anchor, ly\<lparr>ly_anchor := Some anchor, ly_anchor_body := anchor_text\<rparr>))"

definition is_anchor_like :: "string \<Rightarrow> agent_message \<Rightarrow> bool" where
  "is_anchor_like anchor_text m =
     (case m of UserMessage c None \<Rightarrow> suffix anchor_text c | _ \<Rightarrow> False)"

text \<open>The last index above 0 whose message satisfies a test.\<close>

definition last_index :: "('a \<Rightarrow> bool) \<Rightarrow> 'a list \<Rightarrow> nat option" where
  "last_index P ms =
     (case filter (\<lambda>i. P (ms ! i)) (rev [1..<length ms]) of [] \<Rightarrow> None | i # _ \<Rightarrow> Some i)"

definition find_current :: "agent_message list \<Rightarrow> layout \<Rightarrow> nat option" where
  "find_current ms ly =
     (case last_index (\<lambda>m. Some m = ly_anchor ly) ms of
        Some i \<Rightarrow> Some i
      | None \<Rightarrow> last_index (is_anchor_like (ly_anchor_body ly)) ms)"

definition laid_pairs :: "agent_message list \<Rightarrow> agent_message list \<Rightarrow> (agent_message \<times> agent_message) list" where
  "laid_pairs laid stored = filter (\<lambda>(v, m). v \<noteq> m) (zip laid stored)"

record laid_out =
  lo_messages :: "agent_message list"
  lo_dynamic :: string
  lo_sent :: "(agent_message \<times> agent_message) list"
  lo_plain :: "agent_message option"
  lo_entry :: epoch_workspace

definition lay ::
  "(string \<Rightarrow> string \<Rightarrow> string) \<Rightarrow> agent_message list \<Rightarrow> layout \<Rightarrow> laid_out" where
  "lay udiff ms ly =
     (case find_current ms ly of
        None \<Rightarrow>
          (let (entry, history, updates) =
                 workspace_apply udiff (ly_live ly) (ly_turn_seq ly) (tl ms) (ly_entry ly)
           in \<lparr>lo_messages = hd ms # history, lo_dynamic = ly_dynamic ly,
               lo_sent = laid_pairs history (tl ms), lo_plain = None, lo_entry = entry\<rparr>)
      | Some i \<Rightarrow>
          (let content = (case ms ! i of UserMessage c s \<Rightarrow> c | _ \<Rightarrow> []);
               note = take (length content - length (ly_anchor_body ly)) content;
               before = take (i - 1) (tl ms);
               (entry, history, updates) =
                 workspace_apply udiff (ly_live ly) (ly_turn_seq ly) before (ly_entry ly);
               dynamic = append_workspace_updates (ly_dynamic ly) updates;
               sent = UserMessage (note @ ly_body ly dynamic) (msg_seq (ms ! i));
               plain = UserMessage (note @ ly_body ly (ly_dynamic ly)) (msg_seq (ms ! i))
           in \<lparr>lo_messages = hd ms # history @ sent # drop (Suc i) ms, lo_dynamic = dynamic,
               lo_sent = laid_pairs history before @ [(sent, plain)], lo_plain = Some plain,
               lo_entry = entry\<rparr>))"

definition layout_apply ::
  "(string \<Rightarrow> string \<Rightarrow> string) \<Rightarrow> agent_message list \<Rightarrow> layout \<Rightarrow> agent_message list \<times> string \<times> layout" where
  "layout_apply udiff ms ly =
     (let l = lay udiff ms ly;
          ly' = ly\<lparr>ly_entry := lo_entry l, ly_sent := lo_sent l\<rparr>
      in (lo_messages l, lo_dynamic l,
          case lo_plain l of
            Some p \<Rightarrow> ly'\<lparr>ly_anchor := Some p, ly_anchor_body := ly_body ly (ly_dynamic ly)\<rparr>
          | None \<Rightarrow> ly'))"

definition layout_strip :: "agent_message list \<Rightarrow> layout \<Rightarrow> agent_message list" where
  "layout_strip ms ly = map (\<lambda>m. case map_of (ly_sent ly) m of Some p \<Rightarrow> p | None \<Rightarrow> m) ms"

definition layout_reapply ::
  "(string \<Rightarrow> string \<Rightarrow> string) \<Rightarrow> agent_message list \<Rightarrow> layout \<Rightarrow> agent_message list \<times> layout" where
  "layout_reapply udiff ms ly = (let l = lay udiff ms ly in (lo_messages l, ly\<lparr>ly_entry := lo_entry l\<rparr>))"

section \<open>Assembling the prompt\<close>

record trim_settings =
  ts_target_tokens :: nat
  ts_target_turns :: "int option"
  ts_trigger_turns :: "int option"
  ts_trigger_tokens :: nat

text \<open>The renderer's hook: what it sheds for a fit test, and what it leaves of its own state.\<close>

type_synonym 'h shedder = "(agent_message list \<Rightarrow> bool) \<Rightarrow> shed_history option \<times> 'h"

definition shed_prompt ::
  "trim_settings \<Rightarrow> agent_message list \<Rightarrow> 'h shedder option \<Rightarrow> nat option \<Rightarrow> trim_result option \<times> 'h option" where
  "shed_prompt ts messages shed_history in_tokens =
     (case shed_history of
        None \<Rightarrow> (None, None)
      | Some hook \<Rightarrow>
          (let budget = for_prompt messages (ts_target_tokens ts) (ts_target_turns ts) (ts_trigger_turns ts)
                          (Some (ts_trigger_tokens ts)) in_tokens;
               sys = hd messages; current = last messages
           in if \<not> over_trigger budget messages then (None, None)
              else case hook (\<lambda>history. fits budget (sys # history @ [current])) of
                (None, h) \<Rightarrow> (None, Some h)
              | (Some sh, h) \<Rightarrow>
                  (let result = sys # sh_messages sh @ [current]
                   in (Some \<lparr>tr_messages = (if sh_dropped sh \<noteq> []
                              then attach_summary result (summarize_dropped_messages (sh_dropped sh)) else result),
                            tr_dropped = []\<rparr>, Some h))))"

definition trim_history ::
  "trim_settings \<Rightarrow> agent_message list \<Rightarrow> 'h shedder option \<Rightarrow> nat option \<Rightarrow> trim_result \<times> 'h option" where
  "trim_history ts messages shed_history in_tokens =
     (case shed_prompt ts messages shed_history in_tokens of
        (Some r, h) \<Rightarrow> (r, h)
      | (None, h) \<Rightarrow>
          (trim_messages messages (ts_target_tokens ts) (ts_target_turns ts) (ts_trigger_turns ts)
             (Some (ts_trigger_tokens ts)) in_tokens, h))"

record assembled_prompt =
  ap_messages :: "agent_message list"
  ap_stable_system :: string
  ap_dynamic_context :: string
  ap_system_prompt :: string
  ap_dropped :: "agent_message list"
  ap_trimmed_count :: int
  ap_delivered :: "string set"
  ap_layout :: "layout option"

definition current_turn_text :: "string \<Rightarrow> string \<Rightarrow> string \<Rightarrow> string" where
  "current_turn_text time_context message_context dynamic =
     py_join [nl, nl]
       (if dynamic \<noteq> [] then [time_context, dynamic, message_context] else [time_context, message_context])"

text \<open>\<open>a or b\<close> on a token count, where a zero count is no count.\<close>

definition known_tokens :: "nat \<Rightarrow> nat option \<Rightarrow> nat option" where
  "known_tokens last_tokens recalled = (if last_tokens \<noteq> 0 then Some last_tokens else recalled)"

definition result_skills :: "agent_message list \<Rightarrow> string set" where
  "result_skills ms =
     \<Union> (set (map (\<lambda>m. case m of ToolResultMessage i c e \<Rightarrow> set (extract_delivered_skills c) | _ \<Rightarrow> {}) ms))"

text \<open>
  \<open>prefix_half\<close> and \<open>dyn\<close> are the halves \<open>_build_system_prompt\<close> returns (the override and the
  empty string under an override), \<open>workspace\<close> its entry, live documents and turn seq.
\<close>

definition assemble_prompt ::
  "(string \<Rightarrow> string \<Rightarrow> string) \<Rightarrow> trim_settings \<Rightarrow> string \<Rightarrow> string \<Rightarrow> string \<Rightarrow> string
     \<Rightarrow> (epoch_workspace \<times> workspace_snapshot \<times> int option) option \<Rightarrow> agent_message list
     \<Rightarrow> 'h shedder option \<Rightarrow> nat option \<Rightarrow> assembled_prompt \<times> 'h option" where
  "assemble_prompt udiff ts prefix_half dyn time_context message_context workspace history shed_history in_tokens =
     (let body = current_turn_text time_context message_context;
          (current, ly) = (case workspace of
             Some (entry, live, turn_seq) \<Rightarrow>
               (let (anchor, ly) = layout_current_turn udiff history
                      \<lparr>ly_entry = entry, ly_live = live, ly_turn_seq = turn_seq, ly_dynamic = dyn,
                       ly_body = body, ly_anchor = None, ly_anchor_body = [], ly_sent = []\<rparr>
                in (anchor, Some ly))
           | None \<Rightarrow> (UserMessage (body dyn) None, None));
          messages = SystemMessage prefix_half # history @ [current];
          (trimmed, h) = trim_history ts messages shed_history in_tokens;
          (final, dyn', ly') = (case ly of
             Some l \<Rightarrow> (let (ms, d, l') = layout_apply udiff (tr_messages trimmed) l in (ms, d, Some l'))
           | None \<Rightarrow> (tr_messages trimmed, dyn, None))
      in (\<lparr>ap_messages = final, ap_stable_system = prefix_half, ap_dynamic_context = dyn',
           ap_system_prompt = (if dyn' \<noteq> [] then prefix_half @ [nl, nl] @ dyn' else prefix_half),
           ap_dropped = tr_dropped trimmed,
           ap_trimmed_count = int (length messages) - int (length final),
           ap_delivered = result_skills final, ap_layout = ly'\<rparr>, h))"

section \<open>The state and environment of a turn\<close>

datatype purpose = AgentMain | AgentFollowup | AgentWrapUp

record llm_request =
  rq_purpose :: purpose
  rq_messages :: "agent_message list"
  rq_max_tokens :: nat
  rq_tools_off :: bool

record agent =
  ag_last_input_tokens :: nat
  ag_reactive_dropped :: "agent_message list"
  ag_layout :: "layout option"
  ag_token_cache :: "(string \<times> nat) list"
  ag_requests :: "llm_request list"
  ag_drains :: nat
  ag_round :: round_state

record loop_env =
  le_llm :: "nat \<Rightarrow> llm_outcome"
  le_drain :: "(nat \<Rightarrow> (string \<times> int option) list) option"
  le_round :: round_env
  le_outcomes :: "nat \<Rightarrow> nat \<Rightarrow> tool_outcome"
  le_user :: string
  le_udiff :: "string \<Rightarrow> string \<Rightarrow> string"
  le_max_rounds :: nat
  le_max_retries :: nat
  le_default_max_tokens :: nat
  le_max_input_tokens :: nat
  le_thinking :: thinking_config
  le_target_tokens :: nat
  le_target_turns :: "int option"
  le_trigger_turns :: "int option"

section \<open>One call\<close>

text \<open>An API call: logged, then whatever the provider does.\<close>

definition api_call :: "loop_env \<Rightarrow> llm_request \<Rightarrow> agent \<Rightarrow> llm_outcome \<times> agent" where
  "api_call env rq ag =
     (le_llm env (length (ag_requests ag)), ag\<lparr>ag_requests := ag_requests ag @ [rq]\<rparr>)"

definition overflow_trim :: "loop_env \<Rightarrow> agent_message list \<Rightarrow> agent \<Rightarrow> trim_result" where
  "overflow_trim env messages ag =
     trim_messages (case ag_layout ag of Some ly \<Rightarrow> layout_strip messages ly | None \<Rightarrow> messages)
       (le_target_tokens env) (le_target_turns env) (le_trigger_turns env) None
       (Some (if ag_last_input_tokens ag \<noteq> 0 then ag_last_input_tokens ag else le_max_input_tokens env))"

definition trim_and_retry ::
  "loop_env \<Rightarrow> agent_message list \<Rightarrow> nat \<Rightarrow> bool \<Rightarrow> agent \<Rightarrow> (llm_error + llm_response) \<times> agent" where
  "trim_and_retry env messages max_tokens tools_off ag =
     (let trimmed = overflow_trim env messages ag;
          (retry, ly) = (case ag_layout ag of
             Some ly \<Rightarrow> (let (ms, ly') = layout_reapply (le_udiff env) (tr_messages trimmed) ly in (ms, Some ly'))
           | None \<Rightarrow> (tr_messages trimmed, None));
          ag1 = ag\<lparr>ag_reactive_dropped := ag_reactive_dropped ag @ tr_dropped trimmed, ag_layout := ly\<rparr>;
          (outcome, ag2) = api_call env \<lparr>rq_purpose = AgentFollowup, rq_messages = retry,
             rq_max_tokens = max_tokens, rq_tools_off = tools_off\<rparr> ag1
      in (case outcome of Responded r \<Rightarrow> Inr r | Raised e \<Rightarrow> Inl e, ag2))"

text \<open>The attempts; the number left counts down to the one whose error is raised.\<close>

fun llm_attempts ::
  "loop_env \<Rightarrow> nat \<Rightarrow> llm_request \<Rightarrow> agent \<Rightarrow> (llm_error + llm_response) \<times> agent" where
  "llm_attempts env 0 rq ag = (Inl RetryLoopExited, ag)"
| "llm_attempts env (Suc n) rq ag =
     (let (outcome, ag') = api_call env rq ag
      in case outcome of
           Responded r \<Rightarrow> (Inr r, ag')
         | Raised RateLimitError \<Rightarrow> if n = 0 then (Inl RateLimitError, ag') else llm_attempts env n rq ag'
         | Raised ProviderFault \<Rightarrow> if n = 0 then (Inl ProviderFault, ag') else llm_attempts env n rq ag'
         | Raised ContextLengthExceeded \<Rightarrow>
             trim_and_retry env (rq_messages rq) (rq_max_tokens rq) (rq_tools_off rq) ag'
         | Raised (InvalidRequest message exc original) \<Rightarrow>
             if is_context_overflow message exc original
             then trim_and_retry env (rq_messages rq) (rq_max_tokens rq) (rq_tools_off rq) ag'
             else (Inl (InvalidRequest message exc original), ag')
         | Raised e \<Rightarrow> (Inl e, ag'))"

text \<open>\<open>max_tokens or settings.llm_max_tokens_agent\<close>\<close>

definition effective_max_tokens :: "loop_env \<Rightarrow> nat option \<Rightarrow> nat" where
  "effective_max_tokens env max_tokens =
     (case max_tokens of Some n \<Rightarrow> if n \<noteq> 0 then n else le_default_max_tokens env
      | None \<Rightarrow> le_default_max_tokens env)"

definition call_llm_with_retry ::
  "loop_env \<Rightarrow> purpose \<Rightarrow> bool \<Rightarrow> agent_message list \<Rightarrow> nat option \<Rightarrow> agent
     \<Rightarrow> (llm_error + llm_response) \<times> agent" where
  "call_llm_with_retry env purp tools_off messages max_tokens ag =
     llm_attempts env (le_max_retries env)
       \<lparr>rq_purpose = purp, rq_messages = messages,
        rq_max_tokens = fit_max_tokens_to_reasoning (effective_max_tokens env max_tokens) (le_thinking env),
        rq_tools_off = tools_off\<rparr> ag"

section \<open>The rounds\<close>

definition fold_pending_inbound ::
  "loop_env \<Rightarrow> agent_message list \<Rightarrow> agent \<Rightarrow> agent_message list \<times> nat \<times> agent" where
  "fold_pending_inbound env messages ag =
     (case le_drain env of
        None \<Rightarrow> (messages, 0, ag)
      | Some drain \<Rightarrow>
          (let folded = map (\<lambda>(c, q). UserMessage c q) (drain (ag_drains ag))
           in (messages @ folded, length folded, ag\<lparr>ag_drains := Suc (ag_drains ag)\<rparr>)))"

record usage_totals =
  ut_input :: nat
  ut_output :: nat
  ut_cache_creation :: nat
  ut_cache_read :: nat

definition opt_count :: "nat option \<Rightarrow> nat" where
  "opt_count n = (case n of Some k \<Rightarrow> k | None \<Rightarrow> 0)"

definition add_usage :: "llm_usage \<Rightarrow> usage_totals \<Rightarrow> usage_totals" where
  "add_usage u t =
     \<lparr>ut_input = ut_input t + us_input u, ut_output = ut_output t + opt_count (us_output u),
      ut_cache_creation = ut_cache_creation t + opt_count (us_cache_creation u),
      ut_cache_read = ut_cache_read t + opt_count (us_cache_read u)\<rparr>"

definition note_usage :: "loop_env \<Rightarrow> llm_response \<Rightarrow> usage_totals \<times> agent \<Rightarrow> usage_totals \<times> agent" where
  "note_usage env r ta =
     (case rsp_usage r of
        Some u \<Rightarrow>
          if us_input u = 0 then ta
          else (let n = us_input u + opt_count (us_cache_creation u) + opt_count (us_cache_read u)
                in (add_usage u (fst ta),
                    (snd ta)\<lparr>ag_last_input_tokens := n,
                      ag_token_cache := remember_input_tokens (le_user env) n (ag_token_cache (snd ta))\<rparr>))
      | None \<Rightarrow> ta)"

definition truncated :: "llm_response \<Rightarrow> bool" where
  "truncated r \<longleftrightarrow> rsp_stop_reason r = Some ''max_tokens''"

definition raised_budget :: "loop_env \<Rightarrow> nat option \<Rightarrow> nat" where
  "raised_budget env max_tokens =
     (let effective = effective_max_tokens env max_tokens
      in max effective (min (effective * 2) max_tokens_ceiling))"

text \<open>\<open>NoRounds\<close> is the \<open>UnboundLocalError\<close> of a loop without rounds, which the settings exclude.\<close>

datatype turn_error = LlmFailed llm_error | ToolRoundFailed py_error | NoRounds

datatype loop_exit =
    Replied llm_response
  | Aborted llm_response
  | Exhausted "llm_response option"
  | Failed turn_error

record loop_state =
  ls_messages :: "agent_message list"
  ls_max_tokens :: "nat option"
  ls_agent :: agent
  ls_totals :: usage_totals

definition tool_env :: "loop_env \<Rightarrow> nat \<Rightarrow> bool \<Rightarrow> round_env" where
  "tool_env env r response_truncated =
     (le_round env)\<lparr>env_truncated := response_truncated, env_outcomes := le_outcomes env r\<rparr>"

text \<open>
  What one round does after its response: it ends the loop, or goes on with a new state.
\<close>

definition tool_step ::
  "loop_env \<Rightarrow> nat \<Rightarrow> llm_response \<Rightarrow> loop_state \<Rightarrow> loop_exit + loop_state" where
  "tool_step env r response ls =
     (let raw = parse_tool_calls response;
          content = get_response_text response;
          msg = AssistantMessage (if content \<noteq> [] then Some content else None) (to_requests raw) None
      in case execute_tool_round (tool_env env r (truncated response)) raw (ag_round (ls_agent ls)) of
           Inl e \<Rightarrow> Inl (Failed (ToolRoundFailed e))
         | Inr (st, approved) \<Rightarrow>
             Inr (ls\<lparr>ls_messages := ls_messages ls @ msg # rs_results st,
                     ls_agent := (ls_agent ls)\<lparr>ag_round := st\<rparr>,
                     ls_max_tokens := (if truncated response then Some (raised_budget env (ls_max_tokens ls))
                                       else ls_max_tokens ls)\<rparr>))"

definition after_response ::
  "loop_env \<Rightarrow> nat \<Rightarrow> llm_response \<Rightarrow> loop_state \<Rightarrow> (loop_exit \<times> loop_state) + loop_state" where
  "after_response env r response ls =
     (let raw = parse_tool_calls response; effective = effective_max_tokens env (ls_max_tokens ls)
      in if rsp_stop_reason response \<notin> set valid_stop_reasons then Inl (Aborted response, ls)
         else if raw = [] \<and> truncated response then
           (if effective < max_tokens_ceiling
            then Inr (ls\<lparr>ls_max_tokens := Some (min (effective * 2) max_tokens_ceiling)\<rparr>)
            else Inl (Aborted response, ls))
         else if raw = [] then
           (if Suc r < le_max_rounds env then
              (let (ms, folded, ag) = fold_pending_inbound env (ls_messages ls) (ls_agent ls);
                   ls' = ls\<lparr>ls_messages := ms, ls_agent := ag\<rparr>
               in if folded \<noteq> 0 then Inr ls' else Inl (Replied response, ls'))
            else Inl (Replied response, ls))
         else case tool_step env r response ls of
           Inl e \<Rightarrow> Inl (e, ls)
         | Inr ls' \<Rightarrow> Inr ls')"

definition round_call ::
  "loop_env \<Rightarrow> loop_state \<Rightarrow> (llm_error + llm_response) \<times> loop_state" where
  "round_call env ls =
     (let (ms, folded, ag) = fold_pending_inbound env (ls_messages ls) (ls_agent ls);
          (outcome, ag') = call_llm_with_retry env AgentMain False ms (ls_max_tokens ls) ag
      in (outcome, ls\<lparr>ls_messages := ms, ls_agent := ag'\<rparr>))"

text \<open>The \<open>for\<close> loop with its \<open>else\<close>: \<open>n\<close> rounds are left, \<open>response\<close> is the last one.\<close>

fun turn_loop ::
  "loop_env \<Rightarrow> nat \<Rightarrow> llm_response option \<Rightarrow> loop_state \<Rightarrow> loop_exit \<times> loop_state" where
  "turn_loop env 0 response ls = (Exhausted response, ls)"
| "turn_loop env (Suc n) response ls =
     (let (outcome, ls1) = round_call env ls
      in case outcome of
           Inl e \<Rightarrow> (Failed (LlmFailed e), ls1)
         | Inr r \<Rightarrow>
             (let (totals, ag) = note_usage env r (ls_totals ls1, ls_agent ls1);
                  ls2 = ls1\<lparr>ls_totals := totals, ls_agent := ag\<rparr>
              in case after_response env (le_max_rounds env - Suc n) r ls2 of
                   Inl (exit, ls3) \<Rightarrow> (exit, ls3)
                 | Inr ls3 \<Rightarrow> turn_loop env n (Some r) ls3))"

section \<open>The turn\<close>

definition llm_error_fallback :: string where
  "llm_error_fallback =
     ''I'' @ [CHR 0x27] @ ''m having trouble thinking right now. Can you try again in a moment?''"

definition max_rounds_wrap_up_instruction :: string where
  "max_rounds_wrap_up_instruction =
     ''You have reached the tool-call limit for this turn and cannot call any more tools. ''
     @ ''Reply to the user now: say what you finished, what is still open, and what you ''
     @ ''need from them to continue.''"

definition max_rounds_fallback :: string where
  "max_rounds_fallback =
     ''I ran out of steps before I could finish this one. Reply '' @ [CHR 0x22] @ ''keep going''
     @ [CHR 0x22] @ '' and I'' @ [CHR 0x27] @ ''ll pick up where I left off.''"

record agent_response =
  ar_reply_text :: string
  ar_actions_taken :: "string list"
  ar_tool_calls :: "stored_interaction list"
  ar_is_error_fallback :: bool
  ar_totals :: usage_totals
  ar_system_prompt :: string
  ar_thinking_text :: string

definition wrap_up_after_max_rounds ::
  "loop_env \<Rightarrow> loop_state \<Rightarrow> llm_response option \<times> loop_state" where
  "wrap_up_after_max_rounds env ls =
     (let (outcome, ag) = call_llm_with_retry env AgentWrapUp True
            (ls_messages ls @ [UserMessage max_rounds_wrap_up_instruction None]) (ls_max_tokens ls) (ls_agent ls)
      in (case outcome of
            Inl e \<Rightarrow> None
          | Inr r \<Rightarrow> if rsp_stop_reason r \<notin> set valid_stop_reasons \<or> truncated r then None else Some r,
          ls\<lparr>ls_agent := ag\<rparr>))"

definition already_replied :: "stored_interaction list \<Rightarrow> bool" where
  "already_replied records \<longleftrightarrow> list_ex (\<lambda>tc. ''sends_reply'' \<in> set (si_tags tc) \<and> \<not> si_is_error tc) records"

text \<open>The reply of a loop that ran out of rounds: text, thinking, and the state after the wrap-up.\<close>

definition exhausted_reply ::
  "loop_env \<Rightarrow> bool \<Rightarrow> llm_response \<Rightarrow> loop_state \<Rightarrow> string \<times> string \<times> loop_state" where
  "exhausted_reply env wrap_up response ls =
     (let reply = get_response_text response; thinking = get_response_thinking response
      in if wrap_up \<and> reply = [] \<and> \<not> already_replied (rs_records (ag_round (ls_agent ls))) then
           (case wrap_up_after_max_rounds env ls of
              (Some r, ls') \<Rightarrow>
                (let ls'' = (case rsp_usage r of
                       Some u \<Rightarrow> ls'\<lparr>ls_totals := add_usage u (ls_totals ls')\<rparr> | None \<Rightarrow> ls')
                 in (if get_response_text r \<noteq> [] then get_response_text r else max_rounds_fallback,
                     get_response_thinking r, ls''))
            | (None, ls') \<Rightarrow> (max_rounds_fallback, thinking, ls'))
         else (reply, thinking, ls))"

definition turn_response :: "string \<Rightarrow> string \<Rightarrow> string \<Rightarrow> bool \<Rightarrow> loop_state \<Rightarrow> agent_response" where
  "turn_response system_prompt reply thinking fallback ls =
     \<lparr>ar_reply_text = reply, ar_actions_taken = rs_actions (ag_round (ls_agent ls)),
      ar_tool_calls = rs_records (ag_round (ls_agent ls)), ar_is_error_fallback = fallback,
      ar_totals = ls_totals ls, ar_system_prompt = system_prompt, ar_thinking_text = thinking\<rparr>"

text \<open>
  The turn from its assembled prompt on: the response or the exception, the final state, and the
  messages handed to \<open>trigger_compaction_for_dropped\<close> (none when an exception escapes).
\<close>

definition process_message ::
  "loop_env \<Rightarrow> bool \<Rightarrow> nat option \<Rightarrow> assembled_prompt \<Rightarrow> agent
     \<Rightarrow> (turn_error + agent_response) \<times> loop_state \<times> agent_message list" where
  "process_message env wrap_up max_tokens prompt ag =
     (let st = ag_round ag;
          ag0 = ag\<lparr>ag_layout := ap_layout prompt,
                   ag_round := st\<lparr>rs_actions := [], rs_records := [],
                                   rs_delivered := rs_delivered st \<union> ap_delivered prompt\<rparr>\<rparr>;
          ls0 = \<lparr>ls_messages = ap_messages prompt, ls_max_tokens = max_tokens, ls_agent = ag0,
                 ls_totals = \<lparr>ut_input = 0, ut_output = 0, ut_cache_creation = 0, ut_cache_read = 0\<rparr>\<rparr>;
          (exit, ls) = turn_loop env (le_max_rounds env) None ls0;
          finish = (\<lambda>reply thinking fallback ls.
             (Inr (turn_response (ap_system_prompt prompt) reply thinking fallback ls),
              ls\<lparr>ls_agent := (ls_agent ls)\<lparr>ag_reactive_dropped := []\<rparr>\<rparr>,
              ap_dropped prompt @ ag_reactive_dropped (ls_agent ls)))
      in case exit of
           Failed e \<Rightarrow> (Inl e, ls, [])
         | Aborted r \<Rightarrow> finish llm_error_fallback (get_response_thinking r) True ls
         | Replied r \<Rightarrow> finish (get_response_text r) (get_response_thinking r) False ls
         | Exhausted None \<Rightarrow> (Inl NoRounds, ls, [])
         | Exhausted (Some r) \<Rightarrow>
             if parse_tool_calls r = [] \<and> truncated r
             then finish llm_error_fallback (get_response_thinking r) True ls
             else (let (reply, thinking, ls') = exhausted_reply env wrap_up r ls
                   in finish reply thinking False ls'))"

section \<open>What every request looks like\<close>

text \<open>
  The shape of a message: which user text a message carries does not matter to the pairing.
\<close>

fun skel :: "agent_message \<Rightarrow> agent_message" where
  "skel (UserMessage c s) = UserMessage [] None"
| "skel m = m"

lemma skel_result [simp]: "is_tool_result (skel m) = is_tool_result m" "tool_result_id (skel m) = tool_result_id m"
  by (cases m; simp)+

lemma paired_skel: "paired (map skel ms) = paired ms"
proof (induction ms rule: paired.induct)
  case (5 c tcs s ms)
  then show ?case by (simp add: takeWhile_map dropWhile_map o_def)
qed simp_all

definition prompt_ok :: "agent_message list \<Rightarrow> bool" where
  "prompt_ok ms \<longleftrightarrow> (\<exists>s body. ms = SystemMessage s # body \<and> paired body)"

lemma skel_System [simp]: "skel m = SystemMessage s \<longleftrightarrow> m = SystemMessage s"
  by (cases m) simp_all

lemma prompt_ok_iff: "prompt_ok ms \<longleftrightarrow> (\<exists>s ys. map skel ms = SystemMessage s # ys) \<and> paired ms"
  by (auto simp: prompt_ok_def map_eq_Cons_conv)

lemma prompt_ok_skel: "map skel ms' = map skel ms \<Longrightarrow> prompt_ok ms' = prompt_ok ms"
  unfolding prompt_ok_iff using paired_skel by metis

lemma prompt_ok_append: "prompt_ok ms \<Longrightarrow> paired ns \<Longrightarrow> prompt_ok (ms @ ns)"
  by (auto simp: prompt_ok_def intro: paired_appendI)

lemma skel_append_updates [simp]: "skel (lay_update ds m) = skel m"
  by (auto simp: lay_update_def split: agent_message.splits option.splits)

definition layout_ok :: "layout \<Rightarrow> bool" where
  "layout_ok ly \<longleftrightarrow> (\<forall>a. ly_anchor ly = Some a \<longrightarrow> is_user a) \<and> (\<forall>(v, m) \<in> set (ly_sent ly). skel v = skel m)"

definition layout_opt_ok :: "layout option \<Rightarrow> bool" where
  "layout_opt_ok ly = (case ly of Some l \<Rightarrow> layout_ok l | None \<Rightarrow> True)"

lemma last_index_Some:
  assumes "last_index P ms = Some i"
  shows "1 \<le> i \<and> i < length ms \<and> P (ms ! i)"
proof -
  from assms obtain js where "filter (\<lambda>i. P (ms ! i)) (rev [1..<length ms]) = i # js"
    by (auto simp: last_index_def split: list.splits)
  then have "i \<in> set (filter (\<lambda>i. P (ms ! i)) (rev [1..<length ms]))" by simp
  then show ?thesis by auto
qed

lemma find_current_user:
  assumes "find_current ms ly = Some i" and "layout_ok ly"
  shows "1 \<le> i \<and> i < length ms \<and> is_user (ms ! i)"
  using assms
  by (auto simp: find_current_def layout_ok_def is_anchor_like_def dest!: last_index_Some
      split: option.splits agent_message.splits)

lemma skel_user: "is_user m \<Longrightarrow> skel m = UserMessage [] None"
  by (cases m) simp_all

lemma laid_pairs_skel: "(v, m) \<in> set (laid_pairs (map (lay_update ds) ms) ms) \<Longrightarrow> skel v = skel m"
  by (auto simp: laid_pairs_def set_zip)

text \<open>Laying the updates out changes user texts only, and so does taking them off.\<close>

lemma lay_skel:
  assumes "layout_ok ly" and "ms \<noteq> []"
  shows "map skel (lo_messages (lay udiff ms ly)) = map skel ms"
    and "\<forall>(v, m) \<in> set (lo_sent (lay udiff ms ly)). skel v = skel m"
    and "\<forall>p. lo_plain (lay udiff ms ly) = Some p \<longrightarrow> is_user p"
proof -
  obtain m0 rest where ms: "ms = m0 # rest" using assms(2) by (cases ms) auto
  have view: "workspace_apply udiff live q h e = (e', h', u) \<Longrightarrow> \<exists>ds. h' = map (lay_update ds) h" for live q h e e' h' u
    by (auto simp: workspace_apply_def Let_def)
  have "map skel (lo_messages (lay udiff ms ly)) = map skel ms
    \<and> (\<forall>(v, m) \<in> set (lo_sent (lay udiff ms ly)). skel v = skel m)
    \<and> (\<forall>p. lo_plain (lay udiff ms ly) = Some p \<longrightarrow> is_user p)"
  proof (cases "find_current ms ly")
    case None
    obtain e' h' u where w: "workspace_apply udiff (ly_live ly) (ly_turn_seq ly) rest (ly_entry ly) = (e', h', u)"
      by (metis prod_cases3)
    from view [OF w] obtain ds where "h' = map (lay_update ds) rest" by blast
    then show ?thesis using None w by (auto simp: lay_def ms o_def dest: laid_pairs_skel)
  next
    case (Some i)
    from find_current_user [OF Some assms(1)] have i: "1 \<le> i" "i < length ms" "is_user (ms ! i)" by auto
    let ?before = "take (i - 1) rest"
    obtain e' h' u where w: "workspace_apply udiff (ly_live ly) (ly_turn_seq ly) ?before (ly_entry ly) = (e', h', u)"
      by (metis prod_cases3)
    from view [OF w] obtain ds where h: "h' = map (lay_update ds) ?before" by blast
    have split: "ms = m0 # ?before @ ms ! i # drop (Suc i) ms"
    proof -
      obtain j where j: "i = Suc j" using i(1) by (cases i) auto
      then have "rest = take j rest @ rest ! j # drop (Suc j) rest"
        using i(2) by (simp add: ms id_take_nth_drop)
      then show ?thesis using j by (simp add: ms)
    qed
    have "map skel ms = skel m0 # map skel ?before @ UserMessage [] None # map skel (drop (Suc i) ms)"
      by (subst split) (simp add: skel_user [OF i(3)])
    moreover have "map skel h' = map skel ?before" by (simp add: h o_def)
    moreover have "(v, m) \<in> set (laid_pairs h' ?before) \<Longrightarrow> skel v = skel m" for v m
      unfolding h by (rule laid_pairs_skel)
    ultimately show ?thesis using Some w
      by (auto simp: lay_def ms Let_def simp del: drop_Suc_Cons)
  qed
  then show "map skel (lo_messages (lay udiff ms ly)) = map skel ms"
    and "\<forall>(v, m) \<in> set (lo_sent (lay udiff ms ly)). skel v = skel m"
    and "\<forall>p. lo_plain (lay udiff ms ly) = Some p \<longrightarrow> is_user p" by blast+
qed

lemma lay_prompt_ok:
  assumes "layout_ok ly" and "prompt_ok ms"
  shows "prompt_ok (lo_messages (lay udiff ms ly))"
  using assms lay_skel(1) [OF assms(1), of ms udiff] by (metis list.discI prompt_ok_def prompt_ok_skel)

lemma layout_strip_skel: "layout_ok ly \<Longrightarrow> map skel (layout_strip ms ly) = map skel ms"
  by (auto simp: layout_strip_def layout_ok_def dest!: map_of_SomeD split: option.splits)

lemma layout_reapply_ok:
  assumes "layout_ok ly" and "prompt_ok ms" and "layout_reapply udiff ms ly = (ms', ly')"
  shows "prompt_ok ms' \<and> layout_ok ly'"
  using assms lay_prompt_ok [OF assms(1,2)] by (auto simp: layout_reapply_def Let_def layout_ok_def)

lemma layout_apply_ok:
  assumes "layout_ok ly" and "prompt_ok ms" and "layout_apply udiff ms ly = (ms', d, ly')"
  shows "prompt_ok ms' \<and> layout_ok ly'"
proof -
  have "ms \<noteq> []" using assms(2) by (auto simp: prompt_ok_def)
  from lay_skel(2,3) [OF assms(1) this, of udiff] lay_prompt_ok [OF assms(1,2), of udiff] assms(1,3)
  show ?thesis by (auto simp: layout_apply_def Let_def layout_ok_def split: option.splits)
qed

definition calls_ok :: "agent \<Rightarrow> bool" where
  "calls_ok ag \<longleftrightarrow> layout_opt_ok (ag_layout ag) \<and> paired (ag_reactive_dropped ag)
     \<and> (\<forall>rq \<in> set (ag_requests ag). prompt_ok (rq_messages rq))"

lemma trim_messages_ok:
  assumes "prompt_ok ms"
  shows "prompt_ok (tr_messages (trim_messages ms a b c d e)) \<and> paired (tr_dropped (trim_messages ms a b c d e))"
proof -
  obtain s body where ms: "ms = SystemMessage s # body" "paired body" using assms by (auto simp: prompt_ok_def)
  have "\<exists>s' ys. map skel (tr_messages (trim_messages ms a b c d e)) = SystemMessage s' # ys"
  proof (cases "over_trigger (for_prompt ms a b c d e) ms")
    case True
    from trim_messages_fired [OF True [unfolded ms(1)] refl] obtain k where
      "tr_messages (trim_messages (SystemMessage s # body) a b c d e) =
        (let kept = SystemMessage s # concat (drop k (group_blocks body)) in
          if k = 0 then kept else attach_summary kept (summarize_dropped_messages
            (tr_dropped (trim_messages (SystemMessage s # body) a b c d e))))" by auto
    then show ?thesis by (auto simp: ms(1) attach_summary_def Let_def split: option.splits if_splits)
  qed (auto simp: trim_messages_cases ms(1))
  then show ?thesis using trim_messages_paired [OF ms(2), of s a b c d e] by (simp add: prompt_ok_iff ms(1))
qed

lemma overflow_trim_ok:
  assumes "prompt_ok ms" and "calls_ok ag"
  shows "prompt_ok (tr_messages (overflow_trim env ms ag)) \<and> paired (tr_dropped (overflow_trim env ms ag))"
proof -
  have "prompt_ok (case ag_layout ag of Some ly \<Rightarrow> layout_strip ms ly | None \<Rightarrow> ms)"
    using assms prompt_ok_skel [OF layout_strip_skel]
    by (auto simp: calls_ok_def layout_opt_ok_def split: option.splits)
  then show ?thesis unfolding overflow_trim_def by (rule trim_messages_ok)
qed

lemma trim_and_retry_ok:
  assumes "prompt_ok ms" and "calls_ok ag"
  shows "calls_ok (snd (trim_and_retry env ms mt off ag))"
proof -
  note ok = overflow_trim_ok [OF assms, of env]
  show ?thesis
  proof (cases "ag_layout ag")
    case None
    then show ?thesis using assms ok
      by (auto simp: trim_and_retry_def api_call_def calls_ok_def layout_opt_ok_def Let_def intro: paired_appendI)
  next
    case (Some ly)
    obtain ms' ly' where r: "layout_reapply (le_udiff env) (tr_messages (overflow_trim env ms ag)) ly = (ms', ly')"
      by fastforce
    have "layout_ok ly" using assms(2) Some by (simp add: calls_ok_def layout_opt_ok_def)
    from layout_reapply_ok [OF this _ r] ok have "prompt_ok ms' \<and> layout_ok ly'" by blast
    then show ?thesis using assms ok Some r
      by (auto simp: trim_and_retry_def api_call_def calls_ok_def layout_opt_ok_def Let_def intro: paired_appendI)
  qed
qed

lemma llm_attempts_ok:
  "prompt_ok (rq_messages rq) \<Longrightarrow> calls_ok ag \<Longrightarrow> calls_ok (snd (llm_attempts env n rq ag))"
proof (induction env n rq ag rule: llm_attempts.induct)
  case (2 env n rq ag)
  obtain out ag' where c: "api_call env rq ag = (out, ag')" by fastforce
  then have "calls_ok ag'" using "2.prems" by (auto simp: api_call_def calls_ok_def)
  then show ?case
    using "2.IH" [OF c [symmetric]] "2.prems"(1) c
    by (auto intro: trim_and_retry_ok split: llm_outcome.split llm_error.split)
qed simp

lemma call_llm_ok: "prompt_ok ms \<Longrightarrow> calls_ok ag \<Longrightarrow> calls_ok (snd (call_llm_with_retry env p off ms mt ag))"
  by (simp add: call_llm_with_retry_def llm_attempts_ok)

lemma paired_users: "paired (map (\<lambda>(c, q). UserMessage c q) xs)"
  by (induction xs) auto

lemma fold_pending_ok:
  assumes "fold_pending_inbound env ms ag = (ms', n, ag')" and "prompt_ok ms" and "calls_ok ag"
  shows "prompt_ok ms' \<and> calls_ok ag'"
  using assms by (auto simp: fold_pending_inbound_def calls_ok_def Let_def intro: prompt_ok_append paired_users split: option.splits)

definition loop_ok :: "loop_state \<Rightarrow> bool" where
  "loop_ok ls \<longleftrightarrow> prompt_ok (ls_messages ls) \<and> calls_ok (ls_agent ls)"

lemma tool_step_ok:
  assumes "tool_step env r response ls = Inr ls'" and "loop_ok ls"
  shows "loop_ok ls'"
proof -
  let ?raw = "parse_tool_calls response"
  let ?c = "if get_response_text response \<noteq> [] then Some (get_response_text response) else None"
  from assms(1) obtain st approved where x:
    "execute_tool_round (tool_env env r (truncated response)) ?raw (ag_round (ls_agent ls)) = Inr (st, approved)"
    and ls': "ls_messages ls' = ls_messages ls @ AssistantMessage ?c (to_requests ?raw) None # rs_results st"
      "ls_agent ls' = (ls_agent ls)\<lparr>ag_round := st\<rparr>"
    by (auto simp: tool_step_def Let_def split: sum.splits prod.splits)
  from execute_tool_round_answers [OF x]
  have "paired (AssistantMessage ?c (to_requests ?raw) None # rs_results st)" .
  then show ?thesis using assms(2) ls' by (auto simp: loop_ok_def calls_ok_def intro: prompt_ok_append)
qed

lemma after_response_ok:
  assumes "after_response env r response ls = res" and "loop_ok ls"
  shows "case res of Inl (e, ls') \<Rightarrow> loop_ok ls' | Inr ls' \<Rightarrow> loop_ok ls'"
proof -
  obtain ms n ag where f: "fold_pending_inbound env (ls_messages ls) (ls_agent ls) = (ms, n, ag)"
    by (metis prod_cases3)
  have folded: "loop_ok (ls\<lparr>ls_messages := ms, ls_agent := ag\<rparr>)"
    using fold_pending_ok [OF f] assms(2) by (simp add: loop_ok_def)
  have budget: "loop_ok (ls\<lparr>ls_max_tokens := b\<rparr>)" for b using assms(2) by (simp add: loop_ok_def)
  show ?thesis
    using assms folded budget tool_step_ok [of env r response ls] f
    by (auto simp: after_response_def Let_def split: sum.splits if_splits)
qed

lemma round_call_ok:
  assumes "round_call env ls = (outcome, ls')" and "loop_ok ls"
  shows "loop_ok ls'"
proof -
  obtain ms n ag where f: "fold_pending_inbound env (ls_messages ls) (ls_agent ls) = (ms, n, ag)"
    by (metis prod_cases3)
  from fold_pending_ok [OF f] assms(2) have ok: "prompt_ok ms" "calls_ok ag" by (auto simp: loop_ok_def)
  then show ?thesis using assms(1) f call_llm_ok [OF ok, of env AgentMain False "ls_max_tokens ls"]
    by (auto simp: round_call_def loop_ok_def split: prod.splits)
qed

lemma note_usage_ok: "note_usage env r (t, ag) = (t', ag') \<Longrightarrow> calls_ok ag \<Longrightarrow> calls_ok ag'"
  by (auto simp: note_usage_def calls_ok_def Let_def split: option.splits if_splits)

text \<open>One round of the loop, as a step: the outcome of its call, and the state after its response.\<close>

definition loop_round :: "loop_env \<Rightarrow> nat \<Rightarrow> loop_state \<Rightarrow> (loop_exit \<times> loop_state) + llm_response \<times> loop_state" where
  "loop_round env n ls =
     (let (outcome, ls1) = round_call env ls
      in case outcome of
           Inl e \<Rightarrow> Inl (Failed (LlmFailed e), ls1)
         | Inr r \<Rightarrow>
             (let (totals, ag) = note_usage env r (ls_totals ls1, ls_agent ls1)
              in case after_response env (le_max_rounds env - Suc n) r (ls1\<lparr>ls_totals := totals, ls_agent := ag\<rparr>) of
                   Inl x \<Rightarrow> Inl x
                 | Inr ls3 \<Rightarrow> Inr (r, ls3)))"

lemma turn_loop_Suc:
  "turn_loop env (Suc n) response ls =
     (case loop_round env n ls of Inl x \<Rightarrow> x | Inr (r, ls') \<Rightarrow> turn_loop env n (Some r) ls')"
  by (auto simp: loop_round_def Let_def split: prod.splits sum.splits)

text \<open>An invariant of the rounds holds of the loop's result.\<close>

lemma turn_loop_invariant:
  assumes "turn_loop env n response ls = (e, ls')" and "I n ls"
    and "\<And>k s e' s'. I (Suc k) s \<Longrightarrow> loop_round env k s = Inl (e', s') \<Longrightarrow> J s'"
    and "\<And>k s r s'. I (Suc k) s \<Longrightarrow> loop_round env k s = Inr (r, s') \<Longrightarrow> I k s'"
    and "\<And>s. I 0 s \<Longrightarrow> J s"
  shows "J ls'"
  using assms(1,2)
proof (induction n arbitrary: response ls)
  case 0
  then show ?case using assms(5) by simp
next
  case (Suc n)
  show ?case
  proof (cases "loop_round env n ls")
    case (Inl x)
    then show ?thesis using Suc.prems assms(3) [OF Suc.prems(2)] by (cases x) (simp add: turn_loop_Suc del: turn_loop.simps)
  next
    case (Inr x)
    then show ?thesis using Suc.prems(1) Suc.IH assms(4) [OF Suc.prems(2)]
      by (cases x) (simp add: turn_loop_Suc del: turn_loop.simps)
  qed
qed

lemma loop_round_ok:
  assumes "loop_ok ls"
  shows "case loop_round env n ls of Inl (e, ls') \<Rightarrow> loop_ok ls' | Inr (r, ls') \<Rightarrow> loop_ok ls'"
proof -
  obtain outcome ls1 where c: "round_call env ls = (outcome, ls1)" by fastforce
  from round_call_ok [OF c assms] have ok1: "loop_ok ls1" .
  show ?thesis
  proof (cases outcome)
    case (Inl e)
    then show ?thesis using c ok1 by (simp add: loop_round_def)
  next
    case (Inr r)
    obtain t ag where u: "note_usage env r (ls_totals ls1, ls_agent ls1) = (t, ag)" by fastforce
    have "loop_ok (ls1\<lparr>ls_totals := t, ls_agent := ag\<rparr>)" using note_usage_ok [OF u] ok1 by (simp add: loop_ok_def)
    from after_response_ok [OF refl this, of env "le_max_rounds env - Suc n" r] show ?thesis
      using c u Inr by (auto simp: loop_round_def split: sum.splits)
  qed
qed

lemma turn_loop_ok:
  assumes "turn_loop env n response ls = (e, ls')" and "loop_ok ls"
  shows "loop_ok ls'"
  using assms(1)
proof (rule turn_loop_invariant [where I = "\<lambda>n. loop_ok"])
  show "loop_ok s'" if "loop_ok s" "loop_round env k s = Inl (e', s')" for k s e' s'
    using loop_round_ok [OF that(1), of env k] that(2) by simp
  show "loop_ok s'" if "loop_ok s" "loop_round env k s = Inr (r, s')" for k s r s'
    using loop_round_ok [OF that(1), of env k] that(2) by simp
qed (use assms(2) in auto)

lemma wrap_up_ok:
  assumes "wrap_up_after_max_rounds env ls = (r, ls')" and "loop_ok ls"
  shows "loop_ok ls'"
proof -
  have "prompt_ok (ls_messages ls @ [UserMessage max_rounds_wrap_up_instruction None])"
    using assms(2) by (simp add: loop_ok_def prompt_ok_append)
  from call_llm_ok [OF this, of "ls_agent ls" env AgentWrapUp True "ls_max_tokens ls"] assms
  show ?thesis by (auto simp: wrap_up_after_max_rounds_def loop_ok_def split: prod.splits)
qed

lemma exhausted_reply_ok:
  assumes "exhausted_reply env w r ls = (reply, thinking, ls')" and "loop_ok ls"
  shows "loop_ok ls'"
  using assms wrap_up_ok [of env ls]
  by (auto simp: exhausted_reply_def Let_def loop_ok_def split: if_splits prod.splits option.splits)

definition turn_start :: "assembled_prompt \<Rightarrow> nat option \<Rightarrow> agent \<Rightarrow> loop_state" where
  "turn_start prompt max_tokens ag =
     \<lparr>ls_messages = ap_messages prompt, ls_max_tokens = max_tokens,
      ls_agent = ag\<lparr>ag_layout := ap_layout prompt,
        ag_round := (ag_round ag)\<lparr>rs_actions := [], rs_records := [],
          rs_delivered := rs_delivered (ag_round ag) \<union> ap_delivered prompt\<rparr>\<rparr>,
      ls_totals = \<lparr>ut_input = 0, ut_output = 0, ut_cache_creation = 0, ut_cache_read = 0\<rparr>\<rparr>"

text \<open>How a turn ends: the loop's exit, and the reply each exit gives.\<close>

lemma process_message_cases [consumes 1, case_names failed replied aborted truncated_end exhausted]:
  assumes "process_message env w mt prompt ag = (res, ls', dropped)"
  obtains (failed) e x ls where "turn_loop env (le_max_rounds env) None (turn_start prompt mt ag) = (x, ls)"
      "res = Inl e" "ls' = ls" "dropped = []"
  | (replied) r ls where "turn_loop env (le_max_rounds env) None (turn_start prompt mt ag) = (Replied r, ls)"
      "res = Inr (turn_response (ap_system_prompt prompt) (get_response_text r) (get_response_thinking r) False ls)"
      "ls' = ls\<lparr>ls_agent := (ls_agent ls)\<lparr>ag_reactive_dropped := []\<rparr>\<rparr>"
      "dropped = ap_dropped prompt @ ag_reactive_dropped (ls_agent ls)"
  | (aborted) r ls where "turn_loop env (le_max_rounds env) None (turn_start prompt mt ag) = (Aborted r, ls)"
      "res = Inr (turn_response (ap_system_prompt prompt) llm_error_fallback (get_response_thinking r) True ls)"
      "ls' = ls\<lparr>ls_agent := (ls_agent ls)\<lparr>ag_reactive_dropped := []\<rparr>\<rparr>"
      "dropped = ap_dropped prompt @ ag_reactive_dropped (ls_agent ls)"
  | (truncated_end) r ls where
      "turn_loop env (le_max_rounds env) None (turn_start prompt mt ag) = (Exhausted (Some r), ls)"
      "parse_tool_calls r = []" "truncated r"
      "res = Inr (turn_response (ap_system_prompt prompt) llm_error_fallback (get_response_thinking r) True ls)"
      "ls' = ls\<lparr>ls_agent := (ls_agent ls)\<lparr>ag_reactive_dropped := []\<rparr>\<rparr>"
      "dropped = ap_dropped prompt @ ag_reactive_dropped (ls_agent ls)"
  | (exhausted) r ls reply thinking ls1 where
      "turn_loop env (le_max_rounds env) None (turn_start prompt mt ag) = (Exhausted (Some r), ls)"
      "\<not> (parse_tool_calls r = [] \<and> truncated r)"
      "exhausted_reply env w r ls = (reply, thinking, ls1)"
      "res = Inr (turn_response (ap_system_prompt prompt) reply thinking False ls1)"
      "ls' = ls1\<lparr>ls_agent := (ls_agent ls1)\<lparr>ag_reactive_dropped := []\<rparr>\<rparr>"
      "dropped = ap_dropped prompt @ ag_reactive_dropped (ls_agent ls1)"
proof -
  obtain x ls where t: "turn_loop env (le_max_rounds env) None (turn_start prompt mt ag) = (x, ls)" by fastforce
  note run = assms [unfolded process_message_def Let_def, folded turn_start_def, unfolded t]
  show ?thesis
  proof (cases x)
    case (Exhausted ro)
    show ?thesis
    proof (cases ro)
      case None
      then show ?thesis using that(1) [OF t, of NoRounds] run Exhausted by auto
    next
      case (Some r)
      obtain reply thinking ls1 where e: "exhausted_reply env w r ls = (reply, thinking, ls1)" by (metis prod_cases3)
      show ?thesis
        using run Exhausted Some e t that(4) [of r ls] that(5) [of r ls reply thinking ls1]
        by (cases "parse_tool_calls r = [] \<and> truncated r") simp_all
    qed
  next
    case (Failed e)
    then show ?thesis using that(1) [OF t, of e] run by auto
  qed (use run t that(2) that(3) in simp_all)
qed

lemma process_message_ok:
  assumes "process_message env w mt prompt ag = (res, ls', dropped)"
    and "loop_ok (turn_start prompt mt ag)" and "paired (ap_dropped prompt)"
  shows "loop_ok ls' \<and> paired dropped"
  using assms(1)
proof (cases rule: process_message_cases)
  case (exhausted r ls reply thinking ls1)
  from exhausted_reply_ok [OF exhausted(3) turn_loop_ok [OF exhausted(1) assms(2)]] have "loop_ok ls1" .
  then show ?thesis using exhausted assms(3) by (auto simp: loop_ok_def calls_ok_def intro: paired_appendI)
qed (use turn_loop_ok assms(2,3) in \<open>auto simp: loop_ok_def calls_ok_def intro!: paired_appendI\<close>)

section \<open>The assembled prompt\<close>

definition sheds_paired :: "'h shedder option \<Rightarrow> bool" where
  "sheds_paired hook \<longleftrightarrow> (\<forall>f P sh h. hook = Some f \<longrightarrow> f P = (Some sh, h) \<longrightarrow> paired (sh_messages sh))"

lemma trim_history_ok:
  assumes "trim_history ts (SystemMessage s # history @ [UserMessage c q]) hook n = (r, h)"
    and "paired history" and "sheds_paired hook"
  shows "prompt_ok (tr_messages r) \<and> paired (tr_dropped r)"
proof -
  let ?ms = "SystemMessage s # history @ [UserMessage c q]"
  have cut: "prompt_ok (tr_messages (trim_messages ?ms a b d e f)) \<and> paired (tr_dropped (trim_messages ?ms a b d e f))"
    for a b d e f using assms(2) by (intro trim_messages_ok) (simp add: prompt_ok_def paired_appendI)
  obtain ro h' where sh: "shed_prompt ts ?ms hook n = (ro, h')" by fastforce
  show ?thesis
  proof (cases ro)
    case None
    then show ?thesis using cut assms(1) sh by (auto simp: trim_history_def)
  next
    case (Some r')
    then have r: "r' = r" using assms(1) sh by (simp add: trim_history_def)
    have app: "paired xs \<Longrightarrow> paired (xs @ [UserMessage c q])" for xs by (rule paired_appendI) simp_all
    obtain f where f: "hook = Some f" using Some sh by (auto simp: shed_prompt_def split: option.splits)
    let ?P = "\<lambda>history'. fits (for_prompt ?ms (ts_target_tokens ts) (ts_target_turns ts) (ts_trigger_turns ts)
      (Some (ts_trigger_tokens ts)) n) (SystemMessage s # history' @ [UserMessage c q])"
    obtain so h2 where so: "f ?P = (so, h2)" by fastforce
    with Some sh f obtain sd where sd: "so = Some sd" and r': "r' = \<lparr>tr_messages =
        (if sh_dropped sd \<noteq> [] then attach_summary (SystemMessage s # sh_messages sd @ [UserMessage c q])
           (summarize_dropped_messages (sh_dropped sd)) else SystemMessage s # sh_messages sd @ [UserMessage c q]),
        tr_dropped = []\<rparr>"
      by (auto simp: shed_prompt_def Let_def split: option.splits if_splits)
    have "paired (sh_messages sd)" using assms(3) f so sd unfolding sheds_paired_def by blast
    then show ?thesis unfolding r [symmetric] r'
      by (auto simp: prompt_ok_iff attach_summary_def Let_def paired_note_last_user split: option.splits intro!: app)
  qed
qed

lemma assemble_prompt_ok:
  assumes "assemble_prompt udiff ts p d tc mc ws history hook n = (prompt, h)"
    and "paired history" and "sheds_paired hook"
  shows "prompt_ok (ap_messages prompt) \<and> layout_opt_ok (ap_layout prompt) \<and> paired (ap_dropped prompt)"
proof (cases ws)
  case None
  obtain r h' where t: "trim_history ts (SystemMessage p # history @ [UserMessage (current_turn_text tc mc d) None]) hook n = (r, h')"
    by fastforce
  from trim_history_ok [OF t assms(2,3)] assms(1) None t show ?thesis
    by (auto simp: assemble_prompt_def Let_def layout_opt_ok_def)
next
  case (Some w)
  obtain entry live q where w: "w = (entry, live, q)" by (cases w)
  obtain anchor ly where c: "layout_current_turn udiff history
      \<lparr>ly_entry = entry, ly_live = live, ly_turn_seq = q, ly_dynamic = d, ly_body = current_turn_text tc mc,
       ly_anchor = None, ly_anchor_body = [], ly_sent = []\<rparr> = (anchor, ly)" by fastforce
  then have a: "\<exists>t. anchor = UserMessage t None" "layout_ok ly"
    by (auto simp: layout_current_turn_def layout_ok_def Let_def)
  then obtain t where anchor: "anchor = UserMessage t None" by blast
  obtain r h' where t: "trim_history ts (SystemMessage p # history @ [anchor]) hook n = (r, h')" by fastforce
  obtain ms d' ly' where l: "layout_apply udiff (tr_messages r) ly = (ms, d', ly')" by (metis prod_cases3)
  from trim_history_ok [OF t [unfolded anchor] assms(2,3)]
  have r: "prompt_ok (tr_messages r)" "paired (tr_dropped r)" by auto
  from layout_apply_ok [OF a(2) r(1) l] r(2) show ?thesis
    using assms(1) Some w c t l by (auto simp: assemble_prompt_def Let_def layout_opt_ok_def)
qed

text \<open>
  C3. Every request a turn sends is well formed, whatever the tools, the provider and the mid-turn
  inbox do: it is the system message and a conversation in which each tool call is answered by
  exactly the results right after it, also after an overflow trim, after folded messages and in
  the wrap-up. What the turn hands to compaction is paired too.
\<close>

theorem every_request_paired:
  assumes "assemble_prompt udiff ts p d tc mc ws history hook n = (prompt, h)"
    and "process_message env w mt prompt ag = (res, ls, dropped)"
    and "paired history" and "sheds_paired hook" and "ag_requests ag = []" and "ag_reactive_dropped ag = []"
  shows "(\<forall>rq \<in> set (ag_requests (ls_agent ls)).
      \<exists>s body. rq_messages rq = SystemMessage s # body \<and> paired body) \<and> paired dropped"
proof -
  from assemble_prompt_ok [OF assms(1,3,4)]
  have p: "prompt_ok (ap_messages prompt)" "layout_opt_ok (ap_layout prompt)" "paired (ap_dropped prompt)" by auto
  have "loop_ok (turn_start prompt mt ag)" using p assms(5,6) by (simp add: loop_ok_def calls_ok_def turn_start_def)
  from process_message_ok [OF assms(2) this p(3)] show ?thesis
    by (simp add: loop_ok_def calls_ok_def prompt_ok_def)
qed

section \<open>How many calls, and who answered\<close>

definition calls_made :: "agent \<Rightarrow> nat" where
  "calls_made ag = length (ag_requests ag)"

text \<open>The response in hand is what the provider said to the last request logged.\<close>

definition last_answer :: "loop_env \<Rightarrow> nat \<Rightarrow> agent \<Rightarrow> llm_response \<Rightarrow> bool" where
  "last_answer env k ag r \<longleftrightarrow> k < calls_made ag \<and> le_llm env (calls_made ag - 1) = Responded r"

lemma api_call_count:
  "api_call env rq ag = (out, ag') \<Longrightarrow> calls_made ag' = Suc (calls_made ag) \<and> out = le_llm env (calls_made ag)"
  by (auto simp: api_call_def calls_made_def)

lemma trim_and_retry_count:
  assumes "trim_and_retry env ms mt off ag = (out, ag')"
  shows "calls_made ag' = Suc (calls_made ag)" and "out = Inr r \<Longrightarrow> last_answer env (calls_made ag) ag' r"
  using assms
  by (auto simp: trim_and_retry_def Let_def calls_made_def last_answer_def api_call_def
      split: option.splits prod.splits llm_outcome.splits)

lemma llm_attempts_count:
  assumes "llm_attempts env n rq ag = (out, ag')"
  shows "calls_made ag \<le> calls_made ag' \<and> calls_made ag' \<le> calls_made ag + Suc n
    \<and> (\<forall>r. out = Inr r \<longrightarrow> last_answer env (calls_made ag) ag' r)"
  using assms
proof (induction n arbitrary: ag)
  case (Suc n)
  obtain o1 ag1 where c: "api_call env rq ag = (o1, ag1)" by fastforce
  note k = api_call_count [OF c]
  consider (ended) "ag' = ag1" "\<forall>r. out = Inr r \<longrightarrow> o1 = Responded r"
    | (retry) "llm_attempts env n rq ag1 = (out, ag')" "n \<noteq> 0" "o1 = Raised RateLimitError \<or> o1 = Raised ProviderFault"
    | (trim) "trim_and_retry env (rq_messages rq) (rq_max_tokens rq) (rq_tools_off rq) ag1 = (out, ag')"
    using Suc.prems c by (auto split: llm_outcome.splits llm_error.splits if_splits)
  then show ?case
  proof cases
    case ended
    then show ?thesis using k by (auto simp: last_answer_def)
  next
    case retry
    have "calls_made ag1 \<le> calls_made ag' \<and> calls_made ag' \<le> calls_made ag1 + Suc n
      \<and> (\<forall>r. out = Inr r \<longrightarrow> last_answer env (calls_made ag1) ag' r)"
      by (rule Suc.IH [OF retry(1)])
    then show ?thesis using k by (auto simp: last_answer_def)
  next
    case trim
    from trim_and_retry_count [OF trim] k show ?thesis by (auto simp: last_answer_def)
  qed
qed (auto simp: last_answer_def)

lemma call_llm_count:
  assumes "call_llm_with_retry env p off ms mt ag = (out, ag')"
  shows "calls_made ag \<le> calls_made ag' \<and> calls_made ag' \<le> calls_made ag + Suc (le_max_retries env)
    \<and> (\<forall>r. out = Inr r \<longrightarrow> last_answer env (calls_made ag) ag' r)"
  using llm_attempts_count [OF assms [unfolded call_llm_with_retry_def]] .

lemma fold_pending_count: "fold_pending_inbound env ms ag = (ms', n, ag') \<Longrightarrow> calls_made ag' = calls_made ag"
  by (auto simp: fold_pending_inbound_def calls_made_def Let_def split: option.splits)

lemma after_response_count:
  assumes "after_response env r response ls = res"
  shows "case res of Inl (e, ls') \<Rightarrow> calls_made (ls_agent ls') = calls_made (ls_agent ls)
      \<and> (\<forall>x. e = Replied x \<longrightarrow> x = response \<and> parse_tool_calls response = [] \<and> \<not> truncated response
            \<and> rsp_stop_reason response \<in> set valid_stop_reasons)
      \<and> (\<forall>x. e \<noteq> Exhausted x)
    | Inr ls' \<Rightarrow> calls_made (ls_agent ls') = calls_made (ls_agent ls)
        \<and> rsp_stop_reason response \<in> set valid_stop_reasons"
proof -
  obtain ms n ag where f: "fold_pending_inbound env (ls_messages ls) (ls_agent ls) = (ms, n, ag)"
    by (metis prod_cases3)
  have step: "tool_step env r response ls = Inr ls' \<Longrightarrow> calls_made (ls_agent ls') = calls_made (ls_agent ls)" for ls'
    by (auto simp: tool_step_def calls_made_def Let_def split: sum.splits prod.splits)
  have failed: "tool_step env r response ls = Inl e \<Longrightarrow> \<exists>x. e = Failed x" for e
    by (auto simp: tool_step_def Let_def split: sum.splits prod.splits)
  show ?thesis
    using assms f fold_pending_count [OF f] step failed
    by (auto simp: after_response_def Let_def split: sum.splits if_splits)
qed

text \<open>What a round guarantees: few calls, and a response that answers the last of them.\<close>

lemma loop_round_count:
  "case loop_round env n ls of
     Inl (e, ls') \<Rightarrow> calls_made (ls_agent ls) \<le> calls_made (ls_agent ls')
       \<and> calls_made (ls_agent ls') \<le> calls_made (ls_agent ls) + Suc (le_max_retries env)
       \<and> (\<forall>x. e = Replied x \<longrightarrow> last_answer env (calls_made (ls_agent ls)) (ls_agent ls') x \<and> parse_tool_calls x = []
            \<and> \<not> truncated x \<and> rsp_stop_reason x \<in> set valid_stop_reasons)
       \<and> (\<forall>x. e \<noteq> Exhausted x)
   | Inr (r, ls') \<Rightarrow> calls_made (ls_agent ls) \<le> calls_made (ls_agent ls')
       \<and> calls_made (ls_agent ls') \<le> calls_made (ls_agent ls) + Suc (le_max_retries env)
       \<and> last_answer env (calls_made (ls_agent ls)) (ls_agent ls') r \<and> rsp_stop_reason r \<in> set valid_stop_reasons"
proof -
  obtain ms k ag where f: "fold_pending_inbound env (ls_messages ls) (ls_agent ls) = (ms, k, ag)"
    by (metis prod_cases3)
  obtain out ag' where c: "call_llm_with_retry env AgentMain False ms (ls_max_tokens ls) ag = (out, ag')" by fastforce
  note counts = fold_pending_count [OF f] call_llm_count [OF c]
  have rc: "round_call env ls = (out, ls\<lparr>ls_messages := ms, ls_agent := ag'\<rparr>)" using f c by (simp add: round_call_def)
  show ?thesis
  proof (cases out)
    case (Inl e)
    then show ?thesis using rc counts by (simp add: loop_round_def)
  next
    case (Inr r)
    obtain t ag2 where u: "note_usage env r (ls_totals ls, ag') = (t, ag2)" by fastforce
    have same: "calls_made ag2 = calls_made ag'"
      using u by (auto simp: note_usage_def calls_made_def Let_def split: option.splits if_splits)
    let ?ls2 = "ls\<lparr>ls_messages := ms, ls_totals := t, ls_agent := ag2\<rparr>"
    have eq: "loop_round env n ls = (case after_response env (le_max_rounds env - Suc n) r ?ls2 of
        Inl x \<Rightarrow> Inl x | Inr ls3 \<Rightarrow> Inr (r, ls3))"
      using rc u Inr by (simp add: loop_round_def)
    have ans: "last_answer env (calls_made (ls_agent ls)) ag' r" using counts Inr by simp
    then have ans2: "calls_made (ls_agent s) = calls_made ag' \<Longrightarrow> last_answer env (calls_made (ls_agent ls)) (ls_agent s) r" for s
      by (simp add: last_answer_def)
    show ?thesis
    proof (cases "after_response env (le_max_rounds env - Suc n) r ?ls2")
      case (Inl x)
      obtain e s where x: "x = (e, s)" by fastforce
      from after_response_count [OF Inl [unfolded x]] same have "calls_made (ls_agent s) = calls_made ag'" by simp
      then show ?thesis using after_response_count [OF Inl [unfolded x]] ans2 [of s] counts eq Inl x by auto
    next
      case (Inr s)
      from after_response_count [OF Inr] same have "calls_made (ls_agent s) = calls_made ag'" by simp
      then show ?thesis using after_response_count [OF Inr] ans2 [of s] counts eq Inr by auto
    qed
  qed
qed

text \<open>A response the provider gave to a request of the turn, which began after \<open>k\<close> requests.\<close>

definition answered_in_turn :: "loop_env \<Rightarrow> nat \<Rightarrow> agent \<Rightarrow> llm_response \<Rightarrow> bool" where
  "answered_in_turn env k ag r \<longleftrightarrow> (\<exists>i. k \<le> i \<and> i < calls_made ag \<and> le_llm env i = Responded r)"

lemma last_answer_in_turn: "last_answer env k ag r \<Longrightarrow> k' \<le> k \<Longrightarrow> answered_in_turn env k' ag r"
  unfolding last_answer_def answered_in_turn_def by (intro exI [of _ "calls_made ag - 1"]) auto

definition usable_stop :: "llm_response \<Rightarrow> bool" where
  "usable_stop r \<longleftrightarrow> rsp_stop_reason r \<in> set valid_stop_reasons"

lemma answered_earlier: "answered_in_turn env k ag r \<Longrightarrow> k' \<le> k \<Longrightarrow> answered_in_turn env k' ag r"
  unfolding answered_in_turn_def by (meson le_trans)

lemma turn_loop_result:
  assumes "turn_loop env n response ls = (e, ls')"
  shows "calls_made (ls_agent ls) \<le> calls_made (ls_agent ls')
    \<and> calls_made (ls_agent ls') \<le> calls_made (ls_agent ls) + n * Suc (le_max_retries env)
    \<and> (\<forall>x. e = Replied x \<longrightarrow> answered_in_turn env (calls_made (ls_agent ls)) (ls_agent ls') x
         \<and> parse_tool_calls x = [] \<and> \<not> truncated x \<and> usable_stop x)
    \<and> (\<forall>x. e = Exhausted x \<longrightarrow> n = 0 \<and> x = response
         \<or> (\<exists>r. x = Some r \<and> answered_in_turn env (calls_made (ls_agent ls)) (ls_agent ls') r \<and> usable_stop r))"
  using assms
proof (induction n arbitrary: response ls)
  case 0
  then show ?case by auto
next
  case (Suc n)
  note step = loop_round_count [where env = env and n = n and ls = ls]
  show ?case
  proof (cases "loop_round env n ls")
    case (Inl x)
    then have "x = (e, ls')" using Suc.prems by (simp add: turn_loop_Suc del: turn_loop.simps)
    then show ?thesis using step Inl by (auto simp: usable_stop_def intro: last_answer_in_turn)
  next
    case (Inr y)
    obtain r ls1 where y: "y = (r, ls1)" by fastforce
    have rest: "turn_loop env n (Some r) ls1 = (e, ls')"
      using Suc.prems Inr y by (simp add: turn_loop_Suc del: turn_loop.simps)
    note IH = Suc.IH [OF rest]
    have mono: "calls_made (ls_agent ls) \<le> calls_made (ls_agent ls1)" using step Inr y by simp
    have "answered_in_turn env (calls_made (ls_agent ls)) (ls_agent ls1) r" "usable_stop r"
      using step Inr y by (auto simp: usable_stop_def intro: last_answer_in_turn)
    then have r: "answered_in_turn env (calls_made (ls_agent ls)) (ls_agent ls') r" "usable_stop r"
      using IH unfolding answered_in_turn_def by (auto dest: order_less_le_trans)
    have "e = Exhausted x \<Longrightarrow> \<exists>r. x = Some r \<and> answered_in_turn env (calls_made (ls_agent ls)) (ls_agent ls') r
        \<and> usable_stop r" for x
      using IH r mono by (auto intro: answered_earlier)
    moreover have "e = Replied x \<Longrightarrow> answered_in_turn env (calls_made (ls_agent ls)) (ls_agent ls') x
         \<and> parse_tool_calls x = [] \<and> \<not> truncated x \<and> usable_stop x" for x
      using IH mono by (auto intro: answered_earlier)
    moreover have "calls_made (ls_agent ls') \<le> calls_made (ls_agent ls) + Suc n * Suc (le_max_retries env)"
      using IH step Inr y by simp
    ultimately show ?thesis using IH mono by auto
  qed
qed

lemma wrap_up_result:
  assumes "wrap_up_after_max_rounds env ls = (ro, ls')"
  shows "calls_made (ls_agent ls) \<le> calls_made (ls_agent ls')
    \<and> calls_made (ls_agent ls') \<le> calls_made (ls_agent ls) + Suc (le_max_retries env)
    \<and> (\<forall>r. ro = Some r \<longrightarrow> answered_in_turn env (calls_made (ls_agent ls)) (ls_agent ls') r
         \<and> usable_stop r \<and> \<not> truncated r)"
proof -
  obtain out ag where c: "call_llm_with_retry env AgentWrapUp True
      (ls_messages ls @ [UserMessage max_rounds_wrap_up_instruction None]) (ls_max_tokens ls) (ls_agent ls) = (out, ag)"
    by fastforce
  from call_llm_count [OF c] show ?thesis
    using assms c
    by (auto simp: wrap_up_after_max_rounds_def usable_stop_def intro: last_answer_in_turn split: sum.splits if_splits)
qed

lemma exhausted_reply_result:
  assumes "exhausted_reply env w r ls = (reply, thinking, ls')"
  shows "calls_made (ls_agent ls) \<le> calls_made (ls_agent ls')
    \<and> calls_made (ls_agent ls') \<le> calls_made (ls_agent ls) + Suc (le_max_retries env)
    \<and> (reply = get_response_text r \<or> reply = max_rounds_fallback
       \<or> (\<exists>x. answered_in_turn env (calls_made (ls_agent ls)) (ls_agent ls') x \<and> usable_stop x \<and> \<not> truncated x
            \<and> reply = get_response_text x))
    \<and> (w \<and> reply = [] \<longrightarrow> ls' = ls \<and> already_replied (rs_records (ag_round (ls_agent ls))))"
proof (cases "w \<and> get_response_text r = [] \<and> \<not> already_replied (rs_records (ag_round (ls_agent ls)))")
  case True
  obtain ro ls1 where u: "wrap_up_after_max_rounds env ls = (ro, ls1)" by fastforce
  have ne: "max_rounds_fallback \<noteq> []" by (simp add: max_rounds_fallback_def)
  show ?thesis
  proof (cases ro)
    case None
    then show ?thesis using wrap_up_result [OF u] assms True u ne by (simp add: exhausted_reply_def Let_def)
  next
    case (Some x)
    have "ls_agent ls' = ls_agent ls1" "reply = (if get_response_text x \<noteq> [] then get_response_text x else max_rounds_fallback)"
      using assms True u Some by (auto simp: exhausted_reply_def Let_def split: option.splits)
    then show ?thesis using wrap_up_result [OF u] True Some ne by auto
  qed
qed (use assms in \<open>auto simp: exhausted_reply_def Let_def\<close>)

section \<open>Bounds and replies of a turn\<close>

lemma turn_start_calls [simp]: "ag_requests (ls_agent (turn_start prompt mt ag)) = ag_requests ag"
  "calls_made (ls_agent (turn_start prompt mt ag)) = calls_made ag"
  by (simp_all add: turn_start_def calls_made_def)

lemma calls_made_reactive [simp]: "calls_made (ag\<lparr>ag_reactive_dropped := d\<rparr>) = calls_made ag"
  by (simp add: calls_made_def)

text \<open>
  C27. A turn always ends, after a bounded number of provider calls: each of its rounds and the
  wrap-up makes at most one call per retry and one more after an overflow trim.
\<close>

theorem turn_calls_bounded:
  assumes "process_message env w mt prompt ag = (res, ls, dropped)"
  shows "length (ag_requests (ls_agent ls))
    \<le> length (ag_requests ag) + Suc (le_max_rounds env) * Suc (le_max_retries env)"
  using assms
proof (cases rule: process_message_cases)
  case (exhausted r ls0 reply thinking ls1)
  from turn_loop_result [OF exhausted(1)] exhausted_reply_result [OF exhausted(3)] exhausted(5)
  show ?thesis by (simp add: calls_made_def)
qed (auto dest!: turn_loop_result simp: calls_made_def)

text \<open>
  C22. A reply is never made up. It is the error fallback exactly when the response is marked as
  one, and otherwise the canned out-of-steps text or, word for word, the text of a response the
  provider gave in this turn, with a valid stop reason and not cut off in the middle of its text.
\<close>

theorem reply_is_the_models:
  assumes "process_message env w mt prompt ag = (Inr resp, ls, dropped)"
  shows "if ar_is_error_fallback resp then ar_reply_text resp = llm_error_fallback
    else ar_reply_text resp = max_rounds_fallback
      \<or> (\<exists>i r. length (ag_requests ag) \<le> i \<and> i < length (ag_requests (ls_agent ls)) \<and> le_llm env i = Responded r
           \<and> rsp_stop_reason r \<in> set valid_stop_reasons \<and> (parse_tool_calls r = [] \<longrightarrow> \<not> truncated r)
           \<and> ar_reply_text resp = get_response_text r)"
proof -
  let ?good = "\<lambda>r ag'. answered_in_turn env (calls_made ag) ag' r \<and> usable_stop r
    \<and> (parse_tool_calls r = [] \<longrightarrow> \<not> truncated r)"
  have "if ar_is_error_fallback resp then ar_reply_text resp = llm_error_fallback
    else ar_reply_text resp = max_rounds_fallback
      \<or> (\<exists>r. ?good r (ls_agent ls) \<and> ar_reply_text resp = get_response_text r)"
    using assms
  proof (cases rule: process_message_cases)
    case (replied r ls0)
    then show ?thesis using turn_loop_result [OF replied(1)] by (auto simp: turn_response_def answered_in_turn_def)
  next
    case (exhausted r ls0 reply thinking ls1)
    have start: "calls_made ag \<le> calls_made (ls_agent ls0)" "?good r (ls_agent ls0)"
      using turn_loop_result [OF exhausted(1)] exhausted(2) by auto
    have grows: "answered_in_turn env (calls_made ag) (ls_agent ls0) x \<Longrightarrow> answered_in_turn env (calls_made ag) (ls_agent ls1) x" for x
      using exhausted_reply_result [OF exhausted(3)] by (auto simp: answered_in_turn_def dest: order_less_le_trans)
    have same: "answered_in_turn env k (ls_agent ls) x = answered_in_turn env k (ls_agent ls1) x" for k x
      using exhausted(5) by (simp add: answered_in_turn_def)
    show ?thesis
      using exhausted_reply_result [OF exhausted(3)] exhausted(4) start grows same
      by (auto simp: turn_response_def intro: answered_earlier)
  qed (simp_all add: turn_response_def)
  then show ?thesis by (auto simp: answered_in_turn_def calls_made_def usable_stop_def split: if_splits)
qed

text \<open>
  A turn the user started does not end in silence by accident: its reply is empty only when
  a tool already delivered a reply, or when the model itself ended with neither text nor call.
\<close>

theorem silence_is_chosen:
  assumes "process_message env True mt prompt ag = (Inr resp, ls, dropped)" and "ar_reply_text resp = []"
  shows "already_replied (ar_tool_calls resp)
    \<or> (\<exists>i r. length (ag_requests ag) \<le> i \<and> i < length (ag_requests (ls_agent ls)) \<and> le_llm env i = Responded r
         \<and> get_response_text r = [] \<and> parse_tool_calls r = [] \<and> \<not> truncated r)"
  using assms(1)
proof (cases rule: process_message_cases)
  case (replied r ls0)
  then show ?thesis using turn_loop_result [OF replied(1)] assms(2)
    by (auto simp: turn_response_def answered_in_turn_def calls_made_def)
next
  case (exhausted r ls0 reply thinking ls1)
  then show ?thesis using exhausted_reply_result [OF exhausted(3)] assms(2) by (auto simp: turn_response_def)
qed (use assms(2) in \<open>simp_all add: turn_response_def llm_error_fallback_def\<close>)

section \<open>Token budgets of a turn\<close>

lemma llm_attempts_budget:
  "rq' \<in> set (ag_requests (snd (llm_attempts env n rq ag))) \<Longrightarrow>
     rq' \<in> set (ag_requests ag) \<or> rq_max_tokens rq' = rq_max_tokens rq"
proof (induction n arbitrary: ag)
  case (Suc n)
  obtain o1 ag1 where c: "api_call env rq ag = (o1, ag1)" by fastforce
  have new: "set (ag_requests ag1) = insert rq (set (ag_requests ag))" using c by (auto simp: api_call_def)
  have trim: "rq' \<in> set (ag_requests (snd (trim_and_retry env ms mt off ag1))) \<Longrightarrow>
      rq' \<in> set (ag_requests ag1) \<or> rq_max_tokens rq' = mt" for ms mt off
    by (auto simp: trim_and_retry_def Let_def api_call_def split: option.splits prod.splits)
  show ?case
    using Suc.prems Suc.IH [of ag1] trim [of "rq_messages rq" "rq_max_tokens rq" "rq_tools_off rq"] new c
    by (auto split: llm_outcome.splits llm_error.splits if_splits)
qed simp

lemma call_llm_budget:
  assumes "call_llm_with_retry env p off ms mt ag = (out, ag')" and "rq \<in> set (ag_requests ag')"
  shows "rq \<in> set (ag_requests ag)
    \<or> rq_max_tokens rq = fit_max_tokens_to_reasoning (effective_max_tokens env mt) (le_thinking env)"
  using assms(2) llm_attempts_budget
  by (fastforce simp: assms(1) [unfolded call_llm_with_retry_def, THEN arg_cong [where f = snd], symmetric, simplified])

lemma effective_doubled:
  "effective_max_tokens env (Some (min (effective_max_tokens env mt * 2) max_tokens_ceiling))
     = min (effective_max_tokens env mt * 2) max_tokens_ceiling"
  "effective_max_tokens env (Some (raised_budget env mt)) = raised_budget env mt"
  by (auto simp: effective_max_tokens_def raised_budget_def max_tokens_ceiling_def Let_def split: option.splits)

definition budget_in :: "loop_env \<Rightarrow> nat \<Rightarrow> nat \<Rightarrow> bool" where
  "budget_in env start b \<longleftrightarrow> start \<le> b \<and> b \<le> max start max_tokens_ceiling"

definition request_in_budget :: "loop_env \<Rightarrow> nat \<Rightarrow> llm_request \<Rightarrow> bool" where
  "request_in_budget env start rq \<longleftrightarrow>
     (\<exists>b. budget_in env start b \<and> rq_max_tokens rq = fit_max_tokens_to_reasoning b (le_thinking env))"

lemma budget_in_raised:
  "budget_in env start b \<Longrightarrow> b < max_tokens_ceiling \<Longrightarrow> budget_in env start (min (b * 2) max_tokens_ceiling)"
  "budget_in env start (effective_max_tokens env mt) \<Longrightarrow> budget_in env start (raised_budget env mt)"
  by (auto simp: budget_in_def raised_budget_def Let_def)

definition budgets_ok :: "loop_env \<Rightarrow> nat \<Rightarrow> llm_request list \<Rightarrow> loop_state \<Rightarrow> bool" where
  "budgets_ok env start old ls \<longleftrightarrow> budget_in env start (effective_max_tokens env (ls_max_tokens ls))
     \<and> (\<forall>rq \<in> set (ag_requests (ls_agent ls)). rq \<in> set old \<or> request_in_budget env start rq)"

lemma after_response_budget:
  assumes "after_response env r response ls = res" and "budgets_ok env start old ls"
  shows "case res of Inl (e, ls') \<Rightarrow> budgets_ok env start old ls' | Inr ls' \<Rightarrow> budgets_ok env start old ls'"
proof -
  obtain ms n ag where f: "fold_pending_inbound env (ls_messages ls) (ls_agent ls) = (ms, n, ag)"
    by (metis prod_cases3)
  have same: "ag_requests ag = ag_requests (ls_agent ls)"
    using f by (auto simp: fold_pending_inbound_def Let_def split: option.splits)
  have doubled: "effective_max_tokens env (ls_max_tokens ls) < max_tokens_ceiling \<Longrightarrow>
      budgets_ok env start old (ls\<lparr>ls_max_tokens := Some (min (effective_max_tokens env (ls_max_tokens ls) * 2) max_tokens_ceiling)\<rparr>)"
    using assms(2) by (auto simp: budgets_ok_def budget_in_raised effective_doubled)
  have step: "tool_step env r response ls = Inr ls' \<Longrightarrow> budgets_ok env start old ls'" for ls'
    using assms(2)
    by (auto simp: tool_step_def budgets_ok_def budget_in_raised effective_doubled Let_def
        split: sum.splits prod.splits if_splits)
  have folded: "budgets_ok env start old (ls\<lparr>ls_messages := ms, ls_agent := ag\<rparr>)"
    using assms(2) same by (simp add: budgets_ok_def)
  show ?thesis using assms f doubled step folded
    by (auto simp: after_response_def Let_def split: sum.splits if_splits)
qed

lemma loop_round_budget:
  assumes "budgets_ok env start old ls"
  shows "case loop_round env n ls of Inl (e, ls') \<Rightarrow> budgets_ok env start old ls' | Inr (r, ls') \<Rightarrow> budgets_ok env start old ls'"
proof -
  obtain ms k ag where f: "fold_pending_inbound env (ls_messages ls) (ls_agent ls) = (ms, k, ag)"
    by (metis prod_cases3)
  have same: "ag_requests ag = ag_requests (ls_agent ls)"
    using f by (auto simp: fold_pending_inbound_def Let_def split: option.splits)
  obtain out ag' where c: "call_llm_with_retry env AgentMain False ms (ls_max_tokens ls) ag = (out, ag')" by fastforce
  have ok: "budgets_ok env start old (ls\<lparr>ls_messages := ms, ls_agent := ag'\<rparr>)"
    using call_llm_budget [OF c] same assms by (fastforce simp: budgets_ok_def request_in_budget_def)
  have rc: "round_call env ls = (out, ls\<lparr>ls_messages := ms, ls_agent := ag'\<rparr>)" using f c by (simp add: round_call_def)
  show ?thesis
  proof (cases out)
    case (Inl e)
    then show ?thesis using rc ok by (simp add: loop_round_def)
  next
    case (Inr r)
    obtain t ag2 where u: "note_usage env r (ls_totals ls, ag') = (t, ag2)" by fastforce
    have "ag_requests ag2 = ag_requests ag'"
      using u by (auto simp: note_usage_def Let_def split: option.splits if_splits)
    with ok have "budgets_ok env start old (ls\<lparr>ls_messages := ms, ls_totals := t, ls_agent := ag2\<rparr>)"
      by (simp add: budgets_ok_def)
    from after_response_budget [OF refl this, of "le_max_rounds env - Suc n" r] show ?thesis
      using rc u Inr by (auto simp: loop_round_def split: sum.splits)
  qed
qed

lemma turn_loop_budget:
  assumes "turn_loop env n response ls = (e, ls')" and "budgets_ok env start old ls"
  shows "budgets_ok env start old ls'"
  using assms(1)
proof (rule turn_loop_invariant [where I = "\<lambda>n. budgets_ok env start old"])
  show "budgets_ok env start old s'" if "budgets_ok env start old s" "loop_round env k s = Inl (e', s')" for k s e' s'
    using loop_round_budget [OF that(1), of k] that(2) by simp
  show "budgets_ok env start old s'" if "budgets_ok env start old s" "loop_round env k s = Inr (r, s')" for k s r s'
    using loop_round_budget [OF that(1), of k] that(2) by simp
qed (use assms(2) in auto)

lemma exhausted_reply_budget:
  assumes "exhausted_reply env w r ls = (reply, thinking, ls')" and "budgets_ok env start old ls"
  shows "budgets_ok env start old ls'"
proof -
  obtain out ag where c: "call_llm_with_retry env AgentWrapUp True
      (ls_messages ls @ [UserMessage max_rounds_wrap_up_instruction None]) (ls_max_tokens ls) (ls_agent ls) = (out, ag)"
    by fastforce
  have "budgets_ok env start old (ls\<lparr>ls_agent := ag\<rparr>)"
    using call_llm_budget [OF c] assms(2) by (fastforce simp: budgets_ok_def request_in_budget_def)
  then show ?thesis using assms c
    by (auto simp: exhausted_reply_def wrap_up_after_max_rounds_def budgets_ok_def Let_def
        split: if_splits option.splits sum.splits)
qed

text \<open>
  The token budget of a turn only grows, and is bounded: every request is sent with a budget
  at least the one the turn started with and at most 16384 (or the starting one, if an operator
  set it higher), fitted to the thinking budget. A truncated response never lowers it.
\<close>

theorem token_budget_bounded:
  assumes "process_message env w mt prompt ag = (res, ls, dropped)"
    and "rq \<in> set (ag_requests (ls_agent ls))" and "rq \<notin> set (ag_requests ag)"
  shows "\<exists>b. effective_max_tokens env mt \<le> b \<and> b \<le> max (effective_max_tokens env mt) 16384
    \<and> rq_max_tokens rq = fit_max_tokens_to_reasoning b (le_thinking env)"
proof -
  let ?ok = "budgets_ok env (effective_max_tokens env mt) (ag_requests ag)"
  have start: "?ok (turn_start prompt mt ag)" by (simp add: budgets_ok_def budget_in_def turn_start_def)
  have "?ok ls"
    using assms(1)
  proof (cases rule: process_message_cases)
    case (exhausted r ls0 reply thinking ls1)
    from exhausted_reply_budget [OF exhausted(3) turn_loop_budget [OF exhausted(1) start]] exhausted(5)
    show ?thesis by (simp add: budgets_ok_def)
  qed (use turn_loop_budget [OF _ start] in \<open>auto simp: budgets_ok_def\<close>)
  then show ?thesis using assms(2,3) by (auto simp: budgets_ok_def budget_in_def request_in_budget_def max_tokens_ceiling_def)
qed

section \<open>Runs\<close>

definition demo_response :: "response_block list \<Rightarrow> string \<Rightarrow> llm_response" where
  "demo_response blocks stop = \<lparr>rsp_content = blocks, rsp_stop_reason = Some stop, rsp_usage = None\<rparr>"

text \<open>A turn of at most two rounds, two attempts each; the answers of the provider in order.\<close>

definition demo_loop :: "llm_outcome list \<Rightarrow> thinking_config \<Rightarrow> nat \<Rightarrow> loop_env" where
  "demo_loop answers thinking tokens =
     \<lparr>le_llm = (\<lambda>n. if n < length answers then answers ! n else Raised OtherError), le_drain = None,
      le_round = demo_env (\<lambda>_. APPROVED),
      le_outcomes = (\<lambda>_ _. ToolReturned \<lparr>tr_content = ''done'', tr_is_error = False, tr_error_kind = None,
        tr_hint = [], tr_receipt = None\<rparr>),
      le_user = ''u'', le_udiff = (\<lambda>old new. new), le_max_rounds = Suc (Suc 0), le_max_retries = Suc (Suc 0),
      le_default_max_tokens = tokens, le_max_input_tokens = 600000, le_thinking = thinking,
      le_target_tokens = 120000, le_target_turns = Some 200, le_trigger_turns = None\<rparr>"

definition demo_agent :: "nat \<Rightarrow> agent" where
  "demo_agent tokens = \<lparr>ag_last_input_tokens = tokens, ag_reactive_dropped = [], ag_layout = None,
     ag_token_cache = [], ag_requests = [], ag_drains = 0, ag_round = new_round\<rparr>"

definition demo_prompt :: "assembled_prompt" where
  "demo_prompt = fst (assemble_prompt (\<lambda>old new. new)
     \<lparr>ts_target_tokens = 120000, ts_target_turns = Some 200, ts_trigger_turns = None, ts_trigger_tokens = 150000\<rparr>
     ''rules'' [] ''now'' ''hello'' None [UserMessage ''hi'' (Some 1), AssistantMessage (Some ''hey'') [] (Some 2)]
     (None :: unit shedder option) (Some 20))"

lemma demo_prompt_eq:
  "demo_prompt = \<lparr>ap_messages = [SystemMessage ''rules'', UserMessage ''hi'' (Some 1),
       AssistantMessage (Some ''hey'') [] (Some 2), UserMessage (current_turn_text ''now'' ''hello'' []) None],
     ap_stable_system = ''rules'', ap_dynamic_context = [], ap_system_prompt = ''rules'', ap_dropped = [],
     ap_trimmed_count = 0, ap_delivered = {}, ap_layout = None\<rparr>"
  by (simp add: demo_prompt_def assemble_prompt_def trim_history_def shed_prompt_def trim_messages_def
      over_trigger_def for_prompt_def budget_tokens_def turns_over_def result_skills_def default_trigger_buffer_turns_def
      count_user_turns_def
      current_turn_text_def Let_def)

lemmas loop_defs =
  process_message_def round_call_def after_response_def call_llm_with_retry_def api_call_def
  fold_pending_inbound_def note_usage_def effective_max_tokens_def truncated_def parse_tool_calls_def
  get_response_text_def get_response_thinking_def valid_stop_reasons_def max_tokens_ceiling_def
  turn_response_def fit_max_tokens_to_reasoning_def

definition demo_answers :: "llm_outcome list" where
  "demo_answers = [Raised RateLimitError, Responded (demo_response [RText ''Hel''] ''max_tokens''),
     Responded (demo_response [RText ''Hello!''] ''end_turn'')]"

lemma demo_turn:
  "\<exists>resp ls. process_message (demo_loop demo_answers NoThinking 8192) True None demo_prompt (demo_agent 0)
       = (Inr resp, ls, [])
     \<and> ar_reply_text resp = ''Hello!'' \<and> \<not> ar_is_error_fallback resp
     \<and> map rq_max_tokens (ag_requests (ls_agent ls)) = [8192, 8192, 16384]"
  by (simp add: loop_defs demo_prompt_eq demo_loop_def demo_agent_def demo_answers_def demo_response_def
      new_round_def Let_def)

theorem every_request_paired_witness:
  "list_all (\<lambda>rq. \<exists>s body. rq_messages rq = SystemMessage s # body \<and> paired body)
     (ag_requests (ls_agent (fst (snd (process_message
       (demo_loop demo_answers NoThinking 8192) True None demo_prompt (demo_agent 0))))))"
proof -
  let ?h = "[UserMessage ''hi'' (Some 1), AssistantMessage (Some ''hey'') [] (Some 2)]"
  obtain h where a: "assemble_prompt (\<lambda>old new. new)
      \<lparr>ts_target_tokens = 120000, ts_target_turns = Some 200, ts_trigger_turns = None, ts_trigger_tokens = 150000\<rparr>
      ''rules'' [] ''now'' ''hello'' None ?h (None :: unit shedder option) (Some 20) = (demo_prompt, h)"
    unfolding demo_prompt_def by (metis prod.collapse)
  obtain res ls d where p: "process_message (demo_loop demo_answers NoThinking 8192) True None demo_prompt (demo_agent 0)
      = (res, ls, d)" by (metis prod_cases3)
  have "paired ?h" "sheds_paired (None :: unit shedder option)" by (simp_all add: sheds_paired_def)
  from every_request_paired [OF a p this] p show ?thesis by (simp add: demo_agent_def list_all_iff)
qed

theorem turn_calls_bounded_witness:
  "\<exists>res ls d. process_message (demo_loop demo_answers NoThinking 8192) True None demo_prompt (demo_agent 0) = (res, ls, d)
     \<and> length (ag_requests (ls_agent ls)) \<le> 9"
proof -
  from demo_turn obtain res ls where
    p: "process_message (demo_loop demo_answers NoThinking 8192) True None demo_prompt (demo_agent 0) = (Inr res, ls, [])"
    by (elim exE conjE) (rule that)
  from turn_calls_bounded [OF p] p show ?thesis by (simp add: demo_loop_def demo_agent_def)
qed

theorem reply_is_the_models_witness:
  "\<exists>i r. le_llm (demo_loop demo_answers NoThinking 8192) i = Responded r \<and> ''Hello!'' = get_response_text r"
proof -
  from demo_turn obtain res ls where
    p: "process_message (demo_loop demo_answers NoThinking 8192) True None demo_prompt (demo_agent 0) = (Inr res, ls, [])"
    and r: "ar_reply_text res = ''Hello!''" "\<not> ar_is_error_fallback res" by (elim exE conjE) (rule that)
  have "ar_reply_text res \<noteq> max_rounds_fallback" using r(1) by (simp add: max_rounds_fallback_def)
  then show ?thesis using reply_is_the_models [OF p] r by (simp only: if_False simp_thms) blast
qed

theorem token_budget_bounded_witness:
  "\<exists>ls rq. rq \<in> set (ag_requests (ls_agent ls)) \<and> rq_max_tokens rq = 16384 \<and> rq_max_tokens rq \<le> max 8192 16384
     \<and> fst (snd (process_message (demo_loop demo_answers NoThinking 8192) True None demo_prompt (demo_agent 0))) = ls"
proof -
  from demo_turn obtain res ls where
    p: "process_message (demo_loop demo_answers NoThinking 8192) True None demo_prompt (demo_agent 0) = (Inr res, ls, [])"
    and q: "map rq_max_tokens (ag_requests (ls_agent ls)) = [8192, 8192, 16384]" by (elim exE conjE) (rule that)
  have "16384 \<in> set (map rq_max_tokens (ag_requests (ls_agent ls)))" by (simp add: q)
  then obtain rq where rq: "rq \<in> set (ag_requests (ls_agent ls))" "rq_max_tokens rq = 16384" by auto
  have new: "rq \<notin> set (ag_requests (demo_agent 0))" by (simp add: demo_agent_def)
  from token_budget_bounded [OF p rq(1) new] obtain b where "b \<le> max 8192 16384" "rq_max_tokens rq = b"
    by (auto simp: demo_loop_def effective_max_tokens_def fit_max_tokens_to_reasoning_def)
  with rq p show ?thesis by auto
qed

text \<open>A turn that a reply tool already answered: the last response is a call and nothing else.\<close>

definition silent_answers :: "llm_outcome list" where
  "silent_answers = [Responded (demo_response [RThinking ''done''] ''end_turn'')]"

theorem silence_is_chosen_witness:
  "\<exists>i r. le_llm (demo_loop silent_answers NoThinking 8192) i = Responded r \<and> get_response_text r = []
     \<and> parse_tool_calls r = []"
proof -
  have "\<exists>resp ls d. process_message (demo_loop silent_answers NoThinking 8192) True None demo_prompt (demo_agent 0)
      = (Inr resp, ls, d) \<and> ar_reply_text resp = [] \<and> ar_tool_calls resp = []"
    by (simp add: loop_defs demo_prompt_eq demo_loop_def demo_agent_def silent_answers_def demo_response_def
        new_round_def Let_def)
  then obtain resp ls d where
    p: "process_message (demo_loop silent_answers NoThinking 8192) True None demo_prompt (demo_agent 0) = (Inr resp, ls, d)"
    and e: "ar_reply_text resp = []" "ar_tool_calls resp = []" by (elim exE conjE) (rule that)
  from silence_is_chosen [OF p e(1)] e(2) show ?thesis by (auto simp: already_replied_def)
qed

section \<open>Where the turn does not do what it means to\<close>

text \<open>
  The overflow retry can send the refused prompt again. The retry trims to the tokens the last
  response reported, not to the prompt that was refused: when that count was within the target (a
  tool result then made the prompt too long) nothing is dropped and the second request is the
  first one once more.
\<close>

theorem overflow_retry_resends_prompt:
  assumes "le_llm env (length (ag_requests ag)) = Raised ContextLengthExceeded" and "0 < n"
    and "ag_layout ag = None" and "0 < ag_last_input_tokens ag" and "ag_last_input_tokens ag \<le> le_target_tokens env"
    and "le_target_turns env = Some t" and "le_trigger_turns env = None"
    and "int (count_user_turns (rq_messages rq)) \<le> t + 16"
  shows "map rq_messages (ag_requests (snd (llm_attempts env n rq ag)))
    = map rq_messages (ag_requests ag) @ [rq_messages rq, rq_messages rq]"
proof -
  obtain k where n: "n = Suc k" using assms(2) by (cases n) auto
  let ?ag = "ag\<lparr>ag_requests := ag_requests ag @ [rq]\<rparr>"
  let ?c = "content_length (rq_messages rq)"
  have "ag_last_input_tokens ag * ?c div (if ?c = 0 then 1 else ?c) \<le> le_target_tokens env"
    using assms(5) by simp
  then have "\<not> over_trigger (for_prompt (rq_messages rq) (le_target_tokens env) (le_target_turns env) (le_trigger_turns env)
      None (Some (ag_last_input_tokens ag))) (rq_messages rq)"
    using assms(6-8)
    by (auto simp: over_trigger_def for_prompt_def budget_tokens_def turns_over_def default_trigger_buffer_turns_def)
  then have trim: "overflow_trim env (rq_messages rq) ?ag = \<lparr>tr_messages = rq_messages rq, tr_dropped = []\<rparr>"
    using assms(3,4) by (simp add: overflow_trim_def trim_messages_cases)
  have "api_call env rq ag = (Raised ContextLengthExceeded, ?ag)" using assms(1) by (simp add: api_call_def)
  then show ?thesis using trim assms(3) by (simp add: n trim_and_retry_def api_call_def Let_def)
qed

theorem overflow_retry_resends_prompt_witness:
  "map rq_messages (ag_requests (snd (llm_attempts (demo_loop [Raised ContextLengthExceeded] NoThinking 8192) 2
       \<lparr>rq_purpose = AgentMain, rq_messages = [SystemMessage ''s'', UserMessage ''big'' None], rq_max_tokens = 8192,
        rq_tools_off = False\<rparr> (demo_agent 60000))))
     = [[SystemMessage ''s'', UserMessage ''big'' None], [SystemMessage ''s'', UserMessage ''big'' None]]"
  using overflow_retry_resends_prompt [of "demo_loop [Raised ContextLengthExceeded] NoThinking 8192" "demo_agent 60000" 2 200
      "\<lparr>rq_purpose = AgentMain, rq_messages = [SystemMessage ''s'', UserMessage ''big'' None], rq_max_tokens = 8192,
        rq_tools_off = False\<rparr>"]
  by (simp add: demo_loop_def demo_agent_def count_user_turns_def)

text \<open>
  The retry of a truncated response can run on a smaller budget. The doubled budget is fitted
  to the thinking budget afterwards, and the fit adds its allowance only while the budget does not
  exceed the thinking: with the low effort and a configured budget of 2048, the first request may
  use 6144 tokens and its "larger" retry 4096.
\<close>

theorem truncated_retry_shrinks_budget:
  "\<exists>resp ls. process_message (demo_loop (tl demo_answers) (AdaptiveThinking ''low'') 2048) True None demo_prompt (demo_agent 0)
       = (Inr resp, ls, [])
     \<and> map rq_max_tokens (ag_requests (ls_agent ls)) = [6144, 4096]"
  by (simp add: loop_defs demo_prompt_eq demo_loop_def demo_agent_def demo_answers_def demo_response_def
      new_round_def Let_def effort_to_budget_def thinking_reply_allowance_def)

end
