(* ===== verification/Memory_Docs.thy ===== *)
theory Memory_Docs
  imports Prelude
begin

text \<open>
  The agent's markdown documents: the size policies and the HISTORY.md window of
  \<open>backend/app/agent/markdown_registry.py\<close>, \<open>MemoryStore\<close> of \<open>memory_db.py\<close> and the HEARTBEAT.md
  methods of \<open>HeartbeatStore\<close> in \<open>stores.py\<close>, for one user. A method is a function on the rows
  of the user; each is one transaction under the row and advisory locks it takes. Texts are
  ASCII, so a character is a byte.

  \<open>cas_file\<close> is the contract the compaction relies on: a document with a compare-and-swap
  write. MEMORY.md, USER.md and SOUL.md are its instances.
\<close>

section \<open>Policies\<close>

datatype storage_kind = USER_COLUMN | MEMORY_COLUMN | DISK_FILE

datatype write_mode = REWRITE | APPEND | TRANSIENT

record markdown_policy =
  mp_name :: string
  mp_storage :: storage_kind
  mp_storage_ref :: string
  mp_write_mode :: write_mode
  mp_byte_budget :: nat
  mp_injected_into_prompt :: bool

datatype budget_exceeded = BudgetExceeded string nat nat

definition default_budget :: nat where
  "default_budget = 25 * 1024"

definition policies :: "(string \<times> markdown_policy) list" where
  "policies = map (\<lambda>p. (mp_name p, p))
     [\<lparr>mp_name = ''USER.md'', mp_storage = USER_COLUMN, mp_storage_ref = ''user_text'',
       mp_write_mode = REWRITE, mp_byte_budget = default_budget, mp_injected_into_prompt = True\<rparr>,
      \<lparr>mp_name = ''SOUL.md'', mp_storage = USER_COLUMN, mp_storage_ref = ''soul_text'',
       mp_write_mode = REWRITE, mp_byte_budget = default_budget, mp_injected_into_prompt = True\<rparr>,
      \<lparr>mp_name = ''HEARTBEAT.md'', mp_storage = USER_COLUMN, mp_storage_ref = ''heartbeat_text'',
       mp_write_mode = REWRITE, mp_byte_budget = default_budget, mp_injected_into_prompt = True\<rparr>,
      \<lparr>mp_name = ''MEMORY.md'', mp_storage = MEMORY_COLUMN, mp_storage_ref = ''memory_text'',
       mp_write_mode = REWRITE, mp_byte_budget = default_budget, mp_injected_into_prompt = True\<rparr>,
      \<lparr>mp_name = ''HISTORY.md'', mp_storage = MEMORY_COLUMN, mp_storage_ref = ''history_text'',
       mp_write_mode = APPEND, mp_byte_budget = default_budget, mp_injected_into_prompt = False\<rparr>,
      \<lparr>mp_name = ''BOOTSTRAP.md'', mp_storage = DISK_FILE, mp_storage_ref = ''BOOTSTRAP.md'',
       mp_write_mode = TRANSIENT, mp_byte_budget = default_budget, mp_injected_into_prompt = False\<rparr>]"

definition column_to_surface :: "(string \<times> string) list" where
  "column_to_surface =
     [(''user_text'', ''USER.md''), (''soul_text'', ''SOUL.md''), (''heartbeat_text'', ''HEARTBEAT.md''),
      (''memory_text'', ''MEMORY.md''), (''history_text'', ''HISTORY.md'')]"

definition get_policy :: "string \<Rightarrow> markdown_policy option" where
  "get_policy name = map_of policies name"

definition policy_for_column :: "string \<Rightarrow> markdown_policy option" where
  "policy_for_column column =
     (case map_of column_to_surface column of None \<Rightarrow> None | Some surface \<Rightarrow> map_of policies surface)"

definition assert_within_budget :: "string \<Rightarrow> string \<Rightarrow> budget_exceeded + unit" where
  "assert_within_budget name stored_value =
     (case map_of policies name of
        None \<Rightarrow> Inr ()
      | Some policy \<Rightarrow>
          if mp_byte_budget policy < length stored_value
          then Inl (BudgetExceeded name (length stored_value) (mp_byte_budget policy)) else Inr ())"

definition assert_column_within_budget :: "string \<Rightarrow> string \<Rightarrow> budget_exceeded + unit" where
  "assert_column_within_budget column stored_value =
     (case map_of column_to_surface column of
        None \<Rightarrow> Inr () | Some surface \<Rightarrow> assert_within_budget surface stored_value)"

text \<open>The last \<open>n\<close> characters, as \<open>s[-n:]\<close> does for \<open>n\<close> above 0; \<open>s[-0:]\<close> is all of \<open>s\<close>.\<close>

definition py_tail :: "nat \<Rightarrow> string \<Rightarrow> string" where
  "py_tail n s = (if n = 0 then s else drop (length s - n) s)"

definition truncation_marker :: "string \<Rightarrow> nat \<Rightarrow> string" where
  "truncation_marker name budget =
     ''[truncated: '' @ name @ '' exceeds the '' @ nat_str budget
     @ ''-byte budget; showing tail. Rewrite this file smaller to restore full visibility.]'' @ [nl]"

definition truncate_for_injection :: "string \<Rightarrow> string \<Rightarrow> string" where
  "truncate_for_injection name content =
     (case map_of policies name of
        None \<Rightarrow> content
      | Some policy \<Rightarrow>
          if length content \<le> mp_byte_budget policy then content
          else (let marker = truncation_marker name (mp_byte_budget policy)
                in marker @ py_tail (mp_byte_budget policy - length marker) content))"

section \<open>The HISTORY.md window\<close>

text \<open>Lines with their newline, as \<open>^\<close> in a multiline expression sees them.\<close>

fun keep_lines :: "string \<Rightarrow> string list" where
  "keep_lines [] = []"
| "keep_lines (c # cs) =
     (if c = nl then [c] # keep_lines cs
      else case keep_lines cs of [] \<Rightarrow> [[c]] | l # ls \<Rightarrow> (c # l) # ls)"

definition is_digit :: "char \<Rightarrow> bool" where
  "is_digit c \<longleftrightarrow> (let n = (of_char c :: nat) in 48 \<le> n \<and> n \<le> 57)"

text \<open>\<open>_ENTRY_HEAD_RE\<close> at the start of a line.\<close>

definition entry_head :: "string \<Rightarrow> bool" where
  "entry_head l \<longleftrightarrow> 11 \<le> length l \<and> l ! 0 = CHR ''['' \<and> l ! 5 = CHR ''-'' \<and> l ! 8 = CHR ''-''
     \<and> list_all (\<lambda>i. is_digit (l ! i)) [1, 2, 3, 4, 6, 7, 9, 10]"

function group_entries :: "string list \<Rightarrow> string list" where
  "group_entries [] = []"
| "group_entries (l # ls) =
     (l @ concat (takeWhile (\<lambda>x. \<not> entry_head x) ls)) # group_entries (dropWhile (\<lambda>x. \<not> entry_head x) ls)"
  by pat_completeness auto
termination
  by (relation "measure length") (auto simp: less_Suc_eq_le length_dropWhile_le)

definition split_history_entries :: "string \<Rightarrow> string list" where
  "split_history_entries text = group_entries (keep_lines text)"

fun drop_oldest :: "nat \<Rightarrow> string list \<Rightarrow> string list" where
  "drop_oldest budget (e # f # es) =
     (if budget < length (concat (e # f # es)) then drop_oldest budget (f # es) else e # f # es)"
| "drop_oldest budget es = es"

definition ends_nl :: "string \<Rightarrow> bool" where
  "ends_nl s \<longleftrightarrow> s \<noteq> [] \<and> last s = nl"

definition appended_text :: "string \<Rightarrow> string \<Rightarrow> string" where
  "appended_text current entry =
     (if current \<noteq> [] \<and> \<not> ends_nl current then current @ [nl] else current)
     @ (if ends_nl entry then entry else entry @ [nl])"

definition append_with_window :: "string \<Rightarrow> string \<Rightarrow> nat \<Rightarrow> string" where
  "append_with_window current entry budget =
     (let text = appended_text current entry
      in if length text \<le> budget then text
         else (let rebuilt = concat (drop_oldest budget (split_history_entries text))
               in if length rebuilt \<le> budget then rebuilt
                  else (let tail = py_tail budget rebuilt
                        in if tail \<noteq> [] \<and> \<not> ends_nl tail then tail @ [nl] else tail)))"

section \<open>The rows\<close>

record memory_row =
  md_memory :: string
  md_history :: string

record user_row =
  ur_user_text :: string
  ur_soul_text :: string
  ur_heartbeat_text :: string

record workspace_rows =
  wr_doc :: "memory_row option"
  wr_user :: "user_row option"

definition doc_row :: "workspace_rows \<Rightarrow> memory_row" where
  "doc_row st = (case wr_doc st of Some d \<Rightarrow> d | None \<Rightarrow> \<lparr>md_memory = [], md_history = []\<rparr>)"

definition read_memory :: "workspace_rows \<Rightarrow> string" where
  "read_memory st = (case wr_doc st of None \<Rightarrow> [] | Some d \<Rightarrow> py_strip (md_memory d))"

definition write_memory :: "string \<Rightarrow> string option \<Rightarrow> workspace_rows \<Rightarrow> budget_exceeded + bool \<times> workspace_rows" where
  "write_memory content expected st =
     (let stored = py_rstrip content @ [nl]; doc = doc_row st
      in and_then (assert_within_budget ''MEMORY.md'' stored) (\<lambda>_.
           if (case expected of Some e \<Rightarrow> py_strip (md_memory doc) \<noteq> py_strip e | None \<Rightarrow> False)
           then Inr (False, st)
           else Inr (True, st\<lparr>wr_doc := Some (doc\<lparr>md_memory := stored\<rparr>)\<rparr>)))"

definition read_history :: "workspace_rows \<Rightarrow> string" where
  "read_history st = (case wr_doc st of None \<Rightarrow> [] | Some d \<Rightarrow> py_strip (md_history d))"

definition append_history :: "string \<Rightarrow> workspace_rows \<Rightarrow> string \<times> workspace_rows" where
  "append_history entry st =
     (let full = append_with_window (md_history (doc_row st)) entry default_budget
      in (full, st\<lparr>wr_doc := Some ((doc_row st)\<lparr>md_history := full\<rparr>)\<rparr>))"

definition strip_section_prefix :: "string \<Rightarrow> string \<Rightarrow> string" where
  "strip_section_prefix raw pre =
     (let s = py_strip raw in if prefix pre s then py_strip (drop (length pre) s) else s)"

definition read_soul :: "workspace_rows \<Rightarrow> string" where
  "read_soul st = (case wr_user st of None \<Rightarrow> [] | Some u \<Rightarrow> strip_section_prefix (ur_soul_text u) ''# Soul'')"

definition write_soul :: "string \<Rightarrow> string option \<Rightarrow> workspace_rows \<Rightarrow> budget_exceeded + bool \<times> workspace_rows" where
  "write_soul content expected st =
     (let stored = ''# Soul'' @ [nl, nl] @ content @ [nl]
      in and_then (assert_within_budget ''SOUL.md'' stored) (\<lambda>_.
           case wr_user st of
             None \<Rightarrow> Inr (False, st)
           | Some u \<Rightarrow>
               if (case expected of Some e \<Rightarrow> strip_section_prefix (ur_soul_text u) ''# Soul'' \<noteq> py_strip e | None \<Rightarrow> False)
               then Inr (False, st)
               else Inr (True, st\<lparr>wr_user := Some (u\<lparr>ur_soul_text := stored\<rparr>)\<rparr>)))"

definition read_user :: "workspace_rows \<Rightarrow> string" where
  "read_user st = (case wr_user st of None \<Rightarrow> [] | Some u \<Rightarrow> strip_section_prefix (ur_user_text u) ''# User'')"

definition write_user :: "string \<Rightarrow> string option \<Rightarrow> workspace_rows \<Rightarrow> budget_exceeded + bool \<times> workspace_rows" where
  "write_user content expected st =
     (let stored = ''# User'' @ [nl, nl] @ content @ [nl]
      in and_then (assert_within_budget ''USER.md'' stored) (\<lambda>_.
           case wr_user st of
             None \<Rightarrow> Inr (False, st)
           | Some u \<Rightarrow>
               if (case expected of Some e \<Rightarrow> strip_section_prefix (ur_user_text u) ''# User'' \<noteq> py_strip e | None \<Rightarrow> False)
               then Inr (False, st)
               else Inr (True, st\<lparr>wr_user := Some (u\<lparr>ur_user_text := stored\<rparr>)\<rparr>)))"

definition read_heartbeat_md :: "workspace_rows \<Rightarrow> string" where
  "read_heartbeat_md st = (case wr_user st of None \<Rightarrow> [] | Some u \<Rightarrow> ur_heartbeat_text u)"

definition write_heartbeat_md :: "string \<Rightarrow> workspace_rows \<Rightarrow> budget_exceeded + workspace_rows" where
  "write_heartbeat_md txt st =
     and_then (assert_within_budget ''HEARTBEAT.md'' txt) (\<lambda>_.
       case wr_user st of None \<Rightarrow> Inr st | Some u \<Rightarrow> Inr (st\<lparr>wr_user := Some (u\<lparr>ur_heartbeat_text := txt\<rparr>)\<rparr>))"

section \<open>Stripping\<close>

abbreviation blank :: "string \<Rightarrow> bool" where
  "blank s \<equiv> (\<forall>c \<in> set s. is_space c)"

lemma nl_space [simp]: "is_space nl"
  by (simp add: is_space_def nl_def)

lemma py_lstrip_blank: "blank a \<Longrightarrow> py_lstrip (a @ s) = py_lstrip s"
  by (simp add: py_lstrip_def dropWhile_append2)

lemma py_rstrip_blank: "blank b \<Longrightarrow> py_rstrip (s @ b) = py_rstrip s"
  using dropWhile_append2 [of "rev b" is_space "rev s"] by (simp add: py_rstrip_def)

lemma py_rstrip_split: "\<exists>b. s = py_rstrip s @ b \<and> blank b"
proof -
  have "s = rev (dropWhile is_space (rev s)) @ rev (takeWhile is_space (rev s))"
    by (metis rev_append rev_rev_ident takeWhile_dropWhile_id)
  then show ?thesis unfolding py_rstrip_def by (metis set_rev set_takeWhileD)
qed

lemma py_lstrip_append:
  assumes "\<not> blank s"
  shows "py_lstrip (s @ t) = py_lstrip s @ t"
  using assms by (auto simp: py_lstrip_def dropWhile_append1)

lemma py_strip_blank_end:
  assumes "blank b"
  shows "py_strip (s @ b) = py_strip s"
proof (cases "blank s")
  case True
  then have "py_lstrip (s @ b) = []" "py_lstrip s = []" using assms by (auto simp: py_lstrip_def)
  then show ?thesis by (simp add: py_strip_def)
next
  case False
  then show ?thesis using py_lstrip_append [OF False] py_rstrip_blank [OF assms] by (simp add: py_strip_def)
qed

lemma py_strip_blanks: "blank a \<Longrightarrow> blank b \<Longrightarrow> py_strip (a @ s @ b) = py_strip s"
  using py_lstrip_blank [of a "s @ b"] py_strip_blank_end [of b s] by (simp add: py_strip_def)

lemma py_strip_rstrip: "py_strip (py_rstrip s) = py_strip s"
  using py_rstrip_split [of s] py_strip_blank_end by metis

lemma py_strip_rstrip_nl [simp]: "py_strip (py_rstrip s @ [nl]) = py_strip s"
  using py_strip_blank_end [of "[nl]" "py_rstrip s"] py_strip_rstrip by simp

lemma py_strip_idem [simp]: "py_strip (py_strip s) = py_strip s"
proof -
  have "py_strip s = py_strip (takeWhile is_space s @ py_lstrip s @ [])" by (simp add: py_lstrip_def)
  also have "\<dots> = py_strip (py_lstrip s)" by (rule py_strip_blanks) (auto dest: set_takeWhileD)
  also have "\<dots> = py_strip (py_rstrip (py_lstrip s))" by (simp add: py_strip_rstrip)
  finally show ?thesis by (simp add: py_strip_def)
qed

lemma py_rstrip_append:
  assumes "p \<noteq> []" and "\<not> is_space (last p)"
  shows "py_rstrip (p @ r) = p @ py_rstrip r"
proof -
  have p: "dropWhile is_space (rev p) = rev p" using assms by (cases "rev p") (auto simp: last_rev hd_rev [symmetric])
  show ?thesis
  proof (cases "blank r")
    case True
    then have "dropWhile is_space (rev r) = []" by simp
    then show ?thesis using py_rstrip_blank [OF True, of p] p by (simp add: py_rstrip_def)
  next
    case False
    then show ?thesis by (auto simp: py_rstrip_def dropWhile_append1)
  qed
qed

lemma py_strip_append:
  assumes "p \<noteq> []" and "\<not> is_space (hd p)" and "\<not> is_space (last p)"
  shows "py_strip (p @ r) = p @ py_rstrip r"
proof -
  have "py_lstrip (p @ r) = p @ r" using assms(1,2) by (cases p) (simp_all add: py_lstrip_def)
  then show ?thesis using py_rstrip_append [OF assms(1,3)] by (simp add: py_strip_def)
qed

text \<open>The section header a write puts on is exactly what a read takes off.\<close>

lemma strip_section_prefix_stored:
  assumes "p \<noteq> []" and "\<not> is_space (hd p)" and "\<not> is_space (last p)"
  shows "strip_section_prefix (p @ [nl, nl] @ c @ [nl]) p = py_strip c"
proof -
  have "py_strip (py_rstrip ([nl, nl] @ c @ [nl])) = py_strip c"
    using py_strip_rstrip py_strip_blanks [of "[nl, nl]" "[nl]" c] by simp
  then show ?thesis using py_strip_append [OF assms, of "[nl, nl] @ c @ [nl]"]
    by (simp add: strip_section_prefix_def)
qed

lemma strip_section_prefix_strip [simp]: "py_strip (strip_section_prefix raw p) = strip_section_prefix raw p"
  by (simp add: strip_section_prefix_def Let_def)

section \<open>Documents with compare-and-swap\<close>

locale cas_file =
  fixes get_text :: "'st \<Rightarrow> string"
    and put_text :: "string \<Rightarrow> string option \<Rightarrow> 'st \<Rightarrow> budget_exceeded + bool \<times> 'st"
    and others :: "'st \<Rightarrow> 'o"
  assumes read_stripped: "py_strip (get_text st) = get_text st"
    and read_written: "put_text c e st = Inr (True, st') \<Longrightarrow> get_text st' = py_strip c"
    and rest_written: "put_text c e st = Inr (True, st') \<Longrightarrow> others st' = others st"
    and refused_unchanged: "put_text c e st = Inr (False, st') \<Longrightarrow> st' = st"
    and landed_on_expected: "put_text c (Some x) st = Inr (True, st') \<Longrightarrow> get_text st = py_strip x"
begin

text \<open>A write that gives its base never replaces a text it has not seen.\<close>

lemma never_clobbers:
  assumes "put_text c (Some (get_text base)) st = Inr (b, st')" and "get_text st \<noteq> get_text base"
  shows "st' = st \<and> \<not> b"
  using assms landed_on_expected [of c "get_text base" st st'] refused_unchanged [of c _ st st'] read_stripped
  by (cases b) auto

text \<open>Of two rewrites computed from one base, the second lands only if the first changed nothing.\<close>

lemma second_writer_loses:
  assumes "put_text c1 (Some (get_text base)) st = Inr (True, st1)" and "py_strip c1 \<noteq> get_text base"
    and "put_text c2 (Some (get_text base)) st1 = Inr (b, st2)"
  shows "st2 = st1 \<and> \<not> b \<and> get_text st2 = py_strip c1"
  using never_clobbers [OF assms(3)] read_written [OF assms(1)] assms(2) by auto

lemma write_outcome:
  assumes "put_text c (Some (get_text base)) st = Inr (b, st')"
  shows "if b then get_text st = get_text base \<and> get_text st' = py_strip c \<and> others st' = others st else st' = st"
  using assms landed_on_expected [of c "get_text base" st st'] read_written [of c _ st st'] rest_written [of c _ st st']
    refused_unchanged [of c _ st st'] read_stripped by (cases b) auto

end

text \<open>Everything but one document, as the other readers see it.\<close>

definition all_but_memory :: "workspace_rows \<Rightarrow> string \<times> user_row option" where
  "all_but_memory st = (md_history (doc_row st), wr_user st)"

definition all_but_soul :: "workspace_rows \<Rightarrow> memory_row option \<times> (string \<times> string) option" where
  "all_but_soul st = (wr_doc st, map_option (\<lambda>u. (ur_user_text u, ur_heartbeat_text u)) (wr_user st))"

definition all_but_user :: "workspace_rows \<Rightarrow> memory_row option \<times> (string \<times> string) option" where
  "all_but_user st = (wr_doc st, map_option (\<lambda>u. (ur_soul_text u, ur_heartbeat_text u)) (wr_user st))"

lemma assert_within_budget_Inr: "assert_within_budget name s = Inr u \<longleftrightarrow>
    (\<forall>p. map_of policies name = Some p \<longrightarrow> length s \<le> mp_byte_budget p)"
  by (auto simp: assert_within_budget_def split: option.splits)

interpretation memory_md: cas_file read_memory write_memory all_but_memory
proof
  show "py_strip (read_memory st) = read_memory st" for st
    by (simp add: read_memory_def split: option.splits)
  show "read_memory st' = py_strip c" if "write_memory c e st = Inr (True, st')" for c e st st'
    using that by (auto simp: write_memory_def read_memory_def Let_def and_then_Inr split: if_splits)
  show "all_but_memory st' = all_but_memory st" if "write_memory c e st = Inr (True, st')" for c e st st'
    using that by (auto simp: write_memory_def all_but_memory_def doc_row_def Let_def and_then_Inr split: if_splits)
  show "st' = st" if "write_memory c e st = Inr (False, st')" for c e st st'
    using that by (auto simp: write_memory_def Let_def and_then_Inr split: if_splits)
  show "read_memory st = py_strip e" if "write_memory c (Some e) st = Inr (True, st')" for c e st st'
    using that by (auto simp: write_memory_def read_memory_def doc_row_def Let_def and_then_Inr split: if_splits option.splits)
qed

interpretation soul_md: cas_file read_soul write_soul all_but_soul
proof
  show "py_strip (read_soul st) = read_soul st" for st
    by (simp add: read_soul_def split: option.splits)
  show "read_soul st' = py_strip c" if "write_soul c e st = Inr (True, st')" for c e st st'
    using that strip_section_prefix_stored [of "''# Soul''" c]
    by (auto simp: write_soul_def read_soul_def Let_def and_then_Inr is_space_def split: if_splits option.splits)
  show "all_but_soul st' = all_but_soul st" if "write_soul c e st = Inr (True, st')" for c e st st'
    using that by (auto simp: write_soul_def all_but_soul_def Let_def and_then_Inr split: if_splits option.splits)
  show "st' = st" if "write_soul c e st = Inr (False, st')" for c e st st'
    using that by (auto simp: write_soul_def Let_def and_then_Inr split: if_splits option.splits)
  show "read_soul st = py_strip e" if "write_soul c (Some e) st = Inr (True, st')" for c e st st'
    using that by (auto simp: write_soul_def read_soul_def Let_def and_then_Inr split: if_splits option.splits)
qed

interpretation user_md: cas_file read_user write_user all_but_user
proof
  show "py_strip (read_user st) = read_user st" for st
    by (simp add: read_user_def split: option.splits)
  show "read_user st' = py_strip c" if "write_user c e st = Inr (True, st')" for c e st st'
    using that strip_section_prefix_stored [of "''# User''" c]
    by (auto simp: write_user_def read_user_def Let_def and_then_Inr is_space_def split: if_splits option.splits)
  show "all_but_user st' = all_but_user st" if "write_user c e st = Inr (True, st')" for c e st st'
    using that by (auto simp: write_user_def all_but_user_def Let_def and_then_Inr split: if_splits option.splits)
  show "st' = st" if "write_user c e st = Inr (False, st')" for c e st st'
    using that by (auto simp: write_user_def Let_def and_then_Inr split: if_splits option.splits)
  show "read_user st = py_strip e" if "write_user c (Some e) st = Inr (True, st')" for c e st st'
    using that by (auto simp: write_user_def read_user_def Let_def and_then_Inr split: if_splits option.splits)
qed

section \<open>Budgets\<close>

lemma policy_budget: "map_of policies name = Some p \<Longrightarrow> mp_byte_budget p = default_budget"
  by (auto simp: policies_def split: if_splits)

lemma concat_keep_lines: "concat (keep_lines s) = s"
  by (induction s) (auto split: list.splits)

lemma concat_group_entries: "concat (group_entries ls) = concat ls"
proof (induction ls rule: group_entries.induct)
  case (2 l ls)
  have "concat ls = concat (takeWhile (\<lambda>x. \<not> entry_head x) ls) @ concat (dropWhile (\<lambda>x. \<not> entry_head x) ls)"
    by (metis concat_append takeWhile_dropWhile_id)
  then show ?case using 2 by simp
qed simp

lemma concat_split [simp]: "concat (split_history_entries text) = text"
  by (simp add: split_history_entries_def concat_group_entries concat_keep_lines)

lemma group_entries_Nil [simp]: "group_entries ls = [] \<longleftrightarrow> ls = []"
  by (cases ls) simp_all

lemma keep_lines_nonempty: "[] \<notin> set (keep_lines s)"
  by (induction s) (auto split: list.splits)

lemma group_entries_nonempty: "[] \<notin> set ls \<Longrightarrow> [] \<notin> set (group_entries ls)"
proof (induction ls rule: group_entries.induct)
  case (2 l ls)
  then show ?case by (auto dest: set_dropWhileD)
qed simp

text \<open>Dropping whole entries: what is left is an end of the list, small enough or a single entry.\<close>

lemma drop_oldest_spec:
  "es \<noteq> [] \<Longrightarrow> \<exists>k < length es. drop_oldest budget es = drop k es
     \<and> (length (concat (drop k es)) \<le> budget \<or> k = length es - 1)"
proof (induction budget es rule: drop_oldest.induct)
  case (1 budget e f es)
  show ?case
  proof (cases "budget < length (concat (e # f # es))")
    case True
    with 1 obtain k where "k < length (f # es)" "drop_oldest budget (f # es) = drop k (f # es)"
      "length (concat (drop k (f # es))) \<le> budget \<or> k = length (f # es) - 1" by blast
    then show ?thesis using True by (intro exI [of _ "Suc k"]) auto
  next
    case False
    then show ?thesis by (intro exI [of _ 0]) simp
  qed
qed auto

lemma py_tail_suffix: "suffix (py_tail n s) s"
  by (auto simp: py_tail_def suffix_drop)

lemma ends_nl_suffix: "suffix t s \<Longrightarrow> t \<noteq> [] \<Longrightarrow> ends_nl s \<Longrightarrow> ends_nl t"
  by (auto simp: ends_nl_def suffix_def)

lemma ends_nl_appended [simp]: "ends_nl (appended_text current entry)"
  by (auto simp: appended_text_def ends_nl_def)

lemma split_history_Nil [simp]: "split_history_entries s = [] \<longleftrightarrow> s = []"
  by (cases s) (auto simp: split_history_entries_def split: list.splits)

lemma appended_text_nonempty [simp]: "appended_text current entry \<noteq> []"
  by (auto simp: appended_text_def ends_nl_def)

lemma append_with_window_cases:
  assumes "0 < budget"
  obtains (fits) "length (appended_text current entry) \<le> budget"
      "append_with_window current entry budget = appended_text current entry"
  | (dropped) k where "k < length (split_history_entries (appended_text current entry))"
      "append_with_window current entry budget = concat (drop k (split_history_entries (appended_text current entry)))"
      "length (append_with_window current entry budget) \<le> budget"
  | (cut) "append_with_window current entry budget
        = py_tail budget (last (split_history_entries (appended_text current entry)))"
      "budget < length (last (split_history_entries (appended_text current entry)))"
proof -
  let ?text = "appended_text current entry"
  let ?es = "split_history_entries ?text"
  show ?thesis
  proof (cases "length ?text \<le> budget")
    case True
    then show ?thesis using that(1) by (simp add: append_with_window_def Let_def)
  next
    case False
    have ne: "?es \<noteq> []" by simp
    from drop_oldest_spec [OF ne, of budget] obtain k where k: "k < length ?es" "drop_oldest budget ?es = drop k ?es"
      "length (concat (drop k ?es)) \<le> budget \<or> k = length ?es - 1" by blast
    show ?thesis
    proof (cases "length (concat (drop k ?es)) \<le> budget")
      case True
      then show ?thesis using that(2) [OF k(1)] k(2) False by (simp add: append_with_window_def Let_def)
    next
      case over: False
      with k(3) have "k = length ?es - 1" by blast
      then have last: "drop k ?es = [last ?es]" using ne by (metis append_butlast_last_id append_eq_conv_conj length_butlast)
      let ?t = "py_tail budget (last ?es)"
      have "suffix (last ?es) ?text"
        using concat_append [of "butlast ?es" "[last ?es]"] ne concat_split [of ?text] by (metis append.right_neutral
            append_butlast_last_id concat.simps suffixI)
      then have "suffix ?t ?text" using py_tail_suffix suffix_order.trans by blast
      then have "?t \<noteq> [] \<Longrightarrow> ends_nl ?t" using ends_nl_suffix ends_nl_appended by blast
      then have "append_with_window current entry budget = ?t"
        using False over k(2) last by (auto simp: append_with_window_def Let_def)
      then show ?thesis using that(3) over last by simp
    qed
  qed
qed

text \<open>
  The HISTORY.md archive stays within its budget and loses only its oldest part: after an
  append the text fits, is an end of the text with the entry appended, ends in a newline, and
  unless a single entry is too large on its own, entries are dropped whole.
\<close>

theorem history_window:
  assumes "0 < budget"
  shows "length (append_with_window current entry budget) \<le> budget
    \<and> suffix (append_with_window current entry budget) (appended_text current entry)
    \<and> ends_nl (append_with_window current entry budget)
    \<and> (length (last (split_history_entries (appended_text current entry))) \<le> budget \<longrightarrow>
        (\<exists>k < length (split_history_entries (appended_text current entry)).
           append_with_window current entry budget
             = concat (drop k (split_history_entries (appended_text current entry)))))"
  using assms
proof (cases rule: append_with_window_cases [where current = current and entry = entry])
  case fits
  have "split_history_entries (appended_text current entry) \<noteq> []" by simp
  then show ?thesis using fits by (auto intro!: exI [of _ 0])
next
  case (dropped k)
  let ?es = "split_history_entries (appended_text current entry)"
  have s: "suffix (concat (drop k ?es)) (appended_text current entry)"
    using concat_append [of "take k ?es" "drop k ?es"] by (simp add: suffix_def) (metis concat_split)
  have "[] \<notin> set ?es" unfolding split_history_entries_def by (intro group_entries_nonempty keep_lines_nonempty)
  then have "concat (drop k ?es) \<noteq> []" using dropped(1) by (auto simp: hd_drop_conv_nth concat_eq_Nil_conv
        dest: in_set_dropD) (metis Cons_nth_drop_Suc list.set_intros(1) nth_mem)
  then show ?thesis using dropped s ends_nl_suffix [OF s] by auto
next
  case cut
  let ?es = "split_history_entries (appended_text current entry)"
  have ne: "?es \<noteq> []" by simp
  have "suffix (last ?es) (appended_text current entry)"
    using concat_append [of "butlast ?es" "[last ?es]"] ne
    by (metis append.right_neutral append_butlast_last_id concat.simps concat_split suffixI)
  then have s: "suffix (py_tail budget (last ?es)) (appended_text current entry)"
    using py_tail_suffix suffix_order.trans by blast
  have l: "length (py_tail budget (last ?es)) = budget" using cut(2) assms by (simp add: py_tail_def)
  then have "py_tail budget (last ?es) \<noteq> []" using assms by auto
  then show ?thesis using cut s l ends_nl_suffix [OF s] by auto
qed

theorem history_window_witness:
  "append_with_window (''[2024-01-01] a'' @ [nl]) ''[2024-01-02] b'' 16 = ''[2024-01-02] b'' @ [nl]
     \<and> length (append_with_window (''[2024-01-01] a'' @ [nl]) ''[2024-01-02] b'' 16) \<le> 16"
proof -
  let ?w = "append_with_window (''[2024-01-01] a'' @ [nl]) ''[2024-01-02] b'' 16"
  have "?w = ''[2024-01-02] b'' @ [nl]" by code_simp
  then show ?thesis using history_window [of 16 "''[2024-01-01] a'' @ [nl]" "''[2024-01-02] b''"] by simp
qed

text \<open>What the methods of the stores can do to the documents, in any order.\<close>

datatype doc_op =
    WriteMemory string "string option"
  | AppendHistory string
  | WriteSoul string "string option"
  | WriteUser string "string option"
  | WriteHeartbeat string

definition keep_or :: "workspace_rows \<Rightarrow> budget_exceeded + bool \<times> workspace_rows \<Rightarrow> workspace_rows" where
  "keep_or st r = (case r of Inr (b, st') \<Rightarrow> st' | Inl e \<Rightarrow> st)"

fun apply_doc_op :: "doc_op \<Rightarrow> workspace_rows \<Rightarrow> workspace_rows" where
  "apply_doc_op (WriteMemory c e) st = keep_or st (write_memory c e st)"
| "apply_doc_op (AppendHistory entry) st = snd (append_history entry st)"
| "apply_doc_op (WriteSoul c e) st = keep_or st (write_soul c e st)"
| "apply_doc_op (WriteUser c e) st = keep_or st (write_user c e st)"
| "apply_doc_op (WriteHeartbeat t) st = (case write_heartbeat_md t st of Inr st' \<Rightarrow> st' | Inl e \<Rightarrow> st)"

definition within_budgets :: "workspace_rows \<Rightarrow> bool" where
  "within_budgets st \<longleftrightarrow>
     (\<forall>d. wr_doc st = Some d \<longrightarrow> length (md_memory d) \<le> default_budget \<and> length (md_history d) \<le> default_budget)
     \<and> (\<forall>u. wr_user st = Some u \<longrightarrow> length (ur_user_text u) \<le> default_budget
          \<and> length (ur_soul_text u) \<le> default_budget \<and> length (ur_heartbeat_text u) \<le> default_budget)"

lemma stored_within: "assert_within_budget name s = Inr () \<Longrightarrow> name \<in> fst ` set policies \<Longrightarrow> length s \<le> default_budget"
  using policy_budget [of name] by (auto simp: assert_within_budget_def map_of_eq_None_iff split: option.splits if_splits)

lemma policy_names [simp]:
  "''MEMORY.md'' \<in> fst ` set policies" "''SOUL.md'' \<in> fst ` set policies" "''USER.md'' \<in> fst ` set policies"
  "''HEARTBEAT.md'' \<in> fst ` set policies" "''HISTORY.md'' \<in> fst ` set policies"
  by (simp_all add: policies_def)

lemma within_doc: "within_budgets st \<Longrightarrow> length (md_memory (doc_row st)) \<le> default_budget
    \<and> length (md_history (doc_row st)) \<le> default_budget"
  by (auto simp: within_budgets_def doc_row_def split: option.splits)

lemma apply_doc_op_within:
  assumes "within_budgets st"
  shows "within_budgets (apply_doc_op x st)"
proof (cases x)
  case (WriteMemory c e)
  then show ?thesis
    using assms within_doc [OF assms] stored_within [of "''MEMORY.md''" "py_rstrip c @ [nl]"]
    by (auto simp: keep_or_def write_memory_def Let_def within_budgets_def split: sum.splits if_splits
        dest!: and_then_Inr [THEN iffD1])
next
  case (AppendHistory entry)
  have "length (append_with_window (md_history (doc_row st)) entry default_budget) \<le> default_budget"
    by (rule append_with_window_cases [of default_budget "md_history (doc_row st)" entry])
      (auto simp: default_budget_def py_tail_def)
  then show ?thesis using assms within_doc [OF assms] AppendHistory
    by (auto simp: append_history_def within_budgets_def Let_def)
next
  case (WriteSoul c e)
  then show ?thesis
    using assms stored_within [of "''SOUL.md''" "''# Soul'' @ [nl, nl] @ c @ [nl]"]
    by (auto simp: keep_or_def write_soul_def Let_def within_budgets_def split: sum.splits if_splits option.splits
        dest!: and_then_Inr [THEN iffD1])
next
  case (WriteUser c e)
  then show ?thesis
    using assms stored_within [of "''USER.md''" "''# User'' @ [nl, nl] @ c @ [nl]"]
    by (auto simp: keep_or_def write_user_def Let_def within_budgets_def split: sum.splits if_splits option.splits
        dest!: and_then_Inr [THEN iffD1])
next
  case (WriteHeartbeat t)
  then show ?thesis
    using assms stored_within [of "''HEARTBEAT.md''" t]
    by (auto simp: write_heartbeat_md_def within_budgets_def split: sum.splits option.splits
        dest!: and_then_Inr [THEN iffD1])
qed

text \<open>
  No sequence of store operations, by compaction, the agent's tools and the heartbeat in any
  order, takes a document past its 25 KB budget.
\<close>

theorem documents_within_budget:
  assumes "within_budgets st"
  shows "within_budgets (fold apply_doc_op ops st)"
  using assms by (induction ops arbitrary: st) (simp_all add: apply_doc_op_within)

theorem documents_within_budget_witness:
  "within_budgets (fold apply_doc_op [WriteMemory ''likes tea'' None, AppendHistory ''[2024-01-01] met'']
     \<lparr>wr_doc = None, wr_user = None\<rparr>)"
  by (rule documents_within_budget) (simp add: within_budgets_def)

text \<open>
  A compare-and-swap rewrite never replaces what it has not read: if MEMORY.md, USER.md or
  SOUL.md no longer reads as it did in the rewrite's base, nothing at all is written; if it lands,
  the file reads as the new content and every other document is as it was.
\<close>

theorem rewrite_never_clobbers:
  "(\<forall>b st'. write_memory c (Some (read_memory base)) st = Inr (b, st') \<longrightarrow>
      (if b then read_memory st = read_memory base \<and> read_memory st' = py_strip c \<and> all_but_memory st' = all_but_memory st
       else st' = st))
   \<and> (\<forall>b st'. write_user c (Some (read_user base)) st = Inr (b, st') \<longrightarrow>
      (if b then read_user st = read_user base \<and> read_user st' = py_strip c \<and> all_but_user st' = all_but_user st
       else st' = st))
   \<and> (\<forall>b st'. write_soul c (Some (read_soul base)) st = Inr (b, st') \<longrightarrow>
      (if b then read_soul st = read_soul base \<and> read_soul st' = py_strip c \<and> all_but_soul st' = all_but_soul st
       else st' = st))"
  using memory_md.write_outcome user_md.write_outcome soul_md.write_outcome by blast

definition memory_row_of :: "string \<Rightarrow> workspace_rows" where
  "memory_row_of m = \<lparr>wr_doc = Some \<lparr>md_memory = m, md_history = []\<rparr>, wr_user = None\<rparr>"

theorem rewrite_never_clobbers_witness:
  "write_memory ''new'' (Some (read_memory (memory_row_of ''old''))) (memory_row_of ''note'')
     = Inr (False, memory_row_of ''note'')"
proof -
  obtain b st' where w: "write_memory ''new'' (Some (read_memory (memory_row_of ''old''))) (memory_row_of ''note'')
      = Inr (b, st')"
    by (auto simp: write_memory_def memory_row_of_def assert_within_budget_def policies_def default_budget_def
        py_strip_def py_lstrip_def py_rstrip_def is_space_def nl_def read_memory_def doc_row_def and_then_Inr split: if_splits)
  have "read_memory (memory_row_of ''note'') \<noteq> read_memory (memory_row_of ''old'')"
    by (simp add: memory_row_of_def read_memory_def py_strip_def py_lstrip_def py_rstrip_def is_space_def)
  with w rewrite_never_clobbers [of "''new''" "memory_row_of ''old''" "memory_row_of ''note''"] show ?thesis
    by (auto split: if_splits)
qed

end
