(* ===== verification/Compaction.thy ===== *)
theory Compaction
  imports Agent_Loop Memory_Docs
begin

text \<open>
  Compaction: \<open>compact_session\<close> and its helpers in \<open>backend/app/agent/compaction.py\<close>, the
  startup sweep of \<open>compaction_recovery.py\<close> and the note of \<open>compaction_note.py\<close>. The rows of
  the \<open>compaction_events\<close> table extend \<open>compaction_event\<close> of theory \<open>Session_Store\<close> with the
  user and the audit columns.

  Each document read and write is a transaction of its own; what other writers do between two of
  them is a parameter (\<open>cn_others\<close>), as are the provider, \<open>json.loads\<close> and SHA-256.
\<close>

section \<open>Texts\<close>

definition snapshot_head_bytes :: nat where
  "snapshot_head_bytes = 2000"

definition snapshot_tail_bytes :: nat where
  "snapshot_tail_bytes = 2000"

definition serialize_snapshot :: "(string \<Rightarrow> string) \<Rightarrow> string option \<Rightarrow> nat \<Rightarrow> string option" where
  "serialize_snapshot digest t cap =
     (case t of
        None \<Rightarrow> None
      | Some s \<Rightarrow>
          if length s \<le> cap then Some s
          else Some (json_dumps (JObj
            [(''truncated'', JBool True), (''size_bytes'', JInt (int (length s))),
             (''head'', JStr (take snapshot_head_bytes s)), (''tail'', JStr (py_tail snapshot_tail_bytes s)),
             (''sha256'', JStr (digest s))])))"

text \<open>\<open>str.splitlines\<close> on ASCII: a carriage return takes a newline after it along.\<close>

definition is_break :: "char \<Rightarrow> bool" where
  "is_break c \<longleftrightarrow> (let n = (of_char c :: nat) in (10 \<le> n \<and> n \<le> 13) \<or> (28 \<le> n \<and> n \<le> 30))"

fun add_char :: "char \<Rightarrow> string list \<Rightarrow> string list" where
  "add_char c [] = [[c]]"
| "add_char c (l # ls) = (c # l) # ls"

fun py_splitlines :: "string \<Rightarrow> string list" where
  "py_splitlines [] = []"
| "py_splitlines [c] = (if is_break c then [[]] else [[c]])"
| "py_splitlines (c # d # cs) =
     (if c = CHR 0x0D \<and> d = nl then [] # py_splitlines cs
      else if is_break c then [] # py_splitlines (d # cs)
      else add_char c (py_splitlines (d # cs)))"

definition line_diff_counts :: "string \<Rightarrow> string \<Rightarrow> nat \<times> nat" where
  "line_diff_counts before after =
     (let b = mset (py_splitlines before); a = mset (py_splitlines after)
      in (size (a - b), size (b - a)))"

definition memory_budget_line :: "string \<Rightarrow> nat \<Rightarrow> string" where
  "memory_budget_line memory budget_chars =
     ''MEMORY.md is '' @ nat_str (length memory) @ '' of '' @ nat_str budget_chars @ '' characters.''"

definition memory_over_budget :: "string \<Rightarrow> nat \<Rightarrow> bool" where
  "memory_over_budget memory budget_chars \<longleftrightarrow> budget_chars < length memory"

definition hygiene_run_marker :: string where
  "hygiene_run_marker = ''[hygiene run]''"

text \<open>What follows a match of \<open>https?://\S+\<close> at the start, if there is one.\<close>

definition after_url :: "string \<Rightarrow> string option" where
  "after_url s =
     (let rest = (if prefix ''http://'' s then Some (drop 7 s)
                  else if prefix ''https://'' s then Some (drop 8 s) else None)
      in case rest of
           Some (c # cs) \<Rightarrow> if is_space c then None else Some (dropWhile (\<lambda>x. \<not> is_space x) cs)
         | _ \<Rightarrow> None)"

lemma after_url_shorter: "after_url s = Some r \<Longrightarrow> length r < length s"
  by (auto simp: after_url_def Let_def split: if_splits list.splits option.splits)
    (metis length_drop length_dropWhile_le length_Cons diff_le_self le_imp_less_Suc order.trans order_less_le_trans)+

function strip_assistant_noise :: "string \<Rightarrow> string" where
  "strip_assistant_noise [] = []"
| "strip_assistant_noise (c # cs) =
     (case after_url (c # cs) of
        Some rest \<Rightarrow> strip_assistant_noise rest
      | None \<Rightarrow> c # strip_assistant_noise cs)"
  by pat_completeness auto
termination
  by (relation "measure length") (auto dest: after_url_shorter)

definition compaction_line :: "agent_message \<Rightarrow> string list" where
  "compaction_line m =
     (case m of
        UserMessage c s \<Rightarrow> [''User: '' @ c]
      | AssistantMessage (Some c) tcs s \<Rightarrow> if c \<noteq> [] then [''Assistant: '' @ strip_assistant_noise c] else []
      | _ \<Rightarrow> [])"

definition format_messages_for_compaction :: "agent_message list \<Rightarrow> string" where
  "format_messages_for_compaction ms = py_join [nl] (concat (map compaction_line ms))"

section \<open>The model's answer\<close>

record compaction_result =
  cr_memory :: string
  cr_summary :: string
  cr_user :: string
  cr_soul :: string

definition empty_result :: compaction_result where
  "empty_result = \<lparr>cr_memory = [], cr_summary = [], cr_user = [], cr_soul = []\<rparr>"

definition fence :: string where
  "fence = replicate 3 (CHR 0x60)"

definition strip_fence :: "string \<Rightarrow> string" where
  "strip_fence t =
     (if prefix fence t then
        (let body = drop 1 (dropWhile (\<lambda>c. c \<noteq> nl) t);
             body' = (if suffix fence body then take (length body - 3) body else body)
         in py_strip body')
      else t)"

text \<open>\<open>str(v)\<close>, and \<open>str(parsed.get(key, '')).strip()\<close>.\<close>

definition py_str :: "json \<Rightarrow> string" where
  "py_str v = (case v of JStr s \<Rightarrow> s | _ \<Rightarrow> py_repr v)"

definition field_text :: "json_dict \<Rightarrow> string \<Rightarrow> string" where
  "field_text d key = py_strip (case map_of d key of Some v \<Rightarrow> py_str v | None \<Rightarrow> [])"

definition parse_compaction_response :: "(string \<Rightarrow> json option) \<Rightarrow> string \<Rightarrow> compaction_result" where
  "parse_compaction_response loads raw =
     (let t = strip_fence (py_strip raw);
          parsed = (case loads t of Some v \<Rightarrow> Some v | None \<Rightarrow> loads (CHR ''{'' # t))
      in case parsed of
           Some (JObj d) \<Rightarrow>
             \<lparr>cr_memory = field_text d ''memory_update'', cr_summary = field_text d ''summary'',
              cr_user = field_text d ''user_profile_update'', cr_soul = field_text d ''soul_update''\<rparr>
         | _ \<Rightarrow> empty_result)"

section \<open>The audit row\<close>

record compaction_audit =
  au_chars :: nat
  au_input_tokens :: nat
  au_output_tokens :: nat
  au_memory_updated :: bool
  au_user_updated :: bool
  au_soul_updated :: bool
  au_summary_len :: nat
  au_snapshots :: "(string \<times> string option) list"
  au_llm_call :: "(string \<times> string option) list"

record event_row = compaction_event +
  ev_user :: string
  ev_audit :: "compaction_audit option"

definition snapshot_pair ::
  "(string \<Rightarrow> string) \<Rightarrow> nat \<Rightarrow> string \<times> string \<times> string \<Rightarrow> (string \<times> string option) list" where
  "snapshot_pair digest cap file =
     (let (pre, before, after) = file
      in if before = after then [(pre @ ''_before'', None), (pre @ ''_after'', None)]
         else [(pre @ ''_before'', serialize_snapshot digest (Some before) cap),
               (pre @ ''_after'', serialize_snapshot digest (Some after) cap)])"

definition build_snapshot_pairs ::
  "(string \<Rightarrow> string) \<Rightarrow> nat \<Rightarrow> string \<times> string \<Rightarrow> string \<times> string \<Rightarrow> string \<times> string
     \<Rightarrow> string \<times> string \<Rightarrow> (string \<times> string option) list" where
  "build_snapshot_pairs digest cap memory history user soul =
     concat (map (snapshot_pair digest cap)
       [(''memory_text'', memory), (''history_text'', history), (''user_text'', user), (''soul_text'', soul)])"

record compaction_db =
  cd_rows :: workspace_rows
  cd_events :: "event_row list"
  cd_next_event :: int
  cd_calls :: "int option list"

definition complete_event :: "nat \<Rightarrow> int option \<Rightarrow> compaction_audit \<Rightarrow> event_row \<Rightarrow> event_row" where
  "complete_event trimmed_count max_seq audit e =
     e\<lparr>ce_status := Completed, ce_count := trimmed_count,
       ce_max := (case max_seq of Some m \<Rightarrow> Some m | None \<Rightarrow> ce_max e), ev_audit := Some audit\<rparr>"

definition has_event :: "int option \<Rightarrow> event_row list \<Rightarrow> bool" where
  "has_event event_id events \<longleftrightarrow> (\<exists>e \<in> set events. Some (ce_id e) = event_id)"

definition persist_compaction_event ::
  "int option \<Rightarrow> string \<Rightarrow> int \<Rightarrow> nat \<Rightarrow> int option \<Rightarrow> compaction_audit \<Rightarrow> compaction_db \<Rightarrow> compaction_db" where
  "persist_compaction_event event_id user now trimmed_count max_seq audit db =
     (if has_event event_id (cd_events db) then
        db\<lparr>cd_events := map (\<lambda>e. if Some (ce_id e) = event_id
             then complete_event trimmed_count max_seq audit e else e) (cd_events db)\<rparr>
      else
        db\<lparr>cd_events := cd_events db @
             [\<lparr>ce_id = cd_next_event db, ce_status = Completed, ce_min = None, ce_max = max_seq,
               ce_count = trimmed_count, ce_retry = 0, ce_triggered = now, ev_user = user, ev_audit = Some audit\<rparr>],
           cd_next_event := cd_next_event db + 1\<rparr>)"

section \<open>One compaction\<close>

record compaction_env =
  cn_enabled :: bool
  cn_budget_chars :: nat
  cn_cap :: nat
  cn_loads :: "string \<Rightarrow> json option"
  cn_digest :: "string \<Rightarrow> string"
  cn_llm :: "string \<Rightarrow> llm_outcome"
  cn_stamp :: string
  cn_now :: int
  cn_append_fails :: bool
  cn_persist_fails :: bool
  cn_others :: "nat \<Rightarrow> workspace_rows \<Rightarrow> workspace_rows"

text \<open>What goes to the model: the conversation text, its message count and its characters.\<close>

definition message_content_chars :: "agent_message \<Rightarrow> nat" where
  "message_content_chars m =
     (case m of
        SystemMessage c \<Rightarrow> length c
      | UserMessage c s \<Rightarrow> length c
      | AssistantMessage c tcs s \<Rightarrow> (case c of Some t \<Rightarrow> length t | None \<Rightarrow> 0)
      | ToolResultMessage i c e \<Rightarrow> length c)"

definition compaction_input ::
  "compaction_env \<Rightarrow> agent_message list \<Rightarrow> string option \<Rightarrow> bool \<Rightarrow> workspace_rows
     \<Rightarrow> (string \<times> nat \<times> nat) option" where
  "compaction_input env messages admin_note hygiene_only rows =
     (let noted = (\<lambda>t. case admin_note of
            Some n \<Rightarrow> if n \<noteq> [] then ''[admin note: '' @ n @ '']'' @ [nl, nl] @ t else t | None \<Rightarrow> t);
          conversation = format_messages_for_compaction messages
      in if messages = [] \<and> \<not> hygiene_only then None
         else if \<not> cn_enabled env then None
         else if hygiene_only then
           (if py_strip (read_memory rows) = [] then None else Some (noted hygiene_run_marker, 0, 0))
         else if py_strip conversation = [] then None
         else Some (noted conversation, length messages, sum_list (map message_content_chars messages)))"

definition or_empty :: "string \<Rightarrow> string" where
  "or_empty t = (if t \<noteq> [] then t else ''(empty)'')"

record documents_read =
  dr_memory :: string
  dr_user :: string
  dr_soul :: string
  dr_history :: string
  dr_heartbeat :: string

text \<open>The five reads, with what others write before each.\<close>

definition read_documents :: "compaction_env \<Rightarrow> workspace_rows \<Rightarrow> documents_read \<times> workspace_rows" where
  "read_documents env s0 =
     (let s1 = cn_others env 1 s0; s2 = cn_others env 2 s1; s3 = cn_others env 3 s2;
          s4 = cn_others env 4 s3; s5 = cn_others env 5 s4
      in (\<lparr>dr_memory = read_memory s1, dr_user = read_user s2, dr_soul = read_soul s3,
           dr_history = read_history s4, dr_heartbeat = read_heartbeat_md s5\<rparr>, s5))"

definition compaction_prompt :: "nat \<Rightarrow> documents_read \<Rightarrow> string \<Rightarrow> string" where
  "compaction_prompt budget_chars docs conversation =
     py_join [nl]
       [''<current_memory>'', or_empty (dr_memory docs), ''</current_memory>'', [],
        ''<memory_budget>'', memory_budget_line (dr_memory docs) budget_chars, ''</memory_budget>'', [],
        ''<user_profile>'', or_empty (dr_user docs), ''</user_profile>'', [],
        ''<soul>'', or_empty (dr_soul docs), ''</soul>'', [],
        ''<heartbeat>'', or_empty (dr_heartbeat docs), ''</heartbeat>'', [],
        ''<conversation>'', conversation, ''</conversation>'']"

definition differs :: "string \<Rightarrow> string \<Rightarrow> bool" where
  "differs new current \<longleftrightarrow> new \<noteq> [] \<and> py_strip new \<noteq> py_strip current"

text \<open>
  One rewrite: only when it differs, compare-and-swap on what was read, kept out when it is over
  budget. The result says whether it was written.
\<close>

definition rewrite_file ::
  "(string \<Rightarrow> string option \<Rightarrow> 'st \<Rightarrow> budget_exceeded + bool \<times> 'st)
     \<Rightarrow> bool \<Rightarrow> string \<Rightarrow> string \<Rightarrow> 'st \<Rightarrow> bool \<times> 'st" where
  "rewrite_file write changed new base rows =
     (if \<not> changed then (False, rows)
      else case write new (Some base) rows of Inl e \<Rightarrow> (False, rows) | Inr wrote \<Rightarrow> wrote)"

function py_replace :: "string \<Rightarrow> string \<Rightarrow> string \<Rightarrow> string" where
  "py_replace old new [] = []"
| "py_replace old new (c # cs) =
     (if old \<noteq> [] \<and> prefix old (c # cs) then new @ py_replace old new (drop (length old) (c # cs))
      else c # py_replace old new cs)"
  by pat_completeness auto
termination
  by (relation "measure (\<lambda>(old, new, s). length s)") (auto simp: gr0_conv_Suc neq_Nil_conv)

definition history_entry :: "string \<Rightarrow> string \<Rightarrow> string" where
  "history_entry stamp summary = py_replace ''[TIMESTAMP]'' (''['' @ stamp @ '']'') summary"

record compaction_writes =
  cw_memory :: bool
  cw_user :: bool
  cw_soul :: bool
  cw_history :: string
  cw_rows :: workspace_rows

text \<open>The writes in their order: MEMORY.md, HISTORY.md, USER.md, SOUL.md.\<close>

definition write_result ::
  "compaction_env \<Rightarrow> bool \<Rightarrow> documents_read \<Rightarrow> compaction_result \<Rightarrow> workspace_rows \<Rightarrow> compaction_writes" where
  "write_result env hygiene_only docs result s6 =
     (let (wrote_memory, s7) = rewrite_file write_memory (differs (cr_memory result) (dr_memory docs))
            (cr_memory result) (dr_memory docs) (cn_others env 6 s6);
          s8 = cn_others env 7 s7;
          (history, s9) = (if cr_summary result \<noteq> [] \<and> \<not> cn_append_fails env
            then append_history (history_entry (cn_stamp env) (cr_summary result)) s8 else (dr_history docs, s8));
          (wrote_user, s10) = rewrite_file write_user (differs (cr_user result) (dr_user docs) \<and> \<not> hygiene_only)
            (cr_user result) (dr_user docs) (cn_others env 8 s9);
          (wrote_soul, s11) = rewrite_file write_soul (differs (cr_soul result) (dr_soul docs) \<and> \<not> hygiene_only)
            (cr_soul result) (dr_soul docs) (cn_others env 9 s10)
      in \<lparr>cw_memory = wrote_memory, cw_user = wrote_user, cw_soul = wrote_soul, cw_history = history, cw_rows = s11\<rparr>)"

definition parsed_response_json :: "compaction_result \<Rightarrow> string" where
  "parsed_response_json result =
     json_dumps (JObj [(''memory_update'', JStr (cr_memory result)), (''summary'', JStr (cr_summary result)),
       (''user_profile_update'', JStr (cr_user result)), (''soul_update'', JStr (cr_soul result))])"

definition compaction_audit_of ::
  "compaction_env \<Rightarrow> documents_read \<Rightarrow> compaction_result \<Rightarrow> compaction_writes \<Rightarrow> string \<Rightarrow> nat \<Rightarrow> llm_response
     \<Rightarrow> compaction_audit" where
  "compaction_audit_of env docs result w conversation chars response =
     \<lparr>au_chars = chars,
      au_input_tokens = (case rsp_usage response of Some u \<Rightarrow> us_input u | None \<Rightarrow> 0),
      au_output_tokens = (case rsp_usage response of Some u \<Rightarrow> opt_count (us_output u) | None \<Rightarrow> 0),
      au_memory_updated = cw_memory w, au_user_updated = cw_user w, au_soul_updated = cw_soul w,
      au_summary_len = length (cr_summary result),
      au_snapshots = build_snapshot_pairs (cn_digest env) (cn_cap env)
        (dr_memory docs, if cw_memory w then cr_memory result else dr_memory docs)
        (dr_history docs, cw_history w)
        (dr_user docs, if cw_user w then cr_user result else dr_user docs)
        (dr_soul docs, if cw_soul w then cr_soul result else dr_soul docs),
      au_llm_call =
        [(''prompt_text'', serialize_snapshot (cn_digest env) (Some conversation) (cn_cap env)),
         (''raw_response_text'', serialize_snapshot (cn_digest env) (Some (get_response_text response)) (cn_cap env)),
         (''parsed_response_json'', serialize_snapshot (cn_digest env) (Some (parsed_response_json result)) (cn_cap env))]\<rparr>"

text \<open>
  The whole run: the returned MEMORY.md text and top seq, and the database after it. An early
  return changes nothing but what others wrote; a failed call is logged and leaves the event row.
\<close>

definition compact_session ::
  "compaction_env \<Rightarrow> string \<Rightarrow> agent_message list \<Rightarrow> int option \<Rightarrow> int option \<Rightarrow> string option \<Rightarrow> bool
     \<Rightarrow> compaction_db \<Rightarrow> (string \<times> int option) \<times> compaction_db" where
  "compact_session env user messages max_seq event_id admin_note hygiene_only db =
     (let rows0 = cn_others env 0 (cd_rows db)
      in case compaction_input env messages admin_note hygiene_only rows0 of
           None \<Rightarrow> (([], None), db\<lparr>cd_rows := rows0\<rparr>)
         | Some (conversation, trimmed_count, chars) \<Rightarrow>
             (let (docs, rows5) = read_documents env rows0;
                  prompt = compaction_prompt (cn_budget_chars env) docs conversation;
                  db1 = db\<lparr>cd_rows := rows5, cd_calls := cd_calls db @ [event_id]\<rparr>
              in case cn_llm env prompt of
                   Raised e \<Rightarrow> (([], None), db1)
                 | Responded response \<Rightarrow>
                     (let result = parse_compaction_response (cn_loads env) (get_response_text response);
                          w = write_result env hygiene_only docs result rows5;
                          db2 = db1\<lparr>cd_rows := cw_rows w\<rparr>;
                          audit = compaction_audit_of env docs result w conversation chars response
                      in ((if cw_memory w then cr_memory result else [], max_seq),
                          if cn_persist_fails env then db2
                          else persist_compaction_event event_id user (cn_now env) trimmed_count max_seq audit db2))))"

section \<open>Rewrites on what was read\<close>

context cas_file
begin

lemma rewrite_outcome:
  assumes "rewrite_file put_text changed new base st = (wrote, st')" and "py_strip base = base"
  shows "if wrote then changed \<and> get_text st = base \<and> get_text st' = py_strip new \<and> others st' = others st
    else st' = st"
proof (cases "put_text new (Some base) st")
  case (Inl e)
  then show ?thesis using assms(1) by (auto simp: rewrite_file_def split: if_splits)
next
  case (Inr r)
  then show ?thesis
    using assms landed_on_expected [of new base st st'] read_written [of new _ st st'] rest_written [of new _ st st']
      refused_unchanged [of new _ st st']
    by (cases r; cases wrote) (auto simp: rewrite_file_def split: if_splits)
qed

end

lemma others_reads:
  "all_but_memory s = all_but_memory t \<Longrightarrow> read_user s = read_user t \<and> read_soul s = read_soul t"
  "all_but_user s = all_but_user t \<Longrightarrow> read_memory s = read_memory t \<and> read_soul s = read_soul t"
  "all_but_soul s = all_but_soul t \<Longrightarrow> read_memory s = read_memory t \<and> read_user s = read_user t"
  by (auto simp: all_but_memory_def all_but_user_def all_but_soul_def read_memory_def read_user_def read_soul_def
      map_option_case split: option.splits)

lemma append_history_reads:
  "append_history entry s = (h, s') \<Longrightarrow>
     read_memory s' = read_memory s \<and> read_user s' = read_user s \<and> read_soul s' = read_soul s"
  by (auto simp: append_history_def Let_def read_memory_def read_user_def read_soul_def doc_row_def split: option.splits)

lemma read_documents_stripped:
  assumes "read_documents env s0 = (docs, s6)"
  shows "py_strip (dr_memory docs) = dr_memory docs \<and> py_strip (dr_user docs) = dr_user docs
    \<and> py_strip (dr_soul docs) = dr_soul docs"
  using assms memory_md.read_stripped user_md.read_stripped soul_md.read_stripped
  by (auto simp: read_documents_def Let_def)

lemma parsed_stripped:
  "py_strip (cr_memory (parse_compaction_response loads raw)) = cr_memory (parse_compaction_response loads raw)
   \<and> py_strip (cr_user (parse_compaction_response loads raw)) = cr_user (parse_compaction_response loads raw)
   \<and> py_strip (cr_soul (parse_compaction_response loads raw)) = cr_soul (parse_compaction_response loads raw)"
  by (auto simp: parse_compaction_response_def Let_def field_text_def empty_result_def split: option.splits json.splits)


text \<open>An agent's note lands while the model works: it stays, and the rewrite is dropped.\<close>

definition demo_compaction :: "(string \<Rightarrow> json option) \<Rightarrow> (nat \<Rightarrow> workspace_rows \<Rightarrow> workspace_rows) \<Rightarrow> compaction_env" where
  "demo_compaction loads others' =
     \<lparr>cn_enabled = True, cn_budget_chars = 8000, cn_cap = 100000, cn_loads = loads, cn_digest = (\<lambda>_. ''hash''),
      cn_llm = (\<lambda>_. Responded (demo_response [RText ''{}''] ''end_turn'')), cn_stamp = ''2024-01-01 10:00'',
      cn_now = 5, cn_append_fails = False, cn_persist_fails = False, cn_others = others'\<rparr>"

definition note_during_call :: "nat \<Rightarrow> workspace_rows \<Rightarrow> workspace_rows" where
  "note_during_call i s = (if i = 6 then apply_doc_op (WriteMemory ''note'' None) s else s)"

definition memory_only :: "string \<Rightarrow> workspace_rows" where
  "memory_only m = \<lparr>wr_doc = Some \<lparr>md_memory = m, md_history = []\<rparr>,
     wr_user = Some \<lparr>ur_user_text = [], ur_soul_text = [], ur_heartbeat_text = []\<rparr>\<rparr>"


section \<open>Line counts\<close>

text \<open>
  The erosion signal accounts for every line: what a rewrite removed and what it kept are the
  old lines, what it added and what it kept the new ones, and it reports no change exactly for a
  reordering of the lines.
\<close>

theorem line_diff_accounts:
  "(let (added, removed) = line_diff_counts before after;
        kept = size (mset (py_splitlines before) \<inter># mset (py_splitlines after))
    in length (py_splitlines before) = kept + removed \<and> length (py_splitlines after) = kept + added
       \<and> (added = 0 \<and> removed = 0 \<longleftrightarrow> mset (py_splitlines before) = mset (py_splitlines after)))"
proof -
  let ?b = "mset (py_splitlines before)" and ?a = "mset (py_splitlines after)"
  have diff: "x = (x \<inter># y) + (x - y)" for x y :: "string multiset"
    by (simp add: multiset_eq_iff min_def)
  have diff2: "x = (y \<inter># x) + (x - y)" for x y :: "string multiset"
    by (simp add: multiset_eq_iff min_def)
  have "length (py_splitlines before) = size (?b \<inter># ?a) + size (?b - ?a)"
    using arg_cong [OF diff [of ?b ?a], of size] by simp
  moreover have "length (py_splitlines after) = size (?b \<inter># ?a) + size (?a - ?b)"
    using arg_cong [OF diff2 [of ?a ?b], of size] by simp
  moreover have "?a - ?b = {#} \<and> ?b - ?a = {#} \<longleftrightarrow> ?b = ?a"
    by (metis Diff_eq_empty_iff_mset subset_mset.antisym subset_mset.order_refl)
  ultimately show ?thesis by (simp add: line_diff_counts_def Let_def)
qed

section \<open>What a compaction gets wrong\<close>

lemma parse_garbled: "(\<And>t. loads t = None) \<Longrightarrow> parse_compaction_response loads raw = empty_result"
  by (simp add: parse_compaction_response_def Let_def)

lemma write_nothing:
  assumes "\<And>i s. cn_others env i s = s"
  shows "write_result env hygiene_only docs empty_result s
    = \<lparr>cw_memory = False, cw_user = False, cw_soul = False, cw_history = dr_history docs, cw_rows = s\<rparr>"
  using assms by (simp add: write_result_def rewrite_file_def differs_def empty_result_def Let_def)

text \<open>
  An answer that is not JSON, a cut-off one for example, completes the compaction: no document
  changes, yet the event row becomes completed, which takes its messages out of the reach of the
  recovery sweep for good.
\<close>

theorem garbled_answer_completes:
  assumes "compaction_input env messages admin_note hygiene_only (cd_rows db) = Some input"
    and "\<And>p. \<exists>r. cn_llm env p = Responded r" and "\<And>t. cn_loads env t = None"
    and "\<And>i s. cn_others env i s = s" and "\<not> cn_persist_fails env"
    and "e \<in> set (cd_events db)" and "ce_status e = Pending"
    and "compact_session env user messages max_seq (Some (ce_id e)) admin_note hygiene_only db = (res, db')"
  shows "cd_rows db' = cd_rows db \<and> res = ([], max_seq)
    \<and> (\<forall>e' \<in> set (cd_events db'). ce_id e' = ce_id e \<longrightarrow> ce_status e' = Completed)"
proof -
  obtain conversation n chars where inp: "input = (conversation, n, chars)" by (cases input) auto
  obtain docs s where d: "read_documents env (cd_rows db) = (docs, s)" by fastforce
  then have s: "s = cd_rows db" using assms(4) by (simp add: read_documents_def Let_def)
  obtain r where r: "cn_llm env (compaction_prompt (cn_budget_chars env) docs conversation) = Responded r"
    using assms(2) by blast
  have has: "has_event (Some (ce_id e)) (cd_events db)" using assms(6) by (auto simp: has_event_def)
  show ?thesis
    using assms(8) assms(1) inp d s r has assms(4,5) write_nothing [of env hygiene_only docs s]
    by (auto simp: compact_session_def Let_def parse_garbled [OF assms(3)] persist_compaction_event_def
        complete_event_def empty_result_def)
qed

theorem garbled_answer_completes_witness:
  "ce_status (hd (cd_events (snd (compact_session (demo_compaction (\<lambda>_. None) (\<lambda>i s. s)) ''u'' [] (Some 7) (Some 1) None True
     \<lparr>cd_rows = memory_only ''likes tea'',
      cd_events = [\<lparr>ce_id = 1, ce_status = Pending, ce_min = None, ce_max = Some 7, ce_count = 2, ce_retry = 0,
        ce_triggered = 0, ev_user = ''u'', ev_audit = None\<rparr>],
      cd_next_event = 2, cd_calls = []\<rparr>)))) = Completed"
proof -
  let ?env = "demo_compaction (\<lambda>_. None) (\<lambda>i s. s)"
  let ?e = "\<lparr>ce_id = 1, ce_status = Pending, ce_min = None, ce_max = Some 7, ce_count = 2, ce_retry = 0,
    ce_triggered = 0, ev_user = ''u'', ev_audit = None\<rparr> :: event_row"
  let ?db = "\<lparr>cd_rows = memory_only ''likes tea'', cd_events = [?e], cd_next_event = 2, cd_calls = []\<rparr> :: compaction_db"
  have input: "compaction_input ?env [] None True (cd_rows ?db) = Some (hygiene_run_marker, 0, 0)"
    by (simp add: compaction_input_def demo_compaction_def memory_only_def read_memory_def py_strip_def py_lstrip_def
        py_rstrip_def is_space_def Let_def)
  have env: "\<And>i s. cn_others ?env i s = s" "\<not> cn_persist_fails ?env" by (simp_all add: demo_compaction_def)
  obtain res db' where r: "compact_session ?env ''u'' [] (Some 7) (Some (ce_id ?e)) None True ?db = (res, db')" by fastforce
  have "\<forall>e' \<in> set (cd_events db'). ce_id e' = 1 \<longrightarrow> ce_status e' = Completed"
    using garbled_answer_completes [OF input _ _ _ _ _ _ r] by (simp add: demo_compaction_def)
  moreover have "\<exists>e'. cd_events db' = [e'] \<and> ce_id e' = 1"
    using r input env by (auto simp: compact_session_def Let_def persist_compaction_event_def
        has_event_def complete_event_def split: prod.splits llm_outcome.splits)
  ultimately show ?thesis using r by auto
qed

text \<open>
  A null field wipes a document: \<open>str(None)\<close> is the text "None", which differs from the file,
  so a model that answers null for "no change" replaces MEMORY.md by the four letters.
\<close>

theorem null_field_wipes_memory:
  assumes "cn_loads env = (\<lambda>_. Some (JObj [(''memory_update'', JNull)]))"
    and "\<And>i s. cn_others env i s = s" and "read_memory s = dr_memory docs" and "dr_memory docs \<noteq> ''None''"
    and "result = parse_compaction_response (cn_loads env) raw"
    and "py_strip (dr_memory docs) = dr_memory docs"
  shows "read_memory (cw_rows (write_result env hygiene_only docs result s)) = ''None''"
proof -
  have none: "py_strip ''None'' = ''None''" by (simp add: py_strip_def py_lstrip_def py_rstrip_def is_space_def)
  have res: "cr_memory result = ''None''" "cr_user result = []" "cr_soul result = []" "cr_summary result = []"
    using assms(1,5) none by (simp_all add: parse_compaction_response_def field_text_def py_str_def Let_def)
  have fits: "assert_within_budget ''MEMORY.md'' (py_rstrip ''None'' @ [nl]) = Inr ()"
    by (simp add: assert_within_budget_def policies_def default_budget_def py_rstrip_def is_space_def)
  have "py_strip (md_memory (doc_row s)) = py_strip (dr_memory docs)"
    using assms(3,6) by (auto simp: read_memory_def doc_row_def split: option.splits)
  then obtain s' where w: "write_memory ''None'' (Some (dr_memory docs)) s = Inr (True, s')"
    using fits by (simp add: write_memory_def Let_def)
  then show ?thesis
    using assms(2,4,6) res none memory_md.read_written [OF w]
    by (simp add: write_result_def rewrite_file_def differs_def Let_def)
qed

theorem null_field_wipes_memory_witness:
  "read_memory (cw_rows (write_result (demo_compaction (\<lambda>_. Some (JObj [(''memory_update'', JNull)])) (\<lambda>i s. s)) False
       \<lparr>dr_memory = ''likes tea'', dr_user = [], dr_soul = [], dr_history = [], dr_heartbeat = []\<rparr>
       (parse_compaction_response (\<lambda>_. Some (JObj [(''memory_update'', JNull)])) ''x'') (memory_only ''likes tea'')))
     = ''None''"
  by (rule null_field_wipes_memory)
    (simp_all add: demo_compaction_def memory_only_def read_memory_def py_strip_def py_lstrip_def py_rstrip_def is_space_def)

text \<open>
  A hygiene run is said to rewrite MEMORY.md only, but a summary in its answer is appended to
  HISTORY.md all the same.
\<close>

lemma hygiene_run_appends_history:
  assumes "cr_summary result \<noteq> []" and "\<not> cn_append_fails env" and "\<And>i s. cn_others env i s = s"
    and "cr_memory result = []"
  shows "md_history (doc_row (cw_rows (write_result env True docs result s)))
    = append_with_window (md_history (doc_row s)) (history_entry (cn_stamp env) (cr_summary result)) default_budget"
  using assms by (simp add: write_result_def rewrite_file_def differs_def append_history_def doc_row_def Let_def)

end
