(* ===== verification/Compaction_Recovery.thy ===== *)
theory Compaction_Recovery
  imports Compaction
begin

text \<open>
  What covers a compaction that has not finished: the startup sweep of
  \<open>backend/app/agent/compaction_recovery.py\<close>, which runs stale pending events again, and the note
  of \<open>compaction_note.py\<close>, which summarizes their rows meanwhile. Times are seconds. The original
  task of an event may still finish while a sweep runs: \<open>sw_late n\<close> are the events such tasks
  complete before the sweep's n-th event.
\<close>

section \<open>The database of the sweep\<close>

record recovery_db =
  rv_rows :: "string \<Rightarrow> workspace_rows"
  rv_sessions :: "string \<Rightarrow> chat_session option"
  rv_events :: "event_row list"
  rv_next_event :: int
  rv_calls :: "int option list"

definition user_db :: "string \<Rightarrow> recovery_db \<Rightarrow> compaction_db" where
  "user_db user db = \<lparr>cd_rows = rv_rows db user, cd_events = rv_events db,
     cd_next_event = rv_next_event db, cd_calls = rv_calls db\<rparr>"

definition put_user_db :: "string \<Rightarrow> compaction_db \<Rightarrow> recovery_db \<Rightarrow> recovery_db" where
  "put_user_db user c db = db\<lparr>rv_rows := (rv_rows db)(user := cd_rows c), rv_events := cd_events c,
     rv_next_event := cd_next_event c, rv_calls := cd_calls c\<rparr>"

section \<open>One event\<close>

definition grace_seconds :: int where
  "grace_seconds = 600"

definition max_attempts :: int where
  "max_attempts = 3"

definition stale_pending :: "int \<Rightarrow> int \<Rightarrow> event_row \<Rightarrow> bool" where
  "stale_pending cutoff grace_floor e \<longleftrightarrow>
     ce_status e = Pending \<and> cutoff \<le> ce_triggered e \<and> ce_triggered e \<le> grace_floor
     \<and> ce_retry e < max_attempts \<and> ce_min e \<noteq> None \<and> ce_max e \<noteq> None"

definition stale_pending_events :: "int \<Rightarrow> int \<Rightarrow> event_row list \<Rightarrow> event_row list" where
  "stale_pending_events cutoff grace_floor events =
     sort_key ce_triggered (filter (stale_pending cutoff grace_floor) events)"

definition messages_in_range :: "chat_session \<Rightarrow> int \<Rightarrow> int \<Rightarrow> stored_message list" where
  "messages_in_range cs low high =
     sort_key sm_seq (filter (\<lambda>m. low \<le> sm_seq m \<and> sm_seq m \<le> high) (cs_rows cs))"

definition find_event :: "int \<Rightarrow> event_row list \<Rightarrow> event_row option" where
  "find_event event_id events = find (\<lambda>e. ce_id e = event_id) events"

definition update_event :: "int \<Rightarrow> (event_row \<Rightarrow> event_row) \<Rightarrow> event_row list \<Rightarrow> event_row list" where
  "update_event event_id f events = map (\<lambda>e. if ce_id e = event_id then f e else e) events"

definition claim_attempt :: "int \<Rightarrow> event_row list \<Rightarrow> bool \<times> event_row list" where
  "claim_attempt event_id events =
     (case find_event event_id events of
        None \<Rightarrow> (False, events)
      | Some e \<Rightarrow>
          if ce_status e \<noteq> Pending \<or> max_attempts \<le> ce_retry e then (False, events)
          else (True, update_event event_id (\<lambda>e. e\<lparr>ce_retry := ce_retry e + 1\<rparr>) events))"

definition exhaust_event :: "int \<Rightarrow> event_row list \<Rightarrow> event_row list" where
  "exhaust_event event_id events =
     (case find_event event_id events of
        None \<Rightarrow> events
      | Some e \<Rightarrow>
          if ce_status e = Pending then update_event event_id (\<lambda>e. e\<lparr>ce_retry := max_attempts\<rparr>) events else events)"

definition event_completed :: "int \<Rightarrow> event_row list \<Rightarrow> bool" where
  "event_completed event_id events =
     (case find_event event_id events of None \<Rightarrow> False | Some e \<Rightarrow> ce_status e = Completed)"

definition retry_event ::
  "compaction_env \<Rightarrow> timezone \<Rightarrow> int \<Rightarrow> string \<Rightarrow> int \<Rightarrow> int \<Rightarrow> recovery_db \<Rightarrow> bool \<times> recovery_db" where
  "retry_event env tz event_id user low high db =
     (let (claimed, events) = claim_attempt event_id (rv_events db)
      in if \<not> claimed then (False, db)
         else (let db1 = db\<lparr>rv_events := events\<rparr>;
                   rows = (case rv_sessions db1 user of Some cs \<Rightarrow> messages_in_range cs low high | None \<Rightarrow> []);
                   messages = stored_to_agent tz rows []
               in if messages = [] then (False, db1\<lparr>rv_events := exhaust_event event_id (rv_events db1)\<rparr>)
                  else (let (res, c) = compact_session env user messages (Some high) (Some event_id) None False
                              (user_db user db1);
                            db2 = put_user_db user c db1
                        in (event_completed event_id (rv_events db2), db2))))"

section \<open>The sweep\<close>

record sweep =
  sw_now :: int
  sw_lookback_minutes :: int
  sw_enabled :: bool
  sw_lock_free :: bool
  sw_late :: "nat \<Rightarrow> int set"
  sw_env :: "nat \<Rightarrow> compaction_env"
  sw_tz :: "string \<Rightarrow> timezone"

definition complete_late :: "int set \<Rightarrow> event_row list \<Rightarrow> event_row list" where
  "complete_late ids events = map (\<lambda>e. if ce_id e \<in> ids then e\<lparr>ce_status := Completed\<rparr> else e) events"

fun retry_events ::
  "sweep \<Rightarrow> nat \<Rightarrow> event_row list \<Rightarrow> nat \<Rightarrow> recovery_db \<Rightarrow> nat \<times> recovery_db" where
  "retry_events sw n [] completed db = (completed, db)"
| "retry_events sw n (e # es) completed db =
     (let db1 = db\<lparr>rv_events := complete_late (sw_late sw n) (rv_events db)\<rparr>;
          (ok, db2) = (case (ce_min e, ce_max e) of
             (Some low, Some high) \<Rightarrow> retry_event (sw_env sw n) (sw_tz sw (ev_user e)) (ce_id e) (ev_user e) low high db1
           | _ \<Rightarrow> (False, db1))
      in retry_events sw (Suc n) es (if ok then Suc completed else completed) db2)"

definition recover_pending_compactions :: "sweep \<Rightarrow> recovery_db \<Rightarrow> nat \<times> recovery_db" where
  "recover_pending_compactions sw db =
     (if sw_lookback_minutes sw = 0 \<or> \<not> sw_enabled sw \<or> \<not> sw_lock_free sw then (0, db)
      else retry_events sw 0
             (stale_pending_events (sw_now sw - sw_lookback_minutes sw * 60) (sw_now sw - grace_seconds) (rv_events db))
             0 db)"

text \<open>The sweeps of successive boots.\<close>

definition run_sweeps :: "sweep list \<Rightarrow> recovery_db \<Rightarrow> recovery_db" where
  "run_sweeps sws db = fold (\<lambda>sw db. snd (recover_pending_compactions sw db)) sws db"

section \<open>Attempts\<close>

text \<open>The attempts an event has left, and what a step does to attempts and calls together.\<close>

definition attempts_left :: "int \<Rightarrow> event_row list \<Rightarrow> nat" where
  "attempts_left i events = sum_list (map (\<lambda>e. if ce_id e = i then nat (max_attempts - ce_retry e) else 0) events)"

definition charge :: "int \<Rightarrow> recovery_db \<Rightarrow> nat" where
  "charge i db = count_list (rv_calls db) (Some i) + attempts_left i (rv_events db)"

lemma attempts_left_simps [simp]:
  "attempts_left i [] = 0"
  "attempts_left i (e # es) = (if ce_id e = i then nat (max_attempts - ce_retry e) else 0) + attempts_left i es"
  by (simp_all add: attempts_left_def)

lemma update_event_simps [simp]:
  "update_event j f [] = []"
  "update_event j f (e # es) = (if ce_id e = j then f e else e) # update_event j f es"
  by (simp_all add: update_event_def)

lemma attempts_left_cong:
  "map (\<lambda>e. (ce_id e, ce_retry e)) es = map (\<lambda>e. (ce_id e, ce_retry e)) es' \<Longrightarrow> attempts_left i es = attempts_left i es'"
proof (induction es arbitrary: es')
  case (Cons e es)
  then obtain e' es'' where es': "es' = e' # es''" "ce_id e = ce_id e'" "ce_retry e = ce_retry e'"
    "map (\<lambda>e. (ce_id e, ce_retry e)) es = map (\<lambda>e. (ce_id e, ce_retry e)) es''"
    by (cases es') simp_all
  show ?case unfolding es'(1) using Cons.IH [OF es'(4)] es'(2,3) by simp
qed simp

lemma attempts_left_update_le:
  assumes "\<And>e. ce_id (f e) = ce_id e" and "\<And>e. nat (max_attempts - ce_retry (f e)) \<le> nat (max_attempts - ce_retry e)"
  shows "attempts_left i (update_event j f es) \<le> attempts_left i es"
proof (induction es)
  case (Cons e es)
  show ?case
  proof (cases "ce_id e = j \<and> j = i")
    case True
    then show ?thesis using Cons assms [of e] by (auto intro: add_mono)
  next
    case False
    then show ?thesis using Cons assms [of e] by auto
  qed
qed simp

lemma find_event_Some: "find_event i events = Some e \<Longrightarrow> e \<in> set events \<and> ce_id e = i"
  by (auto simp: find_event_def find_Some_iff)

lemma attempts_left_claim:
  assumes "e \<in> set es" and "ce_id e = i" and "ce_retry e < max_attempts"
  shows "attempts_left i (update_event i (\<lambda>e. e\<lparr>ce_retry := ce_retry e + 1\<rparr>) es) < attempts_left i es"
  using assms
proof (induction es)
  case (Cons x es)
  let ?f = "\<lambda>e. e\<lparr>ce_retry := ce_retry e + 1\<rparr> :: event_row"
  have le: "attempts_left i (update_event i ?f es) \<le> attempts_left i es"
    by (rule attempts_left_update_le) simp_all
  show ?case
  proof (cases "x = e")
    case True
    then show ?thesis using le Cons.prems by simp
  next
    case False
    then have "attempts_left i (update_event i ?f es) < attempts_left i es" using Cons by simp
    then show ?thesis by auto
  qed
qed simp

lemma persist_retries:
  assumes "has_event event_id (cd_events db)"
  shows "map (\<lambda>e. (ce_id e, ce_retry e)) (cd_events (persist_compaction_event event_id user now n m audit db))
      = map (\<lambda>e. (ce_id e, ce_retry e)) (cd_events db)
    \<and> cd_calls (persist_compaction_event event_id user now n m audit db) = cd_calls db"
  using assms by (simp add: persist_compaction_event_def complete_event_def)

lemma compact_session_retries:
  assumes "compact_session env user ms m (Some i) note hyg db = (res, db')" and "has_event (Some i) (cd_events db)"
  shows "map (\<lambda>e. (ce_id e, ce_retry e)) (cd_events db') = map (\<lambda>e. (ce_id e, ce_retry e)) (cd_events db)"
    and "cd_calls db' = cd_calls db \<or> cd_calls db' = cd_calls db @ [Some i]"
proof -
  obtain docs rows where r: "read_documents env (cn_others env 0 (cd_rows db)) = (docs, rows)" by fastforce
  note persist = persist_retries [THEN conjunct1] persist_retries [THEN conjunct2]
  show "map (\<lambda>e. (ce_id e, ce_retry e)) (cd_events db') = map (\<lambda>e. (ce_id e, ce_retry e)) (cd_events db)"
    "cd_calls db' = cd_calls db \<or> cd_calls db' = cd_calls db @ [Some i]"
    using assms(1) r
    by (auto simp: compact_session_def Let_def persist assms(2) split: option.splits llm_outcome.splits if_splits)
qed

lemma has_event_update:
  assumes "\<And>e. ce_id (f e) = ce_id e"
  shows "has_event (Some i) (update_event j f es) = has_event (Some i) es"
  using assms by (induction es) (auto simp: has_event_def)

lemma retry_event_charge:
  assumes "retry_event env tz j user low high db = (ok, db')"
  shows "charge i db' \<le> charge i db"
proof -
  obtain claimed events where c: "claim_attempt j (rv_events db) = (claimed, events)" by fastforce
  show ?thesis
  proof (cases claimed)
    case False
    then show ?thesis using assms c by (simp add: retry_event_def)
  next
    case True
    then obtain e where e: "find_event j (rv_events db) = Some e" "ce_status e = Pending" "ce_retry e < max_attempts"
      and events: "events = update_event j (\<lambda>e. e\<lparr>ce_retry := ce_retry e + 1\<rparr>) (rv_events db)"
      using c by (auto simp: claim_attempt_def split: option.splits if_splits)
    from find_event_Some [OF e(1)] have mem: "e \<in> set (rv_events db)" "ce_id e = j" by auto
    have le: "attempts_left i events \<le> attempts_left i (rv_events db)"
      unfolding events by (rule attempts_left_update_le) simp_all
    have less: "i = j \<Longrightarrow> attempts_left i events < attempts_left i (rv_events db)"
      unfolding events using attempts_left_claim [OF mem e(3)] by simp
    have has: "has_event (Some j) events"
      unfolding events using mem by (subst has_event_update) (auto simp: has_event_def)
    have ex: "attempts_left i (exhaust_event j events) \<le> attempts_left i events"
      by (auto simp: exhaust_event_def intro: attempts_left_update_le split: option.splits)
    let ?db1 = "db\<lparr>rv_events := events\<rparr>"
    let ?rows = "case rv_sessions ?db1 user of Some cs \<Rightarrow> messages_in_range cs low high | None \<Rightarrow> []"
    show ?thesis
    proof (cases "stored_to_agent tz ?rows [] = []")
      case empty: True
      then have "db' = ?db1\<lparr>rv_events := exhaust_event j events\<rparr>" using assms c True by (simp add: retry_event_def Let_def)
      then show ?thesis using ex le by (simp add: charge_def)
    next
      case nonempty: False
      obtain res cd where r: "compact_session env user (stored_to_agent tz ?rows []) (Some high) (Some j) None False
          (user_db user ?db1) = (res, cd)" by fastforce
      then have db': "db' = put_user_db user cd ?db1" using assms c True nonempty by (simp add: retry_event_def Let_def)
      have has': "has_event (Some j) (cd_events (user_db user ?db1))" using has by (simp add: user_db_def)
      have "attempts_left i (cd_events cd) = attempts_left i events"
        using attempts_left_cong [OF compact_session_retries(1) [OF r has']] by (simp add: user_db_def)
      moreover have "cd_calls cd = rv_calls db \<or> cd_calls cd = rv_calls db @ [Some j]"
        using compact_session_retries(2) [OF r has'] by (simp add: user_db_def)
      ultimately show ?thesis using le less unfolding db'
        by (cases "i = j") (auto simp: charge_def put_user_db_def)
    qed
  qed
qed

lemma charge_late [simp]: "charge i (db\<lparr>rv_events := complete_late ids (rv_events db)\<rparr>) = charge i db"
proof -
  have "map (\<lambda>e. (ce_id e, ce_retry e)) (complete_late ids es) = map (\<lambda>e. (ce_id e, ce_retry e)) es" for es
    by (simp add: complete_late_def)
  from attempts_left_cong [OF this] show ?thesis by (simp add: charge_def)
qed

lemma retry_events_charge: "charge i (snd (retry_events sw n es completed db)) \<le> charge i db"
proof (induction sw n es completed db rule: retry_events.induct)
  case (2 sw n e es completed db)
  let ?db1 = "db\<lparr>rv_events := complete_late (sw_late sw n) (rv_events db)\<rparr>"
  obtain ok db2 where s: "(case ce_min e of None \<Rightarrow> (False, ?db1) | Some low \<Rightarrow>
      (case ce_max e of None \<Rightarrow> (False, ?db1) | Some high \<Rightarrow>
        retry_event (sw_env sw n) (sw_tz sw (ev_user e)) (ce_id e) (ev_user e) low high ?db1)) = (ok, db2)" by fastforce
  have "charge i db2 \<le> charge i ?db1"
    using s retry_event_charge [of "sw_env sw n" "sw_tz sw (ev_user e)" "ce_id e" "ev_user e" _ _ ?db1 ok db2 i]
    by (auto simp del: charge_late split: option.splits)
  moreover have "charge i (snd (retry_events sw (Suc n) es (if ok then Suc completed else completed) db2)) \<le> charge i db2"
    by (rule "2.IH" [OF refl refl s [symmetric]])
  moreover have "retry_events sw n (e # es) completed db
      = retry_events sw (Suc n) es (if ok then Suc completed else completed) db2"
    using s by (auto simp: Let_def split: option.splits)
  ultimately show ?case by simp
qed simp

lemma run_sweeps_charge: "charge i (run_sweeps sws db) \<le> charge i db"
proof (induction sws arbitrary: db)
  case (Cons sw sws)
  have "charge i (snd (recover_pending_compactions sw db)) \<le> charge i db"
    by (simp add: recover_pending_compactions_def retry_events_charge)
  then show ?case using Cons [of "snd (recover_pending_compactions sw db)"] by (simp add: run_sweeps_def)
qed (simp add: run_sweeps_def)

lemma attempts_left_distinct:
  assumes "distinct (map ce_id es)" and "\<forall>e \<in> set es. 0 \<le> ce_retry e"
  shows "attempts_left i es \<le> 3"
proof -
  have none: "i \<notin> ce_id ` set es \<Longrightarrow> attempts_left i es = 0" for es
    by (induction es) auto
  show ?thesis
    using assms
  proof (induction es)
    case (Cons e es)
    show ?case
    proof (cases "ce_id e = i")
      case True
      then have "attempts_left i es = 0" using Cons.prems(1) none by auto
      then show ?thesis using Cons.prems(2) by (auto simp: max_attempts_def)
    next
      case False
      then show ?thesis using Cons by simp
    qed
  qed simp
qed

text \<open>
  C23. A stuck compaction is retried at most three times: over any number of boots, whatever the
  provider answers and whichever tasks finish late, an event is sent to the model by the sweeps at
  most three times, and less often for each attempt its row already counts.
\<close>

theorem recovery_attempts_bounded:
  assumes "distinct (map ce_id (rv_events db))" and "\<forall>e \<in> set (rv_events db). 0 \<le> ce_retry e"
    and "e \<in> set (rv_events db)"
  shows "count_list (rv_calls (run_sweeps sws db)) (Some (ce_id e))
    \<le> count_list (rv_calls db) (Some (ce_id e)) + 3"
  using run_sweeps_charge [of "ce_id e" sws db] attempts_left_distinct [OF assms(1,2), of "ce_id e"]
  by (simp add: charge_def)

section \<open>Which events a sweep sends\<close>

lemma compact_session_calls:
  assumes "compact_session env user ms m (Some i) note hyg db = (res, db')"
  shows "(cd_calls db' = cd_calls db \<and> cd_events db' = cd_events db) \<or> cd_calls db' = cd_calls db @ [Some i]"
proof -
  obtain docs rows where r: "read_documents env (cn_others env 0 (cd_rows db)) = (docs, rows)" by fastforce
  have "cd_calls (persist_compaction_event (Some i) user now n m' audit d) = cd_calls d" for now n m' audit d
    by (simp add: persist_compaction_event_def)
  then show ?thesis using assms r
    by (auto simp: compact_session_def Let_def split: option.splits llm_outcome.splits if_splits)
qed

lemma find_update: "find_event j (update_event j f es) = map_option f (find_event j es)"
  if "\<And>e. ce_id (f e) = ce_id e"
  using that by (induction es) (auto simp: find_event_def)

lemma retry_event_calls:
  assumes "retry_event env tz j user low high db = (ok, db')"
  shows "rv_calls db' = rv_calls db \<and> \<not> ok \<or> rv_calls db' = rv_calls db @ [Some j]"
proof -
  obtain claimed events where c: "claim_attempt j (rv_events db) = (claimed, events)" by fastforce
  let ?db1 = "db\<lparr>rv_events := events\<rparr>"
  let ?rows = "case rv_sessions ?db1 user of Some cs \<Rightarrow> messages_in_range cs low high | None \<Rightarrow> []"
  show ?thesis
  proof (cases "claimed \<and> stored_to_agent tz ?rows [] \<noteq> []")
    case True
    obtain res cd where r: "compact_session env user (stored_to_agent tz ?rows []) (Some high) (Some j) None False
        (user_db user ?db1) = (res, cd)" by fastforce
    have out: "db' = put_user_db user cd ?db1" "ok = event_completed j (cd_events cd)"
      using assms c True r by (auto simp: retry_event_def Let_def put_user_db_def)
    from True obtain e where e: "find_event j (rv_events db) = Some e" "ce_status e = Pending"
      "events = update_event j (\<lambda>e. e\<lparr>ce_retry := ce_retry e + 1\<rparr>) (rv_events db)"
      using c by (auto simp: claim_attempt_def split: option.splits if_splits)
    have "\<not> event_completed j events"
      unfolding e(3) using e(1,2) by (simp add: event_completed_def find_update)
    then show ?thesis using compact_session_calls [OF r] out by (auto simp: put_user_db_def user_db_def)
  next
    case False
    then show ?thesis using assms c by (cases claimed) (auto simp: retry_event_def Let_def)
  qed
qed

lemma retry_events_calls:
  "retry_events sw n es completed db = (k, db') \<Longrightarrow>
     \<exists>ids. rv_calls db' = rv_calls db @ map Some ids \<and> set ids \<subseteq> ce_id ` set es \<and> k \<le> completed + length ids"
proof (induction sw n es completed db rule: retry_events.induct)
  case (1 sw n completed db)
  then show ?case by auto
next
  case (2 sw n e es completed db)
  let ?db1 = "db\<lparr>rv_events := complete_late (sw_late sw n) (rv_events db)\<rparr>"
  obtain ok db2 where s: "(case ce_min e of None \<Rightarrow> (False, ?db1) | Some low \<Rightarrow>
      (case ce_max e of None \<Rightarrow> (False, ?db1) | Some high \<Rightarrow>
        retry_event (sw_env sw n) (sw_tz sw (ev_user e)) (ce_id e) (ev_user e) low high ?db1)) = (ok, db2)" by fastforce
  have rest: "retry_events sw (Suc n) es (if ok then Suc completed else completed) db2 = (k, db')"
    using "2.prems" s by (auto simp: Let_def split: option.splits)
  from "2.IH" [OF refl refl s [symmetric] rest] obtain ids where ids: "rv_calls db' = rv_calls db2 @ map Some ids"
    "set ids \<subseteq> ce_id ` set es" "k \<le> (if ok then Suc completed else completed) + length ids" by blast
  have "rv_calls db2 = rv_calls db \<and> \<not> ok \<or> rv_calls db2 = rv_calls db @ [Some (ce_id e)]"
    using s retry_event_calls [of "sw_env sw n" "sw_tz sw (ev_user e)" "ce_id e" "ev_user e" _ _ ?db1 ok db2]
    by (auto split: option.splits)
  then show ?case
  proof
    assume "rv_calls db2 = rv_calls db \<and> \<not> ok"
    then show ?case using ids by (intro exI [of _ ids]) auto
  next
    assume "rv_calls db2 = rv_calls db @ [Some (ce_id e)]"
    then show ?case using ids by (intro exI [of _ "ce_id e # ids"]) (auto split: if_splits)
  qed
qed

text \<open>
  A sweep only runs events that were pending when it looked, older than the ten minutes of
  grace a running compaction gets, younger than the lookback and with attempts left; and it counts
  no event as completed that it did not send to the model.
\<close>

theorem sweep_retries_stale_only:
  assumes "recover_pending_compactions sw db = (k, db')"
  shows "\<exists>ids. rv_calls db' = rv_calls db @ map Some ids \<and> k \<le> length ids
    \<and> (\<forall>i \<in> set ids. \<exists>e \<in> set (rv_events db). ce_id e = i \<and> ce_status e = Pending \<and> ce_retry e < 3
         \<and> sw_now sw - sw_lookback_minutes sw * 60 \<le> ce_triggered e \<and> ce_triggered e \<le> sw_now sw - 600)"
proof (cases "sw_lookback_minutes sw = 0 \<or> \<not> sw_enabled sw \<or> \<not> sw_lock_free sw")
  case True
  then show ?thesis using assms by (auto simp: recover_pending_compactions_def)
next
  case False
  let ?es = "stale_pending_events (sw_now sw - sw_lookback_minutes sw * 60) (sw_now sw - grace_seconds) (rv_events db)"
  have "retry_events sw 0 ?es 0 db = (k, db')" using assms False by (simp add: recover_pending_compactions_def)
  from retry_events_calls [OF this] obtain ids where ids: "rv_calls db' = rv_calls db @ map Some ids"
    "set ids \<subseteq> ce_id ` set ?es" "k \<le> length ids" by auto
  have "\<forall>i \<in> set ids. \<exists>e \<in> set (rv_events db). ce_id e = i \<and> ce_status e = Pending \<and> ce_retry e < 3
      \<and> sw_now sw - sw_lookback_minutes sw * 60 \<le> ce_triggered e \<and> ce_triggered e \<le> sw_now sw - 600"
  proof
    fix i assume "i \<in> set ids"
    then obtain e where "e \<in> set ?es" "ce_id e = i" using ids(2) by auto
    then show "\<exists>e \<in> set (rv_events db). ce_id e = i \<and> ce_status e = Pending \<and> ce_retry e < 3
      \<and> sw_now sw - sw_lookback_minutes sw * 60 \<le> ce_triggered e \<and> ce_triggered e \<le> sw_now sw - 600"
      by (auto simp: stale_pending_events_def stale_pending_def grace_seconds_def max_attempts_def)
  qed
  then show ?thesis using ids(1,3) by blast
qed

section \<open>The note for a compaction in flight\<close>

definition note_window_minutes :: int where
  "note_window_minutes = 60"

definition max_note_rows :: nat where
  "max_note_rows = 400"

definition recent_pending_events :: "string \<Rightarrow> int \<Rightarrow> event_row list \<Rightarrow> event_row list" where
  "recent_pending_events user cutoff events =
     sort_key (\<lambda>e. the (ce_min e))
       (filter (\<lambda>e. ev_user e = user \<and> ce_status e = Pending \<and> cutoff \<le> ce_triggered e
          \<and> ce_min e \<noteq> None \<and> ce_max e \<noteq> None) events)"

definition note_message :: "stored_message \<Rightarrow> agent_message list" where
  "note_message m =
     (if sm_direction m = INBOUND then
        (let c = (if sm_processed_context m \<noteq> [] then sm_processed_context m else sm_body m)
         in if py_strip c \<noteq> [] then [UserMessage c None] else [])
      else
        (let c = (if sm_llm_reply_text m \<noteq> [] then sm_llm_reply_text m else sm_body m)
         in if py_strip c \<noteq> [] then [AssistantMessage (Some c) [] None] else []))"

definition rows_to_agent_messages :: "stored_message list \<Rightarrow> agent_message list" where
  "rows_to_agent_messages rows = concat (map note_message rows)"

fun note_rows :: "chat_session \<Rightarrow> event_row list \<Rightarrow> nat \<Rightarrow> stored_message list" where
  "note_rows cs [] budget = []"
| "note_rows cs (e # es) budget =
     (if budget = 0 then []
      else (let rows = take budget (messages_in_range cs (the (ce_min e)) (the (ce_max e)))
            in rows @ note_rows cs es (budget - length rows)))"

definition archived_note :: string where
  "archived_note =
     ''These messages were just archived from your context; their durable facts are being written to your ''
     @ ''memory right now and will appear in the Your Memory section shortly.'' @ [nl]"

definition build_pending_compaction_note :: "string \<Rightarrow> int \<Rightarrow> recovery_db \<Rightarrow> string" where
  "build_pending_compaction_note user now db =
     (let events = recent_pending_events user (now - note_window_minutes * 60) (rv_events db)
      in if events = [] then []
         else case rv_sessions db user of
           None \<Rightarrow> []
         | Some cs \<Rightarrow>
             (let messages = rows_to_agent_messages (note_rows cs events max_note_rows)
              in if messages = [] then [] else archived_note @ summarize_dropped_messages messages))"

lemma note_rows_bound: "length (note_rows cs es budget) \<le> budget"
proof (induction cs es budget rule: note_rows.induct)
  case (2 cs e es budget)
  show ?case
  proof (cases "budget = 0")
    case False
    let ?rows = "take budget (messages_in_range cs (the (ce_min e)) (the (ce_max e)))"
    have "length ?rows \<le> budget" by simp
    then show ?thesis using "2.IH" [OF False refl] False by (simp add: Let_def del: length_take)
  qed simp
qed simp

lemma note_rows_in_range:
  "m \<in> set (note_rows cs es budget) \<Longrightarrow>
     \<exists>e \<in> set es. m \<in> set (cs_rows cs) \<and> the (ce_min e) \<le> sm_seq m \<and> sm_seq m \<le> the (ce_max e)"
proof (induction cs es budget rule: note_rows.induct)
  case (2 cs e es budget)
  then show ?case
    by (auto simp: Let_def messages_in_range_def split: if_splits dest!: in_set_takeD)
qed simp

lemma pending_note_bounded:
  "length (build_pending_compaction_note user now db) \<le> length archived_note + summary_max_chars"
  using summary_length by (simp add: build_pending_compaction_note_def Let_def split: option.split)

text \<open>
  The note stands in exactly for what is in flight: without a pending event of the last hour
  there is no note, and a note is the summary of rows that lie in the ranges of such events, at
  most 400 of them.
\<close>

theorem note_covers_pending_only:
  assumes "build_pending_compaction_note user now db \<noteq> []"
  shows "\<exists>cs rows. rv_sessions db user = Some cs \<and> length rows \<le> 400
    \<and> build_pending_compaction_note user now db
        = archived_note @ summarize_dropped_messages (rows_to_agent_messages rows)
    \<and> (\<forall>m \<in> set rows. m \<in> set (cs_rows cs) \<and> (\<exists>e \<in> set (rv_events db). ev_user e = user \<and> ce_status e = Pending
         \<and> now - 3600 \<le> ce_triggered e \<and> the (ce_min e) \<le> sm_seq m \<and> sm_seq m \<le> the (ce_max e)))"
proof -
  let ?es = "recent_pending_events user (now - note_window_minutes * 60) (rv_events db)"
  from assms obtain cs where cs: "rv_sessions db user = Some cs"
    and n: "build_pending_compaction_note user now db
      = archived_note @ summarize_dropped_messages (rows_to_agent_messages (note_rows cs ?es max_note_rows))"
    by (auto simp: build_pending_compaction_note_def Let_def split: if_splits option.splits)
  have "\<forall>m \<in> set (note_rows cs ?es max_note_rows). m \<in> set (cs_rows cs) \<and> (\<exists>e \<in> set (rv_events db). ev_user e = user
      \<and> ce_status e = Pending \<and> now - 3600 \<le> ce_triggered e \<and> the (ce_min e) \<le> sm_seq m \<and> sm_seq m \<le> the (ce_max e))"
    by (auto dest!: note_rows_in_range simp: recent_pending_events_def note_window_minutes_def)
  then show ?thesis using cs n note_rows_bound [of cs ?es max_note_rows]
    by (intro exI [of _ cs] exI [of _ "note_rows cs ?es max_note_rows"]) (simp add: max_note_rows_def)
qed

section \<open>A boot\<close>

definition demo_event :: "int \<Rightarrow> int \<Rightarrow> event_row" where
  "demo_event i triggered = \<lparr>ce_id = i, ce_status = Pending, ce_min = Some 1, ce_max = Some 2, ce_count = 2,
     ce_retry = 0, ce_triggered = triggered, ev_user = ''u'', ev_audit = None\<rparr>"

definition demo_recovery :: recovery_db where
  "demo_recovery =
     \<lparr>rv_rows = (\<lambda>_. memory_only ''likes tea''),
      rv_sessions = (\<lambda>_. Some \<lparr>cs_id = ''s'', cs_channel = ''c'', cs_prompt = [], cs_last_trim = Some 2, cs_stub = None,
        cs_last_message_at = 0, cs_rows = [demo_row INBOUND 0 1, demo_row OUTBOUND 1 2]\<rparr>),
      rv_events = [demo_event 1 5000, demo_event 2 9999], rv_next_event = 3, rv_calls = []\<rparr>"

definition demo_sweep :: sweep where
  "demo_sweep = \<lparr>sw_now = 10000, sw_lookback_minutes = 60, sw_enabled = True, sw_lock_free = True, sw_late = (\<lambda>_. {}),
     sw_env = (\<lambda>_. demo_compaction (\<lambda>_. None) (\<lambda>i s. s)), sw_tz = (\<lambda>_. demo_tz)\<rparr>"

theorem recovery_attempts_bounded_witness:
  "count_list (rv_calls (run_sweeps [demo_sweep, demo_sweep] demo_recovery)) (Some 1) \<le> 3"
  using recovery_attempts_bounded [of demo_recovery "demo_event 1 5000" "[demo_sweep, demo_sweep]"]
  by (simp add: demo_recovery_def demo_event_def)

theorem sweep_retries_stale_only_witness:
  "\<exists>ids. rv_calls (snd (recover_pending_compactions demo_sweep demo_recovery)) = map Some ids \<and> 2 \<notin> set ids"
proof -
  obtain k db' where r: "recover_pending_compactions demo_sweep demo_recovery = (k, db')" by fastforce
  from sweep_retries_stale_only [OF r] r show ?thesis
    by (auto simp: demo_recovery_def demo_sweep_def demo_event_def)
qed

theorem note_covers_pending_only_witness:
  "\<exists>rows. build_pending_compaction_note ''u'' 10000 demo_recovery
      = archived_note @ summarize_dropped_messages (rows_to_agent_messages rows) \<and> length rows \<le> 400"
proof -
  have "build_pending_compaction_note ''u'' 10000 demo_recovery \<noteq> []"
    by (simp add: build_pending_compaction_note_def recent_pending_events_def demo_recovery_def demo_event_def
        note_window_minutes_def max_note_rows_def messages_in_range_def rows_to_agent_messages_def note_message_def
        demo_row_def archived_note_def py_strip_def py_lstrip_def py_rstrip_def is_space_def Let_def)
  from note_covers_pending_only [OF this] show ?thesis by blast
qed

end
