(* ===== verification/User_Lock.thy ===== *)
theory User_Lock
  imports Prelude
begin

text \<open>
  The per-user processing lock (\<open>concurrency.py\<close>: \<open>UserLockManager\<close>) and the \<open>asyncio.Lock\<close> it
  hands out.

  A lock is its holder and the tasks waiting for it.  A task that asks for a free lock nobody waits
  for gets it at once, otherwise it queues; a release wakes the head of the queue, which owns the
  lock when it resumes, and no later task can barge in between; a cancelled waiter leaves the
  queue.  The interface \<open>fifo_lock\<close> states these laws and derives what its clients need, the
  interpretation \<open>user_lock\<close> gives them for the record.  Locks are objects: the manager maps a user
  to the index of one in a store, so that a lock handed out stays what it is when the manager
  forgets it.
\<close>

section \<open>The interface\<close>

locale fifo_lock =
  fixes holder :: "'l \<Rightarrow> nat option" and queue :: "'l \<Rightarrow> nat list"
    and enter :: "nat \<Rightarrow> 'l \<Rightarrow> 'l" and resume :: "nat \<Rightarrow> 'l \<Rightarrow> 'l"
    and cancel :: "nat \<Rightarrow> 'l \<Rightarrow> 'l" and release :: "nat \<Rightarrow> 'l \<Rightarrow> 'l"
  assumes enter_holder: "holder (enter t l) = (if holder l = None \<and> queue l = [] then Some t else holder l)"
    and enter_queue: "queue (enter t l) = (if holder l = None \<and> queue l = [] then [] else queue l @ [t])"
    and resume_holder: "holder (resume t l) = (if holder l = None \<and> queue l \<noteq> [] \<and> hd (queue l) = t then Some t else holder l)"
    and resume_queue: "queue (resume t l) = (if holder l = None \<and> queue l \<noteq> [] \<and> hd (queue l) = t then tl (queue l) else queue l)"
    and cancel_holder: "holder (cancel t l) = holder l"
    and cancel_queue: "queue (cancel t l) = filter (\<lambda>u. u \<noteq> t) (queue l)"
    and release_holder: "holder (release t l) = (if holder l = Some t then None else holder l)"
    and release_queue: "queue (release t l) = queue l"
begin

lemmas holder_simps = enter_holder resume_holder cancel_holder release_holder
lemmas queue_simps = enter_queue resume_queue cancel_queue release_queue

text \<open>A held lock changes hands only through its holder's release.\<close>

lemma held_kept:
  assumes "holder l = Some h"
  shows "holder (enter t l) = Some h" and "holder (resume t l) = Some h" and "holder (cancel t l) = Some h"
    and "t \<noteq> h \<Longrightarrow> holder (release t l) = Some h"
  using assms by (simp_all add: holder_simps)

text \<open>No overtaking: whoever is ahead of a waiter was ahead of it before.\<close>

definition ahead :: "nat \<Rightarrow> 'l \<Rightarrow> nat list" where
  "ahead t l = takeWhile (\<lambda>u. u \<noteq> t) (queue l)"

lemma ahead_shrinks:
  assumes "t \<in> set (queue l)" and "u \<noteq> t"
  shows "set (ahead t (enter u l)) \<subseteq> set (ahead t l)" and "set (ahead t (resume u l)) \<subseteq> set (ahead t l)"
    and "set (ahead t (cancel u l)) \<subseteq> set (ahead t l)" and "set (ahead t (release u l)) \<subseteq> set (ahead t l)"
proof -
  show "set (ahead t (enter u l)) \<subseteq> set (ahead t l)"
    using assms by (auto simp: ahead_def enter_queue takeWhile_append1 [where x = t] dest: set_takeWhileD)
  show "set (ahead t (release u l)) \<subseteq> set (ahead t l)" by (simp add: ahead_def release_queue)
  show "set (ahead t (resume u l)) \<subseteq> set (ahead t l)"
    using assms by (cases "queue l") (auto simp: ahead_def resume_queue dest: set_takeWhileD)
  have "set (takeWhile (\<lambda>v. v \<noteq> t) (filter P xs)) \<subseteq> set (takeWhile (\<lambda>v. v \<noteq> t) xs)" if "P t" for P xs
    using that by (induction xs) auto
  then show "set (ahead t (cancel u l)) \<subseteq> set (ahead t l)" using assms by (simp add: ahead_def cancel_queue)
qed

end

section \<open>asyncio.Lock\<close>

record async_lock =
  al_holder :: "nat option"
  al_waiters :: "nat list"

definition new_lock :: async_lock where
  "new_lock = \<lparr>al_holder = None, al_waiters = []\<rparr>"

definition lock_enter :: "nat \<Rightarrow> async_lock \<Rightarrow> async_lock" where
  "lock_enter t l =
     (if al_holder l = None \<and> al_waiters l = [] then l\<lparr>al_holder := Some t\<rparr>
      else l\<lparr>al_waiters := al_waiters l @ [t]\<rparr>)"

definition lock_resume :: "nat \<Rightarrow> async_lock \<Rightarrow> async_lock" where
  "lock_resume t l =
     (case al_waiters l of
        u # us \<Rightarrow> if al_holder l = None \<and> u = t then l\<lparr>al_holder := Some t, al_waiters := us\<rparr> else l
      | [] \<Rightarrow> l)"

definition lock_cancel :: "nat \<Rightarrow> async_lock \<Rightarrow> async_lock" where
  "lock_cancel t l = l\<lparr>al_waiters := filter (\<lambda>u. u \<noteq> t) (al_waiters l)\<rparr>"

definition lock_release :: "nat \<Rightarrow> async_lock \<Rightarrow> async_lock" where
  "lock_release t l = (if al_holder l = Some t then l\<lparr>al_holder := None\<rparr> else l)"

definition locked :: "async_lock \<Rightarrow> bool" where
  "locked l \<longleftrightarrow> al_holder l \<noteq> None"

interpretation user_lock: fifo_lock al_holder al_waiters lock_enter lock_resume lock_cancel lock_release
  by unfold_locales
    (auto simp: lock_enter_def lock_resume_def lock_cancel_def lock_release_def split: list.splits)

section \<open>The manager\<close>

text \<open>An entry is the index of its lock and the time it was last asked for.\<close>

record lock_entry =
  le_lock :: nat
  le_last_used :: int

record lock_manager =
  lm_entries :: "(string \<times> lock_entry) list"
  lm_objects :: "async_lock list"

definition lock_expiry_seconds :: int where
  "lock_expiry_seconds = 3600"

definition new_manager :: lock_manager where
  "new_manager = \<lparr>lm_entries = [], lm_objects = []\<rparr>"

definition acquire_lock :: "string \<Rightarrow> int \<Rightarrow> lock_manager \<Rightarrow> nat \<times> lock_manager" where
  "acquire_lock user now m =
     (case map_of (lm_entries m) user of
        Some e \<Rightarrow> (le_lock e, m\<lparr>lm_entries := AList.update user (e\<lparr>le_last_used := now\<rparr>) (lm_entries m)\<rparr>)
      | None \<Rightarrow>
          (let i = length (lm_objects m)
           in (i, m\<lparr>lm_entries := AList.update user \<lparr>le_lock = i, le_last_used = now\<rparr> (lm_entries m),
                    lm_objects := lm_objects m @ [new_lock]\<rparr>)))"

definition is_stale :: "int \<Rightarrow> lock_manager \<Rightarrow> lock_entry \<Rightarrow> bool" where
  "is_stale now m e \<longleftrightarrow>
     lock_expiry_seconds < now - le_last_used e \<and> \<not> locked (lm_objects m ! le_lock e)"

definition cleanup_locks :: "int \<Rightarrow> lock_manager \<Rightarrow> nat \<times> lock_manager" where
  "cleanup_locks now m =
     (let stale = filter (\<lambda>p. is_stale now m (snd p)) (lm_entries m)
      in (length stale, m\<lparr>lm_entries := filter (\<lambda>p. \<not> is_stale now m (snd p)) (lm_entries m)\<rparr>))"

definition active_count :: "lock_manager \<Rightarrow> nat" where
  "active_count m = length (lm_entries m)"

text \<open>What the process does with the manager and the locks.\<close>

datatype lock_event =
    Acquire string int
  | Cleanup int
  | Enter nat nat
  | Resume nat nat
  | Cancel nat nat
  | Release nat nat

definition on_lock :: "nat \<Rightarrow> (async_lock \<Rightarrow> async_lock) \<Rightarrow> lock_manager \<Rightarrow> lock_manager" where
  "on_lock i f m = (if i < length (lm_objects m) then m\<lparr>lm_objects := (lm_objects m)[i := f (lm_objects m ! i)]\<rparr> else m)"

fun lock_op :: "lock_event \<Rightarrow> lock_manager \<Rightarrow> lock_manager" where
  "lock_op (Acquire user now) m = snd (acquire_lock user now m)"
| "lock_op (Cleanup now) m = snd (cleanup_locks now m)"
| "lock_op (Enter i t) m = on_lock i (lock_enter t) m"
| "lock_op (Resume i t) m = on_lock i (lock_resume t) m"
| "lock_op (Cancel i t) m = on_lock i (lock_cancel t) m"
| "lock_op (Release i t) m = on_lock i (lock_release t) m"

text \<open>Entries name locks of the store, no two users share one, and no user has two.\<close>

definition manager_ok :: "lock_manager \<Rightarrow> bool" where
  "manager_ok m \<longleftrightarrow> distinct (keys (lm_entries m)) \<and> distinct (map (le_lock \<circ> snd) (lm_entries m))
     \<and> (\<forall>p \<in> set (lm_entries m). le_lock (snd p) < length (lm_objects m))"

lemma map_update_entry:
  assumes "map_of d k = Some e" and "le_lock e' = le_lock e"
  shows "map (le_lock \<circ> snd) (AList.update k e' d) = map (le_lock \<circ> snd) d"
  using assms by (induction d) (auto split: if_splits)

lemma update_new_entry: "map_of d k = None \<Longrightarrow> AList.update k v d = d @ [(k, v)]"
  by (induction d) (auto split: if_splits)

lemma manager_ok_acquire: "manager_ok m \<Longrightarrow> manager_ok (snd (acquire_lock user now m))"
proof (cases "map_of (lm_entries m) user")
  case None
  assume ok: "manager_ok m"
  let ?d = "lm_entries m"
  have acquired: "snd (acquire_lock user now m) = m\<lparr>lm_entries := ?d @ [(user, \<lparr>le_lock = length (lm_objects m), le_last_used = now\<rparr>)],
      lm_objects := lm_objects m @ [new_lock]\<rparr>"
    using None by (simp add: acquire_lock_def Let_def update_new_entry)
  have "user \<notin> fst ` set ?d" using None by (simp add: map_of_eq_None_iff)
  then show ?thesis using ok unfolding acquired by (auto simp: manager_ok_def keys_def)
next
  case (Some e)
  assume ok: "manager_ok m"
  let ?d = "lm_entries m" and ?e = "e\<lparr>le_last_used := now\<rparr>"
  have locks: "map (le_lock \<circ> snd) (AList.update user ?e ?d) = map (le_lock \<circ> snd) ?d"
    by (rule map_update_entry [OF Some]) simp
  from arg_cong [OF locks, of set]
  have same: "(le_lock \<circ> snd) ` set (AList.update user ?e ?d) = (le_lock \<circ> snd) ` set ?d" by (simp only: set_map)
  have "\<forall>i \<in> (le_lock \<circ> snd) ` set ?d. i < length (lm_objects m)" using ok by (simp add: manager_ok_def)
  then have "\<forall>p \<in> set (AList.update user ?e ?d). le_lock (snd p) < length (lm_objects m)"
    unfolding same [symmetric] by simp
  then show ?thesis using ok locks Some
    by (simp add: manager_ok_def acquire_lock_def distinct_update keys_def)
qed

lemma manager_ok_cleanup: "manager_ok m \<Longrightarrow> manager_ok (snd (cleanup_locks now m))"
  by (auto simp: manager_ok_def cleanup_locks_def Let_def keys_def distinct_map_filter)

lemma on_lock_simps [simp]:
  "lm_entries (on_lock i f m) = lm_entries m" "length (lm_objects (on_lock i f m)) = length (lm_objects m)"
  by (simp_all add: on_lock_def)

lemma manager_ok_op: "manager_ok m \<Longrightarrow> manager_ok (lock_op op m)"
  by (cases op) (auto simp: manager_ok_acquire manager_ok_cleanup, auto simp: manager_ok_def)

text \<open>The lock of a user who is being served.\<close>

definition served_by :: "string \<Rightarrow> nat \<Rightarrow> nat \<Rightarrow> lock_manager \<Rightarrow> bool" where
  "served_by user i task m \<longleftrightarrow>
     (\<exists>e. map_of (lm_entries m) user = Some e \<and> le_lock e = i) \<and> i < length (lm_objects m)
     \<and> al_holder (lm_objects m ! i) = Some task"

lemma map_of_filter_kept:
  "map_of d k = Some v \<Longrightarrow> P (k, v) \<Longrightarrow> distinct (keys d) \<Longrightarrow> map_of (filter P d) k = Some v"
  by (induction d) (auto simp: keys_def map_of_eq_None_iff dest: map_of_SomeD split: if_splits)

lemma served_by_op:
  assumes ok: "manager_ok m" and served: "served_by user i task m" and "op \<noteq> Release i task"
  shows "served_by user i task (lock_op op m)"
proof -
  have locked_op: "served_by user i task (on_lock j f m)"
    if "j = i \<Longrightarrow> al_holder (f (lm_objects m ! i)) = Some task" for j f
    using served that by (cases "j = i") (auto simp: served_by_def on_lock_def)
  from served have held: "al_holder (lm_objects m ! i) = Some task" by (simp add: served_by_def)
  note kept = user_lock.held_kept [OF held]
  show ?thesis
  proof (cases op)
    case (Acquire u now)
    then show ?thesis using served
      by (auto simp: served_by_def acquire_lock_def Let_def update_conv' nth_append split: option.splits)
  next
    case (Cleanup now)
    then show ?thesis using served ok
      by (auto simp: served_by_def cleanup_locks_def Let_def is_stale_def locked_def manager_ok_def
          intro!: map_of_filter_kept)
  qed (use assms(3) kept in \<open>auto intro!: locked_op\<close>)
qed

text \<open>
  A user is served by one task at a time. From the moment a task holds the lock a user's name
  stands for, no acquiring, queueing, cancelling, cleaning up or releasing by others changes which
  lock that is or who holds it: whoever asks for the user's lock gets the same one and waits.
\<close>

theorem user_served_by_one:
  assumes "manager_ok m" and "served_by user i task m" and "Release i task \<notin> set ops"
    and "m' = fold lock_op ops m" and "acquire_lock user now m' = (j, m'')"
  shows "served_by user i task m' \<and> j = i
    \<and> (\<forall>other. al_holder (lock_enter other (lm_objects m'' ! j)) = Some task
         \<and> other \<in> set (al_waiters (lock_enter other (lm_objects m'' ! j))))"
proof -
  have "manager_ok m' \<and> served_by user i task m'"
    using assms(1,2,3) unfolding assms(4)
    by (induction ops arbitrary: m) (auto simp: manager_ok_op served_by_op)
  then show ?thesis using assms(5)
    by (auto simp: served_by_def acquire_lock_def user_lock.enter_queue user_lock.enter_holder)
qed

theorem user_served_by_one_witness:
  "fst (acquire_lock ''u'' 9000
      (fold lock_op [Enter 0 2, Cleanup 8000, Release 0 2]
        (lock_op (Enter 0 1) (snd (acquire_lock ''u'' 10 new_manager))))) = 0"
proof -
  let ?m = "lock_op (Enter 0 1) (snd (acquire_lock ''u'' 10 new_manager))"
  have "manager_ok ?m" and "served_by ''u'' 0 1 ?m"
    by (simp_all add: manager_ok_def served_by_def acquire_lock_def new_manager_def on_lock_def lock_enter_def new_lock_def
        keys_def)
  from user_served_by_one [OF this _ refl surjective_pairing, of "[Enter 0 2, Cleanup 8000, Release 0 2]" 9000]
  show ?thesis by simp
qed

end
