(* ===== verification/Ingress.thy ===== *)
theory Ingress
  imports User_Lock Approval_Gate
begin

text \<open>
  From a persisted inbound message to the turn that answers it: the message batcher and
  \<open>_dispatch_to_pipeline\<close> (\<open>ingestion.py\<close>), the mid-turn inbox and \<open>run_unless_folded\<close>
  (\<open>midturn.py\<close>), the drain of a running turn (\<open>router.py\<close>), for one user.

  The tasks interleave at their awaits; \<open>ingress_step\<close> has one rule per stretch between awaits,
  over the operations defined first.  A dispatch and the turn it runs go by the index of the
  dispatch.  What a turn does between two drains is any sequence of other steps.  A claimed
  dispatch is cancelled before it could own the lock: its \<open>consumed\<close> event is set before the turn
  that claimed it makes another call to the provider, let alone releases the lock, and the event
  loop runs wake-ups in order; so \<open>resume\<close> is for queued dispatches only.
\<close>

section \<open>Data\<close>

type_synonym media = "string \<times> string"

record batch_entry =
  be_session :: string
  be_seq :: nat
  be_media :: "media list"
  be_downloaded :: "string list"

record batch_state =
  bs_entries :: "batch_entry list"
  bs_channel :: string
  bs_request :: string

text \<open>The arguments of \<open>_dispatch_to_pipeline\<close>.\<close>

record dispatch =
  di_session :: string
  di_seq :: nat
  di_messages :: "nat list"
  di_media :: "media list"
  di_downloaded :: "string list"
  di_channel :: string
  di_request :: string

datatype turn_outcome = Completed_turn | Timed_out | Pipeline_error

text \<open>Where a dispatch stands; a turn carries the messages it has folded in.\<close>

datatype dispatch_phase =
    Registered
  | Queued
  | Claimed nat
  | Folded nat
  | In_turn "nat list"
  | Ended turn_outcome "nat list"

record ingress =
  ig_next :: nat
  ig_batch :: "batch_state option"
  ig_dispatches :: "(dispatch \<times> dispatch_phase) list"
  ig_lock :: async_lock
  ig_inbox :: "nat list"
  ig_watchers :: "nat list"
  ig_gate :: approval_gate
  ig_fallbacks :: "(string \<times> string) list"

definition new_ingress :: ingress where
  "new_ingress = \<lparr>ig_next = 0, ig_batch = None, ig_dispatches = [], ig_lock = new_lock, ig_inbox = [],
     ig_watchers = [], ig_gate = new_gate, ig_fallbacks = []\<rparr>"

abbreviation dispatch_of :: "ingress \<Rightarrow> nat \<Rightarrow> dispatch" where
  "dispatch_of st i \<equiv> fst (ig_dispatches st ! i)"

abbreviation phase_of :: "ingress \<Rightarrow> nat \<Rightarrow> dispatch_phase" where
  "phase_of st i \<equiv> snd (ig_dispatches st ! i)"

definition in_phase :: "ingress \<Rightarrow> nat \<Rightarrow> dispatch_phase \<Rightarrow> bool" where
  "in_phase st i ph \<longleftrightarrow> i < length (ig_dispatches st) \<and> phase_of st i = ph"

definition set_dispatch_phase :: "nat \<Rightarrow> dispatch_phase \<Rightarrow> ingress \<Rightarrow> ingress" where
  "set_dispatch_phase i ph st = st\<lparr>ig_dispatches := (ig_dispatches st)[i := (dispatch_of st i, ph)]\<rparr>"

section \<open>The batcher\<close>

definition enqueue_message :: "batch_entry \<Rightarrow> string \<Rightarrow> string \<Rightarrow> batch_state option \<Rightarrow> batch_state" where
  "enqueue_message e channel request batch =
     \<lparr>bs_entries = (case batch of Some b \<Rightarrow> bs_entries b | None \<Rightarrow> []) @ [e], bs_channel = channel, bs_request = request\<rparr>"

text \<open>\<open>_flush\<close>: the last entry's message, the media of all of them.\<close>

definition flush_dispatch :: "batch_state \<Rightarrow> dispatch" where
  "flush_dispatch b =
     (let e = last (bs_entries b)
      in \<lparr>di_session = be_session e, di_seq = be_seq e, di_messages = map be_seq (bs_entries b),
          di_media = concat (map be_media (bs_entries b)), di_downloaded = concat (map be_downloaded (bs_entries b)),
          di_channel = bs_channel b, di_request = bs_request b\<rparr>)"

definition direct_dispatch :: "batch_entry \<Rightarrow> string \<Rightarrow> string \<Rightarrow> dispatch" where
  "direct_dispatch e channel request =
     \<lparr>di_session = be_session e, di_seq = be_seq e, di_messages = [be_seq e], di_media = be_media e,
      di_downloaded = be_downloaded e, di_channel = channel, di_request = request\<rparr>"

section \<open>The inbox\<close>

definition foldable :: "dispatch \<Rightarrow> bool" where
  "foldable d \<longleftrightarrow> di_channel d \<noteq> [] \<and> di_request d = []"

definition unregister_inbound :: "nat \<Rightarrow> ingress \<Rightarrow> ingress" where
  "unregister_inbound i st = st\<lparr>ig_inbox := filter (\<lambda>j. j \<noteq> i) (ig_inbox st)\<rparr>"

text \<open>The head of \<open>_dispatch_to_pipeline\<close>: register, watch for a stale approval, start the run.\<close>

definition begin_dispatch :: "dispatch \<Rightarrow> ingress \<Rightarrow> ingress" where
  "begin_dispatch d st =
     (let i = length (ig_dispatches st)
      in st\<lparr>ig_dispatches := ig_dispatches st @ [(d, Registered)],
            ig_inbox := (if foldable d then ig_inbox st @ [i] else ig_inbox st),
            ig_watchers := ig_watchers st @ [i]\<rparr>)"

definition claim_inbound :: "string \<Rightarrow> string \<Rightarrow> ingress \<Rightarrow> nat list" where
  "claim_inbound session channel st =
     filter (\<lambda>j. di_session (dispatch_of st j) = session \<and> di_channel (dispatch_of st j) = channel) (ig_inbox st)"

text \<open>\<open>_drain\<close> of the turn \<open>i\<close>; a webchat turn has none.\<close>

definition drained :: "nat \<Rightarrow> ingress \<Rightarrow> nat list" where
  "drained i st =
     (if foldable (dispatch_of st i) then claim_inbound (di_session (dispatch_of st i)) (di_channel (dispatch_of st i)) st
      else [])"

definition messages_of :: "ingress \<Rightarrow> nat list \<Rightarrow> nat list" where
  "messages_of st is = concat (map (\<lambda>j. di_messages (dispatch_of st j)) is)"

definition mark_claimed :: "nat \<Rightarrow> nat list \<Rightarrow> ingress \<Rightarrow> ingress" where
  "mark_claimed i cs st = fold (\<lambda>j. set_dispatch_phase j (Claimed i)) cs st"

definition drain_into :: "nat \<Rightarrow> nat list \<Rightarrow> ingress \<Rightarrow> ingress" where
  "drain_into i folded st =
     (let claimed = drained i st;
          marked = mark_claimed i claimed st
      in set_dispatch_phase i (In_turn (folded @ messages_of st claimed))
           (marked\<lparr>ig_inbox := filter (\<lambda>j. j \<notin> set claimed) (ig_inbox st)\<rparr>))"

section \<open>The lock and the turn\<close>

text \<open>The turn owns the lock: its watcher ends, it leaves the inbox.\<close>

definition begin_turn :: "nat \<Rightarrow> ingress \<Rightarrow> ingress" where
  "begin_turn i st =
     set_dispatch_phase i (In_turn [])
       (unregister_inbound i (st\<lparr>ig_watchers := filter (\<lambda>j. j \<noteq> i) (ig_watchers st)\<rparr>))"

definition ask_lock :: "nat \<Rightarrow> ingress \<Rightarrow> ingress" where
  "ask_lock i st =
     (let l = lock_enter i (ig_lock st); st' = st\<lparr>ig_lock := l\<rparr>
      in if al_holder l = Some i then begin_turn i st' else set_dispatch_phase i Queued st')"

definition resume_lock :: "nat \<Rightarrow> ingress \<Rightarrow> ingress" where
  "resume_lock i st = begin_turn i (st\<lparr>ig_lock := lock_resume i (ig_lock st)\<rparr>)"

text \<open>\<open>run_unless_folded\<close> of a claimed dispatch: the wait for the lock is cancelled.\<close>

definition leave_folded :: "nat \<Rightarrow> nat \<Rightarrow> ingress \<Rightarrow> ingress" where
  "leave_folded i k st =
     set_dispatch_phase i (Folded k)
       (unregister_inbound i (st\<lparr>ig_lock := lock_cancel i (ig_lock st),
          ig_watchers := filter (\<lambda>j. j \<noteq> i) (ig_watchers st)\<rparr>))"

text \<open>The turn ends, in whatever way: the lock is released and a failure is told to the user.\<close>

definition end_turn :: "nat \<Rightarrow> turn_outcome \<Rightarrow> nat list \<Rightarrow> ingress \<Rightarrow> ingress" where
  "end_turn i out folded st =
     (let d = dispatch_of st i; st' = st\<lparr>ig_lock := lock_release i (ig_lock st)\<rparr>
      in set_dispatch_phase i (Ended out folded)
           (if out = Completed_turn \<or> di_channel d = [] then st'
            else st'\<lparr>ig_fallbacks := ig_fallbacks st @ [(di_channel d, di_request d)]\<rparr>))"

text \<open>One poll of \<open>_interrupt_stale_approval\<close> that does something.\<close>

definition poll_stale_approval :: "nat \<Rightarrow> ingress \<Rightarrow> ingress" where
  "poll_stale_approval i st =
     (let rest = filter (\<lambda>j. j \<noteq> i) (ig_watchers st)
      in case phase_of st i of
           Claimed k \<Rightarrow> st\<lparr>ig_watchers := rest\<rparr>
         | _ \<Rightarrow> if has_pending (ig_gate st)
                then st\<lparr>ig_watchers := rest, ig_gate := begin_resolve INTERRUPTED (ig_gate st)\<rparr> else st)"

section \<open>Arrival\<close>

text \<open>
  An inbound message past the report command and the approval gate is persisted under the next
  sequence number, then batched or dispatched.
\<close>

record inbound =
  in_session :: string
  in_text :: string
  in_media :: "media list"
  in_downloaded :: "string list"
  in_channel :: string
  in_request :: string

definition accept_inbound :: "bool \<Rightarrow> inbound \<Rightarrow> ingress \<Rightarrow> ingress" where
  "accept_inbound batching m st =
     (let e = \<lparr>be_session = in_session m, be_seq = ig_next st, be_media = in_media m, be_downloaded = in_downloaded m\<rparr>;
          st' = st\<lparr>ig_next := Suc (ig_next st)\<rparr>
      in if batching then st'\<lparr>ig_batch := Some (enqueue_message e (in_channel m) (in_request m) (ig_batch st))\<rparr>
         else begin_dispatch (direct_dispatch e (in_channel m) (in_request m)) st')"

definition receive :: "bool \<Rightarrow> inbound \<Rightarrow> classified \<Rightarrow> ingress \<Rightarrow> ingress" where
  "receive batching m verdict st =
     (let (route, g) = route_inbound (in_text m) (in_media m \<noteq> []) verdict (ig_gate st);
          st' = st\<lparr>ig_gate := g\<rparr>
      in if route \<in> {Dispatch, InterruptThenDispatch} then accept_inbound batching m st' else st')"

section \<open>Steps\<close>

datatype ingress_action =
    Receive inbound classified
  | Timer_fires
  | Ask nat
  | Resume_at nat
  | Drain nat
  | Leave_folded nat
  | End_turn nat turn_outcome
  | Poll nat
  | Gate gate_action

inductive ingress_step :: "bool \<Rightarrow> ingress_action \<Rightarrow> ingress \<Rightarrow> ingress \<Rightarrow> bool" for batching where
  receive: "ingress_step batching (Receive m v) st (receive batching m v st)"
| flush: "ig_batch st = Some b \<Longrightarrow>
    ingress_step batching Timer_fires st (begin_dispatch (flush_dispatch b) (st\<lparr>ig_batch := None\<rparr>))"
| ask: "in_phase st i Registered \<Longrightarrow> ingress_step batching (Ask i) st (ask_lock i st)"
| resume: "in_phase st i Queued \<Longrightarrow> al_holder (ig_lock st) = None \<Longrightarrow> al_waiters (ig_lock st) = i # rest \<Longrightarrow>
    ingress_step batching (Resume_at i) st (resume_lock i st)"
| drain: "in_phase st i (In_turn folded) \<Longrightarrow> drained i st \<noteq> [] \<Longrightarrow>
    ingress_step batching (Drain i) st (drain_into i folded st)"
| leave: "in_phase st i (Claimed k) \<Longrightarrow> ingress_step batching (Leave_folded i) st (leave_folded i k st)"
| finish: "in_phase st i (In_turn folded) \<Longrightarrow>
    ingress_step batching (End_turn i out) st (end_turn i out folded st)"
| poll: "i \<in> set (ig_watchers st) \<Longrightarrow> ingress_step batching (Poll i) st (poll_stale_approval i st)"
| gate: "gate_step a (ig_gate st) = Some g \<Longrightarrow> ingress_step batching (Gate a) st (st\<lparr>ig_gate := g\<rparr>)"

inductive_cases flush_cases: "ingress_step batching Timer_fires st st'"
inductive_cases resume_cases: "ingress_step batching (Resume_at i) st st'"
inductive_simps ask_simps: "ingress_step batching (Ask i) st st'"
inductive_simps leave_simps: "ingress_step batching (Leave_folded i) st st'"

inductive ingress_reachable :: "bool \<Rightarrow> ingress \<Rightarrow> bool" for batching where
  start: "ingress_reachable batching new_ingress"
| step: "ingress_reachable batching st \<Longrightarrow> ingress_step batching a st st' \<Longrightarrow> ingress_reachable batching st'"

section \<open>What the operations change\<close>

lemma set_phase_frame [simp]:
  "ig_next (set_dispatch_phase i ph st) = ig_next st" "ig_batch (set_dispatch_phase i ph st) = ig_batch st"
  "ig_lock (set_dispatch_phase i ph st) = ig_lock st" "ig_inbox (set_dispatch_phase i ph st) = ig_inbox st"
  "ig_watchers (set_dispatch_phase i ph st) = ig_watchers st" "ig_gate (set_dispatch_phase i ph st) = ig_gate st"
  "length (ig_dispatches (set_dispatch_phase i ph st)) = length (ig_dispatches st)"
  by (simp_all add: set_dispatch_phase_def)

lemma dispatch_of_set_phase [simp]: "dispatch_of (set_dispatch_phase i ph st) j = dispatch_of st j"
  by (cases "i < length (ig_dispatches st)"; cases "j = i") (simp_all add: set_dispatch_phase_def list_update_beyond)

lemma phase_of_set_phase:
  "i < length (ig_dispatches st) \<Longrightarrow> phase_of (set_dispatch_phase i ph st) j = (if j = i then ph else phase_of st j)"
  by (cases "j = i") (simp_all add: set_dispatch_phase_def)

lemma unregister_frame [simp]:
  "ig_dispatches (unregister_inbound i st) = ig_dispatches st" "ig_lock (unregister_inbound i st) = ig_lock st"
  "ig_next (unregister_inbound i st) = ig_next st" "ig_batch (unregister_inbound i st) = ig_batch st"
  "ig_inbox (unregister_inbound i st) = filter (\<lambda>j. j \<noteq> i) (ig_inbox st)"
  "ig_gate (unregister_inbound i st) = ig_gate st" "ig_watchers (unregister_inbound i st) = ig_watchers st"
  by (simp_all add: unregister_inbound_def)

text \<open>Marking the claimed dispatches.\<close>

lemma mark_frame [simp]:
  "ig_next (mark_claimed i cs st) = ig_next st" "ig_batch (mark_claimed i cs st) = ig_batch st"
  "ig_lock (mark_claimed i cs st) = ig_lock st" "ig_watchers (mark_claimed i cs st) = ig_watchers st"
  "ig_gate (mark_claimed i cs st) = ig_gate st" "length (ig_dispatches (mark_claimed i cs st)) = length (ig_dispatches st)"
  "dispatch_of (mark_claimed i cs st) j = dispatch_of st j"
  unfolding mark_claimed_def by (induction cs arbitrary: st) auto

lemma phase_of_mark:
  "\<forall>j \<in> set cs. j < length (ig_dispatches st) \<Longrightarrow>
     phase_of (mark_claimed i cs st) j = (if j \<in> set cs then Claimed i else phase_of st j)"
  unfolding mark_claimed_def by (induction cs arbitrary: st) (auto simp: phase_of_set_phase)

section \<open>Who holds, who waits, who is in the inbox\<close>

definition waits :: "dispatch_phase \<Rightarrow> bool" where
  "waits ph \<longleftrightarrow> ph = Registered \<or> ph = Queued"

definition inv_queue :: "ingress \<Rightarrow> bool" where
  "inv_queue st \<longleftrightarrow>
     (\<forall>i. al_holder (ig_lock st) = Some i \<longleftrightarrow> (\<exists>f. in_phase st i (In_turn f)))
     \<and> distinct (al_waiters (ig_lock st))
     \<and> (\<forall>i \<in> set (al_waiters (ig_lock st)). in_phase st i Queued \<or> (\<exists>k. in_phase st i (Claimed k)))
     \<and> (\<forall>i. in_phase st i Queued \<longrightarrow> i \<in> set (al_waiters (ig_lock st)))
     \<and> distinct (ig_inbox st)
     \<and> (\<forall>i. i \<in> set (ig_inbox st) \<longleftrightarrow>
          i < length (ig_dispatches st) \<and> foldable (dispatch_of st i) \<and> waits (phase_of st i))"

lemma in_phase_set:
  "i < length (ig_dispatches st) \<Longrightarrow> in_phase (set_dispatch_phase i ph st) j ph' \<longleftrightarrow> (if j = i then ph = ph' else in_phase st j ph')"
  by (auto simp: in_phase_def phase_of_set_phase)

lemma in_phase_less: "in_phase st i ph \<Longrightarrow> i < length (ig_dispatches st)"
  by (simp add: in_phase_def)

lemma inv_queue_begin_dispatch:
  assumes "inv_queue st"
  shows "inv_queue (begin_dispatch d st)"
proof -
  have ph: "in_phase (begin_dispatch d st) i ph \<longleftrightarrow>
      (if i = length (ig_dispatches st) then ph = Registered else in_phase st i ph)" for i ph
    by (auto simp: in_phase_def begin_dispatch_def Let_def nth_append)
  have new: "length (ig_dispatches st) \<notin> set (al_waiters (ig_lock st))" "al_holder (ig_lock st) \<noteq> Some (length (ig_dispatches st))"
    using assms by (auto simp: inv_queue_def in_phase_def)
  have d: "dispatch_of (begin_dispatch d st) i = (if i = length (ig_dispatches st) then d else dispatch_of st i)"
    "phase_of (begin_dispatch d st) i = (if i = length (ig_dispatches st) then Registered else phase_of st i)"
    if "i < Suc (length (ig_dispatches st))" for i
    using that by (auto simp: begin_dispatch_def Let_def nth_append less_Suc_eq)
  have fields: "ig_lock (begin_dispatch d st) = ig_lock st" "length (ig_dispatches (begin_dispatch d st)) = Suc (length (ig_dispatches st))"
    "ig_inbox (begin_dispatch d st) = (if foldable d then ig_inbox st @ [length (ig_dispatches st)] else ig_inbox st)"
    by (simp_all add: begin_dispatch_def Let_def)
  show ?thesis using assms new unfolding inv_queue_def ph fields
    by (auto simp: d less_Suc_eq waits_def split: if_splits)
qed

lemma inv_queue_frame:
  assumes "inv_queue st" and "ig_dispatches st' = ig_dispatches st" and "ig_lock st' = ig_lock st" and "ig_inbox st' = ig_inbox st"
  shows "inv_queue st'"
  using assms by (simp add: inv_queue_def in_phase_def)

lemma inv_queue_begin_turn:
  assumes "inv_queue st" and "waits (phase_of st i)" and i: "i < length (ig_dispatches st)"
    and "al_holder l = Some i" and "al_holder (ig_lock st) = None" and "al_waiters l = filter (\<lambda>j. j \<noteq> i) (al_waiters (ig_lock st))"
  shows "inv_queue (begin_turn i (st\<lparr>ig_lock := l\<rparr>))"
proof -
  have p: "phase_of (begin_turn i (st\<lparr>ig_lock := l\<rparr>)) j = (if j = i then In_turn [] else phase_of st j)" for j
    using i by (simp add: begin_turn_def phase_of_set_phase)
  have n: "length (ig_dispatches (begin_turn i (st\<lparr>ig_lock := l\<rparr>))) = length (ig_dispatches st)"
    by (simp add: begin_turn_def Let_def)
  have ph: "in_phase (begin_turn i (st\<lparr>ig_lock := l\<rparr>)) j ph \<longleftrightarrow> (if j = i then ph = In_turn [] else in_phase st j ph)" for j ph
    using i by (auto simp: in_phase_def p n)
  show ?thesis using assms unfolding inv_queue_def ph
    by (simp add: p) (auto simp: begin_turn_def waits_def)
qed

lemma inv_queue_ask:
  assumes "inv_queue st" and "in_phase st i Registered"
  shows "inv_queue (ask_lock i st)"
proof -
  have i: "i < length (ig_dispatches st)" and r: "phase_of st i = Registered" using assms(2) by (simp_all add: in_phase_def)
  have fresh: "i \<notin> set (al_waiters (ig_lock st))" "al_holder (ig_lock st) \<noteq> Some i"
    using assms by (auto simp: inv_queue_def in_phase_def)
  show ?thesis
  proof (cases "al_holder (ig_lock st) = None \<and> al_waiters (ig_lock st) = []")
    case True
    then show ?thesis using inv_queue_begin_turn [OF assms(1) _ i] r
      by (simp add: ask_lock_def Let_def user_lock.enter_holder user_lock.enter_queue waits_def)
  next
    case False
    have p: "phase_of (set_dispatch_phase i Queued (st\<lparr>ig_lock := l\<rparr>)) j = (if j = i then Queued else phase_of st j)" for j l
      using i by (simp add: phase_of_set_phase)
    have n: "length (ig_dispatches (set_dispatch_phase i Queued (st\<lparr>ig_lock := l\<rparr>))) = length (ig_dispatches st)" for l
      by (simp add: ask_lock_def Let_def)
    have ph: "in_phase (set_dispatch_phase i Queued (st\<lparr>ig_lock := l\<rparr>)) j ph
        \<longleftrightarrow> (if j = i then ph = Queued else in_phase st j ph)" for j ph l
      using i by (auto simp: in_phase_def p n)
    show ?thesis using False assms(1) fresh r i
      by (simp add: ask_lock_def Let_def user_lock.enter_holder user_lock.enter_queue inv_queue_def ph p waits_def)
        (auto simp: in_phase_def)
  qed
qed

lemma inv_queue_resume:
  assumes "inv_queue st" and "in_phase st i Queued" and "al_holder (ig_lock st) = None" and "al_waiters (ig_lock st) = i # rest"
  shows "inv_queue (resume_lock i st)"
proof -
  have "i \<notin> set rest" using assms(1,4) by (simp add: inv_queue_def)
  then have "filter (\<lambda>j. j \<noteq> i) rest = rest" by (auto simp: filter_id_conv)
  then show ?thesis unfolding resume_lock_def
    using inv_queue_begin_turn [OF assms(1), of i "lock_resume i (ig_lock st)"] assms
    by (simp add: user_lock.resume_holder user_lock.resume_queue in_phase_def waits_def)
qed

lemma drained_in: "set (drained i st) \<subseteq> set (ig_inbox st)"
  by (auto simp: drained_def claim_inbound_def)

lemma distinct_drained: "distinct (ig_inbox st) \<Longrightarrow> distinct (drained i st)"
  by (simp add: drained_def claim_inbound_def)

lemma phase_of_drain:
  assumes "inv_queue st" and "in_phase st i (In_turn folded)"
  shows "phase_of (drain_into i folded st) j =
    (if j = i then In_turn (folded @ messages_of st (drained i st)) else if j \<in> set (drained i st) then Claimed i else phase_of st j)"
    and "in_phase (drain_into i folded st) j ph \<longleftrightarrow> j < length (ig_dispatches st) \<and> ph =
    (if j = i then In_turn (folded @ messages_of st (drained i st)) else if j \<in> set (drained i st) then Claimed i else phase_of st j)"
proof -
  have "\<forall>j \<in> set (drained i st). j < length (ig_dispatches st)"
    using drained_in [of i st] assms(1) by (auto simp: inv_queue_def)
  then show *: "phase_of (drain_into i folded st) j =
    (if j = i then In_turn (folded @ messages_of st (drained i st)) else if j \<in> set (drained i st) then Claimed i else phase_of st j)" for j
    using in_phase_less [OF assms(2)] by (auto simp: drain_into_def Let_def phase_of_set_phase phase_of_mark)
  show "in_phase (drain_into i folded st) j ph \<longleftrightarrow> j < length (ig_dispatches st) \<and> ph =
    (if j = i then In_turn (folded @ messages_of st (drained i st)) else if j \<in> set (drained i st) then Claimed i else phase_of st j)"
    unfolding in_phase_def * by (auto simp: drain_into_def Let_def)
qed

lemma drain_fields [simp]:
  "ig_next (drain_into i folded st) = ig_next st" "ig_batch (drain_into i folded st) = ig_batch st"
  "ig_lock (drain_into i folded st) = ig_lock st" "ig_inbox (drain_into i folded st) = filter (\<lambda>j. j \<notin> set (drained i st)) (ig_inbox st)"
  "length (ig_dispatches (drain_into i folded st)) = length (ig_dispatches st)"
  "dispatch_of (drain_into i folded st) j = dispatch_of st j"
  by (simp_all add: drain_into_def Let_def)

lemma inv_queue_drain:
  assumes "inv_queue st" and "in_phase st i (In_turn folded)"
  shows "inv_queue (drain_into i folded st)"
proof -
  have i: "i \<notin> set (drained i st)"
    using drained_in [of i st] assms by (auto simp: inv_queue_def in_phase_def waits_def)
  have w: "j \<in> set (drained i st) \<Longrightarrow> waits (phase_of st j) \<and> j < length (ig_dispatches st)" for j
    using drained_in [of i st] assms(1) by (auto simp: inv_queue_def)
  let ?D = "set (drained i st)" and ?l = "ig_lock st"
  from assms(1) have holder: "\<And>j. al_holder ?l = Some j \<longleftrightarrow> (\<exists>f. in_phase st j (In_turn f))"
    and waiters: "distinct (al_waiters ?l)"
      "\<And>j. j \<in> set (al_waiters ?l) \<Longrightarrow> in_phase st j Queued \<or> (\<exists>k. in_phase st j (Claimed k))"
      "\<And>j. in_phase st j Queued \<Longrightarrow> j \<in> set (al_waiters ?l)"
    and inbox: "distinct (ig_inbox st)"
      "\<And>j. j \<in> set (ig_inbox st) \<longleftrightarrow> j < length (ig_dispatches st) \<and> foldable (dispatch_of st j) \<and> waits (phase_of st j)"
    by (simp_all add: inv_queue_def)
  note ph = phase_of_drain(2) [OF assms] and p = phase_of_drain(1) [OF assms]
  have mine: "phase_of st i = In_turn folded" "i < length (ig_dispatches st)" using assms(2) by (simp_all add: in_phase_def)
  have "al_holder ?l = Some j \<longleftrightarrow> (\<exists>f. in_phase (drain_into i folded st) j (In_turn f))" for j
    unfolding holder ph using w [of j] mine i by (auto simp: in_phase_def waits_def) metis
  moreover have "in_phase (drain_into i folded st) j Queued \<or> (\<exists>k. in_phase (drain_into i folded st) j (Claimed k))"
    if "j \<in> set (al_waiters ?l)" for j
    unfolding ph using waiters(2) [OF that] mine by (auto simp: in_phase_def)
  moreover have "j \<in> set (al_waiters ?l)" if "in_phase (drain_into i folded st) j Queued" for j
    using that waiters(3) [of j] unfolding ph by (auto simp: in_phase_def split: if_splits)
  moreover have "j \<in> set (ig_inbox st) - ?D \<longleftrightarrow> j < length (ig_dispatches st) \<and> foldable (dispatch_of st j)
      \<and> waits (phase_of (drain_into i folded st) j)" for j
    unfolding p using inbox(2) [of j] mine by (auto simp: waits_def)
  ultimately show ?thesis using waiters(1) inbox(1) by (simp add: inv_queue_def)
qed

lemma inv_queue_leave:
  assumes "inv_queue st" and "in_phase st i (Claimed k)"
  shows "inv_queue (leave_folded i k st)"
proof -
  have i: "i < length (ig_dispatches st)" using assms(2) by (simp add: in_phase_def)
  have p: "phase_of (leave_folded i k st) j = (if j = i then Folded k else phase_of st j)" for j
    using i by (simp add: leave_folded_def phase_of_set_phase)
  have n: "length (ig_dispatches (leave_folded i k st)) = length (ig_dispatches st)"
    by (simp add: leave_folded_def Let_def)
  have ph: "in_phase (leave_folded i k st) j ph \<longleftrightarrow> (if j = i then ph = Folded k else in_phase st j ph)" for j ph
    using i by (auto simp: in_phase_def p n)
  show ?thesis using assms unfolding inv_queue_def ph
    by (simp add: p) (auto simp: leave_folded_def waits_def in_phase_def user_lock.cancel_holder user_lock.cancel_queue)
qed

lemma inv_queue_finish:
  assumes "inv_queue st" and "in_phase st i (In_turn folded)"
  shows "inv_queue (end_turn i out folded st)"
proof -
  have i: "i < length (ig_dispatches st)" using assms(2) by (simp add: in_phase_def)
  have p: "phase_of (end_turn i out folded st) j = (if j = i then Ended out folded else phase_of st j)" for j
    using i by (simp add: end_turn_def Let_def phase_of_set_phase)
  have n: "length (ig_dispatches (end_turn i out folded st)) = length (ig_dispatches st)"
    by (simp add: end_turn_def Let_def)
  have ph: "in_phase (end_turn i out folded st) j ph \<longleftrightarrow> (if j = i then ph = Ended out folded else in_phase st j ph)" for j ph
    using i by (auto simp: in_phase_def p n)
  have held: "al_holder (ig_lock st) = Some i" using assms by (auto simp: inv_queue_def)
  then have only: "in_phase st j (In_turn f) \<Longrightarrow> j = i" for j f
    using assms(1) unfolding inv_queue_def by (metis option.inject)
  have fields: "ig_lock (end_turn i out folded st) = lock_release i (ig_lock st)" "ig_inbox (end_turn i out folded st) = ig_inbox st"
    "length (ig_dispatches (end_turn i out folded st)) = length (ig_dispatches st)"
    "dispatch_of (end_turn i out folded st) j = dispatch_of st j" for j
    by (simp_all add: end_turn_def Let_def)
  show ?thesis using assms held unfolding inv_queue_def ph fields
    by (simp add: p user_lock.release_holder user_lock.release_queue waits_def) (auto simp: in_phase_def dest: only)
qed

lemma inv_queue_step: "ingress_step batching a st st' \<Longrightarrow> inv_queue st \<Longrightarrow> inv_queue st'"
proof (induction rule: ingress_step.induct)
  case (receive m v st)
  obtain r g where rg: "route_inbound (in_text m) (in_media m \<noteq> []) v (ig_gate st) = (r, g)" by fastforce
  have "inv_queue (st\<lparr>ig_gate := g\<rparr>)" and "inv_queue (st\<lparr>ig_gate := g, ig_next := Suc (ig_next st)\<rparr>)"
    using receive by (auto intro: inv_queue_frame)
  then show ?case unfolding receive_def rg
    by (auto simp: accept_inbound_def Let_def intro!: inv_queue_begin_dispatch) (auto elim!: inv_queue_frame)
next
  case (flush st b)
  then show ?case by (auto intro!: inv_queue_begin_dispatch elim: inv_queue_frame)
next
  case (poll i st)
  then show ?case by (auto simp: poll_stale_approval_def Let_def elim!: inv_queue_frame split: dispatch_phase.split)
next
  case (gate a st g)
  then show ?case by (auto elim: inv_queue_frame)
qed (simp_all add: inv_queue_ask inv_queue_resume inv_queue_drain inv_queue_leave inv_queue_finish)

section \<open>Every message in one place\<close>

fun turn_messages :: "dispatch \<times> dispatch_phase \<Rightarrow> nat list" where
  "turn_messages (d, In_turn f) = di_messages d @ f"
| "turn_messages (d, Ended out f) = di_messages d @ f"
| "turn_messages (d, _) = []"

fun waiting_messages :: "dispatch \<times> dispatch_phase \<Rightarrow> nat list" where
  "waiting_messages (d, Registered) = di_messages d"
| "waiting_messages (d, Queued) = di_messages d"
| "waiting_messages (d, _) = []"

definition batched_messages :: "ingress \<Rightarrow> nat list" where
  "batched_messages st = (case ig_batch st of Some b \<Rightarrow> map be_seq (bs_entries b) | None \<Rightarrow> [])"

definition held_messages :: "dispatch \<times> dispatch_phase \<Rightarrow> nat multiset" where
  "held_messages x = mset (turn_messages x @ waiting_messages x)"

lemma held_simps [simp]:
  "held_messages (d, Registered) = mset (di_messages d)" "held_messages (d, Queued) = mset (di_messages d)"
  "held_messages (d, Claimed k) = {#}" "held_messages (d, Folded k) = {#}"
  "held_messages (d, In_turn f) = mset (di_messages d @ f)" "held_messages (d, Ended out f) = mset (di_messages d @ f)"
  by (simp_all add: held_messages_def)

definition all_held :: "ingress \<Rightarrow> nat multiset" where
  "all_held st = sum_list (map held_messages (ig_dispatches st))"

definition inv_account :: "ingress \<Rightarrow> bool" where
  "inv_account st \<longleftrightarrow> all_held st + mset (batched_messages st) = mset [0..<ig_next st]"

lemma sum_list_replace:
  fixes f :: "'a \<Rightarrow> 'b :: cancel_comm_monoid_add"
  shows "i < length xs \<Longrightarrow> sum_list (map f (xs[i := y])) + f (xs ! i) = sum_list (map f xs) + f y"
proof (induction xs arbitrary: i)
  case (Cons x xs)
  then show ?case by (cases i) (auto simp: ac_simps)
qed simp

lemma held_set_phase:
  "i < length (ig_dispatches st) \<Longrightarrow>
     all_held (set_dispatch_phase i ph st) + held_messages (ig_dispatches st ! i) = all_held st + held_messages (dispatch_of st i, ph)"
  by (simp add: all_held_def set_dispatch_phase_def sum_list_replace)

lemma all_held_cong: "ig_dispatches st' = ig_dispatches st \<Longrightarrow> all_held st' = all_held st"
  by (simp add: all_held_def)

lemma held_same:
  assumes "i < length (ig_dispatches st)" and "held_messages (dispatch_of st i, ph) = held_messages (ig_dispatches st ! i)"
  shows "all_held (set_dispatch_phase i ph st) = all_held st"
  using held_set_phase [OF assms(1), of ph] assms(2) by simp

lemma held_of_phase: "phase_of st i = ph \<Longrightarrow> held_messages (ig_dispatches st ! i) = held_messages (dispatch_of st i, ph)"
  by (metis prod.collapse)

lemma held_waiting: "waits (phase_of st j) \<Longrightarrow> held_messages (ig_dispatches st ! j) = mset (di_messages (dispatch_of st j))"
  using held_of_phase [of st j Registered] held_of_phase [of st j Queued] by (auto simp: waits_def)

lemma held_mark:
  assumes "distinct cs" and "\<forall>j \<in> set cs. j < length (ig_dispatches st) \<and> waits (phase_of st j)"
  shows "all_held (mark_claimed i cs st) + mset (messages_of st cs) = all_held st"
  using assms
proof (induction cs arbitrary: st)
  case (Cons j cs)
  let ?st = "set_dispatch_phase j (Claimed i) st"
  have j: "j < length (ig_dispatches st)" "waits (phase_of st j)" "j \<notin> set cs" using Cons.prems by auto
  have "\<forall>l \<in> set cs. l < length (ig_dispatches ?st) \<and> waits (phase_of ?st l)"
    using Cons.prems j by (auto simp: phase_of_set_phase)
  then have "all_held (mark_claimed i cs ?st) + mset (messages_of ?st cs) = all_held ?st"
    using Cons.prems(1) by (intro Cons.IH) auto
  moreover have "messages_of ?st cs = messages_of st cs" by (simp add: messages_of_def)
  moreover have "all_held ?st + mset (di_messages (dispatch_of st j)) = all_held st"
    using held_set_phase [OF j(1), of "Claimed i"] held_waiting [OF j(2)] by simp
  ultimately show ?case by (simp add: mark_claimed_def messages_of_def ac_simps)
qed (simp add: mark_claimed_def messages_of_def)

lemma held_drain:
  assumes "inv_queue st" and "in_phase st i (In_turn folded)"
  shows "all_held (drain_into i folded st) = all_held st"
proof -
  let ?cs = "drained i st" and ?m = "mark_claimed i (drained i st) st"
  have cs: "distinct ?cs" "\<forall>j \<in> set ?cs. j < length (ig_dispatches st) \<and> waits (phase_of st j)"
    using assms(1) drained_in [of i st] by (auto simp: inv_queue_def intro: distinct_drained)
  have i: "i < length (ig_dispatches st)" "phase_of st i = In_turn folded" using assms(2) by (simp_all add: in_phase_def)
  then have out: "i \<notin> set ?cs" using cs(2) by (auto simp: waits_def)
  let ?m' = "?m\<lparr>ig_inbox := filter (\<lambda>j. j \<notin> set ?cs) (ig_inbox st)\<rparr>"
  have same: "all_held ?m' = all_held ?m" by (rule all_held_cong) simp
  have "phase_of ?m i = In_turn folded" using i out cs(2) by (simp add: phase_of_mark)
  then have "held_messages (ig_dispatches ?m' ! i) = held_messages (dispatch_of st i, In_turn folded)"
    using held_of_phase [of ?m i] by simp
  moreover have "dispatch_of ?m' i = dispatch_of st i" by simp
  ultimately have "all_held (drain_into i folded st) + mset folded = all_held ?m + mset (folded @ messages_of st ?cs)"
    using held_set_phase [of i ?m' "In_turn (folded @ messages_of st ?cs)"] i(1) same
    by (simp add: drain_into_def Let_def)
  then show ?thesis using held_mark [OF cs] by (simp add: ac_simps)
qed

lemma held_begin_dispatch: "all_held (begin_dispatch d st) = all_held st + mset (di_messages d)"
  by (simp add: begin_dispatch_def all_held_def Let_def)

lemma held_begin_turn:
  assumes "i < length (ig_dispatches st)" and "waits (phase_of st i)"
  shows "all_held (begin_turn i (st\<lparr>ig_lock := l\<rparr>)) = all_held st"
proof -
  let ?st = "unregister_inbound i (st\<lparr>ig_lock := l, ig_watchers := filter (\<lambda>j. j \<noteq> i) (ig_watchers st)\<rparr>)"
  have turn: "begin_turn i (st\<lparr>ig_lock := l\<rparr>) = set_dispatch_phase i (In_turn []) ?st" by (simp add: begin_turn_def)
  have "all_held (begin_turn i (st\<lparr>ig_lock := l\<rparr>)) = all_held ?st"
    unfolding turn using assms held_waiting [OF assms(2)]
    by (intro held_same) simp_all
  then show ?thesis by (simp add: all_held_cong [of ?st st])
qed

lemma seqs_Suc: "mset [0..<Suc n] = add_mset n (mset [0..<n])"
  by simp

lemma inv_account_step:
  "ingress_step batching a st st' \<Longrightarrow> inv_queue st \<Longrightarrow> inv_account st \<Longrightarrow> inv_account st'"
proof (induction rule: ingress_step.induct)
  case (receive m v st)
  obtain r g where rg: "route_inbound (in_text m) (in_media m \<noteq> []) v (ig_gate st) = (r, g)" by fastforce
  show ?case using receive(2) unfolding receive_def rg
    by (auto simp: accept_inbound_def Let_def inv_account_def held_begin_dispatch direct_dispatch_def enqueue_message_def
        batched_messages_def begin_dispatch_def all_held_def seqs_Suc simp del: mset_upt upt_Suc
        split: option.splits)
next
  case (flush st b)
  then show ?case
    by (simp add: inv_account_def held_begin_dispatch flush_dispatch_def Let_def batched_messages_def all_held_def)
      (simp add: begin_dispatch_def Let_def)
next
  case (ask st i)
  then have i: "i < length (ig_dispatches st)" "phase_of st i = Registered" by (simp_all add: in_phase_def)
  have "all_held (set_dispatch_phase i Queued (st\<lparr>ig_lock := l\<rparr>)) = all_held st" for l
    using held_same [of i "st\<lparr>ig_lock := l\<rparr>" Queued] i held_of_phase [of st i] all_held_cong [of "st\<lparr>ig_lock := l\<rparr>" st]
    by simp
  then show ?case using ask i held_begin_turn [of i st]
    by (simp add: ask_lock_def Let_def inv_account_def batched_messages_def waits_def begin_turn_def)
next
  case (resume st i rest)
  then show ?case using held_begin_turn [of i st "lock_resume i (ig_lock st)"]
    by (simp add: resume_lock_def inv_account_def batched_messages_def in_phase_def waits_def begin_turn_def)
next
  case (drain st i folded)
  then show ?case by (simp add: inv_account_def held_drain batched_messages_def)
next
  case (leave st i k)
  let ?st = "unregister_inbound i (st\<lparr>ig_lock := lock_cancel i (ig_lock st),
          ig_watchers := filter (\<lambda>j. j \<noteq> i) (ig_watchers st)\<rparr>)"
  have "all_held (leave_folded i k st) = all_held ?st"
    using leave(1) held_of_phase [of st i] unfolding leave_folded_def
    by (intro held_same) (simp_all add: in_phase_def)
  then show ?case using leave all_held_cong [of ?st st]
    by (simp add: inv_account_def batched_messages_def leave_folded_def)
next
  case (finish st i folded out)
  have i: "i < length (ig_dispatches st)" "phase_of st i = In_turn folded" using finish(1) by (simp_all add: in_phase_def)
  have "all_held (set_dispatch_phase i (Ended out folded) st1) = all_held st" if "ig_dispatches st1 = ig_dispatches st" for st1
    using held_same [of i st1 "Ended out folded"] i held_of_phase [of st i] that all_held_cong [OF that]
    by simp
  then show ?case using finish by (simp add: end_turn_def Let_def inv_account_def batched_messages_def)
next
  case (poll i st)
  then show ?case
    by (auto simp: poll_stale_approval_def Let_def inv_account_def all_held_def batched_messages_def split: dispatch_phase.split)
next
  case (gate a st g)
  then show ?case by (simp add: inv_account_def all_held_def batched_messages_def)
qed

lemma reachable_inv:
  "ingress_reachable batching st \<Longrightarrow> inv_queue st \<and> inv_account st"
proof (induction rule: ingress_reachable.induct)
  case start
  then show ?case
    by (simp add: inv_queue_def inv_account_def new_ingress_def new_lock_def in_phase_def all_held_def batched_messages_def)
next
  case (step st a st')
  then show ?case using inv_queue_step inv_account_step by blast
qed

section \<open>Where folded messages go\<close>

definition turned :: "dispatch_phase \<Rightarrow> bool" where
  "turned ph \<longleftrightarrow> (\<exists>f. ph = In_turn f) \<or> (\<exists>out f. ph = Ended out f)"

definition folded_into :: "ingress \<Rightarrow> nat \<Rightarrow> nat \<Rightarrow> bool" where
  "folded_into st i k \<longleftrightarrow> in_phase st i (Claimed k) \<or> in_phase st i (Folded k)"

definition same_conversation :: "dispatch \<Rightarrow> dispatch \<Rightarrow> bool" where
  "same_conversation d e \<longleftrightarrow> foldable d \<and> foldable e \<and> di_session d = di_session e \<and> di_channel d = di_channel e"

definition inv_fold :: "ingress \<Rightarrow> bool" where
  "inv_fold st \<longleftrightarrow> (\<forall>i k. folded_into st i k \<longrightarrow> k < length (ig_dispatches st)
     \<and> same_conversation (dispatch_of st i) (dispatch_of st k) \<and> turned (phase_of st k)
     \<and> set (di_messages (dispatch_of st i)) \<subseteq> set (turn_messages (ig_dispatches st ! k)))"

text \<open>A step keeps every dispatch, and a turn keeps what it has folded in.\<close>

definition grows :: "ingress \<Rightarrow> ingress \<Rightarrow> bool" where
  "grows st st' \<longleftrightarrow> length (ig_dispatches st) \<le> length (ig_dispatches st')
     \<and> (\<forall>i < length (ig_dispatches st). dispatch_of st' i = dispatch_of st i
          \<and> (turned (phase_of st i) \<longrightarrow> turned (phase_of st' i)
               \<and> set (turn_messages (ig_dispatches st ! i)) \<subseteq> set (turn_messages (ig_dispatches st' ! i))))"

lemma turn_messages_of: "turn_messages (ig_dispatches st ! i) = turn_messages (dispatch_of st i, phase_of st i)"
  by simp

lemma grows_set_phase:
  assumes "i < length (ig_dispatches st)" and "turned (phase_of st i) \<Longrightarrow> turned ph
      \<and> set (turn_messages (dispatch_of st i, phase_of st i)) \<subseteq> set (turn_messages (dispatch_of st i, ph))"
  shows "grows st (set_dispatch_phase i ph st)"
  using assms unfolding grows_def turn_messages_of by (auto simp: phase_of_set_phase simp del: prod.collapse)

lemma grows_refl: "ig_dispatches st' = ig_dispatches st \<Longrightarrow> grows st st'"
  by (simp add: grows_def)

lemma grows_frame: "grows st1 st' \<Longrightarrow> ig_dispatches st1 = ig_dispatches st \<Longrightarrow> grows st st'"
  by (simp add: grows_def)

lemma grows_begin_dispatch: "grows st (begin_dispatch d st)"
  by (simp add: grows_def begin_dispatch_def Let_def nth_append)

lemma grows_drain:
  assumes "inv_queue st" and "in_phase st i (In_turn folded)"
  shows "grows st (drain_into i folded st)"
proof -
  have mine: "phase_of st i = In_turn folded" using assms(2) by (simp add: in_phase_def)
  have w: "waits (phase_of st j)" if "j \<in> set (drained i st)" for j
    using that drained_in [of i st] assms(1) by (auto simp: inv_queue_def)
  have "\<not> turned (phase_of st j)" if "j \<in> set (drained i st)" for j
    using w [OF that] by (auto simp: waits_def turned_def)
  then show ?thesis using mine
    unfolding grows_def turn_messages_of phase_of_drain(1) [OF assms] by (auto simp: turned_def simp del: prod.collapse)
qed

lemma grows_step: "ingress_step batching a st st' \<Longrightarrow> inv_queue st \<Longrightarrow> grows st st'"
proof (induction rule: ingress_step.induct)
  case (receive m v st)
  show ?case
    by (auto simp: receive_def accept_inbound_def Let_def split: prod.split
        intro: grows_refl grows_frame [OF grows_begin_dispatch])
next
  case (flush st b)
  show ?case by (rule grows_frame [OF grows_begin_dispatch]) simp
next
  case (ask st i)
  then show ?case unfolding ask_lock_def begin_turn_def Let_def
    by (auto intro!: grows_frame [OF grows_set_phase] simp: in_phase_def turned_def)
next
  case (resume st i rest)
  then show ?case unfolding resume_lock_def begin_turn_def
    by (auto intro!: grows_frame [OF grows_set_phase] simp: in_phase_def turned_def)
next
  case (drain st i folded)
  then show ?case by (simp add: grows_drain)
next
  case (leave st i k)
  then show ?case unfolding leave_folded_def
    by (auto intro!: grows_frame [OF grows_set_phase] simp: in_phase_def turned_def)
next
  case (finish st i folded out)
  then show ?case unfolding end_turn_def Let_def
    by (auto intro!: grows_frame [OF grows_set_phase] simp: in_phase_def turned_def)
next
  case (poll i st)
  show ?case by (auto simp: poll_stale_approval_def Let_def intro: grows_refl split: dispatch_phase.split)
next
  case (gate a st g)
  show ?case by (simp add: grows_refl)
qed

lemma folded_into_step:
  assumes "ingress_step batching a st st'" and "inv_queue st" and "folded_into st' i k"
  shows "folded_into st i k \<or> (\<exists>folded. in_phase st k (In_turn folded) \<and> i \<in> set (drained k st) \<and> st' = drain_into k folded st)"
  using assms
proof (induction rule: ingress_step.induct)
  case (receive m v st)
  then show ?case
    by (auto simp: receive_def accept_inbound_def begin_dispatch_def Let_def folded_into_def in_phase_def nth_append
        less_Suc_eq split: prod.splits if_splits)
next
  case (flush st b)
  then show ?case
    by (auto simp: begin_dispatch_def Let_def folded_into_def in_phase_def nth_append less_Suc_eq split: if_splits)
next
  case (ask st j)
  then show ?case
    by (auto simp: ask_lock_def begin_turn_def Let_def folded_into_def in_phase_def phase_of_set_phase split: if_splits)
next
  case (resume st j rest)
  then show ?case
    by (auto simp: resume_lock_def begin_turn_def Let_def folded_into_def in_phase_def phase_of_set_phase split: if_splits)
next
  case (drain st j folded)
  then show ?case
    by (auto simp: folded_into_def phase_of_drain split: if_splits) (auto simp: in_phase_def)
next
  case (leave st j l)
  then show ?case
    by (auto simp: leave_folded_def folded_into_def in_phase_def phase_of_set_phase split: if_splits)
next
  case (finish st j folded out)
  then show ?case
    by (auto simp: end_turn_def Let_def folded_into_def in_phase_def phase_of_set_phase split: if_splits)
next
  case (poll j st)
  then show ?case
    by (auto simp: poll_stale_approval_def Let_def folded_into_def in_phase_def split: dispatch_phase.splits if_splits)
next
  case (gate a st g)
  then show ?case by (simp add: folded_into_def in_phase_def)
qed

lemma drained_same:
  "i \<in> set (drained k st) \<Longrightarrow> inv_queue st \<Longrightarrow> same_conversation (dispatch_of st i) (dispatch_of st k)"
  by (auto simp: drained_def claim_inbound_def same_conversation_def inv_queue_def split: if_splits)

lemma inv_fold_step:
  assumes step: "ingress_step batching a st st'" and inv: "inv_queue st" "inv_fold st"
  shows "inv_fold st'"
  unfolding inv_fold_def
proof (intro allI impI)
  fix i k assume f: "folded_into st' i k"
  have g: "grows st st'" by (rule grows_step [OF step inv(1)])
  from folded_into_step [OF step inv(1) f]
  show "k < length (ig_dispatches st') \<and> same_conversation (dispatch_of st' i) (dispatch_of st' k) \<and> turned (phase_of st' k)
     \<and> set (di_messages (dispatch_of st' i)) \<subseteq> set (turn_messages (ig_dispatches st' ! k))"
  proof (elim disjE exE conjE)
    assume old: "folded_into st i k"
    then have i: "i < length (ig_dispatches st)" by (auto simp: folded_into_def in_phase_def)
    from inv(2) old have k: "k < length (ig_dispatches st)" "same_conversation (dispatch_of st i) (dispatch_of st k)"
      "turned (phase_of st k)" "set (di_messages (dispatch_of st i)) \<subseteq> set (turn_messages (ig_dispatches st ! k))"
      unfolding inv_fold_def by blast+
    from g i k(1,3) have "dispatch_of st' i = dispatch_of st i" "dispatch_of st' k = dispatch_of st k"
      "turned (phase_of st' k)" "set (turn_messages (ig_dispatches st ! k)) \<subseteq> set (turn_messages (ig_dispatches st' ! k))"
      "k < length (ig_dispatches st')"
      unfolding grows_def by (blast intro: less_le_trans)+
    then show ?thesis using k(2,4) by auto
  next
    fix folded assume d: "in_phase st k (In_turn folded)" "i \<in> set (drained k st)" "st' = drain_into k folded st"
    have "phase_of st' k = In_turn (folded @ messages_of st (drained k st))"
      unfolding d(3) by (simp add: phase_of_drain(1) [OF inv(1) d(1)])
    moreover have "dispatch_of st' i = dispatch_of st i" "dispatch_of st' k = dispatch_of st k" by (simp_all add: d(3))
    ultimately show ?thesis using drained_same [OF d(2) inv(1)] in_phase_less [OF d(1)] d(2,3)
      unfolding turn_messages_of by (auto simp: turned_def messages_of_def simp del: prod.collapse)
  qed
qed

lemma reachable_inv_fold: "ingress_reachable batching st \<Longrightarrow> inv_fold st"
proof (induction rule: ingress_reachable.induct)
  case start
  then show ?case by (simp add: inv_fold_def folded_into_def in_phase_def new_ingress_def)
next
  case (step st a st')
  then show ?case using inv_fold_step reachable_inv by blast
qed

definition covered :: "ingress \<Rightarrow> nat list" where
  "covered st = concat (map turn_messages (ig_dispatches st))"

definition outstanding :: "ingress \<Rightarrow> nat list" where
  "outstanding st = concat (map waiting_messages (ig_dispatches st)) @ batched_messages st"

lemma mset_covered: "mset (covered st @ outstanding st) = all_held st + mset (batched_messages st)"
proof -
  have "mset (concat (map turn_messages ds)) + mset (concat (map waiting_messages ds)) = sum_list (map held_messages ds)" for ds
    by (induction ds) (auto simp: held_messages_def ac_simps)
  then show ?thesis by (simp add: covered_def outstanding_def all_held_def)
qed

text \<open>
  C4. No message is lost and none is answered twice. However arrivals, flushes, lock hand-overs,
  drains and cancellations interleave, every persisted message is at every moment in exactly one
  place: covered by one turn, with a dispatch that waits, or in the batch.
\<close>

theorem every_message_in_one_place:
  assumes "ingress_reachable batching st"
  shows "mset (covered st @ outstanding st) = mset [0..<ig_next st] \<and> distinct (covered st @ outstanding st)
    \<and> set (covered st @ outstanding st) = {0..<ig_next st}"
proof -
  have m: "mset (covered st @ outstanding st) = mset [0..<ig_next st]"
    using reachable_inv [OF assms] unfolding inv_account_def mset_covered by simp
  show ?thesis using m mset_eq_imp_distinct_iff [OF m] mset_eq_setD [OF m] by (simp del: mset_append set_append)
qed

text \<open>
  C17. The turns of a user run one at a time, and a message is folded only into a turn that can
  answer it: a dispatch claimed by a turn is of the same session and channel, neither of them is a
  webchat request that owns its own reply, and the turn covers all of the dispatch's messages.
\<close>

theorem turns_serial_and_folds_match:
  assumes "ingress_reachable batching st"
  shows "(in_phase st i (In_turn f) \<and> in_phase st j (In_turn g) \<longrightarrow> i = j)
    \<and> (folded_into st i k \<longrightarrow> same_conversation (dispatch_of st i) (dispatch_of st k)
         \<and> set (di_messages (dispatch_of st i)) \<subseteq> set (turn_messages (ig_dispatches st ! k)))"
proof -
  have "in_phase st i (In_turn f) \<Longrightarrow> in_phase st j (In_turn g) \<Longrightarrow> Some i = Some j"
    using reachable_inv [OF assms] unfolding inv_queue_def by metis
  then show ?thesis using reachable_inv_fold [OF assms] by (auto simp: inv_fold_def)
qed

section \<open>Every message is answered\<close>

fun phase_rank :: "dispatch_phase \<Rightarrow> nat" where
  "phase_rank Registered = 4"
| "phase_rank Queued = 3"
| "phase_rank (In_turn f) = 2"
| "phase_rank (Claimed k) = 1"
| "phase_rank _ = 0"

definition work_left :: "ingress \<Rightarrow> nat" where
  "work_left st = (if ig_batch st = None then 0 else 5) + sum_list (map (phase_rank \<circ> snd) (ig_dispatches st))"

definition internal :: "ingress_action \<Rightarrow> bool" where
  "internal a \<longleftrightarrow> (case a of Receive m v \<Rightarrow> False | Poll i \<Rightarrow> False | Gate g \<Rightarrow> False | _ \<Rightarrow> True)"

lemma internal_simps [simp]:
  "internal Timer_fires" "internal (Ask i)" "internal (Resume_at i)" "internal (Drain i)" "internal (Leave_folded i)"
  "internal (End_turn i out)" "\<not> internal (Receive m v)" "\<not> internal (Poll i)" "\<not> internal (Gate g)"
  by (simp_all add: internal_def)

lemma rank_set_phase:
  assumes "i < length (ig_dispatches st)"
  shows "sum_list (map (phase_rank \<circ> snd) (ig_dispatches (set_dispatch_phase i ph st))) + phase_rank (phase_of st i)
    = sum_list (map (phase_rank \<circ> snd) (ig_dispatches st)) + phase_rank ph"
  using sum_list_replace [OF assms, of "phase_rank \<circ> snd"] by (simp add: set_dispatch_phase_def)

lemma work_set_phase:
  assumes "i < length (ig_dispatches st)" and "phase_rank ph < phase_rank (phase_of st i)"
    and "ig_dispatches st1 = ig_dispatches st" and "ig_batch st1 = ig_batch st"
  shows "work_left (set_dispatch_phase i ph st1) < work_left st"
  using rank_set_phase [of i st1 ph] assms by (simp add: work_left_def)

lemma work_mark:
  assumes "\<forall>j \<in> set cs. j < length (ig_dispatches st) \<and> waits (phase_of st j)" and "distinct cs"
  shows "work_left (mark_claimed i cs st) + length cs \<le> work_left st"
  using assms
proof (induction cs arbitrary: st)
  case (Cons j cs)
  let ?st = "set_dispatch_phase j (Claimed i) st"
  have j: "j < length (ig_dispatches st)" "1 < phase_rank (phase_of st j)"
    using Cons.prems by (auto simp: waits_def)
  have "\<forall>l \<in> set cs. l < length (ig_dispatches ?st) \<and> waits (phase_of ?st l)"
    using Cons.prems j by (auto simp: phase_of_set_phase)
  then have "work_left (mark_claimed i cs ?st) + length cs \<le> work_left ?st" using Cons.prems(2) by (intro Cons.IH) auto
  moreover have "work_left ?st < work_left st" using j by (intro work_set_phase) auto
  ultimately show ?case by (simp add: mark_claimed_def)
qed (simp add: mark_claimed_def)

lemma work_drain:
  assumes "inv_queue st" and "in_phase st i (In_turn folded)" and "drained i st \<noteq> []"
  shows "work_left (drain_into i folded st) < work_left st"
proof -
  let ?cs = "drained i st" and ?m = "mark_claimed i (drained i st) st"
  have cs: "\<forall>j \<in> set ?cs. j < length (ig_dispatches st) \<and> waits (phase_of st j)" "distinct ?cs"
    using assms(1) drained_in [of i st] by (auto simp: inv_queue_def intro: distinct_drained)
  have i: "i < length (ig_dispatches st)" "phase_of st i = In_turn folded" using assms(2) by (simp_all add: in_phase_def)
  then have "i \<notin> set ?cs" using cs(1) by (auto simp: waits_def)
  then have "phase_of ?m i = In_turn folded" using i cs(1) by (simp add: phase_of_mark)
  then have "work_left (drain_into i folded st) = work_left ?m"
    using rank_set_phase [of i "?m\<lparr>ig_inbox := filter (\<lambda>j. j \<notin> set ?cs) (ig_inbox st)\<rparr>" "In_turn (folded @ messages_of st ?cs)"] i
    by (simp add: drain_into_def Let_def work_left_def)
  then show ?thesis using work_mark [OF cs, of i] assms(3) by (cases ?cs) auto
qed

lemma internal_step_works:
  "ingress_step batching a st st' \<Longrightarrow> inv_queue st \<Longrightarrow> internal a \<Longrightarrow> work_left st' < work_left st"
proof (induction rule: ingress_step.induct)
  case (flush st b)
  then show ?case by (simp add: work_left_def begin_dispatch_def Let_def)
next
  case (ask st i)
  then show ?case unfolding ask_lock_def begin_turn_def Let_def in_phase_def
    by (auto intro!: work_set_phase)
next
  case (resume st i rest)
  then show ?case unfolding resume_lock_def begin_turn_def in_phase_def by (auto intro!: work_set_phase)
next
  case (drain st i folded)
  then show ?case by (simp add: work_drain)
next
  case (leave st i k)
  then show ?case unfolding leave_folded_def in_phase_def by (auto intro!: work_set_phase)
next
  case (finish st i folded out)
  then show ?case unfolding end_turn_def Let_def in_phase_def by (auto intro!: work_set_phase)
qed simp_all

text \<open>Whoever is not done can move.\<close>

lemma internal_step_enabled:
  assumes "inv_queue st" and "outstanding st \<noteq> [] \<or> (\<exists>i f. in_phase st i (In_turn f))"
  shows "\<exists>a st'. internal a \<and> ingress_step batching a st st'"
proof (rule ccontr)
  assume no: "\<nexists>a st'. internal a \<and> ingress_step batching a st st'"
  then have stuck: "internal a \<Longrightarrow> \<not> ingress_step batching a st st'" for a st' by blast
  have batch: "ig_batch st = None" using stuck [of Timer_fires] ingress_step.flush [of st] by (cases "ig_batch st") auto
  have reg: "\<not> in_phase st i Registered" for i
    using stuck [of "Ask i"] by (auto dest: ingress_step.ask)
  have turn: "\<not> in_phase st i (In_turn f)" for i f
    using stuck [of "End_turn i Timed_out"] by (auto dest: ingress_step.finish)
  have claimed: "\<not> in_phase st i (Claimed k)" for i k
    using stuck [of "Leave_folded i"] by (auto dest: ingress_step.leave)
  from turn assms have "outstanding st \<noteq> []" by blast
  then obtain x where x: "x \<in> set (ig_dispatches st)" "waiting_messages x \<noteq> []"
    using batch by (auto simp: outstanding_def batched_messages_def)
  then obtain i where i: "i < length (ig_dispatches st)" "ig_dispatches st ! i = x" by (auto simp: in_set_conv_nth)
  have "in_phase st i Registered \<or> in_phase st i Queued"
    using x(2) i by (cases x; cases "snd x") (auto simp: in_phase_def)
  then have "i \<in> set (al_waiters (ig_lock st))" using reg assms(1) by (auto simp: inv_queue_def)
  then obtain j rest where w: "al_waiters (ig_lock st) = j # rest" by (cases "al_waiters (ig_lock st)") auto
  then have "in_phase st j Queued" using assms(1) claimed by (auto simp: inv_queue_def)
  moreover have "al_holder (ig_lock st) = None" using assms(1) turn unfolding inv_queue_def by (metis not_None_eq)
  ultimately show False using ingress_step.resume [OF _ _ w] stuck [of "Resume_at j"] by auto
qed

inductive internal_run :: "bool \<Rightarrow> nat \<Rightarrow> ingress \<Rightarrow> ingress \<Rightarrow> bool" for batching where
  none: "internal_run batching 0 st st"
| some: "ingress_step batching a st st1 \<Longrightarrow> internal a \<Longrightarrow> internal_run batching n st1 st2 \<Longrightarrow>
    internal_run batching (Suc n) st st2"

lemma internal_run_works:
  "internal_run batching n st st' \<Longrightarrow> inv_queue st \<Longrightarrow> n + work_left st' \<le> work_left st \<and> inv_queue st'"
proof (induction rule: internal_run.induct)
  case (some a st st1 n st2)
  then show ?case using internal_step_works [of batching a st st1] inv_queue_step by fastforce
qed simp

text \<open>Other steps than the internal ones do not make a sequence number appear or vanish.\<close>

lemma internal_run_reachable: "internal_run batching n st st' \<Longrightarrow> ingress_reachable batching st \<Longrightarrow> ingress_reachable batching st'"
  by (induction rule: internal_run.induct) (auto intro: ingress_reachable.step)

text \<open>
  C16. Once nothing new arrives, every message gets its turn: from any reachable state at most
  \<open>work_left\<close> more steps of the batch timer, the lock, the drains and the turns are possible,
  whatever their order, and where none is possible any more all messages are covered by turns
  that have ended.
\<close>

theorem every_message_answered:
  assumes "ingress_reachable batching st" and "internal_run batching n st st'"
  shows "n \<le> work_left st \<and> ((\<exists>a st''. internal a \<and> ingress_step batching a st' st'')
    \<or> (outstanding st' = [] \<and> mset (covered st') = mset [0..<ig_next st'] \<and> (\<nexists>i f. in_phase st' i (In_turn f))))"
proof -
  have inv: "n + work_left st' \<le> work_left st" "inv_queue st'"
    using internal_run_works [OF assms(2)] reachable_inv [OF assms(1)] by auto
  have reach: "ingress_reachable batching st'" by (rule internal_run_reachable [OF assms(2,1)])
  have total: "mset (covered st' @ outstanding st') = mset [0..<ig_next st']"
    using reachable_inv [OF reach] unfolding inv_account_def mset_covered by simp
  show ?thesis using inv(1) internal_step_enabled [OF inv(2)] total by fastforce
qed

section \<open>A run\<close>

definition demo_inbound :: "string \<Rightarrow> inbound" where
  "demo_inbound request = \<lparr>in_session = ''s'', in_text = [], in_media = [(''photo'', ''image/png'')], in_downloaded = [],
     in_channel = ''telegram'', in_request = request\<rparr>"

definition demo_dispatch :: "nat \<Rightarrow> dispatch" where
  "demo_dispatch n = \<lparr>di_session = ''s'', di_seq = n, di_messages = [n], di_media = [(''photo'', ''image/png'')],
     di_downloaded = [], di_channel = ''telegram'', di_request = []\<rparr>"

definition demo_state :: "(dispatch \<times> dispatch_phase) list \<Rightarrow> nat list \<Rightarrow> nat list \<Rightarrow> ingress" where
  "demo_state ds inbox watchers = \<lparr>ig_next = length ds, ig_batch = None, ig_dispatches = ds,
     ig_lock = \<lparr>al_holder = Some 0, al_waiters = []\<rparr>, ig_inbox = inbox, ig_watchers = watchers, ig_gate = new_gate,
     ig_fallbacks = []\<rparr>"

lemmas ingress_defs = receive_def accept_inbound_def Let_def route_inbound_def parse_report_command_def has_pending_def
  new_gate_def enqueue_message_def begin_dispatch_def flush_dispatch_def foldable_def demo_inbound_def demo_dispatch_def
  demo_state_def new_ingress_def new_lock_def ask_lock_def begin_turn_def unregister_inbound_def set_dispatch_phase_def
  lock_enter_def drain_into_def drained_def claim_inbound_def messages_of_def mark_claimed_def in_phase_def

lemma demo_first_turn: "ingress_reachable True (demo_state [(demo_dispatch 0, In_turn [])] [] [])"
proof -
  let ?s1 = "receive True (demo_inbound []) Unrelated new_ingress"
  have "ingress_reachable True ?s1" by (rule ingress_reachable.step [OF ingress_reachable.start ingress_step.receive])
  moreover obtain b where b: "ig_batch ?s1 = Some b" by (simp add: ingress_defs)
  ultimately have "ingress_reachable True (begin_dispatch (flush_dispatch b) (?s1\<lparr>ig_batch := None\<rparr>))"
    by (rule ingress_reachable.step [OF _ ingress_step.flush])
  moreover have "in_phase (begin_dispatch (flush_dispatch b) (?s1\<lparr>ig_batch := None\<rparr>)) 0 Registered"
    using b by (simp add: ingress_defs)
  ultimately have "ingress_reachable True (ask_lock 0 (begin_dispatch (flush_dispatch b) (?s1\<lparr>ig_batch := None\<rparr>)))"
    by (rule ingress_reachable.step [OF _ ingress_step.ask])
  moreover have "ask_lock 0 (begin_dispatch (flush_dispatch b) (?s1\<lparr>ig_batch := None\<rparr>)) = demo_state [(demo_dispatch 0, In_turn [])] [] []"
    using b by (auto simp: ingress_defs)
  ultimately show ?thesis by simp
qed

lemma demo_folded: "ingress_reachable True (demo_state [(demo_dispatch 0, In_turn [1]), (demo_dispatch 1, Claimed 0)] [] [1])"
proof -
  let ?s1 = "receive True (demo_inbound []) Unrelated (demo_state [(demo_dispatch 0, In_turn [])] [] [])"
  have "ingress_reachable True ?s1" by (rule ingress_reachable.step [OF demo_first_turn ingress_step.receive])
  moreover obtain b where b: "ig_batch ?s1 = Some b" by (simp add: ingress_defs)
  ultimately have r: "ingress_reachable True (begin_dispatch (flush_dispatch b) (?s1\<lparr>ig_batch := None\<rparr>))"
    by (rule ingress_reachable.step [OF _ ingress_step.flush])
  have s2: "begin_dispatch (flush_dispatch b) (?s1\<lparr>ig_batch := None\<rparr>)
      = demo_state [(demo_dispatch 0, In_turn []), (demo_dispatch 1, Registered)] [1] [1]"
    using b by (auto simp: ingress_defs)
  let ?s2 = "demo_state [(demo_dispatch 0, In_turn []), (demo_dispatch 1, Registered)] [1] [1]"
  have "in_phase ?s2 0 (In_turn [])" and "drained 0 ?s2 \<noteq> []" by (simp_all add: ingress_defs)
  from ingress_reachable.step [OF r [unfolded s2] ingress_step.drain [OF this]]
  have "ingress_reachable True (drain_into 0 [] ?s2)" .
  moreover have "drain_into 0 [] ?s2 = demo_state [(demo_dispatch 0, In_turn [1]), (demo_dispatch 1, Claimed 0)] [] [1]"
    by (simp add: ingress_defs)
  ultimately show ?thesis by simp
qed

theorem every_message_in_one_place_witness:
  "set (covered (demo_state [(demo_dispatch 0, In_turn [1]), (demo_dispatch 1, Claimed 0)] [] [1])) = {0, 1}"
proof -
  have "outstanding (demo_state [(demo_dispatch 0, In_turn [1]), (demo_dispatch 1, Claimed 0)] [] [1]) = []"
    by (simp add: outstanding_def batched_messages_def demo_state_def)
  moreover have "{0..<ig_next (demo_state [(demo_dispatch 0, In_turn [1]), (demo_dispatch 1, Claimed 0)] [] [1])} = {0, 1}"
    by (auto simp: demo_state_def)
  ultimately show ?thesis using every_message_in_one_place [OF demo_folded] by simp
qed

theorem turns_serial_and_folds_match_witness:
  "same_conversation (demo_dispatch 1) (demo_dispatch 0)"
  using turns_serial_and_folds_match [OF demo_folded, where i = 1 and k = 0]
  by (simp add: folded_into_def in_phase_def demo_state_def)

theorem every_message_answered_witness:
  "\<exists>st'. internal_run True 2 (demo_state [(demo_dispatch 0, In_turn [1]), (demo_dispatch 1, Claimed 0)] [] [1]) st'
     \<and> outstanding st' = [] \<and> 2 \<le> work_left (demo_state [(demo_dispatch 0, In_turn [1]), (demo_dispatch 1, Claimed 0)] [] [1])"
proof -
  let ?s = "demo_state [(demo_dispatch 0, In_turn [1]), (demo_dispatch 1, Claimed 0)] [] [1]"
  let ?s1 = "leave_folded 1 0 ?s" and ?s2 = "end_turn 0 Completed_turn [1] (leave_folded 1 0 ?s)"
  have "in_phase ?s 1 (Claimed 0)" and "in_phase ?s1 0 (In_turn [1])"
    by (simp_all add: leave_folded_def ingress_defs lock_cancel_def)
  then have run: "internal_run True 2 ?s ?s2"
    using internal_run.some [OF ingress_step.leave _ internal_run.some [OF ingress_step.finish _ internal_run.none]]
    by (simp add: eval_nat_numeral)
  have "outstanding ?s2 = []"
    by (simp add: outstanding_def batched_messages_def end_turn_def leave_folded_def ingress_defs)
  then show ?thesis using every_message_answered [OF demo_folded run] run by blast
qed

section \<open>Batched webchat requests\<close>

text \<open>
  A batch carries the \<open>request_id\<close> of its last message only: of two webchat messages within the
  window, one dispatch answers both under the second request, and nothing is ever sent under the
  first, whose response future stays unresolved.
\<close>

lemma batched_request_dropped:
  assumes "ig_batch st = None" and "ig_batch (accept_inbound True m2 (accept_inbound True m1 st)) = Some b"
  shows "di_messages (flush_dispatch b) = [ig_next st, Suc (ig_next st)] \<and> di_request (flush_dispatch b) = in_request m2"
  using assms by (auto simp: accept_inbound_def enqueue_message_def flush_dispatch_def Let_def)

end
