(* ===== verification/Sender_Routing.thy ===== *)
theory Sender_Routing
  imports Prelude
begin

text \<open>
  Which account an inbound message belongs to (\<open>ingestion.py\<close>: \<open>_get_or_create_user\<close>,
  \<open>_stamp_route_last_inbound\<close>, \<open>_check_channel_route_enabled\<close>; \<open>user_db.py\<close>: \<open>provision_user\<close>;
  the tables \<open>users\<close> and \<open>channel_routes\<close>).

  A transaction reads a snapshot and inserts later: \<open>race\<close> is what other transactions commit
  between the reads and the insert of this one.  An insert that breaks a unique constraint raises
  \<open>Integrity_error\<close> and leaves what the others committed.  The new primary key and the clock are
  arguments, the default templates too.
\<close>

section \<open>Tables\<close>

record account =
  ac_id :: string
  ac_user_id :: string
  ac_identifier :: string
  ac_phone :: string
  ac_preferred :: string
  ac_soul_text :: string
  ac_user_text :: string

record channel_route =
  cr_user :: string
  cr_channel :: string
  cr_identifier :: string
  cr_enabled :: bool
  cr_last_inbound :: "int option"

record directory =
  dy_accounts :: "account list"
  dy_routes :: "channel_route list"

datatype db_error = Integrity_error | Multiple_results_found

record directory_env =
  de_single_user :: bool
  de_now :: int
  de_fresh_id :: string
  de_default_soul :: string
  de_default_user :: string

definition find_account :: "string \<Rightarrow> directory \<Rightarrow> account option" where
  "find_account uid dy = find (\<lambda>a. ac_id a = uid) (dy_accounts dy)"

definition find_by_user_id :: "string \<Rightarrow> directory \<Rightarrow> account option" where
  "find_by_user_id user_id dy = find (\<lambda>a. ac_user_id a = user_id) (dy_accounts dy)"

definition find_route :: "string \<Rightarrow> string \<Rightarrow> directory \<Rightarrow> channel_route option" where
  "find_route channel sender dy = find (\<lambda>r. cr_channel r = channel \<and> cr_identifier r = sender) (dy_routes dy)"

definition set_account :: "account \<Rightarrow> directory \<Rightarrow> directory" where
  "set_account a dy = dy\<lparr>dy_accounts := map (\<lambda>b. if ac_id b = ac_id a then a else b) (dy_accounts dy)\<rparr>"

definition stamp_route :: "string \<Rightarrow> string \<Rightarrow> string \<Rightarrow> int \<Rightarrow> directory \<Rightarrow> directory" where
  "stamp_route uid channel sender now dy =
     dy\<lparr>dy_routes := map (\<lambda>r. if cr_user r = uid \<and> cr_channel r = channel \<and> cr_identifier r = sender
          then r\<lparr>cr_last_inbound := Some now\<rparr> else r) (dy_routes dy)\<rparr>"

definition stale_route :: "string \<Rightarrow> string \<Rightarrow> string \<Rightarrow> channel_route \<Rightarrow> bool" where
  "stale_route uid channel sender r \<longleftrightarrow> cr_user r = uid \<and> cr_channel r = channel \<and> cr_identifier r \<noteq> sender"

definition drop_stale_routes :: "string \<Rightarrow> string \<Rightarrow> string \<Rightarrow> directory \<Rightarrow> nat \<times> directory" where
  "drop_stale_routes uid channel sender dy =
     (length (filter (stale_route uid channel sender) (dy_routes dy)),
      dy\<lparr>dy_routes := filter (\<lambda>r. \<not> stale_route uid channel sender r) (dy_routes dy)\<rparr>)"

definition add_route :: "string \<Rightarrow> string \<Rightarrow> string \<Rightarrow> directory \<Rightarrow> db_error + directory" where
  "add_route uid channel sender dy =
     (if find_route channel sender dy \<noteq> None then Inl Integrity_error
      else Inr (dy\<lparr>dy_routes := dy_routes dy @
             [\<lparr>cr_user = uid, cr_channel = channel, cr_identifier = sender, cr_enabled = True, cr_last_inbound = None\<rparr>]\<rparr>))"

definition provision_user :: "directory_env \<Rightarrow> account \<Rightarrow> account" where
  "provision_user env a =
     a\<lparr>ac_soul_text := (if ac_soul_text a = [] then ''# Soul'' @ [nl, nl] @ de_default_soul env @ [nl] else ac_soul_text a),
       ac_user_text := (if ac_user_text a = [] then ''# User'' @ [nl, nl] @ de_default_user env @ [nl] else ac_user_text a)\<rparr>"

section \<open>Resolution\<close>

text \<open>The sender has a route: its account, with the stale routes of the channel dropped.\<close>

definition resolve_routed :: "directory_env \<Rightarrow> string \<Rightarrow> string \<Rightarrow> channel_route \<Rightarrow> account \<Rightarrow> directory \<Rightarrow> account \<times> directory" where
  "resolve_routed env channel sender r a dy =
     (let a1 = (if ac_preferred a \<noteq> channel \<and> cr_enabled r \<and> channel \<noteq> ''webchat'' then a\<lparr>ac_preferred := channel\<rparr> else a);
          (dropped, dy1) = drop_stale_routes (ac_id a) channel sender dy;
          a2 = (if dropped \<noteq> 0 then a1\<lparr>ac_identifier := sender\<rparr> else a1)
      in (a2, stamp_route (ac_id a) channel sender (de_now env) (set_account a2 dy1)))"

text \<open>The one account of a single-tenant deployment.\<close>

definition link_sole_user :: "directory_env \<Rightarrow> string \<Rightarrow> string \<Rightarrow> account \<Rightarrow> directory \<Rightarrow> db_error + account \<times> directory" where
  "link_sole_user env channel sender a dy =
     (let a1 = a\<lparr>ac_identifier := sender, ac_preferred := channel\<rparr>
      in and_then (add_route (ac_id a) channel sender (snd (drop_stale_routes (ac_id a) channel sender dy)))
           (\<lambda>dy1. Inr (a1, stamp_route (ac_id a) channel sender (de_now env) (set_account a1 dy1))))"

text \<open>The sender is the primary key of an account.\<close>

definition link_primary_key :: "directory_env \<Rightarrow> string \<Rightarrow> string \<Rightarrow> account \<Rightarrow> directory \<Rightarrow> db_error + account \<times> directory" where
  "link_primary_key env channel sender a dy =
     (let a1 = provision_user env a
      in and_then (add_route (ac_id a) channel sender dy)
           (\<lambda>dy1. Inr (a1, stamp_route (ac_id a) channel sender (de_now env) (set_account a1 dy1))))"

definition new_account :: "directory_env \<Rightarrow> string \<Rightarrow> string \<Rightarrow> account" where
  "new_account env channel sender =
     \<lparr>ac_id = de_fresh_id env, ac_user_id = channel @ ''_'' @ sender, ac_identifier = sender, ac_phone = [],
      ac_preferred = channel, ac_soul_text = [], ac_user_text = []\<rparr>"

definition create_user :: "directory_env \<Rightarrow> string \<Rightarrow> string \<Rightarrow> directory \<Rightarrow> db_error + account \<times> directory" where
  "create_user env channel sender dy =
     (let a = provision_user env (new_account env channel sender)
      in if find_by_user_id (ac_user_id a) dy \<noteq> None \<or> find_account (ac_id a) dy \<noteq> None then Inl Integrity_error
         else and_then (add_route (ac_id a) channel sender (dy\<lparr>dy_accounts := dy_accounts dy @ [a]\<rparr>))
           (\<lambda>dy1. Inr (a, stamp_route (ac_id a) channel sender (de_now env) dy1)))"

text \<open>After a lost race: the route's account, then the account of the sender's own user id.\<close>

definition requery_user :: "string \<Rightarrow> string \<Rightarrow> directory \<Rightarrow> account option" where
  "requery_user channel sender dy =
     (case (case find_route channel sender dy of Some r \<Rightarrow> find_account (cr_user r) dy | None \<Rightarrow> None) of
        Some a \<Rightarrow> Some a
      | None \<Rightarrow> find_by_user_id (channel @ ''_'' @ sender) dy)"

definition get_or_create_user ::
  "directory_env \<Rightarrow> (directory \<Rightarrow> directory) \<Rightarrow> string \<Rightarrow> string \<Rightarrow> directory \<Rightarrow> (db_error + account) \<times> directory" where
  "get_or_create_user env race channel sender dy =
     (let commit = (\<lambda>r. case r of Inl e \<Rightarrow> (Inl e, race dy) | Inr (a, dy') \<Rightarrow> (Inr a, dy'))
      in case (case find_route channel sender dy of
                 Some r \<Rightarrow> (case find_account (cr_user r) dy of Some a \<Rightarrow> Some (r, a) | None \<Rightarrow> None)
               | None \<Rightarrow> None) of
           Some (r, a) \<Rightarrow> (let (a', dy') = resolve_routed env channel sender r a dy in (Inr a', dy'))
         | None \<Rightarrow>
             if length (dy_accounts dy) = 1 \<and> de_single_user env then
               commit (link_sole_user env channel sender (hd (dy_accounts dy)) (race dy))
             else (case find_account sender dy of
                 Some a \<Rightarrow> commit (link_primary_key env channel sender a (race dy))
               | None \<Rightarrow>
                   (case create_user env channel sender (race dy) of
                      Inr (a, dy') \<Rightarrow> (Inr a, dy')
                    | Inl e \<Rightarrow>
                        (case requery_user channel sender (race dy) of
                           Some a \<Rightarrow> (Inr a, race dy)
                         | None \<Rightarrow> (Inl e, race dy)))))"

text \<open>\<open>scalar_one_or_none\<close> over the routes of a user and channel: two rows raise.\<close>

definition check_channel_route_enabled :: "string \<Rightarrow> string \<Rightarrow> directory \<Rightarrow> db_error + bool option" where
  "check_channel_route_enabled uid channel dy =
     (case filter (\<lambda>r. cr_user r = uid \<and> cr_channel r = channel) (dy_routes dy) of
        [] \<Rightarrow> Inr None
      | [r] \<Rightarrow> Inr (Some (cr_enabled r))
      | _ \<Rightarrow> Inl Multiple_results_found)"

text \<open>Where replies go: \<open>handle_inbound_message\<close> looks the route up the same way.\<close>

definition reply_address :: "account \<Rightarrow> string \<Rightarrow> directory \<Rightarrow> db_error + string" where
  "reply_address a channel dy =
     (let fallback = (if ac_identifier a \<noteq> [] then ac_identifier a else ac_phone a)
      in case filter (\<lambda>r. cr_user r = ac_id a \<and> cr_channel r = channel) (dy_routes dy) of
           [] \<Rightarrow> Inr fallback
         | [r] \<Rightarrow> Inr (if cr_identifier r \<noteq> [] then cr_identifier r else fallback)
         | _ \<Rightarrow> Inl Multiple_results_found)"

section \<open>Constraints\<close>

definition route_key :: "channel_route \<Rightarrow> string \<times> string" where
  "route_key r = (cr_channel r, cr_identifier r)"

definition directory_ok :: "directory \<Rightarrow> bool" where
  "directory_ok dy \<longleftrightarrow> distinct (map ac_id (dy_accounts dy)) \<and> distinct (map ac_user_id (dy_accounts dy))
     \<and> distinct (map route_key (dy_routes dy)) \<and> cr_user ` set (dy_routes dy) \<subseteq> ac_id ` set (dy_accounts dy)"

lemma find_SomeD: "find P xs = Some x \<Longrightarrow> x \<in> set xs \<and> P x"
  by (auto simp: find_Some_iff)

lemma find_distinct: "distinct (map f xs) \<Longrightarrow> x \<in> set xs \<Longrightarrow> find (\<lambda>y. f y = f x) xs = Some x"
  by (induction xs) (auto simp: image_iff)

lemma find_account_id: "find_account uid dy = Some a \<Longrightarrow> a \<in> set (dy_accounts dy) \<and> ac_id a = uid"
  unfolding find_account_def by (rule find_SomeD)

lemma find_route_key: "find_route ch s dy = Some r \<Longrightarrow> r \<in> set (dy_routes dy) \<and> cr_channel r = ch \<and> cr_identifier r = s"
  unfolding find_route_def by (rule find_SomeD)

lemma find_route_None: "find_route ch s dy = None \<longleftrightarrow> (\<forall>r \<in> set (dy_routes dy). cr_channel r \<noteq> ch \<or> cr_identifier r \<noteq> s)"
  by (auto simp: find_route_def find_None_iff)

text \<open>What the writes keep.\<close>

lemma set_account_ids:
  assumes "a \<in> set (dy_accounts dy)" and "ac_id a' = ac_id a" and "ac_user_id a' = ac_user_id a" and "directory_ok dy"
  shows "map ac_id (dy_accounts (set_account a' dy)) = map ac_id (dy_accounts dy)"
    and "map ac_user_id (dy_accounts (set_account a' dy)) = map ac_user_id (dy_accounts dy)"
    and "dy_routes (set_account a' dy) = dy_routes dy"
    and "a' \<in> set (dy_accounts (set_account a' dy))"
proof -
  have "b = a" if "b \<in> set (dy_accounts dy)" "ac_id b = ac_id a'" for b
    using that assms by (auto simp: directory_ok_def distinct_map inj_on_def)
  then show "map ac_user_id (dy_accounts (set_account a' dy)) = map ac_user_id (dy_accounts dy)"
    using assms(3) by (auto simp: set_account_def)
  show "map ac_id (dy_accounts (set_account a' dy)) = map ac_id (dy_accounts dy)"
    by (auto simp: set_account_def)
  show "dy_routes (set_account a' dy) = dy_routes dy" by (simp add: set_account_def)
  show "a' \<in> set (dy_accounts (set_account a' dy))" using assms(1,2) by (force simp: set_account_def)
qed

lemma stamp_route_fields [simp]:
  "dy_accounts (stamp_route uid ch s now dy) = dy_accounts dy"
  "map route_key (dy_routes (stamp_route uid ch s now dy)) = map route_key (dy_routes dy)"
  "map cr_user (dy_routes (stamp_route uid ch s now dy)) = map cr_user (dy_routes dy)"
  by (auto simp: stamp_route_def route_key_def)

text \<open>What another transaction may do: add rows.\<close>

definition extends :: "directory \<Rightarrow> directory \<Rightarrow> bool" where
  "extends dy' dy \<longleftrightarrow> set (dy_accounts dy) \<subseteq> set (dy_accounts dy') \<and> set (dy_routes dy) \<subseteq> set (dy_routes dy')"

text \<open>A write on behalf of one account leaves the rows of all others.\<close>

definition others_kept :: "string \<Rightarrow> directory \<Rightarrow> directory \<Rightarrow> bool" where
  "others_kept uid dy dy' \<longleftrightarrow>
     (\<forall>b \<in> set (dy_accounts dy). ac_id b \<noteq> uid \<longrightarrow> b \<in> set (dy_accounts dy'))
     \<and> (\<forall>r \<in> set (dy_routes dy). cr_user r \<noteq> uid \<longrightarrow> r \<in> set (dy_routes dy'))"

lemma others_kept_trans: "others_kept uid d1 d2 \<Longrightarrow> others_kept uid d2 d3 \<Longrightarrow> others_kept uid d1 d3"
  by (auto simp: others_kept_def)

lemma others_kept_writes:
  "ac_id a = uid \<Longrightarrow> others_kept uid dy (set_account a dy)" "others_kept uid dy (stamp_route uid ch s now dy)"
  "others_kept uid dy (snd (drop_stale_routes uid ch s dy))" "add_route uid ch s dy = Inr dy' \<Longrightarrow> others_kept uid dy dy'"
  by (auto simp: others_kept_def set_account_def stamp_route_def drop_stale_routes_def stale_route_def add_route_def
      image_iff split: if_splits)

lemma directory_ok_cong:
  assumes "directory_ok dy" and "map ac_id (dy_accounts dy') = map ac_id (dy_accounts dy)"
    and "map ac_user_id (dy_accounts dy') = map ac_user_id (dy_accounts dy)"
    and "map route_key (dy_routes dy') = map route_key (dy_routes dy)" and "map cr_user (dy_routes dy') = map cr_user (dy_routes dy)"
  shows "directory_ok dy'"
proof -
  have "ac_id ` set (dy_accounts dy') = ac_id ` set (dy_accounts dy)" using arg_cong [OF assms(2), of set] by (simp only: set_map)
  moreover have "cr_user ` set (dy_routes dy') = cr_user ` set (dy_routes dy)" using arg_cong [OF assms(5), of set] by (simp only: set_map)
  ultimately show ?thesis using assms(1) by (simp only: directory_ok_def assms(2-4))
qed

lemma directory_ok_stamp: "directory_ok dy \<Longrightarrow> directory_ok (stamp_route uid ch s now dy)"
  by (erule directory_ok_cong) simp_all

lemma directory_ok_drop: "directory_ok dy \<Longrightarrow> directory_ok (snd (drop_stale_routes uid ch s dy))"
  by (auto simp: directory_ok_def drop_stale_routes_def distinct_map_filter)

lemma directory_ok_add:
  "directory_ok dy \<Longrightarrow> add_route uid ch s dy = Inr dy' \<Longrightarrow> uid \<in> ac_id ` set (dy_accounts dy) \<Longrightarrow> directory_ok dy'"
  by (auto simp: add_route_def directory_ok_def find_route_None route_key_def image_subset_iff split: if_splits)

lemma directory_ok_set:
  assumes "directory_ok dy" and "a \<in> set (dy_accounts dy)" and "ac_id a' = ac_id a" and "ac_user_id a' = ac_user_id a"
  shows "directory_ok (set_account a' dy)"
  using set_account_ids [OF assms(2,3,4,1)] assms(1) by (intro directory_ok_cong [OF assms(1)]) simp_all

text \<open>One account with one route of the channel.\<close>

definition settled :: "string \<Rightarrow> string \<Rightarrow> string \<Rightarrow> directory \<Rightarrow> bool" where
  "settled uid channel sender dy \<longleftrightarrow>
     (\<exists>r. filter (\<lambda>r. cr_user r = uid \<and> cr_channel r = channel) (dy_routes dy) = [r] \<and> cr_identifier r = sender)"

lemma filter_one:
  assumes "distinct (map f xs)" and "x \<in> set xs" and "P x" and "\<And>y. y \<in> set xs \<Longrightarrow> P y \<Longrightarrow> f y = f x"
  shows "filter P xs = [x]"
  using assms
proof -
  have only: "P y \<longleftrightarrow> y = x" if "y \<in> set xs" for y
    using assms that by (auto simp: distinct_map dest: inj_onD)
  have "filter (\<lambda>y. y = x) xs = [x]" if "distinct xs" "x \<in> set xs"
    using that by (induction xs) (auto simp: filter_empty_conv)
  then show ?thesis using assms(1,2) only by (auto simp: distinct_map cong: filter_cong)
qed

lemma settledI:
  assumes "directory_ok dy" and "find_route channel sender dy = Some r" and "cr_user r = uid"
    and "\<And>q. q \<in> set (dy_routes dy) \<Longrightarrow> \<not> stale_route uid channel sender q"
  shows "settled uid channel sender dy"
proof -
  have r: "r \<in> set (dy_routes dy)" "cr_channel r = channel" "cr_identifier r = sender"
    using find_route_key [OF assms(2)] by auto
  have "filter (\<lambda>r. cr_user r = uid \<and> cr_channel r = channel) (dy_routes dy) = [r]"
    using assms(1,3,4) r by (intro filter_one [where f = route_key]) (auto simp: directory_ok_def stale_route_def route_key_def)
  then show ?thesis using r by (auto simp: settled_def)
qed

lemma find_stamped:
  "find_route ch s (stamp_route uid ch' s' now dy) = None \<longleftrightarrow> find_route ch s dy = None"
  "find_route ch s (stamp_route uid ch' s' now dy) = Some r \<Longrightarrow> \<exists>q. find_route ch s dy = Some q \<and> cr_user q = cr_user r"
proof -
  let ?f = "\<lambda>r. if cr_user r = uid \<and> cr_channel r = ch' \<and> cr_identifier r = s' then r\<lparr>cr_last_inbound := Some now\<rparr> else r"
  have m: "find (\<lambda>r. cr_channel r = ch \<and> cr_identifier r = s) (map ?f rs)
      = map_option ?f (find (\<lambda>r. cr_channel r = ch \<and> cr_identifier r = s) rs)" for rs
    by (induction rs) auto
  show "find_route ch s (stamp_route uid ch' s' now dy) = None \<longleftrightarrow> find_route ch s dy = None"
    by (simp add: find_route_def stamp_route_def m)
  show "find_route ch s (stamp_route uid ch' s' now dy) = Some r \<Longrightarrow> \<exists>q. find_route ch s dy = Some q \<and> cr_user q = cr_user r"
    by (auto simp: find_route_def stamp_route_def m split: if_splits)
qed

lemma stale_stamped:
  "x \<in> set (dy_routes (stamp_route uid ch s now dy)) \<Longrightarrow>
     \<exists>y \<in> set (dy_routes dy). stale_route uid' ch' s' x = stale_route uid' ch' s' y"
  by (auto simp: stamp_route_def stale_route_def)

text \<open>The sender has a route.\<close>

lemma resolve_routed_effect:
  assumes "directory_ok dy" and "find_route channel sender dy = Some r" and "find_account (cr_user r) dy = Some a"
    and "resolve_routed env channel sender r a dy = (a', dy')"
  shows "directory_ok dy' \<and> ac_id a' = ac_id a \<and> a' \<in> set (dy_accounts dy') \<and> others_kept (ac_id a) dy dy'
    \<and> settled (ac_id a) channel sender dy' \<and> (\<exists>q. find_route channel sender dy' = Some q \<and> cr_user q = ac_id a)"
proof -
  let ?d1 = "snd (drop_stale_routes (ac_id a) channel sender dy)"
  have a: "a \<in> set (dy_accounts dy)" "ac_id a = cr_user r" using find_account_id [OF assms(3)] by auto
  have d1: "directory_ok ?d1" "a \<in> set (dy_accounts ?d1)"
    using assms(1) a by (auto simp: directory_ok_drop) (auto simp: drop_stale_routes_def)
  define a2 where "a2 = (let a1 = (if ac_preferred a \<noteq> channel \<and> cr_enabled r \<and> channel \<noteq> ''webchat''
      then a\<lparr>ac_preferred := channel\<rparr> else a)
    in if fst (drop_stale_routes (ac_id a) channel sender dy) \<noteq> 0 then a1\<lparr>ac_identifier := sender\<rparr> else a1)"
  have r: "a' = a2" "dy' = stamp_route (ac_id a) channel sender (de_now env) (set_account a2 ?d1)"
    using assms(4) [symmetric] by (simp_all only: resolve_routed_def Let_def case_prod_beta a2_def prod.inject)
  have a2: "ac_id a2 = ac_id a" "ac_user_id a2 = ac_user_id a" by (simp_all add: a2_def Let_def)
  note ids = set_account_ids [OF d1(2) a2 d1(1)]
  have ok: "directory_ok (set_account a2 ?d1)" by (rule directory_ok_set [OF d1 a2])
  have "r \<in> set (dy_routes ?d1)" using find_route_key [OF assms(2)] by (simp add: drop_stale_routes_def stale_route_def)
  then have "find_route channel sender (set_account a2 ?d1) \<noteq> None"
    using find_route_key [OF assms(2)] by (auto simp: find_route_None ids(3))
  then obtain q where q: "find_route channel sender dy' = Some q"
    by (cases "find_route channel sender dy'") (auto simp: r(2) find_stamped(1))
  from find_stamped(2) [OF q [unfolded r(2)]] obtain p where p: "find_route channel sender (set_account a2 ?d1) = Some p"
    "cr_user p = cr_user q" by auto
  have in_dy: "p \<in> set (dy_routes dy)" and key: "route_key p = route_key r"
    using find_route_key [OF p(1)] find_route_key [OF assms(2)] ids(3) by (simp_all add: drop_stale_routes_def route_key_def)
  have "inj_on route_key (set (dy_routes dy))" using assms(1) by (simp add: directory_ok_def distinct_map)
  from inj_onD [OF this key in_dy] find_route_key [OF assms(2)] have "p = r" by blast
  then have user: "cr_user q = ac_id a" using p(2) a(2) by simp
  have okd: "directory_ok dy'" unfolding r(2) by (rule directory_ok_stamp [OF ok])
  have nostale: "\<not> stale_route (ac_id a) channel sender x" if "x \<in> set (dy_routes dy')" for x
  proof -
    from stale_stamped [OF that [unfolded r(2)], of "ac_id a" channel sender] obtain y
      where "y \<in> set (dy_routes ?d1)" "stale_route (ac_id a) channel sender x = stale_route (ac_id a) channel sender y"
      unfolding ids(3) by blast
    then show ?thesis by (simp add: drop_stale_routes_def)
  qed
  have "settled (ac_id a) channel sender dy'" by (rule settledI [OF okd q user nostale])
  moreover have "others_kept (ac_id a) dy dy'" unfolding r(2)
    by (rule others_kept_trans [OF others_kept_trans [OF others_kept_writes(3) others_kept_writes(1) [OF a2(1)]] others_kept_writes(2)])
  moreover have "a2 \<in> set (dy_accounts dy')" using ids(4) by (simp add: r(2))
  ultimately show ?thesis using okd q user a2(1) unfolding r(1) by blast
qed

text \<open>A route is added for an account.\<close>

lemma added_route_effect:
  assumes "directory_ok dy" and "a \<in> set (dy_accounts dy)" and "ac_id a' = ac_id a" and "ac_user_id a' = ac_user_id a"
    and "add_route (ac_id a) channel sender dy = Inr dy1"
    and "dy' = stamp_route (ac_id a) channel sender now (set_account a' dy1)"
  shows "directory_ok dy' \<and> a' \<in> set (dy_accounts dy') \<and> others_kept (ac_id a) dy dy'
    \<and> (\<exists>q. find_route channel sender dy' = Some q \<and> cr_user q = ac_id a)"
proof -
  have d1: "directory_ok dy1" "a \<in> set (dy_accounts dy1)"
    using directory_ok_add [OF assms(1,5)] assms(2,5) by (auto simp: add_route_def split: if_splits)
  note ids = set_account_ids [OF d1(2) assms(3,4) d1(1)]
  have none: "find_route channel sender dy = None" using assms(5) by (auto simp: add_route_def split: if_splits)
  let ?new = "\<lparr>cr_user = ac_id a, cr_channel = channel, cr_identifier = sender, cr_enabled = True, cr_last_inbound = None\<rparr>"
  have routes: "dy_routes (set_account a' dy1) = dy_routes dy @ [?new]"
    using assms(5) none ids(3) by (auto simp: add_route_def)
  have "find_route channel sender (set_account a' dy1) \<noteq> None" by (simp add: find_route_None routes)
  then obtain q where q: "find_route channel sender dy' = Some q"
    by (cases "find_route channel sender dy'") (auto simp: assms(6) find_stamped(1))
  from find_stamped(2) [OF q [unfolded assms(6)]] obtain p where p: "find_route channel sender (set_account a' dy1) = Some p"
    "cr_user p = cr_user q" by auto
  have "p = ?new" using find_route_key [OF p(1)] none routes by (auto simp: find_route_None)
  then have "cr_user q = ac_id a" using p(2) by simp
  moreover have "others_kept (ac_id a) dy dy'" unfolding assms(6)
    by (rule others_kept_trans [OF others_kept_trans [OF others_kept_writes(4) [OF assms(5)] others_kept_writes(1) [OF assms(3)]]
          others_kept_writes(2)])
  ultimately show ?thesis using q directory_ok_set [OF d1 assms(3,4)] ids(4) assms(6) by (simp add: directory_ok_stamp)
qed

lemma create_user_effect:
  assumes "directory_ok dy" and "create_user env channel sender dy = Inr (a, dy')"
  shows "directory_ok dy' \<and> a \<in> set (dy_accounts dy') \<and> others_kept (ac_id a) dy dy'
    \<and> (\<exists>q. find_route channel sender dy' = Some q \<and> cr_user q = ac_id a)
    \<and> ac_user_id a = channel @ ''_'' @ sender \<and> ac_id a \<notin> ac_id ` set (dy_accounts dy)"
proof -
  let ?a = "provision_user env (new_account env channel sender)" and ?d = "dy\<lparr>dy_accounts := dy_accounts dy @ [a]\<rparr>"
  have a: "a = ?a" and fresh: "find_by_user_id (ac_user_id a) dy = None" "find_account (ac_id a) dy = None"
    using assms(2) by (auto simp: create_user_def Let_def and_then_Inr split: if_splits)
  then obtain dy1 where dy1: "add_route (ac_id a) channel sender ?d = Inr dy1"
    "dy' = stamp_route (ac_id a) channel sender (de_now env) dy1"
    using assms(2) by (auto simp: create_user_def Let_def and_then_Inr)
  have new: "ac_id a \<notin> ac_id ` set (dy_accounts dy)" "ac_user_id a \<notin> ac_user_id ` set (dy_accounts dy)"
    using fresh by (auto simp: find_by_user_id_def find_account_def find_None_iff)
  then have ok: "directory_ok ?d" using assms(1) by (auto simp: directory_ok_def)
  have d1: "directory_ok dy1" "dy_accounts dy1 = dy_accounts dy @ [a]"
    using directory_ok_add [OF ok dy1(1)] dy1(1) by (auto simp: add_route_def split: if_splits)
  have "map (\<lambda>b. if ac_id b = ac_id a then a else b) (dy_accounts dy1) = dy_accounts dy1"
    unfolding d1(2) using new(1) by (intro map_idI) (auto simp: image_iff)
  then have "set_account a dy1 = dy1" by (simp add: set_account_def)
  then have same: "dy' = stamp_route (ac_id a) channel sender (de_now env) (set_account a dy1)" using dy1(2) by simp
  have "a \<in> set (dy_accounts ?d)" by simp
  from added_route_effect [OF ok this refl refl dy1(1) same]
  show ?thesis using a new by (auto simp: others_kept_def provision_user_def new_account_def)
qed

lemma in_extended:
  "extends dy' dy \<Longrightarrow> find_account uid dy = Some a \<Longrightarrow> a \<in> set (dy_accounts dy')"
  using find_account_id by (fastforce simp: extends_def)

lemma route_owner:
  assumes "directory_ok dy" and "find_route channel sender dy = Some r"
  obtains b where "find_account (cr_user r) dy = Some b"
proof -
  have "cr_user r \<in> ac_id ` set (dy_accounts dy)" using find_route_key [OF assms(2)] assms(1) by (auto simp: directory_ok_def)
  then show thesis using that
    by (cases "find_account (cr_user r) dy") (auto simp: find_account_def find_None_iff)
qed

text \<open>How a resolution went: by route, by linking an account, or after a lost race.\<close>

lemma get_or_create_cases:
  assumes "get_or_create_user env race channel sender dy = (Inr a, dy')" and "directory_ok dy" and "directory_ok (race dy)"
    and "extends (race dy) dy"
  obtains (routed) r b where "find_route channel sender dy = Some r" "find_account (cr_user r) dy = Some b" "ac_id a = ac_id b"
      "directory_ok dy'" "a \<in> set (dy_accounts dy')" "others_kept (ac_id a) dy dy'" "settled (ac_id a) channel sender dy'"
      "\<exists>q. find_route channel sender dy' = Some q \<and> cr_user q = ac_id a"
  | (linked) "find_route channel sender dy = None" "directory_ok dy'" "a \<in> set (dy_accounts dy')"
      "others_kept (ac_id a) (race dy) dy'" "\<exists>q. find_route channel sender dy' = Some q \<and> cr_user q = ac_id a"
      "de_single_user env \<or> ac_id a = sender \<or> ac_user_id a = channel @ ''_'' @ sender \<and> ac_id a \<notin> ac_id ` set (dy_accounts (race dy))"
  | (lost) "dy' = race dy" "find_route channel sender dy = None" "requery_user channel sender (race dy) = Some a"
proof (cases "find_route channel sender dy")
  case (Some r)
  obtain b where b: "find_account (cr_user r) dy = Some b" by (rule route_owner [OF assms(2) Some])
  have "resolve_routed env channel sender r b dy = (a, dy')"
    using assms(1) Some b by (auto simp: get_or_create_user_def Let_def split: prod.splits)
  from resolve_routed_effect [OF assms(2) Some b this] show ?thesis using routed [OF Some b] by auto
next
  case None
  note goc = assms(1) [unfolded get_or_create_user_def Let_def None option.case]
  show ?thesis
  proof (cases "length (dy_accounts dy) = 1 \<and> de_single_user env")
    case True
    let ?b = "hd (dy_accounts dy)" and ?d = "snd (drop_stale_routes (ac_id (hd (dy_accounts dy))) channel sender (race dy))"
    obtain dy1 where d: "add_route (ac_id ?b) channel sender ?d = Inr dy1" "a = ?b\<lparr>ac_identifier := sender, ac_preferred := channel\<rparr>"
      "dy' = stamp_route (ac_id ?b) channel sender (de_now env) (set_account a dy1)"
      using goc True by (auto simp: link_sole_user_def Let_def and_then_Inr split: sum.splits prod.splits)
    have "?b \<in> set (dy_accounts dy)" using True by (cases "dy_accounts dy") auto
    then have b: "?b \<in> set (dy_accounts ?d)" using assms(4) by (auto simp: extends_def drop_stale_routes_def)
    have id: "ac_id a = ac_id ?b" "ac_user_id a = ac_user_id ?b" by (simp_all add: d(2))
    from added_route_effect [OF directory_ok_drop [OF assms(3)] b id d(1,3)]
    have "directory_ok dy'" "a \<in> set (dy_accounts dy')" "others_kept (ac_id a) (race dy) dy'"
      "\<exists>q. find_route channel sender dy' = Some q \<and> cr_user q = ac_id a"
      using others_kept_trans [OF others_kept_writes(3)] id(1) by auto
    then show ?thesis using linked [OF None] True by blast
  next
    case False
    note goc' = goc [unfolded if_not_P [OF False]]
    show ?thesis
    proof (cases "find_account sender dy")
      case (Some b)
      obtain dy1 where d: "add_route (ac_id b) channel sender (race dy) = Inr dy1" "a = provision_user env b"
        "dy' = stamp_route (ac_id b) channel sender (de_now env) (set_account a dy1)"
        using goc' Some by (auto simp: link_primary_key_def Let_def and_then_Inr split: sum.splits prod.splits)
      have id: "ac_id a = ac_id b" "ac_user_id a = ac_user_id b" by (simp_all add: d(2) provision_user_def)
      from added_route_effect [OF assms(3) in_extended [OF assms(4) Some] id d(1,3)]
      show ?thesis using linked [OF None] id(1) find_account_id [OF Some] by auto
    next
      case none: None
      show ?thesis
      proof (cases "create_user env channel sender (race dy)")
        case (Inl e)
        then show ?thesis using goc' none lost [OF _ None] by (auto split: option.splits)
      next
        case (Inr p)
        then have "create_user env channel sender (race dy) = Inr (a, dy')" using goc' none by (auto split: prod.splits)
        from create_user_effect [OF assms(3) this] show ?thesis using linked [OF None] by blast
      qed
    qed
  qed
qed

text \<open>
  C18. A message touches its own sender's account only. Whatever other transactions commit in
  between, resolving a sender leaves every row of every other account and keeps the constraints of
  the tables; and on a multi-tenant deployment a sender without a route is never given an account
  that exists unless it is the sender's own: its primary key is the sender id, or its user id is
  the one made of the channel and the sender, or a racing transaction gave it the sender's route.
\<close>

theorem sender_isolated:
  assumes "get_or_create_user env race channel sender dy = (Inr a, dy')" and "directory_ok dy" and "directory_ok (race dy)"
    and "extends (race dy) dy"
  shows "directory_ok dy' \<and> others_kept (ac_id a) dy dy'
    \<and> (\<not> de_single_user env \<and> find_route channel sender dy = None \<and> ac_id a \<in> ac_id ` set (dy_accounts (race dy))
         \<longrightarrow> ac_id a = sender \<or> ac_user_id a = channel @ ''_'' @ sender
             \<or> (\<exists>r. find_route channel sender (race dy) = Some r \<and> cr_user r = ac_id a))"
proof -
  have more: "others_kept uid dy d" if "others_kept uid (race dy) d" for uid d
    using assms(4) that by (auto simp: others_kept_def extends_def)
  from assms show ?thesis
  proof (cases rule: get_or_create_cases)
    case (routed r b)
    then show ?thesis by simp
  next
    case linked
    then show ?thesis using more by blast
  next
    case lost
    have "others_kept (ac_id a) (race dy) (race dy)" by (simp add: others_kept_def)
    moreover have "(\<exists>r. find_route channel sender (race dy) = Some r \<and> cr_user r = ac_id a) \<or> ac_user_id a = channel @ ''_'' @ sender"
      using lost(3) find_account_id
      by (auto simp: requery_user_def find_by_user_id_def dest!: find_SomeD split: option.splits)
    ultimately show ?thesis using lost(1) assms(3) more by auto
  qed
qed

text \<open>
  A resolved sender stays resolved: once a message is resolved and the sender has a route, the
  next message of the sender finds the same account again, and from then on that account has
  exactly one route on the channel, so that the enabled check and the reply address are defined
  and replies go to the sender.
\<close>

theorem sender_resolved_stably:
  assumes "get_or_create_user env race channel sender dy = (Inr a, dy')" and "directory_ok dy" and "directory_ok (race dy)"
    and "extends (race dy) dy" and "find_route channel sender dy' = Some r" and "sender \<noteq> []"
    and "get_or_create_user env2 race2 channel sender dy' = (res, dy'')"
  shows "\<exists>a2. res = Inr a2 \<and> ac_id a2 = ac_id a
    \<and> reply_address a2 channel dy'' = Inr sender \<and> (\<exists>b. check_channel_route_enabled (ac_id a2) channel dy'' = Inr (Some b))"
proof -
  have ok: "directory_ok dy'" using assms(1-4) by (cases rule: get_or_create_cases) (use assms(3) in auto)
  obtain b where b: "find_account (cr_user r) dy' = Some b" by (rule route_owner [OF ok assms(5)])
  have owner: "cr_user r = ac_id a"
    using assms(1-4) by (cases rule: get_or_create_cases) (use assms(5) b find_account_id [OF b] in \<open>auto simp: requery_user_def\<close>)
  obtain a2 where r: "resolve_routed env2 channel sender r b dy' = (a2, dy'')" "res = Inr a2"
    using assms(7) assms(5) b by (auto simp: get_or_create_user_def Let_def split: prod.splits)
  from resolve_routed_effect [OF ok assms(5) b r(1)] find_account_id [OF b]
  have "ac_id a2 = cr_user r" "settled (ac_id a2) channel sender dy''" by auto
  then show ?thesis using r(2) owner assms(6)
    by (auto simp: settled_def reply_address_def check_channel_route_enabled_def Let_def)
qed

section \<open>A route per channel\<close>

text \<open>
  Linking by primary key drops no stale route: an account with another identifier on the channel
  then has two, and the enabled check of that very message raises.
\<close>

lemma primary_key_link_duplicates:
  assumes "find_route channel sender dy = None" and "find_account sender dy = Some a" and "directory_ok dy"
    and "\<not> de_single_user env" and "r \<in> set (dy_routes dy)" and "cr_user r = sender" and "cr_channel r = channel"
  shows "\<exists>a' dy'. get_or_create_user env (\<lambda>d. d) channel sender dy = (Inr a', dy')
    \<and> check_channel_route_enabled sender channel dy' = Inl Multiple_results_found"
proof -
  have id: "ac_id a = sender" using find_account_id [OF assms(2)] by simp
  let ?new = "\<lparr>cr_user = sender, cr_channel = channel, cr_identifier = sender, cr_enabled = True, cr_last_inbound = Some (de_now env)\<rparr>"
  let ?P = "\<lambda>r. cr_user r = sender \<and> cr_channel r = channel"
  have "dy_routes dy = map (\<lambda>r. if cr_user r = sender \<and> cr_channel r = channel \<and> cr_identifier r = sender
      then r\<lparr>cr_last_inbound := Some (de_now env)\<rparr> else r) (dy_routes dy)"
    using assms(1) by (intro map_idI [symmetric]) (auto simp: find_route_None)
  then obtain a' dy' where g: "get_or_create_user env (\<lambda>d. d) channel sender dy = (Inr a', dy')"
    and routes: "dy_routes dy' = dy_routes dy @ [?new]"
    using assms(1,2,4) id
    by (simp add: get_or_create_user_def Let_def link_primary_key_def add_route_def stamp_route_def set_account_def)
  have "r \<in> set (filter ?P (dy_routes dy))" using assms(5-7) by simp
  then obtain x xs where "filter ?P (dy_routes dy) = x # xs" by (cases "filter ?P (dy_routes dy)") auto
  then have "check_channel_route_enabled sender channel dy' = Inl Multiple_results_found"
    by (cases xs) (simp_all add: check_channel_route_enabled_def routes)
  then show ?thesis using g by blast
qed

section \<open>A resolution\<close>

definition demo_env :: directory_env where
  "demo_env = \<lparr>de_single_user = False, de_now = 7, de_fresh_id = ''u9'', de_default_soul = ''kind'', de_default_user = ''new''\<rparr>"

definition demo_directory :: directory where
  "demo_directory =
     \<lparr>dy_accounts = [\<lparr>ac_id = ''u1'', ac_user_id = ''sms_1'', ac_identifier = ''1'', ac_phone = [], ac_preferred = ''sms'',
        ac_soul_text = ''s'', ac_user_text = ''u''\<rparr>],
      dy_routes = [\<lparr>cr_user = ''u1'', cr_channel = ''sms'', cr_identifier = ''1'', cr_enabled = True, cr_last_inbound = None\<rparr>]\<rparr>"

lemma demo_created:
  "\<exists>a dy' r. get_or_create_user demo_env (\<lambda>d. d) ''sms'' ''2'' demo_directory = (Inr a, dy') \<and> ac_id a = ''u9''
     \<and> find_route ''sms'' ''2'' dy' = Some r \<and> cr_user r = ''u9'' \<and> directory_ok demo_directory"
  by (simp add: get_or_create_user_def find_route_def find_account_def create_user_def demo_env_def demo_directory_def Let_def
      find_by_user_id_def provision_user_def new_account_def add_route_def stamp_route_def directory_ok_def route_key_def)

theorem sender_isolated_witness:
  "\<exists>a dy'. get_or_create_user demo_env (\<lambda>d. d) ''sms'' ''2'' demo_directory = (Inr a, dy') \<and> others_kept (ac_id a) demo_directory dy'"
proof -
  from demo_created obtain a dy' where g: "get_or_create_user demo_env (\<lambda>d. d) ''sms'' ''2'' demo_directory = (Inr a, dy')"
    and ok: "directory_ok demo_directory" by (elim exE conjE) (rule that)
  from sender_isolated [OF g ok ok] g show ?thesis by (simp add: extends_def)
qed

theorem sender_resolved_stably_witness:
  "\<exists>a2 dy'. get_or_create_user demo_env (\<lambda>d. d) ''sms'' ''2'' (snd (get_or_create_user demo_env (\<lambda>d. d) ''sms'' ''2'' demo_directory))
     = (Inr a2, dy') \<and> ac_id a2 = ''u9'' \<and> reply_address a2 ''sms'' dy' = Inr ''2''"
proof -
  from demo_created obtain a dy' r where g: "get_or_create_user demo_env (\<lambda>d. d) ''sms'' ''2'' demo_directory = (Inr a, dy')"
    and r: "find_route ''sms'' ''2'' dy' = Some r" "ac_id a = ''u9''" and ok: "directory_ok demo_directory"
    by (elim exE conjE) (rule that)
  obtain res dy2 where again: "get_or_create_user demo_env (\<lambda>d. d) ''sms'' ''2'' dy' = (res, dy2)" by fastforce
  from sender_resolved_stably [OF g ok ok _ r(1) _ again] g r(2) again show ?thesis by (auto simp: extends_def)
qed

end
