(* ===== verification/Receipts.thy ===== *)
theory Receipts
  imports History
begin

text \<open>
  The receipt block under a reply (\<open>tool_summary.py\<close>): rendering, grouping by link, the length cap,
  and the removal of receipts the model made up.

  The regular expressions are written out as functions on strings. The middle dot that joins the
  verbs of a group is the Latin-1 character \<open>0xB7\<close>.
\<close>

section \<open>Characters\<close>

definition is_ctrl :: "char \<Rightarrow> bool" where
  "is_ctrl c \<longleftrightarrow> (let n = (of_char c :: nat) in n < 32 \<or> n = 127)"

definition is_word :: "char \<Rightarrow> bool" where
  "is_word c \<longleftrightarrow> (let n = (of_char c :: nat) in 48 \<le> n \<and> n \<le> 57 \<or> 65 \<le> n \<and> n \<le> 90 \<or> 97 \<le> n \<and> n \<le> 122 \<or> n = 95)"

definition space_char :: char where
  "space_char = CHR '' ''"

text \<open>\<open>re.sub(r"\s+", " ", s)\<close>.\<close>

function collapse_spaces :: "string \<Rightarrow> string" where
  "collapse_spaces [] = []"
| "collapse_spaces (c # cs) =
     (if is_space c then space_char # collapse_spaces (dropWhile is_space cs) else c # collapse_spaces cs)"
  by pat_completeness auto
termination
  by (relation "measure length") (auto simp: le_imp_less_Suc length_dropWhile_le)

definition scrub :: "string \<Rightarrow> string" where
  "scrub t = (if t = [] then t else py_strip (collapse_spaces (map (\<lambda>c. if is_ctrl c then space_char else c) t)))"

text \<open>\<open>s.count(sub)\<close>, without overlaps.\<close>

function py_count :: "string \<Rightarrow> string \<Rightarrow> nat" where
  "py_count sub [] = 0"
| "py_count sub (c # cs) =
     (if sub \<noteq> [] \<and> prefix sub (c # cs) then Suc (py_count sub (drop (length sub) (c # cs))) else py_count sub cs)"
  by pat_completeness auto
termination
  by (relation "measure (\<lambda>(sub, s). length s)") (auto simp: gr0_conv_Suc neq_Nil_conv)

definition display_url :: "string \<Rightarrow> string" where
  "display_url url =
     (if \<not> prefix ''https://'' url then url
      else (let lowered = py_lower url
            in if 1 < py_count ''://'' lowered \<or> contains ''%2f%2f'' lowered then url else drop 8 url))"

section \<open>One receipt\<close>

definition truthy_url :: "string option \<Rightarrow> string option" where
  "truthy_url url = (case url of Some u \<Rightarrow> if u \<noteq> [] then Some u else None | None \<Rightarrow> None)"

definition render_receipt_line :: "string \<Rightarrow> string \<Rightarrow> string option \<Rightarrow> string" where
  "render_receipt_line action target url =
     (let head = py_rstrip (''- '' @ scrub action @ '' '' @ scrub target)
      in case truthy_url url of
           Some u \<Rightarrow> head @ [nl] @ ''  '' @ scrub (display_url u)
         | None \<Rightarrow> head)"

section \<open>Groups of receipts with one link\<close>

definition prefix_ci :: "string \<Rightarrow> string \<Rightarrow> bool" where
  "prefix_ci p s \<longleftrightarrow> prefix p (py_lower s)"

text \<open>\<open>(?:on\s+|to\s+)?\<close> at the head.\<close>

definition after_preposition :: "string \<Rightarrow> string" where
  "after_preposition s =
     (if (prefix_ci ''on'' s \<or> prefix_ci ''to'' s) \<and> drop 2 s \<noteq> [] \<and> is_space (hd (drop 2 s))
      then dropWhile is_space (drop 2 s) else s)"

text \<open>\<open>companycam(?:\s+\w+)?\s*$\<close>.\<close>

definition companycam_rest :: "string \<Rightarrow> bool" where
  "companycam_rest s \<longleftrightarrow> prefix_ci ''companycam'' s
     \<and> (let r = drop 10 s; w = dropWhile is_space r
        in w = [] \<or> r \<noteq> w \<and> is_word (hd w) \<and> list_all is_space (dropWhile is_word w))"

definition cc_tail :: "string \<Rightarrow> bool" where
  "cc_tail s \<longleftrightarrow> (let t = dropWhile is_space s in companycam_rest (after_preposition t) \<or> companycam_rest t)"

fun strip_cc_tail :: "string \<Rightarrow> string" where
  "strip_cc_tail [] = []"
| "strip_cc_tail (c # cs) = (if cc_tail (c # cs) then [] else c # strip_cc_tail cs)"

definition verb_phrase :: "string \<Rightarrow> string" where
  "verb_phrase action = py_lower (py_strip (strip_cc_tail action))"

definition generic_targets :: "string list" where
  "generic_targets = [''project'', ''photo'', ''checklist'', ''comment'', ''event'', ''invoice'', ''customer'', ''estimate'']"

definition pick_group_subject :: "(string \<times> string) list \<Rightarrow> string" where
  "pick_group_subject entries =
     (case find (\<lambda>(action, target). scrub target \<noteq> [] \<and> scrub target \<notin> set generic_targets) entries of
        Some (action, target) \<Rightarrow> target
      | None \<Rightarrow> snd (last entries))"

definition entry_verb :: "string \<Rightarrow> string \<times> string \<Rightarrow> string" where
  "entry_verb subject e =
     (let verb = verb_phrase (fst e); t = scrub (snd e)
      in if t \<noteq> [] \<and> t \<noteq> scrub subject \<and> t \<notin> set generic_targets then verb @ '' ('' @ t @ '')'' else verb)"

definition verb_separator :: string where
  "verb_separator = '' '' @ [CHR 0xB7] @ '' ''"

definition render_group :: "(string \<times> string) list \<Rightarrow> string \<Rightarrow> string \<Rightarrow> string" where
  "render_group entries subject url =
     (let verbs = filter (\<lambda>v. v \<noteq> []) (map (entry_verb subject) entries);
          head = py_rstrip (''- '' @ scrub subject); link = ''  '' @ scrub (display_url url)
      in if verbs = [] then head @ [nl] @ link
         else head @ [nl] @ ''  '' @ py_join verb_separator verbs @ [nl] @ link)"

record bucket =
  bk_url :: "string option"
  bk_entries :: "(string \<times> string) list"

definition shown_receipts :: "stored_interaction list \<Rightarrow> stored_receipt list" where
  "shown_receipts calls =
     concat (map (\<lambda>tc. case si_receipt tc of
         Some r \<Rightarrow> if \<not> si_is_error tc \<and> rcpt_action r \<noteq> [] \<and> rcpt_target r \<noteq> [] then [r] else []
       | None \<Rightarrow> []) calls)"

definition receipt_entry :: "stored_receipt \<Rightarrow> string \<times> string" where
  "receipt_entry r = (rcpt_action r, rcpt_target r)"

definition add_to_buckets :: "stored_receipt \<Rightarrow> bucket list \<Rightarrow> bucket list" where
  "add_to_buckets r bs =
     (let url = truthy_url (rcpt_url r); e = receipt_entry r
      in if url \<noteq> None \<and> list_ex (\<lambda>b. bk_url b = url) bs
         then map (\<lambda>b. if bk_url b = url then b\<lparr>bk_entries := bk_entries b @ [e]\<rparr> else b) bs
         else bs @ [\<lparr>bk_url = url, bk_entries = [e]\<rparr>])"

definition buckets_of :: "stored_interaction list \<Rightarrow> bucket list" where
  "buckets_of calls = fold add_to_buckets (shown_receipts calls) []"

definition render_bucket :: "bucket \<Rightarrow> string" where
  "render_bucket b =
     (case bk_url b of
        None \<Rightarrow> render_receipt_line (fst (hd (bk_entries b))) (snd (hd (bk_entries b))) None
      | Some url \<Rightarrow>
          (case bk_entries b of
             [(action, target)] \<Rightarrow> render_receipt_line action target (Some url)
           | entries \<Rightarrow> render_group entries (pick_group_subject entries) url))"

definition collect_receipts :: "stored_interaction list \<Rightarrow> string list" where
  "collect_receipts calls = map render_bucket (buckets_of calls)"

section \<open>The block\<close>

definition max_receipts_chars :: nat where
  "max_receipts_chars = 2000"

definition more_suffix :: "nat \<Rightarrow> string" where
  "more_suffix k = [nl] @ ''(+'' @ nat_str k @ '' more)''"

fun truncate_loop :: "string list \<Rightarrow> nat \<Rightarrow> string list \<Rightarrow> string" where
  "truncate_loop kept running [] = py_join [nl] kept"
| "truncate_loop kept running (l # ls) =
     (let suf = more_suffix (length (l # ls)); addition = (if kept = [] then 0 else 1) + length l
      in if max_receipts_chars < running + addition + length suf then py_join [nl] kept @ suf
         else truncate_loop (kept @ [l]) (running + addition) ls)"

definition truncate_block :: "string list \<Rightarrow> string" where
  "truncate_block lines' =
     (let full = py_join [nl] lines'
      in if length full \<le> max_receipts_chars then full else truncate_loop [] 0 lines')"

definition format_receipts_block :: "stored_interaction list \<Rightarrow> string" where
  "format_receipts_block calls =
     (let ls = collect_receipts calls in if ls = [] then [] else truncate_block ls)"

section \<open>Receipts the model made up\<close>

definition fabricated_receipt_verbs :: "string list" where
  "fabricated_receipt_verbs =
     [''archived'', ''canceled'', ''cancelled'', ''created'', ''deleted'', ''emailed'', ''filed'', ''modified'',
      ''posted'', ''removed'', ''replied'', ''scheduled'', ''sent'', ''submitted'', ''tagged'', ''updated'', ''uploaded'']"

definition receipt_action_stopwords :: "string list" where
  "receipt_action_stopwords =
     [''a'', ''an'', ''and'', ''as'', ''at'', ''by'', ''for'', ''from'', ''in'', ''of'', ''on'', ''or'', ''the'', ''to'',
      ''via'', ''with'']"

text \<open>The non-empty pieces of \<open>re.split(r"[^\w]+", s)\<close>.\<close>

function word_runs :: "string \<Rightarrow> string list" where
  "word_runs s =
     (case dropWhile (\<lambda>c. \<not> is_word c) s of
        [] \<Rightarrow> []
      | c # cs \<Rightarrow> (c # takeWhile is_word cs) # word_runs (dropWhile is_word cs))"
  by pat_completeness auto
termination
proof (relation "measure length")
  fix s c cs
  assume "dropWhile (\<lambda>c. \<not> is_word c) s = c # cs"
  then have "length (c # cs) \<le> length s" by (metis length_dropWhile_le)
  then show "(dropWhile is_word cs, s) \<in> measure length" using length_dropWhile_le [of is_word cs] by simp
qed simp

declare word_runs.simps [simp del]

definition lower_words :: "string \<Rightarrow> string list" where
  "lower_words s = map py_lower (word_runs s)"

definition strip_nouns :: "stored_interaction list \<Rightarrow> string list" where
  "strip_nouns calls =
     concat (map (\<lambda>tc. case si_receipt tc of
         Some r \<Rightarrow>
           if \<not> si_is_error tc \<and> rcpt_action r \<noteq> []
           then filter (\<lambda>w. 3 \<le> length w \<and> w \<notin> set receipt_action_stopwords) (tl (lower_words (rcpt_action r))) else []
       | None \<Rightarrow> []) calls)"

text \<open>\<open>_BULLET_RE\<close>: the verb and the rest of a bullet.\<close>

definition bullet :: "string \<Rightarrow> (string \<times> string) option" where
  "bullet line =
     (case dropWhile is_space line of
        c # cs \<Rightarrow>
          (let r = dropWhile is_space cs; verb = takeWhile is_word r
           in if c = CHR ''-'' \<and> r \<noteq> cs \<and> verb \<noteq> [] then Some (verb, dropWhile is_word r) else None)
      | [] \<Rightarrow> None)"

definition indented :: "string \<Rightarrow> bool" where
  "indented line \<longleftrightarrow> 2 \<le> length (takeWhile is_space line) \<and> dropWhile is_space line \<noteq> []"

definition fabricated :: "string list \<Rightarrow> string \<Rightarrow> bool" where
  "fabricated nouns line \<longleftrightarrow>
     (case bullet line of
        Some (verb, rest) \<Rightarrow>
          py_lower verb \<in> set fabricated_receipt_verbs \<and> list_ex (\<lambda>w. w \<in> set nouns) (lower_words rest)
      | None \<Rightarrow> False)"

fun keep_genuine :: "string list \<Rightarrow> bool \<Rightarrow> string list \<Rightarrow> string list" where
  "keep_genuine nouns drop_indented [] = []"
| "keep_genuine nouns drop_indented (l # ls) =
     (if drop_indented \<and> indented l then keep_genuine nouns True ls
      else if fabricated nouns l then keep_genuine nouns True ls
      else l # keep_genuine nouns False ls)"

text \<open>\<open>s.split("\n")\<close>.\<close>

fun split_lines :: "string \<Rightarrow> string list" where
  "split_lines [] = [[]]"
| "split_lines (c # cs) =
     (if c = nl then [] # split_lines cs else (c # hd (split_lines cs)) # tl (split_lines cs))"

definition strip_fabricated_receipts :: "string \<Rightarrow> stored_interaction list \<Rightarrow> string" where
  "strip_fabricated_receipts reply calls =
     (let nouns = strip_nouns calls
      in if reply = [] \<or> nouns = [] then reply
         else py_join [nl] (rev (dropWhile (\<lambda>l. py_strip l = []) (rev (keep_genuine nouns False (split_lines reply))))))"

definition append_receipts :: "string \<Rightarrow> stored_interaction list \<Rightarrow> string" where
  "append_receipts reply calls =
     (let block = format_receipts_block calls
      in if block = [] then reply
         else (let cleaned = strip_fabricated_receipts reply calls
               in if cleaned = [] then block else cleaned @ [nl, nl] @ block))"

section \<open>No line can be forged\<close>

lemma collapse_subset: "set (collapse_spaces s) \<subseteq> insert space_char (set s)"
  by (induction s rule: collapse_spaces.induct) (auto dest: set_dropWhileD)

lemma strip_subset: "set (py_strip s) \<subseteq> set s"
  by (auto simp: py_strip_def py_rstrip_def py_lstrip_def dest!: set_dropWhileD)

lemma rstrip_subset: "set (py_rstrip s) \<subseteq> set s"
  by (auto simp: py_rstrip_def dest!: set_dropWhileD)

lemma scrub_no_ctrl: "c \<in> set (scrub t) \<Longrightarrow> \<not> is_ctrl c"
proof -
  let ?m = "map (\<lambda>c. if is_ctrl c then space_char else c) t"
  assume "c \<in> set (scrub t)"
  then have "c \<in> set (py_strip (collapse_spaces ?m))" by (auto simp: scrub_def split: if_splits)
  then have "c \<in> insert space_char (set ?m)" using strip_subset collapse_subset by blast
  moreover have "\<not> is_ctrl space_char" by (simp add: is_ctrl_def space_char_def)
  ultimately show ?thesis by (auto split: if_splits)
qed

lemma nl_ctrl: "is_ctrl nl"
  by (simp add: is_ctrl_def nl_def)

lemma nl_not_scrub [simp]: "nl \<notin> set (scrub t)"
  using scrub_no_ctrl nl_ctrl by blast

lemma lower_char_nl: "lower_char c = nl \<Longrightarrow> c = nl"
proof (rule ccontr)
  assume low: "lower_char c = nl" and "c \<noteq> nl"
  let ?n = "of_char c :: nat"
  have n: "65 \<le> ?n" "?n \<le> 90" "char_of (?n + 32) = nl"
    using low \<open>c \<noteq> nl\<close> by (auto simp: lower_char_def Let_def split: if_splits)
  from arg_cong [OF n(3), of "of_char :: char \<Rightarrow> nat"] have "(?n + 32) mod 256 = 10" by (simp add: nl_def)
  then show False using n by simp
qed

lemma nl_not_lower: "nl \<in> set (py_lower s) \<Longrightarrow> nl \<in> set s"
  by (auto simp: py_lower_def) (metis lower_char_nl)

lemma strip_cc_tail_subset: "set (strip_cc_tail s) \<subseteq> set s"
  by (induction s) auto

lemma nl_not_verb: "nl \<notin> set action \<Longrightarrow> nl \<notin> set (verb_phrase action)"
  using strip_cc_tail_subset strip_subset nl_not_lower unfolding verb_phrase_def by blast

lemma nl_not_entry_verb: "nl \<notin> set (fst e) \<Longrightarrow> nl \<notin> set (entry_verb subject e)"
  using nl_not_verb [of "fst e"] by (auto simp: entry_verb_def Let_def) (simp_all add: nl_def)

lemma nl_not_join: "nl \<notin> set sep \<Longrightarrow> \<forall>x \<in> set xs. nl \<notin> set x \<Longrightarrow> nl \<notin> set (py_join sep xs)"
  by (induction sep xs rule: py_join.induct) auto

text \<open>The shape of a receipt: a head and at most two indented lines.\<close>

definition receipt_shape :: "string \<Rightarrow> bool" where
  "receipt_shape l \<longleftrightarrow> (\<exists>head below. l = py_join [nl] (head # below) \<and> prefix ''-'' head \<and> nl \<notin> set head
     \<and> length below \<le> 2 \<and> (\<forall>m \<in> set below. prefix ''  '' m \<and> nl \<notin> set m))"

lemma receipt_shapeI:
  assumes "l = py_join [nl] (head # below)" and "prefix ''-'' head" and "nl \<notin> set head" and "length below \<le> 2"
    and "\<And>m. m \<in> set below \<Longrightarrow> prefix ''  '' m \<and> nl \<notin> set m"
  shows "receipt_shape l"
  unfolding receipt_shape_def using assms by blast

lemma head_shape:
  assumes "nl \<notin> set t"
  shows "prefix ''-'' (py_rstrip (''- '' @ t)) \<and> nl \<notin> set (py_rstrip (''- '' @ t))"
proof -
  have dash: "\<not> is_space (CHR ''-'')" by (simp add: is_space_def)
  have "rev (''- '' @ t) = (rev t @ '' '') @ ''-''" by simp
  then have "dropWhile is_space (rev (''- '' @ t)) = dropWhile is_space (rev t @ '' '') @ ''-''"
    using dash by (simp only: dropWhile_append) (auto simp: dropWhile_eq_Nil_conv)
  then have "py_rstrip (''- '' @ t) = ''-'' @ rev (dropWhile is_space (rev t @ '' ''))" by (simp add: py_rstrip_def)
  moreover have "nl \<notin> set (py_rstrip (''- '' @ t))"
    using assms rstrip_subset [of "''- '' @ t"] by (auto simp: nl_def)
  ultimately show ?thesis by simp
qed

lemma render_line_shape: "receipt_shape (render_receipt_line action target url)"
proof -
  let ?t = "scrub action @ '' '' @ scrub target"
  have t: "nl \<notin> set ?t" by (simp add: nl_def [symmetric]) (simp add: nl_def)
  note h = head_shape [OF t]
  show ?thesis
  proof (cases "truthy_url url")
    case None
    then show ?thesis using h
      by (intro receipt_shapeI [where head = "py_rstrip (''- '' @ ?t)" and below = "[]"]) (simp_all add: render_receipt_line_def)
  next
    case (Some u)
    have "nl \<notin> set (''  '' @ scrub (display_url u))" by (simp add: nl_def [symmetric]) (simp add: nl_def)
    then show ?thesis using h Some
      by (intro receipt_shapeI [where head = "py_rstrip (''- '' @ ?t)" and below = "[''  '' @ scrub (display_url u)]"])
        (auto simp: render_receipt_line_def Let_def)
  qed
qed

lemma render_group_shape:
  assumes "\<forall>e \<in> set entries. nl \<notin> set (fst e)"
  shows "receipt_shape (render_group entries subject url)"
proof -
  have link: "nl \<notin> set (''  '' @ scrub (display_url url))" by (simp add: nl_def [symmetric]) (simp add: nl_def)
  have sub: "nl \<notin> set (scrub subject)" by simp
  let ?verbs = "filter (\<lambda>v. v \<noteq> []) (map (entry_verb subject) entries)"
  have "nl \<notin> set (py_join verb_separator ?verbs)"
    using assms nl_not_entry_verb by (intro nl_not_join) (auto simp: verb_separator_def nl_def)
  then have v: "nl \<notin> set (''  '' @ py_join verb_separator ?verbs)" by (simp add: nl_def)
  show ?thesis
  proof (cases "?verbs = []")
    case True
    then show ?thesis using head_shape [OF sub] link
      by (intro receipt_shapeI [where head = "py_rstrip (''- '' @ scrub subject)" and below = "[''  '' @ scrub (display_url url)]"])
        (auto simp: render_group_def Let_def)
  next
    case False
    then show ?thesis using head_shape [OF sub] link v
      by (intro receipt_shapeI [where head = "py_rstrip (''- '' @ scrub subject)"
            and below = "[''  '' @ py_join verb_separator ?verbs, ''  '' @ scrub (display_url url)]"])
        (auto simp: render_group_def Let_def)
  qed
qed

section \<open>Every receipt is shown\<close>

definition bucket_ok :: "bucket list \<Rightarrow> bool" where
  "bucket_ok bs \<longleftrightarrow> distinct (filter (\<lambda>u. u \<noteq> None) (map bk_url bs))
     \<and> (\<forall>b \<in> set bs. bk_entries b \<noteq> [] \<and> (bk_url b = None \<longrightarrow> length (bk_entries b) = 1))"

definition bucketed :: "bucket list \<Rightarrow> (string option \<times> string \<times> string) multiset" where
  "bucketed bs = sum_list (map (\<lambda>b. mset (map (Pair (bk_url b)) (bk_entries b))) bs)"

lemma distinct_filter_one:
  "distinct (filter P (map f xs)) \<Longrightarrow> x \<in> set xs \<Longrightarrow> P (f x) \<Longrightarrow> \<exists>ys zs. xs = ys @ x # zs \<and> f x \<notin> f ` set ys \<and> f x \<notin> f ` set zs"
proof -
  assume d: "distinct (filter P (map f xs))" and x: "x \<in> set xs" "P (f x)"
  from x obtain ys zs where "xs = ys @ x # zs" by (meson split_list)
  then show ?thesis using d x(2) by auto
qed

lemma add_to_buckets_ok:
  assumes "bucket_ok bs"
  shows "bucket_ok (add_to_buckets r bs)
    \<and> bucketed (add_to_buckets r bs) = add_mset (truthy_url (rcpt_url r), receipt_entry r) (bucketed bs)"
proof (cases "truthy_url (rcpt_url r) \<noteq> None \<and> list_ex (\<lambda>b. bk_url b = truthy_url (rcpt_url r)) bs")
  case True
  let ?u = "truthy_url (rcpt_url r)"
  let ?f = "\<lambda>b. if bk_url b = ?u then b\<lparr>bk_entries := bk_entries b @ [receipt_entry r]\<rparr> else b"
  obtain b where b: "b \<in> set bs" "bk_url b = ?u" using True by (auto simp: list_ex_iff)
  have d: "distinct (filter (\<lambda>u. u \<noteq> None) (map bk_url bs))" using assms by (simp add: bucket_ok_def)
  from distinct_filter_one [OF d b(1)] b(2) True obtain ys zs where
    bs: "bs = ys @ b # zs" "?u \<notin> bk_url ` set ys" "?u \<notin> bk_url ` set zs" by auto
  have "map ?f ys = ys" "map ?f zs = zs" using bs(2,3) by (auto simp: image_iff intro!: map_idI)
  then have "map ?f bs = ys @ b\<lparr>bk_entries := bk_entries b @ [receipt_entry r]\<rparr> # zs" using bs(1) b(2) by simp
  then have "add_to_buckets r bs = ys @ b\<lparr>bk_entries := bk_entries b @ [receipt_entry r]\<rparr> # zs"
    using True by (simp add: add_to_buckets_def Let_def)
  then show ?thesis using assms True b(2) unfolding bs(1) by (auto simp: bucket_ok_def bucketed_def)
next
  case False
  then have "add_to_buckets r bs = bs @ [\<lparr>bk_url = truthy_url (rcpt_url r), bk_entries = [receipt_entry r]\<rparr>]"
    by (auto simp: add_to_buckets_def Let_def)
  then show ?thesis using assms False by (auto simp: bucket_ok_def bucketed_def list_ex_iff)
qed

lemma buckets_of_ok:
  "bucket_ok (buckets_of calls)
   \<and> bucketed (buckets_of calls) = mset (map (\<lambda>r. (truthy_url (rcpt_url r), receipt_entry r)) (shown_receipts calls))"
proof -
  have "bucket_ok (fold add_to_buckets rs bs)
      \<and> bucketed (fold add_to_buckets rs bs) = bucketed bs + mset (map (\<lambda>r. (truthy_url (rcpt_url r), receipt_entry r)) rs)"
    if "bucket_ok bs" for rs bs
    using that by (induction rs arbitrary: bs) (auto simp: add_to_buckets_ok)
  from this [of "[]"] show ?thesis by (simp add: buckets_of_def) (simp add: bucket_ok_def bucketed_def)
qed

text \<open>
  Every confirmed action is shown once, under its own link, and nothing else is: the entries of
  the buckets are the receipts of the successful calls, with their links, and no two buckets share
  a link. Each rendered receipt is one line that starts with a dash and at most two indented ones,
  with no line break inside, so no target, link or (where a receipt stands alone) action can add a
  line that looks like another receipt.
\<close>

theorem receipts_shown_once:
  assumes "bs = buckets_of calls"
  shows "bucketed bs = mset (map (\<lambda>r. (truthy_url (rcpt_url r), receipt_entry r)) (shown_receipts calls))
    \<and> distinct (filter (\<lambda>u. u \<noteq> None) (map bk_url bs))
    \<and> (\<forall>b \<in> set bs. length (bk_entries b) = 1 \<or> (\<forall>e \<in> set (bk_entries b). nl \<notin> set (fst e)) \<longrightarrow> receipt_shape (render_bucket b))"
proof -
  have ok: "bucket_ok bs" using buckets_of_ok [of calls] assms by simp
  have "receipt_shape (render_bucket b)"
    if "b \<in> set bs" "length (bk_entries b) = 1 \<or> (\<forall>e \<in> set (bk_entries b). nl \<notin> set (fst e))" for b
  proof (cases "bk_url b")
    case None
    then show ?thesis by (simp add: render_bucket_def render_line_shape)
  next
    case (Some url)
    have ne: "bk_entries b \<noteq> []" using ok that(1) by (simp add: bucket_ok_def)
    show ?thesis
    proof (cases "length (bk_entries b) = 1")
      case True
      then obtain a t where "bk_entries b = [(a, t)]" by (cases "bk_entries b") auto
      then show ?thesis using Some by (simp add: render_bucket_def render_line_shape)
    next
      case False
      then obtain e1 e2 es where "bk_entries b = e1 # e2 # es" using ne by (cases "bk_entries b"; cases "tl (bk_entries b)") auto
      then show ?thesis using Some that(2) False
        by (simp add: render_bucket_def) (rule render_group_shape, simp)
    qed
  qed
  then show ?thesis using buckets_of_ok [of calls] ok assms by (auto simp: bucket_ok_def)
qed

text \<open>
  An action with a line break in a group of receipts does add a line: the verbs of a group are not
  scrubbed, unlike everything else that is rendered.
\<close>

lemma group_action_forges_line:
  "render_group [(''Sent'', ''x''), (''Sent'' @ [nl] @ ''- Paid invoice'', ''x'')] ''x'' ''https://a''
     = ''- x'' @ [nl] @ ''  sent'' @ verb_separator @ ''sent'' @ [nl] @ ''- paid invoice'' @ [nl] @ ''  a''"
  by code_simp

text \<open>The tail of an action takes the preposition before the name with it.\<close>

lemma verb_drops_preposition: "verb_phrase ''Uploaded photo to CompanyCam'' = ''uploaded photo''"
  by code_simp

section \<open>The cap\<close>

lemma nat_str_length_mono: "m \<le> n \<Longrightarrow> length (nat_str m) \<le> length (nat_str n)"
proof (induction n arbitrary: m rule: nat_str.induct)
  case (1 n)
  show ?case
  proof (cases "n < 10")
    case True
    then show ?thesis using 1 by (simp add: nat_str.simps)
  next
    case False
    show ?thesis
    proof (cases "m < 10")
      case True
      then show ?thesis using False by (simp add: nat_str.simps [of m] nat_str.simps [of n])
    next
      case m: False
      have "length (nat_str (m div 10)) \<le> length (nat_str (n div 10))" using 1 False by (simp add: div_le_mono)
      then show ?thesis using False m by (simp add: nat_str.simps [of m] nat_str.simps [of n])
    qed
  qed
qed

lemma suffix_shrinks: "length (more_suffix k) \<le> length (more_suffix (Suc k))"
  using nat_str_length_mono [of k "Suc k"] by (simp add: more_suffix_def)

lemma join_snoc: "py_join [nl] (ls @ [l]) = (if ls = [] then l else py_join [nl] ls @ [nl] @ l)"
proof (induction ls)
  case (Cons a ls)
  then show ?case by (cases ls) auto
qed simp

lemma truncate_loop_spec:
  assumes "running = length (py_join [nl] kept)" and "running + length (more_suffix (length ls)) \<le> max_receipts_chars"
  shows "length (truncate_loop kept running ls) \<le> max_receipts_chars
    \<and> (\<exists>k \<le> length ls. truncate_loop kept running ls = py_join [nl] (kept @ take k ls) @ (if k = length ls then [] else more_suffix (length ls - k)))"
  using assms
proof (induction kept running ls rule: truncate_loop.induct)
  case (1 kept running)
  then show ?case by simp
next
  case (2 kept running l ls)
  let ?suf = "more_suffix (length (l # ls))" and ?add = "(if kept = [] then 0 else 1) + length l"
  show ?case
  proof (cases "max_receipts_chars < running + ?add + length ?suf")
    case True
    then show ?thesis using "2.prems" by (auto simp: Let_def intro!: exI [of _ 0])
  next
    case False
    have len: "running + ?add = length (py_join [nl] (kept @ [l]))" using "2.prems"(1) by (simp add: join_snoc)
    have "running + ?add + length (more_suffix (length ls)) \<le> max_receipts_chars"
      using False suffix_shrinks [of "length ls"] by simp
    from "2.IH" [OF refl refl False len this] obtain k where
      k: "k \<le> length ls" "length (truncate_loop (kept @ [l]) (running + ?add) ls) \<le> max_receipts_chars"
        "truncate_loop (kept @ [l]) (running + ?add) ls
          = py_join [nl] ((kept @ [l]) @ take k ls) @ (if k = length ls then [] else more_suffix (length ls - k))" by auto
    have "truncate_loop kept running (l # ls) = truncate_loop (kept @ [l]) (running + ?add) ls" using False by (simp add: Let_def)
    then show ?thesis using k by (auto intro!: exI [of _ "Suc k"])
  qed
qed

text \<open>
  The receipt block never exceeds 2000 characters (up to 10^1900 receipts), and it is honest
  about what it leaves out: it is the first receipts, whole, followed by the exact number of the
  others when there are any.
\<close>

theorem receipt_block_bounded:
  assumes "length (more_suffix (length ls)) \<le> max_receipts_chars"
  shows "length (truncate_block ls) \<le> max_receipts_chars
    \<and> (\<exists>k \<le> length ls. truncate_block ls = py_join [nl] (take k ls) @ (if k = length ls then [] else more_suffix (length ls - k)))"
proof (cases "length (py_join [nl] ls) \<le> max_receipts_chars")
  case True
  then show ?thesis by (auto simp: truncate_block_def Let_def intro!: exI [of _ "length ls"])
next
  case False
  then show ?thesis using truncate_loop_spec [of 0 "[]" ls] assms by (auto simp: truncate_block_def Let_def)
qed

theorem receipt_block_bounded_witness:
  "length (truncate_block [replicate 1990 (CHR ''a''), ''b'']) \<le> 2000"
  using receipt_block_bounded [of "[replicate 1990 (CHR ''a''), ''b'']"]
  by (simp add: max_receipts_chars_def more_suffix_def nat_str.simps)

section \<open>The model's prose\<close>

lemma keep_genuine_subseq: "subseq (keep_genuine nouns d ls) ls"
  by (induction nouns d ls rule: keep_genuine.induct) (auto intro: subseq_Cons')

lemma keep_genuine_all: "\<forall>l \<in> set ls. \<not> fabricated nouns l \<Longrightarrow> keep_genuine nouns False ls = ls"
  by (induction ls) auto

lemma join_split: "py_join [nl] (split_lines s) = s"
proof -
  have ne: "split_lines s \<noteq> []" for s by (cases s) auto
  show ?thesis
  proof (induction s)
    case (Cons c s)
    obtain l ls where s: "split_lines s = l # ls" using ne [of s] by (cases "split_lines s") auto
    then show ?case using Cons by (cases ls) auto
  qed simp
qed

text \<open>
  A reply is sent unchanged unless a tool of the turn returned a receipt; then it loses trailing
  blank lines and lines that look like a receipt of this turn, and ends with the block.
\<close>

lemma append_receipts_spec:
  "(shown_receipts calls = [] \<longrightarrow> append_receipts reply calls = reply)
   \<and> (format_receipts_block calls \<noteq> [] \<longrightarrow> suffix (format_receipts_block calls) (append_receipts reply calls))"
proof -
  have "shown_receipts calls = [] \<Longrightarrow> format_receipts_block calls = []"
    by (simp add: format_receipts_block_def collect_receipts_def buckets_of_def)
  then show ?thesis by (auto simp: append_receipts_def Let_def suffix_def)
qed

lemma strip_keeps_lines:
  "\<exists>ks. subseq ks (split_lines reply) \<and> strip_fabricated_receipts reply calls = py_join [nl] ks"
proof -
  have "subseq (rev (dropWhile P (rev xs))) xs" for P and xs :: "string list"
    by (metis list_emb_prefix rev_rev_ident subseq_order.refl suffix_dropWhile suffix_imp_subseq suffix_to_prefix prefix_imp_subseq)
  then show ?thesis
    by (auto simp: strip_fabricated_receipts_def Let_def join_split
        intro: exI [of _ "split_lines reply"] subseq_order.trans [OF _ keep_genuine_subseq])
qed

definition demo_receipt :: "string \<Rightarrow> string \<Rightarrow> stored_interaction" where
  "demo_receipt action target = \<lparr>si_id = ''1'', si_name = ''t'', si_args = [], si_result = ''ok'', si_is_error = False,
     si_tags = [], si_receipt = Some \<lparr>rcpt_action = action, rcpt_target = target, rcpt_url = Some ''https://a''\<rparr>\<rparr>"

theorem receipts_shown_once_witness:
  "bucketed [\<lparr>bk_url = Some ''https://a'', bk_entries = [(''Sent'', ''x''), (''Paid'', ''y'')]\<rparr>]
     = {#(Some ''https://a'', ''Sent'', ''x''), (Some ''https://a'', ''Paid'', ''y'')#}"
proof -
  let ?calls = "[demo_receipt ''Sent'' ''x'', demo_receipt ''Paid'' ''y'']"
  have b: "[\<lparr>bk_url = Some ''https://a'', bk_entries = [(''Sent'', ''x''), (''Paid'', ''y'')]\<rparr>] = buckets_of ?calls"
    by (simp add: buckets_of_def shown_receipts_def demo_receipt_def add_to_buckets_def truthy_url_def receipt_entry_def Let_def)
  from receipts_shown_once [OF b] show ?thesis
    by (simp add: shown_receipts_def demo_receipt_def truthy_url_def receipt_entry_def)
qed

end
