(* ===== verification/Media_Staging.thy ===== *)
theory Media_Staging
  imports Tools
begin

text \<open>
  The staging cache of inbound media (\<open>backend/app/agent/media_staging.py\<close>) and the two tools on it
  (\<open>tools/media_tools.py\<close>): the \<open>staged_media\<close> table and the files under the staging root. Bytes are
  strings, times are microseconds. The file system is a map from paths to bytes, with an environment
  that says which writes, reads and deletions fail.
\<close>

section \<open>State\<close>

record upload_record =
  ur_service :: string
  ur_external_id :: string
  ur_url :: string
  ur_target :: string
  ur_status :: string

record staged =
  sg_id :: nat
  sg_user :: string
  sg_handle :: string
  sg_url :: string
  sg_mime :: string
  sg_path :: string
  sg_expires :: int
  sg_created :: int
  sg_upload :: "upload_record option"

record staging =
  sg_rows :: "staged list"
  sg_files :: "string \<Rightarrow> string option"
  sg_next :: nat

record fs_env =
  fe_root :: string
  fe_write :: "string \<Rightarrow> bool"
  fe_read :: "string \<Rightarrow> bool"
  fe_unlink :: "string \<Rightarrow> bool"

definition staging_ttl :: int where
  "staging_ttl = 604800 * 1000000"

definition staging_max_per_user :: nat where
  "staging_max_per_user = 50"

definition live :: "int \<Rightarrow> staged \<Rightarrow> bool" where
  "live now r \<longleftrightarrow> now < sg_expires r"

definition store_disk_path :: "string \<Rightarrow> string \<Rightarrow> string" where
  "store_disk_path user handle = user @ ''/'' @ handle @ ''.bin''"

definition resolve_disk_path :: "fs_env \<Rightarrow> string \<Rightarrow> string" where
  "resolve_disk_path env stored = (if prefix ''/'' stored then stored else fe_root env @ ''/'' @ stored)"

definition mint_handle :: "string \<Rightarrow> string" where
  "mint_handle token = ''media_'' @ token"

definition unlink_quiet :: "fs_env \<Rightarrow> string \<Rightarrow> staging \<Rightarrow> staging" where
  "unlink_quiet env stored s =
     (let path = resolve_disk_path env stored
      in if fe_unlink env path then s\<lparr>sg_files := (sg_files s)(path := None)\<rparr> else s)"

definition read_bytes :: "fs_env \<Rightarrow> string \<Rightarrow> staging \<Rightarrow> string option" where
  "read_bytes env stored s =
     (let path = resolve_disk_path env stored in if fe_read env path then sg_files s path else None)"

definition delete_rows_by_id :: "nat list \<Rightarrow> staging \<Rightarrow> staging" where
  "delete_rows_by_id ids s = s\<lparr>sg_rows := filter (\<lambda>r. sg_id r \<notin> set ids) (sg_rows s)\<rparr>"

definition unlink_all :: "fs_env \<Rightarrow> staged list \<Rightarrow> staging \<Rightarrow> staging" where
  "unlink_all env rows s = fold (\<lambda>r. unlink_quiet env (sg_path r)) rows s"

section \<open>Staging\<close>

definition same_media :: "string \<Rightarrow> string \<Rightarrow> staged \<Rightarrow> bool" where
  "same_media user url r \<longleftrightarrow> sg_user r = user \<and> sg_url r = url"

text \<open>The rows of a user in the order in which they are evicted.\<close>

definition eviction_order :: "string \<Rightarrow> staging \<Rightarrow> staged list" where
  "eviction_order user s =
     (let rows = sort_key sg_expires (filter (\<lambda>r. sg_user r = user) (sg_rows s))
      in filter (\<lambda>r. sg_upload r \<noteq> None) rows @ filter (\<lambda>r. sg_upload r = None) rows)"

definition overflow_rows :: "string \<Rightarrow> staging \<Rightarrow> staged list" where
  "overflow_rows user s = (let ordered = eviction_order user s in take (length ordered - staging_max_per_user) ordered)"

definition drop_rows :: "fs_env \<Rightarrow> staged list \<Rightarrow> staging \<Rightarrow> staging" where
  "drop_rows env rows s = delete_rows_by_id (map sg_id rows) (unlink_all env rows s)"

definition enforce_per_user_cap :: "fs_env \<Rightarrow> string \<Rightarrow> staging \<Rightarrow> staging" where
  "enforce_per_user_cap env user s = drop_rows env (overflow_rows user s) s"

text \<open>The upsert: the handle and the path of the row that won, or the violation of the unique handle.\<close>

definition upsert_media ::
  "int \<Rightarrow> string \<Rightarrow> string \<Rightarrow> string \<Rightarrow> string \<Rightarrow> staging \<Rightarrow> (py_error + string \<times> string) \<times> staging" where
  "upsert_media now fresh user url mime s =
     (case find (same_media user url) (sg_rows s) of
        Some r \<Rightarrow>
          (Inr (sg_handle r, sg_path r),
           s\<lparr>sg_rows := map (\<lambda>q. if same_media user url q then q\<lparr>sg_mime := mime, sg_expires := now + staging_ttl\<rparr> else q)
                             (sg_rows s)\<rparr>)
      | None \<Rightarrow>
          if list_ex (\<lambda>q. sg_handle q = fresh) (sg_rows s) then (Inl RuntimeError, s)
          else (Inr (fresh, store_disk_path user fresh),
                s\<lparr>sg_rows := sg_rows s @
                     [\<lparr>sg_id = sg_next s, sg_user = user, sg_handle = fresh, sg_url = url, sg_mime = mime,
                       sg_path = store_disk_path user fresh, sg_expires = now + staging_ttl, sg_created = now,
                       sg_upload = None\<rparr>],
                  sg_next := Suc (sg_next s)\<rparr>))"

definition stage ::
  "fs_env \<Rightarrow> int \<Rightarrow> string \<Rightarrow> string \<Rightarrow> string \<Rightarrow> string \<Rightarrow> string \<Rightarrow> staging
     \<Rightarrow> (py_error + string option) \<times> staging" where
  "stage env now token user url content mime s =
     (if url = [] \<or> content = [] then (Inr None, s)
      else case upsert_media now (mint_handle token) user url mime s of
             (Inl e, s') \<Rightarrow> (Inl e, s')
           | (Inr (handle, stored), s') \<Rightarrow>
               (let path = resolve_disk_path env stored
                in if \<not> fe_write env path then (Inl RuntimeError, s')
                   else (Inr (Some handle),
                         enforce_per_user_cap env user (s'\<lparr>sg_files := (sg_files s')(path \<mapsto> content)\<rparr>))))"

section \<open>Lookups\<close>

definition get_all_for_user :: "fs_env \<Rightarrow> int \<Rightarrow> string \<Rightarrow> staging \<Rightarrow> (string \<times> string) list \<times> staging" where
  "get_all_for_user env now user s =
     (let rows = filter (\<lambda>r. sg_user r = user \<and> live now r) (sg_rows s);
          content = (\<lambda>r. read_bytes env (sg_path r) s)
      in (map (\<lambda>r. (sg_url r, the (content r))) (filter (\<lambda>r. content r \<noteq> None) rows),
          delete_rows_by_id (map sg_id (filter (\<lambda>r. content r = None) rows)) s))"

definition list_urls_for_user :: "int \<Rightarrow> string \<Rightarrow> staging \<Rightarrow> string list" where
  "list_urls_for_user now user s =
     map sg_url (sort_key (\<lambda>r. - sg_expires r) (filter (\<lambda>r. sg_user r = user \<and> live now r) (sg_rows s)))"

definition find_media :: "int \<Rightarrow> string \<Rightarrow> string \<Rightarrow> staging \<Rightarrow> staged option" where
  "find_media now user url s = find (\<lambda>r. same_media user url r \<and> live now r) (sg_rows s)"

definition get_mime_type :: "int \<Rightarrow> string \<Rightarrow> string \<Rightarrow> staging \<Rightarrow> string option" where
  "get_mime_type now user url s = map_option sg_mime (find_media now user url s)"

definition get_handle_for :: "int \<Rightarrow> string \<Rightarrow> string \<Rightarrow> staging \<Rightarrow> string option" where
  "get_handle_for now user url s = map_option sg_handle (find_media now user url s)"

text \<open>The bytes of a row; a row without them is deleted on the way.\<close>

definition open_row :: "fs_env \<Rightarrow> staged \<Rightarrow> staging \<Rightarrow> string option \<times> staging" where
  "open_row env r s =
     (case read_bytes env (sg_path r) s of
        None \<Rightarrow> (None, delete_rows_by_id [sg_id r] s)
      | Some content \<Rightarrow> (Some content, s))"

definition get_by_handle ::
  "fs_env \<Rightarrow> int \<Rightarrow> string \<Rightarrow> staging \<Rightarrow> (string \<times> string \<times> string \<times> string) option \<times> staging" where
  "get_by_handle env now handle s =
     (case find (\<lambda>r. sg_handle r = handle \<and> live now r) (sg_rows s) of
        None \<Rightarrow> (None, s)
      | Some r \<Rightarrow>
          (let (content, s') = open_row env r s
           in (map_option (\<lambda>c. (sg_user r, sg_url r, c, sg_mime r)) content, s')))"

definition resolve_media_ref ::
  "fs_env \<Rightarrow> int \<Rightarrow> string \<Rightarrow> string \<Rightarrow> staging \<Rightarrow> (string \<times> string \<times> string) option \<times> staging" where
  "resolve_media_ref env now user ref s =
     (case get_by_handle env now ref s of
        (Some (owner, url, content, mime), s') \<Rightarrow> (if owner = user then Some (url, content, mime) else None, s')
      | (None, s') \<Rightarrow>
          (case find_media now user ref s' of
             None \<Rightarrow> (None, s')
           | Some r \<Rightarrow> (let (content, s'') = open_row env r s' in (map_option (\<lambda>c. (ref, c, sg_mime r)) content, s''))))"

section \<open>Expiry and eviction\<close>

definition touch :: "int \<Rightarrow> string \<Rightarrow> string \<Rightarrow> staging \<Rightarrow> bool \<times> staging" where
  "touch now handle user s =
     (let mine = (\<lambda>r. sg_handle r = handle \<and> sg_user r = user)
      in (list_ex mine (sg_rows s),
          s\<lparr>sg_rows := map (\<lambda>r. if mine r then r\<lparr>sg_expires := now + staging_ttl\<rparr> else r) (sg_rows s)\<rparr>))"

definition evict :: "fs_env \<Rightarrow> string \<Rightarrow> string \<Rightarrow> staging \<Rightarrow> staging" where
  "evict env user url s =
     (case find (same_media user url) (sg_rows s) of None \<Rightarrow> s | Some r \<Rightarrow> drop_rows env [r] s)"

definition evict_by_handle :: "fs_env \<Rightarrow> string \<Rightarrow> staging \<Rightarrow> bool \<times> staging" where
  "evict_by_handle env handle s =
     (case find (\<lambda>r. sg_handle r = handle) (sg_rows s) of None \<Rightarrow> (False, s) | Some r \<Rightarrow> (True, drop_rows env [r] s))"

definition clear_user :: "fs_env \<Rightarrow> string \<Rightarrow> staging \<Rightarrow> staging" where
  "clear_user env user s =
     (unlink_all env (filter (\<lambda>r. sg_user r = user) (sg_rows s)) s)
       \<lparr>sg_rows := filter (\<lambda>r. sg_user r \<noteq> user) (sg_rows s)\<rparr>"

definition purge_expired :: "fs_env \<Rightarrow> int \<Rightarrow> staging \<Rightarrow> nat \<times> staging" where
  "purge_expired env now s =
     (let rows = filter (\<lambda>r. \<not> live now r) (sg_rows s)
      in (length rows, (unlink_all env rows s)\<lparr>sg_rows := filter (live now) (sg_rows s)\<rparr>))"

section \<open>Upload receipts\<close>

text \<open>The most recently staged live row the reference names, by link or by handle.\<close>

definition refers :: "string \<Rightarrow> string \<Rightarrow> staged \<Rightarrow> bool" where
  "refers user ref r \<longleftrightarrow> sg_user r = user \<and> (sg_url r = ref \<or> sg_handle r = ref)"

definition referred_row :: "int \<Rightarrow> string \<Rightarrow> string \<Rightarrow> staging \<Rightarrow> staged option" where
  "referred_row now user ref s =
     (case sort_key (\<lambda>r. - sg_created r) (filter (\<lambda>r. refers user ref r \<and> live now r) (sg_rows s)) of
        [] \<Rightarrow> None | r # rs \<Rightarrow> Some r)"

definition mark_uploaded :: "int \<Rightarrow> string \<Rightarrow> string \<Rightarrow> upload_record \<Rightarrow> staging \<Rightarrow> staging" where
  "mark_uploaded now user ref rcpt s =
     (if ref = [] then s
      else case referred_row now user ref s of
             None \<Rightarrow> s
           | Some r \<Rightarrow>
               s\<lparr>sg_rows := map (\<lambda>q. if sg_id q = sg_id r then q\<lparr>sg_upload := Some rcpt\<rparr> else q) (sg_rows s)\<rparr>)"

definition get_uploaded :: "int \<Rightarrow> string \<Rightarrow> string \<Rightarrow> staging \<Rightarrow> upload_record option" where
  "get_uploaded now user ref s =
     (if ref = [] then None else case referred_row now user ref s of None \<Rightarrow> None | Some r \<Rightarrow> sg_upload r)"

section \<open>The media tools\<close>

text \<open>
  \<open>analyze_photo\<close> with its per-turn cache; the vision call is a parameter. \<open>discard_media\<close> checks
  the owner of a handle before it evicts.
\<close>

datatype photo_result = Analyzed string | NotStaged | NotYours | NotAnImage string

definition analyze_photo ::
  "(string \<Rightarrow> string \<Rightarrow> string \<Rightarrow> string) \<Rightarrow> fs_env \<Rightarrow> int \<Rightarrow> string \<Rightarrow> string \<Rightarrow> string \<Rightarrow> string
     \<Rightarrow> (string \<Rightarrow> string option) \<times> staging \<Rightarrow> photo_result \<times> (string \<Rightarrow> string option) \<times> staging" where
  "analyze_photo vision env now user turn_text handle context st =
     (let (cache, s) = st
      in case cache handle of
           Some text \<Rightarrow> (Analyzed text, cache, s)
         | None \<Rightarrow>
             (case get_by_handle env now handle s of
                (None, s') \<Rightarrow> (NotStaged, cache, s')
              | (Some (owner, url, content, mime), s') \<Rightarrow>
                  if owner \<noteq> user then (NotYours, cache, s')
                  else if \<not> prefix ''image/'' mime then (NotAnImage mime, cache, s')
                  else (let text = vision content mime (if context \<noteq> [] then context else turn_text)
                        in (Analyzed text, cache(handle \<mapsto> text), snd (touch now handle user s')))))"

datatype discard_result = Discarded | AlreadyGone | DiscardRefused

definition discard_media ::
  "fs_env \<Rightarrow> int \<Rightarrow> string \<Rightarrow> string \<Rightarrow> (string \<Rightarrow> string option) \<times> staging
     \<Rightarrow> discard_result \<times> (string \<Rightarrow> string option) \<times> staging" where
  "discard_media env now user handle st =
     (let (cache, s) = st
      in case get_by_handle env now handle s of
           (Some (owner, url, content, mime), s') \<Rightarrow>
             if owner \<noteq> user then (DiscardRefused, cache, s')
             else (let (removed, s'') = evict_by_handle env handle s'
                   in if removed then (Discarded, cache(handle := None), s'') else (AlreadyGone, cache, s''))
         | (None, s') \<Rightarrow>
             (let (removed, s'') = evict_by_handle env handle s'
              in if removed then (Discarded, cache(handle := None), s'') else (AlreadyGone, cache, s'')))"

section \<open>Well-formed tables\<close>

definition name_ok :: "string \<Rightarrow> bool" where
  "name_ok n \<longleftrightarrow> n \<noteq> [] \<and> CHR ''/'' \<notin> set n"

definition row_ok :: "staged \<Rightarrow> bool" where
  "row_ok r \<longleftrightarrow> name_ok (sg_user r) \<and> name_ok (sg_handle r) \<and> sg_path r = store_disk_path (sg_user r) (sg_handle r)"

definition media_key :: "staged \<Rightarrow> string \<times> string" where
  "media_key r = (sg_user r, sg_url r)"

definition wf_staging :: "staging \<Rightarrow> bool" where
  "wf_staging s \<longleftrightarrow> distinct (map sg_id (sg_rows s)) \<and> distinct (map sg_handle (sg_rows s))
     \<and> distinct (map media_key (sg_rows s)) \<and> (\<forall>r \<in> set (sg_rows s). sg_id r < sg_next s \<and> row_ok r)"

lemma distinct_map_filter_keep: "distinct (map f xs) \<Longrightarrow> distinct (map f (filter P xs))"
  by (rule distinct_map_filter)

lemma wf_keep_rows: "wf_staging s \<Longrightarrow> wf_staging (s\<lparr>sg_rows := filter P (sg_rows s)\<rparr>)"
  by (auto simp: wf_staging_def distinct_map_filter)

lemma wf_files [simp]: "wf_staging (s\<lparr>sg_files := fs\<rparr>) = wf_staging s"
  by (simp add: wf_staging_def)

lemma wf_change_rows:
  assumes "wf_staging s"
    and "\<And>r. sg_id (f r) = sg_id r \<and> sg_handle (f r) = sg_handle r \<and> sg_user (f r) = sg_user r
      \<and> sg_url (f r) = sg_url r \<and> sg_path (f r) = sg_path r"
  shows "wf_staging (s\<lparr>sg_rows := map f (sg_rows s)\<rparr>)"
proof -
  have "sg_id \<circ> f = sg_id" "sg_handle \<circ> f = sg_handle" "media_key \<circ> f = media_key"
    using assms(2) by (auto simp: media_key_def)
  then show ?thesis using assms by (auto simp: wf_staging_def row_ok_def)
qed

lemma rows_unlink [simp]: "sg_rows (unlink_quiet env p s) = sg_rows s"
  by (simp add: unlink_quiet_def Let_def)

lemma next_unlink [simp]: "sg_next (unlink_quiet env p s) = sg_next s"
  by (simp add: unlink_quiet_def Let_def)

lemma rows_unlink_all [simp]: "sg_rows (unlink_all env rs s) = sg_rows s"
  by (induction rs arbitrary: s) (simp_all add: unlink_all_def)

lemma next_unlink_all [simp]: "sg_next (unlink_all env rs s) = sg_next s"
  by (induction rs arbitrary: s) (simp_all add: unlink_all_def)

lemma wf_unlink_all [simp]: "wf_staging (unlink_all env rs s) = wf_staging s"
  by (simp add: wf_staging_def)

lemma files_unlink_all:
  "sg_files (unlink_all env rs s) p =
     (if fe_unlink env p \<and> p \<in> (\<lambda>r. resolve_disk_path env (sg_path r)) ` set rs then None else sg_files s p)"
proof (induction rs arbitrary: s)
  case Nil
  then show ?case by (simp add: unlink_all_def)
next
  case (Cons r rs)
  have "unlink_all env (r # rs) s = unlink_all env rs (unlink_quiet env (sg_path r) s)" by (simp add: unlink_all_def)
  then show ?case using Cons by (auto simp: unlink_quiet_def Let_def)
qed

lemma wf_delete: "wf_staging s \<Longrightarrow> wf_staging (delete_rows_by_id ids s)"
  by (simp add: delete_rows_by_id_def wf_keep_rows)

lemma wf_drop: "wf_staging s \<Longrightarrow> wf_staging (drop_rows env rs s)"
  by (simp add: drop_rows_def wf_delete)

lemma rows_drop: "sg_rows (drop_rows env rs s) = filter (\<lambda>r. sg_id r \<notin> sg_id ` set rs) (sg_rows s)"
  by (simp add: drop_rows_def delete_rows_by_id_def)

lemma files_drop:
  "sg_files (drop_rows env rs s) p =
     (if fe_unlink env p \<and> p \<in> (\<lambda>r. resolve_disk_path env (sg_path r)) ` set rs then None else sg_files s p)"
  by (simp add: drop_rows_def delete_rows_by_id_def files_unlink_all)

lemma files_delete [simp]: "sg_files (delete_rows_by_id ids s) = sg_files s"
  by (simp add: delete_rows_by_id_def)

text \<open>Different rows have different files.\<close>

lemma path_inj:
  assumes "row_ok r" and "row_ok q" and "resolve_disk_path env (sg_path r) = resolve_disk_path env (sg_path q)"
  shows "sg_user r = sg_user q" and "sg_handle r = sg_handle q"
proof -
  have rel: "\<not> prefix ''/'' (store_disk_path u h)" if "name_ok u" for u h
    using that by (cases u) (auto simp: store_disk_path_def name_ok_def)
  have "sg_user r @ CHR ''/'' # sg_handle r @ ''.bin'' = sg_user q @ CHR ''/'' # sg_handle q @ ''.bin''"
    using assms rel [of "sg_user r" "sg_handle r"] rel [of "sg_user q" "sg_handle q"]
    by (simp add: row_ok_def resolve_disk_path_def store_disk_path_def)
  then have "sg_user r = sg_user q \<and> sg_handle r @ ''.bin'' = sg_handle q @ ''.bin''"
    using assms by (subst (asm) append_Cons_eq_iff) (auto simp: row_ok_def name_ok_def)
  then show "sg_user r = sg_user q" "sg_handle r = sg_handle q" by auto
qed

lemma wf_rows_eq:
  assumes "wf_staging s" and "r \<in> set (sg_rows s)" and "q \<in> set (sg_rows s)"
  shows "sg_id r = sg_id q \<Longrightarrow> r = q" and "sg_handle r = sg_handle q \<Longrightarrow> r = q" and "media_key r = media_key q \<Longrightarrow> r = q"
    and "resolve_disk_path env (sg_path r) = resolve_disk_path env (sg_path q) \<Longrightarrow> r = q"
  using assms path_inj [of r q env] by (auto simp: wf_staging_def distinct_map dest: inj_onD)

lemma read_rows [simp]:
  "read_bytes env p (s\<lparr>sg_rows := rows\<rparr>) = read_bytes env p s"
  "read_bytes env p (s\<lparr>sg_rows := rows, sg_next := n\<rparr>) = read_bytes env p s"
  "read_bytes env p (delete_rows_by_id ids s) = read_bytes env p s"
  by (cases "fe_read env (resolve_disk_path env p)"; simp add: read_bytes_def delete_rows_by_id_def)+

lemma read_write [simp]:
  "read_bytes env p (s\<lparr>sg_files := (sg_files s)(q \<mapsto> c)\<rparr>) =
     (if resolve_disk_path env p = q then if fe_read env q then Some c else None else read_bytes env p s)"
  by (cases "resolve_disk_path env p = q"; cases "fe_read env (resolve_disk_path env p)") (auto simp: read_bytes_def)

section \<open>What can be recalled\<close>

definition readable :: "fs_env \<Rightarrow> staging \<Rightarrow> staged \<Rightarrow> bool" where
  "readable env s r \<longleftrightarrow> read_bytes env (sg_path r) s \<noteq> None"

text \<open>The rows of a user that still give their bytes at a time.\<close>

definition holdings :: "fs_env \<Rightarrow> int \<Rightarrow> string \<Rightarrow> staging \<Rightarrow> (staged \<times> string) set" where
  "holdings env now user s =
     {(r, c). r \<in> set (sg_rows s) \<and> sg_user r = user \<and> live now r \<and> read_bytes env (sg_path r) s = Some c}"

lemma find_unique:
  assumes "x \<in> set xs" and "P x" and "\<And>y. y \<in> set xs \<Longrightarrow> P y \<Longrightarrow> y = x"
  shows "find P xs = Some x"
proof (cases "find P xs")
  case None
  then show ?thesis using assms(1,2) by (simp add: find_None_iff)
next
  case (Some y)
  then have "y \<in> set xs" "P y" by (auto simp: find_Some_iff)
  then show ?thesis using assms(3) Some by simp
qed

lemma get_by_handle_iff:
  assumes "wf_staging s"
  shows "fst (get_by_handle env now h s) = Some (user, url, c, mime)
    \<longleftrightarrow> (\<exists>r. (r, c) \<in> holdings env now user s \<and> sg_handle r = h \<and> sg_url r = url \<and> sg_mime r = mime)"
proof -
  have found: "find (\<lambda>r. sg_handle r = h \<and> live now r) (sg_rows s) = Some r"
    if "r \<in> set (sg_rows s)" "sg_handle r = h" "live now r" for r
    using that wf_rows_eq(2) [OF assms] by (intro find_unique) auto
  show ?thesis
  proof (cases "find (\<lambda>r. sg_handle r = h \<and> live now r) (sg_rows s)")
    case None
    have "\<not> (r \<in> set (sg_rows s) \<and> sg_handle r = h \<and> live now r)" for r using None found [of r] by auto
    then show ?thesis using None by (auto simp: get_by_handle_def holdings_def)
  next
    case (Some r)
    have r: "r \<in> set (sg_rows s)" "sg_handle r = h" "live now r" using Some by (auto simp: find_Some_iff)
    have only: "q = r" if "q \<in> set (sg_rows s)" "sg_handle q = h" for q
      using wf_rows_eq(2) [OF assms that(1) r(1)] that(2) r(2) by simp
    have "(\<exists>q. (q, c) \<in> holdings env now user s \<and> sg_handle q = h \<and> sg_url q = url \<and> sg_mime q = mime)
      \<longleftrightarrow> (r, c) \<in> holdings env now user s \<and> sg_url r = url \<and> sg_mime r = mime"
    proof
      assume "\<exists>q. (q, c) \<in> holdings env now user s \<and> sg_handle q = h \<and> sg_url q = url \<and> sg_mime q = mime"
      then obtain q where q: "(q, c) \<in> holdings env now user s" "sg_handle q = h" "sg_url q = url" "sg_mime q = mime" by blast
      then have "q = r" by (intro only) (simp_all add: holdings_def)
      then show "(r, c) \<in> holdings env now user s \<and> sg_url r = url \<and> sg_mime r = mime" using q by simp
    next
      assume "(r, c) \<in> holdings env now user s \<and> sg_url r = url \<and> sg_mime r = mime"
      then show "\<exists>q. (q, c) \<in> holdings env now user s \<and> sg_handle q = h \<and> sg_url q = url \<and> sg_mime q = mime" using r by blast
    qed
    moreover have "fst (get_by_handle env now h s) = map_option (\<lambda>c. (sg_user r, sg_url r, c, sg_mime r)) (read_bytes env (sg_path r) s)"
      using Some by (simp add: get_by_handle_def open_row_def split: option.splits)
    ultimately show ?thesis using r by (auto simp: holdings_def)
  qed
qed

text \<open>Deleting rows that give nothing leaves the holdings.\<close>

lemma live_mono: "live now' r \<Longrightarrow> now \<le> now' \<Longrightarrow> live now r"
  by (simp add: live_def)

lemma holdings_drop:
  assumes "wf_staging s" and "set rs \<subseteq> set (sg_rows s)"
    and "\<And>r. r \<in> set rs \<Longrightarrow> sg_user r = v \<Longrightarrow> live now r \<Longrightarrow> \<not> readable env s r"
  shows "holdings env now v (drop_rows env rs s) = holdings env now v s"
proof -
  have kept: "r \<in> set (sg_rows (drop_rows env rs s)) \<and> read_bytes env (sg_path r) (drop_rows env rs s) = read_bytes env (sg_path r) s"
    if "r \<in> set (sg_rows s)" "r \<notin> set rs" for r
  proof -
    have "sg_id r \<notin> sg_id ` set rs"
    proof
      assume "sg_id r \<in> sg_id ` set rs"
      then obtain q where q: "q \<in> set rs" "sg_id r = sg_id q" by blast
      then have "r = q" using that(1) assms(2) by (intro wf_rows_eq(1) [OF assms(1)]) auto
      then show False using q that by simp
    qed
    moreover have "resolve_disk_path env (sg_path r) \<notin> (\<lambda>q. resolve_disk_path env (sg_path q)) ` set rs"
    proof
      assume "resolve_disk_path env (sg_path r) \<in> (\<lambda>q. resolve_disk_path env (sg_path q)) ` set rs"
      then obtain q where q: "q \<in> set rs" "resolve_disk_path env (sg_path r) = resolve_disk_path env (sg_path q)" by blast
      then have "r = q" using that(1) assms(2) by (intro wf_rows_eq(4) [OF assms(1)]) auto
      then show False using q that by simp
    qed
    ultimately show ?thesis using that by (simp add: rows_drop files_drop read_bytes_def Let_def)
  qed
  have gone: "r \<notin> set rs" if "r \<in> set (sg_rows (drop_rows env rs s))" for r
    using that by (auto simp: rows_drop)
  show ?thesis
  proof (intro equalityI subrelI)
    fix r c assume x: "(r, c) \<in> holdings env now v (drop_rows env rs s)"
    then have "r \<in> set (sg_rows (drop_rows env rs s))" by (simp add: holdings_def)
    then have "r \<notin> set rs" "r \<in> set (sg_rows s)" by (rule gone, simp add: rows_drop)
    then show "(r, c) \<in> holdings env now v s" using x kept [of r] by (simp add: holdings_def)
  next
    fix r c assume x: "(r, c) \<in> holdings env now v s"
    then have "r \<notin> set rs" using assms(3) by (auto simp: holdings_def readable_def)
    then show "(r, c) \<in> holdings env now v (drop_rows env rs s)" using x kept [of r] by (simp add: holdings_def)
  qed
qed

lemma holdings_delete:
  assumes "wf_staging s"
    and "\<And>r. r \<in> set (sg_rows s) \<Longrightarrow> sg_id r \<in> set ids \<Longrightarrow> sg_user r = v \<Longrightarrow> live now r \<Longrightarrow> \<not> readable env s r"
  shows "holdings env now v (delete_rows_by_id ids s) = holdings env now v s"
  using assms by (auto simp: holdings_def readable_def) (auto simp: delete_rows_by_id_def)

lemma holdings_change:
  assumes "\<And>r. sg_user r = v \<Longrightarrow> f r = r" and "\<And>r. sg_user (f r) = sg_user r"
  shows "holdings env now v (s\<lparr>sg_rows := map f (sg_rows s)\<rparr>) = holdings env now v s"
proof -
  have "r \<in> set (map f (sg_rows s)) \<longleftrightarrow> r \<in> set (sg_rows s)" if "sg_user r = v" for r
    using that assms by (auto simp: image_iff) metis+
  then have "r \<in> set (map f (sg_rows s)) \<and> sg_user r = v \<longleftrightarrow> r \<in> set (sg_rows s) \<and> sg_user r = v" for r by blast
  then show ?thesis unfolding holdings_def by (simp add: conj_commute conj_left_commute) blast
qed

lemma drop_one_other:
  assumes "wf_staging s" and "r \<in> set (sg_rows s)" and "sg_user r \<noteq> v \<or> \<not> live now r \<or> \<not> readable env s r"
  shows "holdings env now v (drop_rows env [r] s) = holdings env now v s"
  using assms by (intro holdings_drop) auto

lemma open_row_effect:
  assumes "wf_staging s" and "r \<in> set (sg_rows s)"
  shows "wf_staging (snd (open_row env r s)) \<and> holdings env now v (snd (open_row env r s)) = holdings env now v s
    \<and> (\<forall>q. q \<in> set (sg_rows (snd (open_row env r s))) \<longrightarrow> q \<in> set (sg_rows s))"
proof (cases "read_bytes env (sg_path r) s")
  case None
  have "q = r" if "q \<in> set (sg_rows s)" "sg_id q = sg_id r" for q using that wf_rows_eq(1) [OF assms(1)] assms(2) by blast
  then have "holdings env now v (delete_rows_by_id [sg_id r] s) = holdings env now v s"
    using None by (intro holdings_delete [OF assms(1)]) (auto simp: readable_def)
  then show ?thesis using None assms by (simp add: open_row_def wf_delete) (simp add: delete_rows_by_id_def)
next
  case (Some c)
  then show ?thesis using assms by (simp add: open_row_def)
qed

lemma get_by_handle_effect:
  assumes "wf_staging s"
  shows "wf_staging (snd (get_by_handle env now h s))
    \<and> holdings env now' v (snd (get_by_handle env now h s)) = holdings env now' v s"
proof (cases "find (\<lambda>r. sg_handle r = h \<and> live now r) (sg_rows s)")
  case None
  then show ?thesis using assms by (simp add: get_by_handle_def)
next
  case (Some r)
  then have "r \<in> set (sg_rows s)" by (auto simp: find_Some_iff)
  then show ?thesis using Some open_row_effect [OF assms, where r = r and env = env and now = now' and v = v]
    by (simp add: get_by_handle_def case_prod_unfold Let_def)
qed

lemma find_media_in: "find_media now user url s = Some r \<Longrightarrow> r \<in> set (sg_rows s) \<and> same_media user url r \<and> live now r"
  by (auto simp: find_media_def find_Some_iff)

lemma resolve_effect:
  assumes "wf_staging s"
  shows "wf_staging (snd (resolve_media_ref env now u ref s))
    \<and> holdings env now' v (snd (resolve_media_ref env now u ref s)) = holdings env now' v s"
proof -
  obtain res s1 where g: "get_by_handle env now ref s = (res, s1)" by fastforce
  then have 1: "wf_staging s1" "holdings env now' v s1 = holdings env now' v s"
    using get_by_handle_effect [OF assms, of env now ref now' v] by auto
  have "wf_staging (snd (open_row env r s1)) \<and> holdings env now' v (snd (open_row env r s1)) = holdings env now' v s1"
    if "find_media now u ref s1 = Some r" for r
    using open_row_effect [OF 1(1)] find_media_in [OF that] by blast
  then show ?thesis using g 1
    by (auto simp: resolve_media_ref_def case_prod_unfold Let_def split: option.splits)
qed

lemma eviction_order_set: "set (eviction_order user s) = {r \<in> set (sg_rows s). sg_user r = user}"
  by (auto simp: eviction_order_def Let_def)

lemma overflow_set: "set (overflow_rows user s) \<subseteq> {r \<in> set (sg_rows s). sg_user r = user}"
  using set_take_subset eviction_order_set unfolding overflow_rows_def Let_def by metis

lemma enforce_effect:
  assumes "wf_staging s" and "v \<noteq> u"
  shows "wf_staging (enforce_per_user_cap env u s) \<and> holdings env now v (enforce_per_user_cap env u s) = holdings env now v s"
  using assms overflow_set [of u s] holdings_drop [OF assms(1), of "overflow_rows u s" v now env]
  by (auto simp: enforce_per_user_cap_def wf_drop)

lemma upsert_effect:
  assumes "wf_staging s" and "name_ok u" and "name_ok fresh" and up: "upsert_media now fresh u url mime s = (res, s')"
  shows "wf_staging s'" and "v \<noteq> u \<Longrightarrow> holdings env now' v s' = holdings env now' v s" and "sg_files s' = sg_files s"
    and "\<And>h p. res = Inr (h, p) \<Longrightarrow>
      \<exists>r \<in> set (sg_rows s'). same_media u url r \<and> sg_handle r = h \<and> sg_path r = p \<and> sg_mime r = mime \<and> sg_expires r = now + staging_ttl"
proof -
  let ?f = "\<lambda>q. if same_media u url q then q\<lparr>sg_mime := mime, sg_expires := now + staging_ttl\<rparr> else q"
  have "wf_staging s' \<and> (v \<noteq> u \<longrightarrow> holdings env now' v s' = holdings env now' v s) \<and> sg_files s' = sg_files s
    \<and> (\<forall>h p. res = Inr (h, p) \<longrightarrow>
      (\<exists>r \<in> set (sg_rows s'). same_media u url r \<and> sg_handle r = h \<and> sg_path r = p \<and> sg_mime r = mime \<and> sg_expires r = now + staging_ttl))"
  proof (cases "find (same_media u url) (sg_rows s)")
    case (Some r)
    then have r: "r \<in> set (sg_rows s)" "same_media u url r" by (auto simp: find_Some_iff)
    have s': "s' = s\<lparr>sg_rows := map ?f (sg_rows s)\<rparr>" "res = Inr (sg_handle r, sg_path r)"
      using up Some by (auto simp: upsert_media_def)
    have "wf_staging s'" unfolding s'(1) by (rule wf_change_rows [OF assms(1)]) auto
    moreover have "holdings env now' v s' = holdings env now' v s" if "v \<noteq> u"
      unfolding s'(1) using that by (intro holdings_change) (auto simp: same_media_def)
    moreover have "?f r \<in> set (sg_rows s')" using r s' by simp
    ultimately show ?thesis using r s' by (auto simp: same_media_def intro!: bexI [of _ "?f r"])
  next
    case None
    show ?thesis
    proof (cases "list_ex (\<lambda>q. sg_handle q = fresh) (sg_rows s)")
      case True
      then show ?thesis using up None assms(1) by (auto simp: upsert_media_def)
    next
      case False
      let ?r = "\<lparr>sg_id = sg_next s, sg_user = u, sg_handle = fresh, sg_url = url, sg_mime = mime,
                       sg_path = store_disk_path u fresh, sg_expires = now + staging_ttl, sg_created = now,
                       sg_upload = None\<rparr>"
      have s': "s' = s\<lparr>sg_rows := sg_rows s @ [?r], sg_next := Suc (sg_next s)\<rparr>" "res = Inr (fresh, store_disk_path u fresh)"
        using up None False by (auto simp: upsert_media_def)
      have "media_key q \<noteq> (u, url)" if "q \<in> set (sg_rows s)" for q
        using that None by (auto simp: find_None_iff same_media_def media_key_def)
      then have "wf_staging s'"
        using assms(1-3) False s' by (auto simp: wf_staging_def media_key_def row_ok_def list_ex_iff less_Suc_eq dest: bspec)
      then show ?thesis using s' by (auto simp: holdings_def same_media_def)
    qed
  qed
  then show "wf_staging s'" "v \<noteq> u \<Longrightarrow> holdings env now' v s' = holdings env now' v s" "sg_files s' = sg_files s"
    "\<And>h p. res = Inr (h, p) \<Longrightarrow>
      \<exists>r \<in> set (sg_rows s'). same_media u url r \<and> sg_handle r = h \<and> sg_path r = p \<and> sg_mime r = mime \<and> sg_expires r = now + staging_ttl"
    by blast+
qed

text \<open>Writing the file of one row leaves what the others give.\<close>

lemma holdings_write:
  assumes "wf_staging s" and "r \<in> set (sg_rows s)" and "sg_user r \<noteq> v"
  shows "holdings env now v (s\<lparr>sg_files := (sg_files s)(resolve_disk_path env (sg_path r) \<mapsto> c)\<rparr>) = holdings env now v s"
proof -
  have "resolve_disk_path env (sg_path q) \<noteq> resolve_disk_path env (sg_path r)" if "q \<in> set (sg_rows s)" "sg_user q = v" for q
    using that assms wf_rows_eq(4) [OF assms(1) that(1) assms(2)] by blast
  then show ?thesis by (auto simp: holdings_def)
qed

lemma stage_effect:
  assumes "wf_staging s" and "name_ok u" and "name_ok (mint_handle token)"
  shows "wf_staging (snd (stage env now token u url content mime s))"
    and "v \<noteq> u \<Longrightarrow> holdings env now' v (snd (stage env now token u url content mime s)) = holdings env now' v s"
proof -
  obtain res s1 where up: "upsert_media now (mint_handle token) u url mime s = (res, s1)" by fastforce
  note effect = upsert_effect [OF assms up]
  have "wf_staging (snd (stage env now token u url content mime s))
    \<and> (v \<noteq> u \<longrightarrow> holdings env now' v (snd (stage env now token u url content mime s)) = holdings env now' v s)"
  proof (cases res)
    case (Inl e)
    then show ?thesis using up effect assms(1) by (auto simp: stage_def)
  next
    case (Inr hp)
    then obtain r where r: "r \<in> set (sg_rows s1)" "same_media u url r" "sg_path r = snd hp"
      using effect(4) [of "fst hp" "snd hp"] by auto
    let ?s2 = "s1\<lparr>sg_files := (sg_files s1)(resolve_disk_path env (snd hp) \<mapsto> content)\<rparr>"
    have wf2: "wf_staging ?s2" using effect(1) by simp
    have "holdings env now' v ?s2 = holdings env now' v s1" if "v \<noteq> u"
      using holdings_write [OF effect(1) r(1), of v env now' content] that r by (auto simp: same_media_def)
    then show ?thesis using up Inr effect assms(1) enforce_effect [OF wf2, of v u env now'] enforce_effect [OF wf2, of _ u env now', where v = "u @ ''x''"]
      by (auto simp: stage_def Let_def case_prod_unfold)
  qed
  then show "wf_staging (snd (stage env now token u url content mime s))"
    "v \<noteq> u \<Longrightarrow> holdings env now' v (snd (stage env now token u url content mime s)) = holdings env now' v s" by blast+
qed

lemma holdings_mono: "now \<le> now' \<Longrightarrow> (r, c) \<in> holdings env now' v s \<Longrightarrow> (r, c) \<in> holdings env now v s"
  by (auto simp: holdings_def live_def)

lemma touch_effect:
  assumes "wf_staging s"
  shows "wf_staging (snd (touch now h u s))" and "v \<noteq> u \<Longrightarrow> holdings env now' v (snd (touch now h u s)) = holdings env now' v s"
proof -
  let ?f = "\<lambda>r. if sg_handle r = h \<and> sg_user r = u then r\<lparr>sg_expires := now + staging_ttl\<rparr> else r"
  have s': "snd (touch now h u s) = s\<lparr>sg_rows := map ?f (sg_rows s)\<rparr>" by (simp add: touch_def)
  show "wf_staging (snd (touch now h u s))" unfolding s' by (rule wf_change_rows [OF assms]) auto
  show "holdings env now' v (snd (touch now h u s)) = holdings env now' v s" if "v \<noteq> u"
    unfolding s' using that by (intro holdings_change) auto
qed

lemma referred_in: "referred_row now u ref s = Some r \<Longrightarrow> r \<in> set (sg_rows s) \<and> refers u ref r \<and> live now r"
proof -
  assume "referred_row now u ref s = Some r"
  then have "r \<in> set (sort_key (\<lambda>r. - sg_created r) (filter (\<lambda>r. refers u ref r \<and> live now r) (sg_rows s)))"
    unfolding referred_row_def by (cases "sort_key (\<lambda>r. - sg_created r) (filter (\<lambda>r. refers u ref r \<and> live now r) (sg_rows s))")
      (simp_all del: set_sort)
  then show ?thesis by simp
qed

lemma mark_effect:
  assumes "wf_staging s"
  shows "wf_staging (mark_uploaded now u ref rcpt s)"
    and "v \<noteq> u \<Longrightarrow> holdings env now' v (mark_uploaded now u ref rcpt s) = holdings env now' v s"
proof -
  have "wf_staging (mark_uploaded now u ref rcpt s)
    \<and> (v \<noteq> u \<longrightarrow> holdings env now' v (mark_uploaded now u ref rcpt s) = holdings env now' v s)"
  proof (cases "ref = [] \<or> referred_row now u ref s = None")
    case True
    then show ?thesis using assms by (auto simp: mark_uploaded_def)
  next
    case False
    then obtain r where r: "referred_row now u ref s = Some r" by blast
    let ?f = "\<lambda>q. if sg_id q = sg_id r then q\<lparr>sg_upload := Some rcpt\<rparr> else q"
    have s': "mark_uploaded now u ref rcpt s = s\<lparr>sg_rows := map ?f (sg_rows s)\<rparr>" using r False by (simp add: mark_uploaded_def)
    have mine: "r \<in> set (sg_rows s)" "sg_user r = u" using referred_in [OF r] by (auto simp: refers_def)
    have "q \<in> set (sg_rows s) \<Longrightarrow> sg_user q = v \<Longrightarrow> v \<noteq> u \<Longrightarrow> sg_id q \<noteq> sg_id r" for q
      using wf_rows_eq(1) [OF assms _ mine(1), of q] mine(2) by blast
    then have same: "map ?f (sg_rows s) = map (\<lambda>q. if sg_user q = v then q else ?f q) (sg_rows s)" if "v \<noteq> u"
      using that by (intro map_cong) auto
    have "holdings env now' v (s\<lparr>sg_rows := map ?f (sg_rows s)\<rparr>)
      = holdings env now' v (s\<lparr>sg_rows := map (\<lambda>q. if sg_user q = v then q else ?f q) (sg_rows s)\<rparr>)" if "v \<noteq> u"
      unfolding same [OF that] ..
    moreover have "holdings env now' v (s\<lparr>sg_rows := map (\<lambda>q. if sg_user q = v then q else ?f q) (sg_rows s)\<rparr>) = holdings env now' v s"
      by (rule holdings_change) auto
    moreover have "wf_staging (s\<lparr>sg_rows := map ?f (sg_rows s)\<rparr>)" by (rule wf_change_rows [OF assms]) auto
    ultimately show ?thesis unfolding s' by (simp only: simp_thms) blast
  qed
  then show "wf_staging (mark_uploaded now u ref rcpt s)"
    "v \<noteq> u \<Longrightarrow> holdings env now' v (mark_uploaded now u ref rcpt s) = holdings env now' v s" by blast+
qed

text \<open>The bulk deletions by user and by time are \<open>drop_rows\<close> of the rows they select.\<close>

lemma filter_by_id:
  assumes "wf_staging s"
  shows "filter (\<lambda>r. sg_id r \<notin> sg_id ` set (filter P (sg_rows s))) (sg_rows s) = filter (\<lambda>r. \<not> P r) (sg_rows s)"
proof (rule filter_cong [OF refl])
  fix r assume r: "r \<in> set (sg_rows s)"
  have "P q" if "q \<in> set (sg_rows s)" "P r" "sg_id r = sg_id q" for q
    using wf_rows_eq(1) [OF assms r that(1)] that by blast
  then show "(sg_id r \<notin> sg_id ` set (filter P (sg_rows s))) = (\<not> P r)"
    using r wf_rows_eq(1) [OF assms r] by (auto simp: image_iff)
qed

lemma clear_as_drop: "wf_staging s \<Longrightarrow> clear_user env u s = drop_rows env (filter (\<lambda>r. sg_user r = u) (sg_rows s)) s"
  using filter_by_id [of s "\<lambda>r. sg_user r = u"] by (simp add: clear_user_def drop_rows_def delete_rows_by_id_def)

lemma purge_as_drop:
  "wf_staging s \<Longrightarrow> snd (purge_expired env now s) = drop_rows env (filter (\<lambda>r. \<not> live now r) (sg_rows s)) s"
  using filter_by_id [of s "\<lambda>r. \<not> live now r"] by (simp add: purge_expired_def drop_rows_def delete_rows_by_id_def Let_def)

lemma purge_effect:
  assumes "wf_staging s" and "now \<le> now'"
  shows "wf_staging (snd (purge_expired env now s)) \<and> holdings env now' v (snd (purge_expired env now s)) = holdings env now' v s"
proof -
  have "holdings env now' v (drop_rows env (filter (\<lambda>r. \<not> live now r) (sg_rows s)) s) = holdings env now' v s"
    using assms(2) by (intro holdings_drop [OF assms(1)]) (auto simp: live_def)
  then show ?thesis using assms(1) by (simp add: purge_as_drop wf_drop)
qed

lemma evict_handle_effect:
  assumes "wf_staging s" and "v \<noteq> u" and "now \<le> now'"
    and mine: "\<And>w url c m. fst (get_by_handle env now h s) = Some (w, url, c, m) \<Longrightarrow> w = u"
  shows "wf_staging (snd (evict_by_handle env h s)) \<and> holdings env now' v (snd (evict_by_handle env h s)) = holdings env now' v s"
proof (cases "find (\<lambda>r. sg_handle r = h) (sg_rows s)")
  case None
  then show ?thesis using assms by (simp add: evict_by_handle_def)
next
  case (Some r)
  then have r: "r \<in> set (sg_rows s)" "sg_handle r = h" by (auto simp: find_Some_iff)
  have "sg_user r \<noteq> v \<or> \<not> live now' r \<or> \<not> readable env s r"
  proof (rule ccontr)
    assume "\<not> ?thesis"
    then obtain c where "(r, c) \<in> holdings env now v s"
      using r assms(3) by (auto simp: holdings_def readable_def live_def)
    then have "fst (get_by_handle env now h s) = Some (v, sg_url r, c, sg_mime r)"
      using r by (auto simp: get_by_handle_iff [OF assms(1)])
    then show False using mine assms(2) by blast
  qed
  then show ?thesis using Some assms(1) r drop_one_other [OF assms(1) r(1)] by (simp add: evict_by_handle_def wf_drop)
qed

lemma discard_effect:
  assumes "wf_staging s" and "v \<noteq> u" and "now \<le> now'"
  shows "wf_staging (snd (snd (discard_media env now u h (cache, s))))
    \<and> holdings env now' v (snd (snd (discard_media env now u h (cache, s)))) = holdings env now' v s"
proof -
  obtain res s1 where g: "get_by_handle env now h s = (res, s1)" by fastforce
  have 1: "wf_staging s1" "\<And>t w. holdings env t w s1 = holdings env t w s"
    using get_by_handle_effect [OF assms(1), of env now h] g by auto
  have same: "fst (get_by_handle env now h s1) = Some (w, url, c, m) \<longleftrightarrow> res = Some (w, url, c, m)" for w url c m
    using g by (auto simp: get_by_handle_iff [OF 1(1)] get_by_handle_iff [OF assms(1), symmetric] 1(2))
  have gone: "wf_staging (snd (evict_by_handle env h s1)) \<and> holdings env now' v (snd (evict_by_handle env h s1)) = holdings env now' v s"
    if "\<And>w url c m. res = Some (w, url, c, m) \<Longrightarrow> w = u"
    using evict_handle_effect [OF 1(1) assms(2,3), of env h] that same 1(2) by auto
  show ?thesis
  proof (cases res)
    case None
    then show ?thesis using gone g by (simp add: discard_media_def case_prod_unfold Let_def)
  next
    case (Some x)
    obtain w url c m where x: "x = (w, url, c, m)" by (cases x) auto
    then show ?thesis using Some gone g 1 by (cases "w = u") (simp_all add: discard_media_def case_prod_unfold Let_def)
  qed
qed

lemma analyze_effect:
  assumes "wf_staging s" and "v \<noteq> u"
  shows "wf_staging (snd (snd (analyze_photo vision env now u turn_text h context (cache, s))))
    \<and> holdings env now' v (snd (snd (analyze_photo vision env now u turn_text h context (cache, s)))) = holdings env now' v s"
proof -
  obtain res s1 where g: "get_by_handle env now h s = (res, s1)" by fastforce
  have 1: "wf_staging s1" "holdings env now' v s1 = holdings env now' v s"
    using get_by_handle_effect [OF assms(1), of env now h now' v] g by auto
  show ?thesis
    using g 1 assms touch_effect(1) [OF 1(1), where h = h and u = u and now = now] touch_effect(2) [OF 1(1) assms(2), where h = h and now = now]
    by (auto simp: analyze_photo_def Let_def split: option.splits)
qed

section \<open>Steps\<close>

text \<open>What a turn of a user, and the process, can do to the cache at a time.\<close>

inductive media_step :: "fs_env \<Rightarrow> int \<Rightarrow> string \<Rightarrow> staging \<Rightarrow> staging \<Rightarrow> bool" for env now u where
  Stage: "name_ok u \<Longrightarrow> name_ok (mint_handle token) \<Longrightarrow> media_step env now u s (snd (stage env now token u url content mime s))"
| LoadAll: "media_step env now u s (snd (get_all_for_user env now u s))"
| Resolve: "media_step env now u s (snd (resolve_media_ref env now u ref s))"
| Touch: "media_step env now u s (snd (touch now h u s))"
| Evict: "media_step env now u s (evict env u url s)"
| Mark: "media_step env now u s (mark_uploaded now u ref rcpt s)"
| Clear: "media_step env now u s (clear_user env u s)"
| Purge: "media_step env now u s (snd (purge_expired env now s))"
| Analyze: "media_step env now u s (snd (snd (analyze_photo vision env now u turn_text h context (cache, s))))"
| Discard: "media_step env now u s (snd (snd (discard_media env now u h (cache, s))))"

inductive_cases media_stepE: "media_step env now u s s'"

lemma media_step_effect:
  assumes "media_step env now u s s'" and "wf_staging s"
  shows "wf_staging s' \<and> (v \<noteq> u \<longrightarrow> now \<le> now' \<longrightarrow> holdings env now' v s' = holdings env now' v s)"
  using assms(1)
proof cases
  case (Stage token url content mime)
  then show ?thesis using stage_effect [OF assms(2) Stage(2,3)] by simp
next
  case LoadAll
  let ?ids = "map sg_id (filter (\<lambda>r. read_bytes env (sg_path r) s = None) (filter (\<lambda>r. sg_user r = u \<and> live now r) (sg_rows s)))"
  have "holdings env now' v (delete_rows_by_id ?ids s) = holdings env now' v s" if "v \<noteq> u"
  proof (rule holdings_delete [OF assms(2)])
    fix r assume r: "r \<in> set (sg_rows s)" "sg_id r \<in> set ?ids" "sg_user r = v"
    then obtain q where "q \<in> set (sg_rows s)" "sg_id q = sg_id r" "sg_user q = u" by auto
    then show "\<not> readable env s r" using wf_rows_eq(1) [OF assms(2) r(1)] r that by auto
  qed
  then show ?thesis using LoadAll assms(2) by (simp add: get_all_for_user_def Let_def wf_delete)
next
  case (Resolve ref)
  then show ?thesis using resolve_effect [OF assms(2)] by simp
next
  case (Touch h)
  then show ?thesis using touch_effect [OF assms(2)] by simp
next
  case (Evict url)
  have "r \<in> set (sg_rows s) \<and> sg_user r = u" if "find (same_media u url) (sg_rows s) = Some r" for r
    using that by (auto simp: find_Some_iff same_media_def)
  then show ?thesis using Evict assms(2) drop_one_other [OF assms(2)]
    by (auto simp: evict_def wf_drop split: option.splits)
next
  case (Mark ref rcpt)
  then show ?thesis using mark_effect [OF assms(2)] by simp
next
  case Clear
  have "holdings env now' v (drop_rows env (filter (\<lambda>r. sg_user r = u) (sg_rows s)) s) = holdings env now' v s" if "v \<noteq> u"
    using that by (intro holdings_drop [OF assms(2)]) auto
  then show ?thesis using Clear assms(2) by (simp add: clear_as_drop wf_drop)
next
  case Purge
  then show ?thesis using purge_effect [OF assms(2), of now now' env v] purge_effect [OF assms(2), of now now env v] by auto
next
  case (Analyze vision turn_text h hint cache)
  then show ?thesis using analyze_effect [OF assms(2), of v u] analyze_effect [OF assms(2), of "u @ ''x''" u] by simp
next
  case (Discard h cache)
  then show ?thesis using discard_effect [OF assms(2), of v u now now'] discard_effect [OF assms(2), of "u @ ''x''" u now now] by auto
qed

section \<open>Isolation\<close>

lemma resolve_own:
  assumes "wf_staging s" and "fst (resolve_media_ref env now u ref s) = Some (url, c, mime)"
  shows "\<exists>r. (r, c) \<in> holdings env now u s \<and> sg_url r = url \<and> sg_mime r = mime"
proof -
  obtain res s1 where g: "get_by_handle env now ref s = (res, s1)" by fastforce
  have 1: "holdings env now u s1 = holdings env now u s" using get_by_handle_effect [OF assms(1), of env now ref now u] g by auto
  show ?thesis
  proof (cases res)
    case None
    then obtain r where r: "find_media now u ref s1 = Some r" "read_bytes env (sg_path r) s1 = Some c" "url = ref" "mime = sg_mime r"
      using g assms(2) by (auto simp: resolve_media_ref_def open_row_def split: option.splits)
    then have "(r, c) \<in> holdings env now u s1" "sg_url r = url"
      using find_media_in [OF r(1)] by (auto simp: holdings_def same_media_def)
    then show ?thesis using 1 r(4) by blast
  next
    case (Some x)
    then have "fst (get_by_handle env now ref s) = Some (u, url, c, mime)"
      using g assms(2) by (cases x) (auto simp: resolve_media_ref_def split: if_splits)
    then show ?thesis by (auto simp: get_by_handle_iff [OF assms(1)])
  qed
qed

text \<open>
  Staged media are private. Whatever a turn of one user does to the cache (staging, the tools,
  uploads, the cap, even an orphan found on the way), a handle of another user gives the same bytes
  as before at any later time; a reference resolves only to bytes of the user who asks, whoever's
  handle it is; and the unique keys of the table and the one-file-per-row layout are kept.
\<close>

theorem others_media_untouched:
  assumes "media_step env now u s s'" and "wf_staging s" and "v \<noteq> u" and "now \<le> now'"
  shows "wf_staging s'
    \<and> (fst (get_by_handle env now' h s') = Some (v, url, c, mime) \<longleftrightarrow> fst (get_by_handle env now' h s) = Some (v, url, c, mime))
    \<and> (fst (resolve_media_ref env now' u ref s') = Some (url', c', mime') \<longrightarrow>
        (\<exists>r \<in> set (sg_rows s'). sg_user r = u \<and> sg_url r = url' \<and> read_bytes env (sg_path r) s' = Some c'))"
proof -
  have wf: "wf_staging s'" and eq: "holdings env now' v s' = holdings env now' v s"
    using media_step_effect [OF assms(1,2), of v now'] assms(3,4) by auto
  have "\<exists>r \<in> set (sg_rows s'). sg_user r = u \<and> sg_url r = url' \<and> read_bytes env (sg_path r) s' = Some c'"
    if "fst (resolve_media_ref env now' u ref s') = Some (url', c', mime')"
    using resolve_own [OF wf that] by (auto simp: holdings_def)
  then show ?thesis using wf eq by (simp add: get_by_handle_iff [OF wf] get_by_handle_iff [OF assms(2)])
qed

section \<open>Staging and the cap\<close>

lemma last_of_sorted:
  assumes "r \<in> set xs" and "\<And>q. q \<in> set xs \<Longrightarrow> q \<noteq> r \<Longrightarrow> f q < (f r :: int)"
  shows "last (sort_key f xs) = r"
proof (rule ccontr)
  let ?ys = "sort_key f xs"
  have ne: "?ys \<noteq> []" using assms(1) by (cases xs) (auto simp flip: length_0_conv simp: length_insort)
  assume ne_r: "last ?ys \<noteq> r"
  have "last ?ys \<in> set xs" using ne last_in_set [of ?ys] by simp
  then have "f (last ?ys) < f r" using assms(2) ne_r by blast
  moreover have "f r \<le> f (last ?ys)"
  proof -
    have "r \<in> set ?ys" using assms(1) by simp
    then obtain i where i: "i < length ?ys" "?ys ! i = r" by (metis in_set_conv_nth)
    have "map f ?ys ! i \<le> map f ?ys ! (length ?ys - 1)" using i(1) by (intro sorted_nth_mono sorted_sort_key) auto
    then show ?thesis using i ne by (simp add: last_conv_nth)
  qed
  ultimately show False by simp
qed

lemma eviction_order_distinct:
  assumes "wf_staging s"
  shows "distinct (eviction_order u s)"
  using assms distinct_map by (auto simp: eviction_order_def Let_def wf_staging_def distinct_map)

lemma eviction_order_split:
  "eviction_order u s =
     sort_key sg_expires (filter (\<lambda>r. sg_user r = u \<and> sg_upload r \<noteq> None) (sg_rows s))
     @ sort_key sg_expires (filter (\<lambda>r. sg_user r = u \<and> sg_upload r = None) (sg_rows s))"
  by (simp add: eviction_order_def filter_sort conj_commute)

lemma newest_not_evicted:
  assumes "wf_staging s" and "r \<in> set (sg_rows s)" and "sg_user r = u" and "sg_upload r = None"
    and "\<And>q. q \<in> set (sg_rows s) \<Longrightarrow> sg_user q = u \<Longrightarrow> q \<noteq> r \<Longrightarrow> sg_expires q < sg_expires r"
  shows "r \<notin> set (overflow_rows u s)"
proof -
  let ?B = "sort_key sg_expires (filter (\<lambda>r. sg_user r = u \<and> sg_upload r = None) (sg_rows s))"
  let ?o = "eviction_order u s"
  have "r \<in> set ?B" using assms by simp
  then have "?B \<noteq> []" by (metis empty_iff list.set(1))
  moreover have "last ?B = r" by (rule last_of_sorted) (use assms in auto)
  ultimately have o: "?o \<noteq> []" "last ?o = r" by (simp_all add: eviction_order_split)
  then have "?o = butlast ?o @ [r]" by (metis append_butlast_last_id)
  then have "r \<notin> set (butlast ?o)" using eviction_order_distinct [OF assms(1), of u]
    by (metis distinct_append not_distinct_conv_prefix)
  moreover have "take (length ?o - staging_max_per_user) ?o = take (length ?o - staging_max_per_user) (butlast ?o)"
    using o(1) by (simp add: butlast_conv_take staging_max_per_user_def min_def)
  ultimately show ?thesis by (metis in_set_takeD overflow_rows_def)
qed

lemma upsert_rows:
  assumes "upsert_media now fresh u url mime s = (Inr hp, s')" and "q \<in> set (sg_rows s')"
  shows "\<not> same_media u url q \<Longrightarrow> q \<in> set (sg_rows s)"
    and "same_media u url q \<Longrightarrow> sg_upload q = None \<or> (\<exists>p \<in> set (sg_rows s). same_media u url p \<and> sg_upload p = sg_upload q)"
proof -
  have "(\<not> same_media u url q \<longrightarrow> q \<in> set (sg_rows s))
    \<and> (same_media u url q \<longrightarrow> sg_upload q = None \<or> (\<exists>p \<in> set (sg_rows s). same_media u url p \<and> sg_upload p = sg_upload q))"
  proof (cases "find (same_media u url) (sg_rows s)")
    case (Some r)
    let ?f = "\<lambda>q. if same_media u url q then q\<lparr>sg_mime := mime, sg_expires := now + staging_ttl\<rparr> else q"
    from Some assms(1) have "sg_rows s' = map ?f (sg_rows s)" by (auto simp: upsert_media_def)
    then obtain p where p: "p \<in> set (sg_rows s)" "q = ?f p" using assms(2) by auto
    show ?thesis
    proof (cases "same_media u url p")
      case True
      then have "same_media u url q" "sg_upload p = sg_upload q" using p(2) by (auto simp: same_media_def)
      then show ?thesis using True p(1) by blast
    next
      case False
      then have "q = p" using p(2) by (simp only: if_False)
      then show ?thesis using False p(1) by simp
    qed
  next
    case None
    then have "q \<in> set (sg_rows s) \<or> same_media u url q \<and> sg_upload q = None"
      using assms by (auto simp: upsert_media_def same_media_def split: if_splits)
    moreover have "\<not> same_media u url q" if "q \<in> set (sg_rows s)" using None that by (auto simp: find_None_iff)
    ultimately show ?thesis by blast
  qed
  then show "\<not> same_media u url q \<Longrightarrow> q \<in> set (sg_rows s)"
    "same_media u url q \<Longrightarrow> sg_upload q = None \<or> (\<exists>p \<in> set (sg_rows s). same_media u url p \<and> sg_upload p = sg_upload q)"
    by blast+
qed


lemma gap_in_order:
  assumes "ys = A @ B" and "ys ! i \<notin> set A" and "sorted (map f B)" and "i < k" and "k \<le> j" and "j < length ys"
  shows "ys ! j \<in> set B \<and> f (ys ! i) \<le> (f (ys ! j) :: int)"
proof -
  have i: "length A \<le> i" using assms(1,2) by (metis leI nth_append nth_mem)
  define i' j' where "i' = i - length A" and "j' = j - length A"
  have le: "i' \<le> j'" "j' < length B" using assms(1,4-6) i by (auto simp: i'_def j'_def)
  have eq: "ys ! i = B ! i'" "ys ! j = B ! j'" using assms(1,4,5) i by (simp_all add: nth_append i'_def j'_def)
  have "map f B ! i' \<le> map f B ! j'" using assms(3) le by (intro sorted_nth_mono) auto
  then show ?thesis unfolding eq using le by simp
qed

lemma enforce_cap:
  assumes "wf_staging s"
  shows "length (filter (\<lambda>r. sg_user r = u) (sg_rows (enforce_per_user_cap env u s))) \<le> staging_max_per_user"
    and "r \<in> set (sg_rows s) \<Longrightarrow> sg_user r = u \<Longrightarrow> sg_upload r = None \<Longrightarrow> r \<notin> set (sg_rows (enforce_per_user_cap env u s))
      \<Longrightarrow> q \<in> set (sg_rows (enforce_per_user_cap env u s)) \<Longrightarrow> sg_user q = u \<Longrightarrow> sg_upload q = None \<and> sg_expires r \<le> sg_expires q"
proof -
  let ?o = "eviction_order u s" and ?k = "length (eviction_order u s) - staging_max_per_user"
  let ?s' = "enforce_per_user_cap env u s"
  have in_s': "x \<in> set (sg_rows ?s') \<longleftrightarrow> x \<in> set (sg_rows s) \<and> x \<notin> set (take ?k ?o)" for x
  proof -
    have "sg_id x \<in> sg_id ` set (overflow_rows u s) \<longleftrightarrow> x \<in> set (overflow_rows u s)" if "x \<in> set (sg_rows s)"
      using overflow_set [of u s] wf_rows_eq(1) [OF assms that] by auto
    then show ?thesis by (auto simp: enforce_per_user_cap_def rows_drop overflow_rows_def Let_def)
  qed
  have split: "set ?o = set (take ?k ?o) \<union> set (drop ?k ?o)" by (metis append_take_drop_id set_append)
  have disjoint: "set (take ?k ?o) \<inter> set (drop ?k ?o) = {}"
    using eviction_order_distinct [OF assms, of u] by (metis append_take_drop_id distinct_append)
  have drop: "x \<in> set (drop ?k ?o) \<longleftrightarrow> x \<in> set (sg_rows ?s') \<and> sg_user x = u" for x
    using split disjoint in_s' [of x] eviction_order_set [of u s] by auto
  have "distinct (filter (\<lambda>r. sg_user r = u) (sg_rows ?s'))"
    using wf_drop [OF assms, of env "overflow_rows u s"]
    by (auto simp: wf_staging_def distinct_map enforce_per_user_cap_def)
  then have "length (filter (\<lambda>r. sg_user r = u) (sg_rows ?s')) = card (set (filter (\<lambda>r. sg_user r = u) (sg_rows ?s')))"
    by (rule distinct_card [symmetric])
  also have "\<dots> = card (set (drop ?k ?o))" by (rule arg_cong [where f = card]) (use drop in auto)
  also have "\<dots> \<le> staging_max_per_user" using card_length [of "drop ?k ?o"] by simp
  finally show "length (filter (\<lambda>r. sg_user r = u) (sg_rows ?s')) \<le> staging_max_per_user" .
  assume r: "r \<in> set (sg_rows s)" "sg_user r = u" "sg_upload r = None" "r \<notin> set (sg_rows ?s')"
    and q: "q \<in> set (sg_rows ?s')" "sg_user q = u"
  have "r \<in> set (take ?k ?o)" "q \<in> set (drop ?k ?o)" using r q in_s' drop by auto
  then obtain i j' where i: "i < length (take ?k ?o)" "take ?k ?o ! i = r" and j': "j' < length (drop ?k ?o)" "drop ?k ?o ! j' = q"
    unfolding in_set_conv_nth by blast
  define j where "j = ?k + j'"
  have ij: "i < ?k" "?k \<le> j" "j < length ?o" "?o ! i = r" "?o ! j = q" using i j' by (simp_all add: j_def)
  let ?A = "sort_key sg_expires (filter (\<lambda>r. sg_user r = u \<and> sg_upload r \<noteq> None) (sg_rows s))"
  let ?B = "sort_key sg_expires (filter (\<lambda>r. sg_user r = u \<and> sg_upload r = None) (sg_rows s))"
  have "?o = ?A @ ?B" by (rule eviction_order_split)
  moreover have "?o ! i \<notin> set ?A" using ij(4) r(3) by simp
  moreover have "sorted (map sg_expires ?B)" by (rule sorted_sort_key)
  ultimately have "?o ! j \<in> set ?B \<and> sg_expires (?o ! i) \<le> sg_expires (?o ! j)" using ij(1,2,3) by (intro gap_in_order)
  then show "sg_upload q = None \<and> sg_expires r \<le> sg_expires q" using ij(4,5) by simp
qed

text \<open>
  The cap: after a successful staging the user has at most fifty rows, and a photo whose bytes
  were not shipped anywhere is given up only when no upload receipt of the user is left and every
  row that stays expires no earlier.
\<close>

theorem cap_spares_unshipped:
  assumes "wf_staging s" and "name_ok u" and "name_ok (mint_handle token)"
    and st: "stage env now token u url content mime s = (Inr (Some h), s')"
  shows "length (filter (\<lambda>r. sg_user r = u) (sg_rows s')) \<le> staging_max_per_user
    \<and> (r \<in> set (sg_rows s) \<and> sg_user r = u \<and> sg_upload r = None \<and> sg_url r \<noteq> url \<and> r \<notin> set (sg_rows s') \<longrightarrow>
        (\<forall>q \<in> set (sg_rows s'). sg_user q = u \<longrightarrow> sg_upload q = None \<and> sg_expires r \<le> sg_expires q))"
proof -
  obtain res s1 where up: "upsert_media now (mint_handle token) u url mime s = (res, s1)" by fastforce
  then obtain stored where res: "res = Inr (h, stored)"
      and s': "s' = enforce_per_user_cap env u (s1\<lparr>sg_files := (sg_files s1)(resolve_disk_path env stored \<mapsto> content)\<rparr>)"
    using st by (auto simp: stage_def Let_def split: if_splits sum.splits)
  have wf: "wf_staging (s1\<lparr>sg_files := fs\<rparr>)" for fs using upsert_effect(1) [OF assms(1-3) up] by simp
  have kept: "r \<in> set (sg_rows s1)" if "r \<in> set (sg_rows s)" "sg_url r \<noteq> url"
    using up res that by (auto simp: upsert_media_def same_media_def image_iff split: option.splits if_splits)
  show ?thesis unfolding s' using enforce_cap(1) [OF wf] enforce_cap(2) [OF wf, where r = r] kept by auto
qed

section \<open>Receipts that are lost\<close>

text \<open>
  \<open>evict\<close> forgets the receipt of the upload with the row, for the handle as for the link: the
  retry its comment speaks of finds nothing.
\<close>

lemma evict_forgets_receipt:
  assumes "wf_staging s" and "r \<in> set (sg_rows s)" and "same_media u url r"
    and "\<And>q. q \<in> set (sg_rows s) \<Longrightarrow> sg_url q \<noteq> sg_handle r \<and> sg_handle q \<noteq> url"
  shows "get_uploaded now u url (evict env u url s) = None" and "get_uploaded now u (sg_handle r) (evict env u url s) = None"
proof -
  have only: "q = r" if "q \<in> set (sg_rows s)" "sg_user q = u" "sg_url q = url" for q
    using wf_rows_eq(3) [OF assms(1) that(1) assms(2)] that assms(3) by (simp add: media_key_def same_media_def)
  have found: "find (same_media u url) (sg_rows s) = Some r"
    using assms(2,3) by (intro find_unique [where P = "same_media u url"]) (simp_all, rule only, simp_all add: same_media_def)
  have rows: "sg_rows (evict env u url s) = filter (\<lambda>q. sg_id q \<noteq> sg_id r) (sg_rows s)"
    using found by (simp add: evict_def rows_drop)
  have "\<not> refers u ref q" if "q \<in> set (sg_rows (evict env u url s))" "ref = url \<or> ref = sg_handle r" for q ref
  proof
    assume "refers u ref q"
    then have "sg_user q = u" "sg_url q = url \<or> sg_handle q = sg_handle r"
      using assms(4) [of q] that unfolding rows by (auto simp: refers_def)
    then have "q = r" using only [of q] wf_rows_eq(2) [OF assms(1) _ assms(2), of q] that(1) unfolding rows by auto
    then show False using that(1) unfolding rows by simp
  qed
  then have "filter (\<lambda>q. refers u ref q \<and> live now q) (sg_rows (evict env u url s)) = []" if "ref = url \<or> ref = sg_handle r" for ref
    using that by (auto simp: filter_empty_conv)
  then show "get_uploaded now u url (evict env u url s) = None" "get_uploaded now u (sg_handle r) (evict env u url s) = None"
    by (simp_all add: get_uploaded_def referred_row_def)
qed

section \<open>Examples\<close>

definition demo_fs :: fs_env where
  "demo_fs = \<lparr>fe_root = ''m'', fe_write = (\<lambda>p. True), fe_read = (\<lambda>p. True), fe_unlink = (\<lambda>p. True)\<rparr>"

definition demo_media :: "string \<Rightarrow> nat \<Rightarrow> string \<Rightarrow> string \<Rightarrow> int \<Rightarrow> staged" where
  "demo_media user i h url expires =
     \<lparr>sg_id = i, sg_user = user, sg_handle = h, sg_url = url, sg_mime = ''image/png'', sg_path = store_disk_path user h,
      sg_expires = expires, sg_created = 0, sg_upload = None\<rparr>"

definition demo_staging :: staging where
  "demo_staging =
     \<lparr>sg_rows = [demo_media ''u'' 0 ''h0'' ''p'' 100, demo_media ''v'' 1 ''h1'' ''p'' 100],
      sg_files = [''m/u/h0.bin'' \<mapsto> ''A'', ''m/v/h1.bin'' \<mapsto> ''B''], sg_next = 2\<rparr>"

lemma demo_staging_wf: "wf_staging demo_staging"
  by (simp add: demo_staging_def demo_media_def wf_staging_def media_key_def row_ok_def name_ok_def)

lemma enforce_within_cap:
  assumes "length (filter (\<lambda>r. sg_user r = u) (sg_rows s)) \<le> staging_max_per_user"
  shows "enforce_per_user_cap env u s = s"
proof -
  have "length (eviction_order u s) = length (filter (\<lambda>r. sg_user r = u) (sg_rows s))"
    using sum_length_filter_compl [of "\<lambda>r. sg_upload r \<noteq> None" "sort_key sg_expires (filter (\<lambda>r. sg_user r = u) (sg_rows s))"]
    by (simp add: eviction_order_def Let_def)
  then show ?thesis using assms
    by (simp add: enforce_per_user_cap_def overflow_rows_def Let_def drop_rows_def unlink_all_def delete_rows_by_id_def)
qed

lemmas staging_eval = demo_fs_def demo_media_def demo_staging_def stage_def upsert_media_def same_media_def mint_handle_def
  resolve_disk_path_def store_disk_path_def enforce_within_cap staging_max_per_user_def

text \<open>The same link staged again, with other bytes, keeps its handle.\<close>

lemma demo_restage:
  "stage demo_fs 50 ''zz'' ''u'' ''p'' ''C'' ''image/gif'' demo_staging
    = (Inr (Some ''h0''),
       demo_staging\<lparr>sg_rows := [(demo_media ''u'' 0 ''h0'' ''p'' (50 + staging_ttl))\<lparr>sg_mime := ''image/gif''\<rparr>,
                               demo_media ''v'' 1 ''h1'' ''p'' 100],
                    sg_files := (sg_files demo_staging)(''m/u/h0.bin'' \<mapsto> ''C'')\<rparr>)"
  by (simp add: staging_eval)


theorem cap_spares_unshipped_witness:
  "length (filter (\<lambda>r. sg_user r = ''u'') (sg_rows (snd (stage demo_fs 50 ''zz'' ''u'' ''p'' ''C'' ''image/gif'' demo_staging)))) \<le> 50"
proof -
  have "name_ok ''u''" "name_ok (mint_handle ''zz'')" by (simp_all add: name_ok_def mint_handle_def)
  then show ?thesis using cap_spares_unshipped [OF demo_staging_wf _ _ demo_restage, of undefined]
    unfolding demo_restage snd_conv by (simp add: staging_max_per_user_def)
qed

theorem others_media_untouched_witness:
  "fst (get_by_handle demo_fs 60 ''h1'' (snd (stage demo_fs 50 ''zz'' ''u'' ''p'' ''C'' ''image/gif'' demo_staging)))
    = Some (''v'', ''p'', ''B'', ''image/png'')"
proof -
  have step: "media_step demo_fs 50 ''u'' demo_staging (snd (stage demo_fs 50 ''zz'' ''u'' ''p'' ''C'' ''image/gif'' demo_staging))"
    by (rule media_step.Stage) (simp_all add: name_ok_def mint_handle_def)
  have "fst (get_by_handle demo_fs 60 ''h1'' demo_staging) = Some (''v'', ''p'', ''B'', ''image/png'')"
    by (simp add: get_by_handle_def demo_staging_def demo_media_def live_def open_row_def read_bytes_def demo_fs_def
        resolve_disk_path_def store_disk_path_def)
  then show ?thesis using others_media_untouched [OF step demo_staging_wf, where v = "''v''" and now' = 60] by simp
qed

text \<open>
  Rows that expired long ago count for the cap and are not purged by a write: a live receipt is
  evicted before them. Here for a table that is one row over a cap of two.
\<close>

lemma receipt_before_expired:
  "eviction_order ''u'' (demo_staging\<lparr>sg_rows :=
     [demo_media ''u'' 0 ''h0'' ''p'' (-5), (demo_media ''u'' 1 ''h1'' ''q'' 900)\<lparr>sg_upload := Some rcpt\<rparr>,
      demo_media ''u'' 2 ''h2'' ''r'' 950]\<rparr>)
   = [(demo_media ''u'' 1 ''h1'' ''q'' 900)\<lparr>sg_upload := Some rcpt\<rparr>, demo_media ''u'' 0 ''h0'' ''p'' (-5), demo_media ''u'' 2 ''h2'' ''r'' 950]"
  by (simp add: eviction_order_def demo_media_def)

end
