(* ===== verification/Onboarding.thy ===== *)
theory Onboarding
  imports Permissions Receipts
begin

text \<open>
  Onboarding (\<open>backend/app/agent/onboarding.py\<close>): the evidence in a user's documents, the
  self-healing check at the start of a turn, the subscriber that ends onboarding after one, and the
  permissions a turn in onboarding sets (\<open>run_agent\<close> of \<open>router.py\<close>). A user object is a
  snapshot of the row at the start of the turn; BOOTSTRAP.md is there or not.
\<close>

section \<open>Evidence\<close>

record profile =
  pf_text :: string
  pf_timezone :: string
  pf_soul :: string
  pf_complete :: bool

definition min_onboarding_user_messages :: nat where
  "min_onboarding_user_messages = 10"

definition min_user_messages_for_auto_exit :: nat where
  "min_user_messages_for_auto_exit = 4"

definition max_onboarding_user_messages :: nat where
  "max_onboarding_user_messages = 50"

definition is_blank :: "char \<Rightarrow> bool" where
  "is_blank c \<longleftrightarrow> c = CHR '' '' \<or> c = CHR 0x09"

text \<open>One line of \<open>^[ \t]*-?[ \t]*Name:[ \t]+\S\<close>.\<close>

definition name_line :: "string \<Rightarrow> bool" where
  "name_line l \<longleftrightarrow>
     (let a = dropWhile is_blank l;
          b = (case a of [] \<Rightarrow> [] | c # cs \<Rightarrow> if c = CHR ''-'' then dropWhile is_blank cs else a);
          value = drop 5 b
      in prefix ''Name:'' b \<and> value \<noteq> [] \<and> is_blank (hd value)
         \<and> (case dropWhile is_blank value of [] \<Rightarrow> False | c # cs \<Rightarrow> \<not> is_space c))"

definition has_real_user_profile :: "profile \<Rightarrow> bool" where
  "has_real_user_profile u \<longleftrightarrow> pf_text u \<noteq> [] \<and> list_ex name_line (split_lines (pf_text u))"

definition has_user_timezone :: "profile \<Rightarrow> bool" where
  "has_user_timezone u \<longleftrightarrow> py_strip (pf_timezone u) \<noteq> []"

text \<open>The default soul is a prompt file; the template the user starts with wraps it in a heading.\<close>

definition has_custom_soul :: "string \<Rightarrow> profile \<Rightarrow> bool" where
  "has_custom_soul default_soul u \<longleftrightarrow>
     (let content = py_strip (pf_soul u)
      in content \<noteq> [] \<and> content \<noteq> default_soul \<and> content \<noteq> ''# Soul'' @ [nl, nl] @ default_soul)"

definition is_ready_for_auto_exit :: "profile \<Rightarrow> bool" where
  "is_ready_for_auto_exit u \<longleftrightarrow> has_real_user_profile u \<and> has_user_timezone u"

definition is_onboarding_complete_heuristic :: "string \<Rightarrow> profile \<Rightarrow> bool" where
  "is_onboarding_complete_heuristic default_soul u \<longleftrightarrow>
     has_real_user_profile u \<and> has_user_timezone u \<and> has_custom_soul default_soul u"

definition is_in_onboarding_flow :: "string \<Rightarrow> profile \<Rightarrow> bool" where
  "is_in_onboarding_flow default_soul u \<longleftrightarrow> \<not> pf_complete u \<and> \<not> is_onboarding_complete_heuristic default_soul u"

section \<open>The check at the start of a turn\<close>

text \<open>What is stored: the row of the user, if it still exists, and whether BOOTSTRAP.md does.\<close>

record onboarding_store =
  ob_row :: "profile option"
  ob_bootstrap :: bool

definition is_onboarding_needed :: "string \<Rightarrow> bool \<Rightarrow> profile \<Rightarrow> onboarding_store \<Rightarrow> bool \<times> onboarding_store" where
  "is_onboarding_needed default_soul disk_ok u st =
     (if pf_complete u then (False, st)
      else if is_onboarding_complete_heuristic default_soul u then (False, st)
      else if ob_bootstrap st then (True, st)
      else if disk_ok then (True, st\<lparr>ob_bootstrap := True\<rparr>)
      else (False, st))"

section \<open>The subscriber\<close>

definition mark_onboarding_complete :: "profile \<times> onboarding_store \<Rightarrow> profile \<times> onboarding_store" where
  "mark_onboarding_complete ust =
     (let (u, st) = ust
      in (u\<lparr>pf_complete := True\<rparr>, st\<lparr>ob_row := map_option (\<lambda>r. r\<lparr>pf_complete := True\<rparr>) (ob_row st)\<rparr>))"

text \<open>The texts are read again from the row, the timezone is not.\<close>

definition refresh_user :: "onboarding_store \<Rightarrow> profile \<Rightarrow> profile" where
  "refresh_user st u = (case ob_row st of None \<Rightarrow> u | Some r \<Rightarrow> u\<lparr>pf_text := pf_text r, pf_soul := pf_soul r\<rparr>)"

definition remove_bootstrap :: "onboarding_store \<Rightarrow> onboarding_store" where
  "remove_bootstrap st = st\<lparr>ob_bootstrap := False\<rparr>"

datatype exit_path = BootstrapGone | AutoExit | StrictHeuristic | HardCeiling | PrePopulated

definition exit_path :: "string \<Rightarrow> bool \<Rightarrow> nat \<Rightarrow> profile \<Rightarrow> onboarding_store \<Rightarrow> exit_path option" where
  "exit_path default_soul was_onboarding user_message_count u st =
     (if was_onboarding \<and> \<not> ob_bootstrap st then Some BootstrapGone
      else let u' = (if was_onboarding then refresh_user st u else u)
      in if was_onboarding \<and> min_user_messages_for_auto_exit \<le> user_message_count \<and> is_ready_for_auto_exit u' then Some AutoExit
         else if was_onboarding \<and> min_onboarding_user_messages \<le> user_message_count
              \<and> is_onboarding_complete_heuristic default_soul u' then Some StrictHeuristic
         else if was_onboarding \<and> max_onboarding_user_messages \<le> user_message_count then Some HardCeiling
         else if \<not> was_onboarding \<and> is_onboarding_complete_heuristic default_soul u' then Some PrePopulated
         else None)"

definition on_agent_end ::
  "string \<Rightarrow> bool \<Rightarrow> nat \<Rightarrow> profile \<times> onboarding_store \<Rightarrow> profile \<times> onboarding_store" where
  "on_agent_end default_soul was_onboarding user_message_count ust =
     (let (u, st) = ust
      in if pf_complete u then (u, st)
         else case exit_path default_soul was_onboarding user_message_count u st of
                None \<Rightarrow> (if was_onboarding then refresh_user st u else u, st)
              | Some BootstrapGone \<Rightarrow> mark_onboarding_complete (u, st)
              | Some PrePopulated \<Rightarrow> mark_onboarding_complete (u, st)
              | Some path \<Rightarrow> mark_onboarding_complete (refresh_user st u, remove_bootstrap st))"

section \<open>One turn\<close>

text \<open>
  A turn in onboarding first allows two tools for good, then runs. What its tools, and anybody else
  meanwhile, write to the row and the workspace is a parameter, as is whether the agent loop reached
  its end event.
\<close>

definition delete_file :: string where
  "delete_file = ''delete_file''"

definition send_media_reply :: string where
  "send_media_reply = ''send_media_reply''"

definition preapprove :: "tool_registry \<Rightarrow> bool \<Rightarrow> permission_row \<Rightarrow> py_error + permission_row" where
  "preapprove registry is_onboarding row =
     (if is_onboarding
      then and_then (set_permission registry delete_file ALWAYS None row) (set_permission registry send_media_reply ALWAYS None)
      else Inr row)"

record turn_effects =
  te_disk_ok :: bool
  te_edit :: "profile \<Rightarrow> profile"
  te_deletes_bootstrap :: bool
  te_reaches_end :: bool

definition run_turn :: "onboarding_store \<Rightarrow> turn_effects \<Rightarrow> onboarding_store" where
  "run_turn st e =
     (st\<lparr>ob_row := map_option (te_edit e) (ob_row st), ob_bootstrap := ob_bootstrap st \<and> \<not> te_deletes_bootstrap e\<rparr>)"

definition onboarding_turn ::
  "string \<Rightarrow> nat \<Rightarrow> turn_effects \<Rightarrow> profile \<Rightarrow> onboarding_store \<Rightarrow> bool \<times> profile \<times> onboarding_store" where
  "onboarding_turn default_soul n e u st =
     (let (was, st1) = is_onboarding_needed default_soul (te_disk_ok e) u st; st2 = run_turn st1 e
      in (was, if te_reaches_end e then on_agent_end default_soul was n (u, st2) else (u, st2)))"

section \<open>When onboarding ends\<close>

lemma complete_marked [simp]:
  "pf_complete (fst (mark_onboarding_complete ust))"
  "ob_row (snd (mark_onboarding_complete ust)) = map_option (\<lambda>r. r\<lparr>pf_complete := True\<rparr>) (ob_row (snd ust))"
  "ob_bootstrap (snd (mark_onboarding_complete ust)) = ob_bootstrap (snd ust)"
  by (simp_all add: mark_onboarding_complete_def case_prod_unfold)

lemma complete_refresh [simp]: "pf_complete (refresh_user st u) = pf_complete u" "pf_timezone (refresh_user st u) = pf_timezone u"
  by (simp_all add: refresh_user_def split: option.splits)

lemma on_agent_end_complete:
  "pf_complete (fst (on_agent_end default_soul was n (u, st)))
    \<longleftrightarrow> pf_complete u \<or> exit_path default_soul was n u st \<noteq> None"
  by (auto simp: on_agent_end_def Let_def split: option.splits exit_path.splits)

text \<open>The strict heuristic is never what ends onboarding: whenever it holds, the automatic exit came before it.\<close>

lemma strict_heuristic_unreachable: "exit_path default_soul was n u st \<noteq> Some StrictHeuristic"
  by (auto simp: exit_path_def is_onboarding_complete_heuristic_def is_ready_for_auto_exit_def Let_def
      min_onboarding_user_messages_def min_user_messages_for_auto_exit_def)


lemma on_agent_end_row:
  "ob_row (snd (on_agent_end default_soul was n (u, st)))
    = (if \<not> pf_complete u \<and> exit_path default_soul was n u st \<noteq> None
       then map_option (\<lambda>r. r\<lparr>pf_complete := True\<rparr>) (ob_row st) else ob_row st)"
proof (cases "exit_path default_soul was n u st")
  case (Some path)
  then show ?thesis by (cases path) (simp_all add: on_agent_end_def remove_bootstrap_def)
qed (simp add: on_agent_end_def)

definition turn_ok :: "turn_effects \<Rightarrow> bool" where
  "turn_ok e \<longleftrightarrow> te_disk_ok e \<and> te_reaches_end e \<and> (\<forall>r. pf_complete (te_edit e r) = pf_complete r)"

lemma turn_row:
  assumes "ob_row st = Some u" and "turn_ok e" and "onboarding_turn default_soul n e u st = (was, u', st')"
  shows "\<exists>v. ob_row st' = Some v \<and> pf_complete v = pf_complete u'"
proof -
  obtain was1 st1 where n: "is_onboarding_needed default_soul (te_disk_ok e) u st = (was1, st1)" by fastforce
  then have row: "ob_row (run_turn st1 e) = Some (te_edit e u)" using assms(1)
    by (auto simp: is_onboarding_needed_def run_turn_def split: if_splits)
  have end': "on_agent_end default_soul was1 n (u, run_turn st1 e) = (u', st')"
    using assms(2,3) n by (auto simp: onboarding_turn_def turn_ok_def Let_def)
  have "ob_row st' = ob_row (snd (on_agent_end default_soul was1 n (u, run_turn st1 e)))"
    and "pf_complete u' = pf_complete (fst (on_agent_end default_soul was1 n (u, run_turn st1 e)))" by (simp_all add: end')
  then show ?thesis using row assms(2) by (simp add: on_agent_end_row on_agent_end_complete turn_ok_def)
qed

text \<open>
  Exactly when a turn ends onboarding. A turn that reaches its end event leaves the user
  complete iff the user was, already had a name, a timezone and a soul of their own when it began, or
  the turn deleted BOOTSTRAP.md, or the name (as the row has it now) and the timezone (as the turn
  knew it) are there and it is at least the fourth message, or it is at least the fiftieth; and the
  row agrees with the user object.
\<close>

theorem onboarding_ends_when:
  assumes row: "ob_row st = Some u" and ok: "turn_ok e"
    and turn: "onboarding_turn default_soul n e u st = (was, u', st')"
  shows "(pf_complete u' \<longleftrightarrow> pf_complete u \<or> is_onboarding_complete_heuristic default_soul u \<or> te_deletes_bootstrap e
      \<or> 4 \<le> n \<and> has_real_user_profile (te_edit e u) \<and> has_user_timezone u \<or> 50 \<le> n)
    \<and> (was \<longleftrightarrow> is_in_onboarding_flow default_soul u)
    \<and> map_option pf_complete (ob_row st') = Some (pf_complete u')"
proof -
  obtain was1 st1 where nd: "is_onboarding_needed default_soul (te_disk_ok e) u st = (was1, st1)" by fastforce
  have disk: "te_disk_ok e" and reach: "te_reaches_end e" using ok by (simp_all add: turn_ok_def)
  have was: "was = was1" "was1 \<longleftrightarrow> is_in_onboarding_flow default_soul u" "was1 \<Longrightarrow> ob_bootstrap st1" "ob_row st1 = Some u"
    using nd disk turn row by (auto simp: onboarding_turn_def is_onboarding_needed_def is_in_onboarding_flow_def Let_def split: if_splits)
  let ?st2 = "run_turn st1 e"
  have u': "u' = fst (on_agent_end default_soul was1 n (u, ?st2))" using turn nd reach by (auto simp: onboarding_turn_def Let_def)
  have fresh: "refresh_user ?st2 u = u\<lparr>pf_text := pf_text (te_edit e u), pf_soul := pf_soul (te_edit e u)\<rparr>"
    using was(4) by (simp add: refresh_user_def run_turn_def)
  have "exit_path default_soul was1 n u ?st2 \<noteq> None
    \<longleftrightarrow> (if was1 then te_deletes_bootstrap e \<or> 4 \<le> n \<and> has_real_user_profile (te_edit e u) \<and> has_user_timezone u \<or> 50 \<le> n
         else is_onboarding_complete_heuristic default_soul u)"
    using was(3) unfolding exit_path_def Let_def fresh
    by (auto simp: run_turn_def is_ready_for_auto_exit_def is_onboarding_complete_heuristic_def
        has_real_user_profile_def has_user_timezone_def has_custom_soul_def
        min_user_messages_for_auto_exit_def min_onboarding_user_messages_def max_onboarding_user_messages_def)
  then have "pf_complete u' \<longleftrightarrow> pf_complete u \<or> is_onboarding_complete_heuristic default_soul u \<or> te_deletes_bootstrap e
      \<or> 4 \<le> n \<and> has_real_user_profile (te_edit e u) \<and> has_user_timezone u \<or> 50 \<le> n \<or> False"
    using was(2) u' by (auto simp: on_agent_end_complete is_in_onboarding_flow_def)
  then show ?thesis using was turn_row [OF row ok turn] by auto
qed

section \<open>Runs\<close>

fun onboarding_run :: "string \<Rightarrow> nat \<Rightarrow> turn_effects list \<Rightarrow> onboarding_store \<Rightarrow> onboarding_store" where
  "onboarding_run default_soul n [] st = st"
| "onboarding_run default_soul n (e # es) st =
     (case ob_row st of
        None \<Rightarrow> st
      | Some u \<Rightarrow> onboarding_run default_soul (Suc n) es (snd (snd (onboarding_turn default_soul n e u st))))"


lemma run_row:
  "ob_row st = Some u \<Longrightarrow> list_all turn_ok es \<Longrightarrow>
    \<exists>v. ob_row (onboarding_run default_soul n es st) = Some v \<and> (pf_complete u \<longrightarrow> pf_complete v)"
proof (induction es arbitrary: st u n)
  case (Cons e es)
  obtain was u' st' where t: "onboarding_turn default_soul n e u st = (was, u', st')" by (metis prod_cases3)
  obtain v where v: "ob_row st' = Some v" "pf_complete v = pf_complete u'"
    using turn_row [OF Cons.prems(1) _ t] Cons.prems(2) by auto
  have "pf_complete u \<Longrightarrow> pf_complete u'" using onboarding_ends_when [OF Cons.prems(1) _ t] Cons.prems(2) by auto
  then show ?case using Cons.IH [OF v(1)] Cons.prems v t by auto
qed simp

lemma run_append: "ob_row st = Some u \<Longrightarrow> list_all turn_ok es \<Longrightarrow> onboarding_run default_soul n (es @ fs) st
    = onboarding_run default_soul (n + length es) fs (onboarding_run default_soul n es st)"
proof (induction es arbitrary: n st u)
  case (Cons e es)
  obtain was u' st' where t: "onboarding_turn default_soul n e u st = (was, u', st')" by (metis prod_cases3)
  obtain v where "ob_row st' = Some v" using turn_row [OF Cons.prems(1) _ t] Cons.prems(2) by auto
  from Cons.IH [OF this] show ?case using Cons.prems t by simp
qed simp

text \<open>
  Onboarding always ends: however the model behaves and whatever it writes, once turns that reach
  their end have taken the user to the fiftieth message the flag is set, and it is never taken back.
\<close>

theorem onboarding_always_ends:
  assumes "ob_row st = Some u" and "list_all turn_ok es" and "es \<noteq> []" and "51 \<le> n + length es \<or> pf_complete u"
  shows "\<exists>v. ob_row (onboarding_run default_soul n es st) = Some v \<and> pf_complete v"
proof (cases "pf_complete u")
  case True
  then show ?thesis using run_row [OF assms(1,2)] by blast
next
  case False
  obtain fs e where es: "es = fs @ [e]" using assms(3) by (cases es rule: rev_cases) auto
  then have ok: "list_all turn_ok fs" "turn_ok e" using assms(2) by auto
  obtain w where w: "ob_row (onboarding_run default_soul n fs st) = Some w" using run_row [OF assms(1) ok(1)] by blast
  let ?m = "n + length fs" and ?st = "onboarding_run default_soul n fs st"
  obtain was u' st' where t: "onboarding_turn default_soul ?m e w ?st = (was, u', st')" by (metis prod_cases3)
  have "50 \<le> ?m" using assms(4) False es by simp
  then have "pf_complete u'" using onboarding_ends_when [OF w ok(2) t] by blast
  then show ?thesis using turn_row [OF w ok(2) t] w t by (simp add: es run_append [OF assms(1) ok(1)])
qed

section \<open>The floor and the permissions\<close>

definition quiet_turn :: "(profile \<Rightarrow> profile) \<Rightarrow> turn_effects" where
  "quiet_turn edit = \<lparr>te_disk_ok = True, te_edit = edit, te_deletes_bootstrap = False, te_reaches_end = True\<rparr>"

definition new_user :: profile where
  "new_user = \<lparr>pf_text = ''- Name:'', pf_timezone = ''UTC'', pf_soul = [], pf_complete = False\<rparr>"

definition writes_profile :: "profile \<Rightarrow> profile" where
  "writes_profile r = r\<lparr>pf_text := ''- Name: Jo'', pf_soul := ''Be brief.''\<rparr>"

lemma quiet_turn_ok: "(\<And>r. pf_complete (edit r) = pf_complete r) \<Longrightarrow> turn_ok (quiet_turn edit)"
  by (simp add: turn_ok_def quiet_turn_def)

text \<open>
  A user who has a timezone and whose first turn writes a name and a soul is complete after the
  second message, eight below the floor of the heuristic, and BOOTSTRAP.md stays behind.
\<close>

lemma floor_bypassed:
  "onboarding_run ''Hi.'' 1 [quiet_turn writes_profile, quiet_turn (\<lambda>r. r)] \<lparr>ob_row = Some new_user, ob_bootstrap = True\<rparr>
    = \<lparr>ob_row = Some (writes_profile new_user\<lparr>pf_complete := True\<rparr>), ob_bootstrap = True\<rparr>"
  by code_simp

text \<open>
  Every turn in onboarding allows deletion and media replies for good: whatever the user had set,
  both tools run without asking afterwards.
\<close>

lemma onboarding_grants_stay:
  assumes "preapprove registry True row = Inr row'"
  shows "check_permission row' send_media_reply None d = Inr ALWAYS" and "check_permission row' delete_file None d = Inr ALWAYS"
proof -
  obtain row1 where r: "set_permission registry delete_file ALWAYS None row = Inr row1"
      "set_permission registry send_media_reply ALWAYS None row1 = Inr row'"
    using assms by (auto simp: preapprove_def and_then_Inr)
  have ne: "delete_file \<noteq> send_media_reply" by (simp add: delete_file_def send_media_reply_def)
  obtain t where t: "dict_get (parse_row_data row1) ''tools'' (JObj []) = JObj t" "delete_file \<in> dom (map_of t)"
    using r(1) by (auto simp: set_permission_def and_then_Inr save_permissions_def parse_row_data_def update_conv'
        elim!: put_override_tool)
  show "check_permission row' send_media_reply None d = Inr ALWAYS" using set_permission_effect [OF r(2)] by blast
  have "check_permission row1 delete_file None d = Inr ALWAYS" using set_permission_effect [OF r(1)] by blast
  then show "check_permission row' delete_file None d = Inr ALWAYS" using set_permission_effect [OF r(2)] ne t by metis
qed

section \<open>Examples\<close>

theorem onboarding_always_ends_witness:
  "\<exists>v. ob_row (onboarding_run ''Hi.'' 50 [quiet_turn (\<lambda>r. r)] \<lparr>ob_row = Some new_user, ob_bootstrap = True\<rparr>) = Some v \<and> pf_complete v"
proof (rule onboarding_always_ends [where u = new_user])
  show "list_all turn_ok [quiet_turn (\<lambda>r. r)]" by (simp add: quiet_turn_ok)
qed simp_all

theorem onboarding_ends_when_witness:
  "map_option pf_complete (ob_row (snd (snd (onboarding_turn ''Hi.'' 4 (quiet_turn writes_profile) new_user
     \<lparr>ob_row = Some new_user, ob_bootstrap = True\<rparr>)))) = Some True"
proof -
  let ?st = "\<lparr>ob_row = Some new_user, ob_bootstrap = True\<rparr>"
  obtain was u' st' where t: "onboarding_turn ''Hi.'' 4 (quiet_turn writes_profile) new_user ?st = (was, u', st')" by (metis prod_cases3)
  have ok: "turn_ok (quiet_turn writes_profile)" by (simp add: quiet_turn_ok writes_profile_def)
  have "has_real_user_profile (writes_profile new_user) \<and> has_user_timezone new_user" by code_simp
  then show ?thesis using onboarding_ends_when [OF _ ok t] t by (auto simp: quiet_turn_def)
qed

end
