(* ===== verification/Media_Context.thy ===== *)
theory Media_Context
  imports Media_Staging Session_Store
begin

text \<open>
  From attachments to the text the model reads: the bounded download (\<open>media/download.py\<close>), the PDF
  reader and its worker (\<open>media/pdf.py\<close>, \<open>_pdf_worker.py\<close>), the classification and the combined
  context (\<open>media/pipeline.py\<close>), and the two pipeline steps that use them (\<open>prepare_media\<close>,
  \<open>build_message_context\<close> of \<open>router.py\<close>). The HTTP stream, the texts of the PDF pages and the
  channel's download are parameters.
\<close>

section \<open>Download\<close>

definition ascii_digit :: "char \<Rightarrow> bool" where
  "ascii_digit c \<longleftrightarrow> (let n = (of_char c :: nat) in 48 \<le> n \<and> n \<le> 57)"

fun digits_value :: "nat \<Rightarrow> string \<Rightarrow> nat" where
  "digits_value acc [] = acc"
| "digits_value acc (c # cs) = digits_value (10 * acc + (of_char c - 48)) cs"

text \<open>The digits of an integer literal, which single underscores may group.\<close>

fun int_digits :: "string \<Rightarrow> string option" where
  "int_digits [] = None"
| "int_digits [c] = (if ascii_digit c then Some [c] else None)"
| "int_digits (c # d # cs) =
     (if \<not> ascii_digit c then None
      else if d = CHR ''_'' then map_option ((#) c) (int_digits cs) else map_option ((#) c) (int_digits (d # cs)))"

text \<open>\<open>int(raw.strip())\<close>.\<close>

definition parse_int :: "string \<Rightarrow> int option" where
  "parse_int raw =
     (let s = py_strip raw; (neg, ds) = (case s of c # cs \<Rightarrow> if c = CHR ''-'' then (True, cs) else if c = CHR ''+'' then (False, cs) else (False, s) | [] \<Rightarrow> (False, []))
      in case int_digits ds of
           None \<Rightarrow> None
         | Some digits \<Rightarrow> Some (if neg then - int (digits_value 0 digits) else int (digits_value 0 digits)))"

definition parse_content_length :: "string \<Rightarrow> int option" where
  "parse_content_length raw =
     (if raw = [] then None else case parse_int raw of None \<Rightarrow> None | Some v \<Rightarrow> if 0 \<le> v then Some v else None)"

definition check_media_size :: "nat \<Rightarrow> string \<Rightarrow> py_error + nat" where
  "check_media_size limit content = (if limit < length content then Inl ValueError else Inr (length content))"

fun read_stream :: "nat \<Rightarrow> string list \<Rightarrow> nat \<Rightarrow> string list \<Rightarrow> py_error + string" where
  "read_stream limit chunks sofar [] = Inr (concat chunks)"
| "read_stream limit chunks sofar (c # cs) =
     (if limit < sofar + length c then Inl ValueError
      else read_stream limit (chunks @ [c]) (sofar + length c) cs)"

definition download_bounded :: "nat \<Rightarrow> string \<Rightarrow> string list \<Rightarrow> py_error + string" where
  "download_bounded limit header stream =
     (case parse_content_length header of
        Some declared \<Rightarrow> if int limit < declared then Inl ValueError else read_stream limit [] 0 stream
      | None \<Rightarrow> read_stream limit [] 0 stream)"

definition default_mime_type :: string where
  "default_mime_type = ''application/octet-stream''"

definition extension_to_mime :: "(string \<times> string) list" where
  "extension_to_mime =
     [(''.jpg'', ''image/jpeg''), (''.png'', ''image/png''), (''.gif'', ''image/gif''), (''.webp'', ''image/webp''),
      (''.pdf'', ''application/pdf'')]"

text \<open>The extension is what \<open>os.path.splitext\<close> finds in the path.\<close>

definition telegram_mime :: "string option \<Rightarrow> string \<Rightarrow> string" where
  "telegram_mime content_type extension =
     (let mime = takeWhile (\<lambda>c. c \<noteq> CHR '';'') (case content_type of Some t \<Rightarrow> t | None \<Rightarrow> default_mime_type)
      in if mime = default_mime_type
         then case map_of extension_to_mime (py_lower extension) of Some inferred \<Rightarrow> inferred | None \<Rightarrow> mime
         else mime)"

section \<open>PDF text\<close>

definition max_pdf_text_chars :: nat where
  "max_pdf_text_chars = 16000"

definition max_pdf_pages :: nat where
  "max_pdf_pages = 50"

definition pdf_truncation_marker :: string where
  "pdf_truncation_marker = [nl] @ ''[...truncated]''"

text \<open>The worker: the loop over the extracted page texts.\<close>

fun pdf_chunks :: "nat \<Rightarrow> nat \<Rightarrow> nat \<Rightarrow> nat \<Rightarrow> string list \<Rightarrow> string list" where
  "pdf_chunks max_chars max_pages index len [] = []"
| "pdf_chunks max_chars max_pages index len (page # pages) =
     (if max_pages \<le> index \<or> max_chars < len then []
      else let t = py_strip page
           in if t \<noteq> [] then t # pdf_chunks max_chars max_pages (Suc index) (len + length t) pages
              else pdf_chunks max_chars max_pages (Suc index) len pages)"

definition worker_extract :: "nat \<Rightarrow> nat \<Rightarrow> string list \<Rightarrow> string \<times> nat" where
  "worker_extract max_chars max_pages pages = (py_join [nl, nl] (pdf_chunks max_chars max_pages 0 0 pages), length pages)"

text \<open>What the child process comes back with.\<close>

datatype worker_outcome = WorkerTimeout | WorkerFailed | WorkerGarbled | WorkerError string | WorkerText string nat

definition run_worker :: "worker_outcome \<Rightarrow> string + string \<times> nat" where
  "run_worker outcome =
     (case outcome of
        WorkerTimeout \<Rightarrow> Inl ''PDF took too long to read''
      | WorkerFailed \<Rightarrow> Inl ''PDF is too large or complex to read''
      | WorkerGarbled \<Rightarrow> Inl ''PDF reader returned no result''
      | WorkerError e \<Rightarrow> Inl e
      | WorkerText t pages \<Rightarrow> Inr (t, pages))"

definition extract_pdf_text :: "nat \<Rightarrow> nat \<Rightarrow> worker_outcome \<Rightarrow> string + string \<times> nat" where
  "extract_pdf_text max_chars max_pages outcome =
     (case run_worker outcome of
        Inl e \<Rightarrow> Inl e
      | Inr (t, pages) \<Rightarrow>
          Inr (if max_chars < length t \<or> t \<noteq> [] \<and> max_pages < pages
               then take max_chars t @ pdf_truncation_marker else t, pages))"

definition describe_pdf :: "worker_outcome \<Rightarrow> string" where
  "describe_pdf outcome =
     (case extract_pdf_text max_pdf_text_chars max_pdf_pages outcome of
        Inl e \<Rightarrow> ''[PDF could not be read: '' @ e @ '']''
      | Inr (t, pages) \<Rightarrow>
          if t = [] then ''[PDF, '' @ nat_str pages @ '' page(s), has no text layer (likely a scan)]''
          else ''(PDF text, '' @ nat_str pages @ '' page(s))'' @ [nl] @ t)"

section \<open>The combined context\<close>

record downloaded_media =
  dm_content :: string
  dm_mime_type :: string
  dm_original_url :: string

datatype media_category = Image | Pdf | Unknown

definition classify_media :: "string \<Rightarrow> media_category" where
  "classify_media mime_type =
     (if prefix ''image/'' mime_type then Image else if mime_type = ''application/pdf'' then Pdf else Unknown)"

definition media_type_label :: "media_category \<Rightarrow> string" where
  "media_type_label c = (case c of Image \<Rightarrow> ''Photo'' | Pdf \<Rightarrow> ''Document'' | Unknown \<Rightarrow> ''Attachment'')"

definition format_label :: "media_category \<Rightarrow> nat \<Rightarrow> string option \<Rightarrow> string" where
  "format_label c i handle =
     (let base = media_type_label c @ '' '' @ nat_str i
      in case handle of Some h \<Rightarrow> if h \<noteq> [] then base @ '', handle='' @ h else base | None \<Rightarrow> base)"

definition process_single_media :: "(string \<Rightarrow> worker_outcome) \<Rightarrow> downloaded_media \<Rightarrow> media_category \<times> string" where
  "process_single_media pdf media =
     (let category = classify_media (dm_mime_type media)
      in (category,
          case category of
            Image \<Rightarrow> []
          | Pdf \<Rightarrow> describe_pdf (pdf (dm_content media))
          | Unknown \<Rightarrow> ''[Unknown file - processing not available]''))"

definition media_part :: "nat \<Rightarrow> media_category \<times> string \<Rightarrow> string option \<Rightarrow> string option" where
  "media_part i result handle =
     (let (category, extracted) = result; label = format_label category i handle
      in if extracted \<noteq> [] then Some (''['' @ label @ '']: '' @ extracted)
         else if category = Image then
           (case handle of
              Some h \<Rightarrow>
                if h \<noteq> [] then Some (''['' @ label @ '']: (staged, call analyze_photo(handle='' @ repr_str h @ '')''
                                    @ '' if you need a description)'') else None
            | None \<Rightarrow> None)
         else None)"

fun media_parts :: "(string \<Rightarrow> worker_outcome) \<Rightarrow> nat \<Rightarrow> (downloaded_media \<times> string option) list \<Rightarrow> string list" where
  "media_parts pdf i [] = []"
| "media_parts pdf i ((media, handle) # rest) =
     (case media_part (Suc i) (process_single_media pdf media) handle of Some p \<Rightarrow> [p] | None \<Rightarrow> [])
     @ media_parts pdf (Suc i) rest"

definition process_message_media ::
  "(string \<Rightarrow> worker_outcome) \<Rightarrow> int \<Rightarrow> string \<Rightarrow> staging \<Rightarrow> string \<Rightarrow> downloaded_media list \<Rightarrow> string" where
  "process_message_media pdf now user s text_body items =
     (let handles = map (\<lambda>m. if user \<noteq> [] then get_handle_for now user (dm_original_url m) s else None) items;
          parts = media_parts pdf 0 (zip items handles)
      in py_join [nl, nl]
           ((if text_body \<noteq> [] then [if parts \<noteq> [] then ''[Text message]: '' @ repr_str text_body else text_body] else []) @ parts))"

section \<open>The pipeline steps\<close>

text \<open>
  \<open>download_and_stage_media\<close>: the media is on the list as soon as it is downloaded, whether or not
  it can be staged. \<open>tokens i\<close> is the token minted for the \<open>i\<close>-th attempt.
\<close>

fun download_and_stage_media ::
  "fs_env \<Rightarrow> int \<Rightarrow> (nat \<Rightarrow> string) \<Rightarrow> (string \<Rightarrow> downloaded_media option) \<Rightarrow> string \<Rightarrow> string list \<Rightarrow> staging
     \<Rightarrow> downloaded_media list \<times> staging" where
  "download_and_stage_media env now tokens download user [] s = ([], s)"
| "download_and_stage_media env now tokens download user (file_id # ids) s =
     (case download file_id of
        None \<Rightarrow> download_and_stage_media env now (\<lambda>i. tokens (Suc i)) download user ids s
      | Some media \<Rightarrow>
          (let s1 = snd (stage env now (tokens 0) user (dm_original_url media) (dm_content media) (dm_mime_type media) s);
               (rest, s2) = download_and_stage_media env now (\<lambda>i. tokens (Suc i)) download user ids s1
           in (media # rest, s2)))"

definition media_download_error :: string where
  "media_download_error =
     ''I couldn'' @ [CHR 0x27] @ ''t download your attachment(s). The rest of your message came through fine.''"

definition media_download_partial_error :: "nat \<Rightarrow> nat \<Rightarrow> string" where
  "media_download_partial_error failed sent =
     ''I couldn'' @ [CHR 0x27] @ ''t download '' @ nat_str failed @ '' of the '' @ nat_str sent
     @ '' attachments you sent. I'' @ [CHR 0x27] @ ''ll work with the ones that came through.''"

definition vision_unavailable_note :: string where
  "vision_unavailable_note =
     ''Vision analysis was unavailable for the attached media. The user may have sent a photo or document that could ''
     @ ''not be analyzed. You can still help with their text message and ask them to describe what the attachment shows.''"

text \<open>\<open>processed\<close> is None when the media pipeline raises; the second run has no media.\<close>

definition message_context ::
  "(string \<Rightarrow> worker_outcome) \<Rightarrow> int \<Rightarrow> string \<Rightarrow> staging \<Rightarrow> bool \<Rightarrow> string \<Rightarrow> nat \<Rightarrow> downloaded_media list \<Rightarrow> string" where
  "message_context pdf now user s raises body urls items =
     (let download_notes = (if urls \<noteq> 0 \<and> items = [] then [media_download_error]
                            else if urls \<noteq> 0 \<and> length items < urls
                            then [media_download_partial_error (urls - length items) urls] else []);
          (combined, notes) =
            (if raises then (process_message_media pdf now user s body [], download_notes @ (if items \<noteq> [] then [vision_unavailable_note] else []))
             else (process_message_media pdf now user s body items, download_notes))
      in combined @ (if notes \<noteq> [] then [nl, nl] @ ''[System note: '' @ py_join '' '' notes @ '']'' else []))"

definition context_update :: "string \<Rightarrow> row_update" where
  "context_update combined =
     \<lparr>up_body = None, up_processed_context = Some combined, up_interactions = None, up_llm_reply_text = None\<rparr>"

definition build_message_context ::
  "(string \<Rightarrow> worker_outcome) \<Rightarrow> int \<Rightarrow> string \<Rightarrow> staging \<Rightarrow> bool \<Rightarrow> stored_message \<Rightarrow> nat \<Rightarrow> downloaded_media list
     \<Rightarrow> session_state \<Rightarrow> store \<Rightarrow> string \<times> stored_message \<times> store \<times> session_state" where
  "build_message_context pdf now user s raises m urls items ss st =
     (let combined = message_context pdf now user s raises (sm_body m) urls items
      in (combined, m\<lparr>sm_processed_context := combined\<rparr>, update_message ss (sm_seq m) (context_update combined) st))"

section \<open>The download never holds more than its limit\<close>

lemma read_stream_spec:
  "sofar = length (concat chunks) \<Longrightarrow> sofar \<le> limit \<Longrightarrow>
    read_stream limit chunks sofar cs =
      (if length (concat (chunks @ cs)) \<le> limit then Inr (concat (chunks @ cs)) else Inl ValueError)"
  by (induction limit chunks sofar cs rule: read_stream.induct) auto

lemma download_bounded_spec:
  "download_bounded limit header stream =
     (if length (concat stream) \<le> limit \<and> (\<forall>d. parse_content_length header = Some d \<longrightarrow> d \<le> int limit)
      then Inr (concat stream) else Inl ValueError)"
  using read_stream_spec [of 0 "[]" limit stream] by (auto simp: download_bounded_def split: option.splits)

lemma declared_not_negative: "parse_content_length header = Some d \<Longrightarrow> 0 \<le> d"
  by (auto simp: parse_content_length_def split: if_splits option.splits)

section \<open>The PDF reader\<close>

definition pdf_pages_text :: "string list \<Rightarrow> string" where
  "pdf_pages_text pages = py_join [nl, nl] (filter (\<lambda>t. t \<noteq> []) (map py_strip pages))"

lemma join_length: "length (concat xs) \<le> length (py_join sep xs)"
  by (induction sep xs rule: py_join.induct) auto

lemma join_append: "xs \<noteq> [] \<Longrightarrow> ys \<noteq> [] \<Longrightarrow> py_join sep (xs @ ys) = py_join sep xs @ sep @ py_join sep ys"
  by (induction sep xs rule: py_join.induct) (auto simp: neq_Nil_conv)

lemma pdf_chunks_spec:
  fixes max_pages
  defines "rest \<equiv> \<lambda>index pages. filter (\<lambda>t. t \<noteq> []) (map py_strip (take (max_pages - index) pages))"
  shows "\<exists>k. pdf_chunks max_chars max_pages index len pages = take k (rest index pages)
    \<and> (k < length (rest index pages) \<longrightarrow> max_chars < len + length (concat (take k (rest index pages))))"
proof (induction pages arbitrary: index len)
  case Nil
  then show ?case by (simp add: rest_def)
next
  case (Cons page pages)
  show ?case
  proof (cases "max_pages \<le> index \<or> max_chars < len")
    case True
    then show ?thesis by (intro exI [of _ 0]) (auto simp: rest_def)
  next
    case False
    then have r: "rest index (page # pages) = (if py_strip page \<noteq> [] then [py_strip page] else []) @ rest (Suc index) pages"
      by (simp add: rest_def take_Cons' Suc_diff_Suc)
    let ?t = "py_strip page"
    show ?thesis
    proof (cases "?t = []")
      case True
      then show ?thesis using Cons.IH [of "Suc index" len] False r by simp
    next
      case t: False
      obtain k where k: "pdf_chunks max_chars max_pages (Suc index) (len + length ?t) pages = take k (rest (Suc index) pages)"
        "k < length (rest (Suc index) pages) \<longrightarrow> max_chars < len + length ?t + length (concat (take k (rest (Suc index) pages)))"
        using Cons.IH by blast
      show ?thesis using False t r k by (intro exI [of _ "Suc k"]) (auto simp: Let_def)
    qed
  qed
qed

text \<open>
  Reading a PDF in the worker, which stops as soon as it has enough, gives the same text as
  reading every page up to the page limit and cutting once: the texts of the pages that have any,
  whole when they fit, otherwise exactly the first characters with the truncation marker.
\<close>

theorem pdf_reader_equals_full_read:
  "extract_pdf_text max_chars max_pages (WorkerText (fst (worker_extract max_chars max_pages pages)) (snd (worker_extract max_chars max_pages pages)))
    = (let full = pdf_pages_text (take max_pages pages)
       in Inr (if max_chars < length full \<or> full \<noteq> [] \<and> max_pages < length pages
               then take max_chars full @ pdf_truncation_marker else full, length pages))"
proof -
  let ?rest = "filter (\<lambda>t. t \<noteq> []) (map py_strip (take max_pages pages))"
  obtain k where k: "pdf_chunks max_chars max_pages 0 0 pages = take k ?rest"
    "k < length ?rest \<longrightarrow> max_chars < length (concat (take k ?rest))"
    using pdf_chunks_spec [of max_chars max_pages 0 0 pages] by auto
  define got where "got = py_join [nl, nl] (take k ?rest)"
  define full where "full = py_join [nl, nl] ?rest"
  have w: "worker_extract max_chars max_pages pages = (got, length pages)" by (simp add: worker_extract_def k(1) got_def)
  have f: "pdf_pages_text (take max_pages pages) = full" by (simp add: pdf_pages_text_def full_def)
  have "got = full \<or> max_chars < length got \<and> (\<exists>more. full = got @ more)"
  proof (cases "k < length ?rest")
    case True
    then have long: "max_chars < length got" using k(2) join_length [of "take k ?rest" "[nl, nl]"] by (auto simp: got_def)
    then have "take k ?rest \<noteq> []" using py_join.simps(1) [of "[nl, nl]"] by (metis got_def less_nat_zero_code list.size(3))
    moreover have "drop k ?rest \<noteq> []" using True by simp
    ultimately have "full = got @ [nl, nl] @ py_join [nl, nl] (drop k ?rest)"
      unfolding full_def got_def by (metis append_take_drop_id join_append)
    then show ?thesis using long by blast
  next
    case False
    then show ?thesis by (simp add: got_def full_def)
  qed
  then show ?thesis unfolding w fst_conv snd_conv f by (auto simp: extract_pdf_text_def run_worker_def Let_def)
qed

section \<open>Attachments in the context\<close>

lemma contains_join: "x \<in> set xs \<Longrightarrow> contains x (py_join sep xs)"
proof (induction sep xs rule: py_join.induct)
  case (3 sep s t ts)
  show ?case
  proof (cases "x = s")
    case True
    then show ?thesis unfolding contains_iff by (metis append_Nil py_join.simps(3))
  next
    case False
    then obtain pre post where "py_join sep (t # ts) = pre @ x @ post" using 3 by (auto simp: contains_iff)
    then show ?thesis unfolding contains_iff by (intro exI [of _ "s @ sep @ pre"] exI [of _ post]) simp
  qed
qed (auto simp: contains_iff intro: exI [of _ "[]"])

lemma contains_trans: "contains x y \<Longrightarrow> contains y z \<Longrightarrow> contains x z"
  unfolding contains_iff by (metis append.assoc)

lemma describe_pdf_ne: "describe_pdf outcome \<noteq> []"
  by (auto simp: describe_pdf_def split: sum.splits)

lemma media_part_label:
  assumes "handle = Some h" and "h \<noteq> []"
  shows "\<exists>more. media_part i (process_single_media pdf media) handle
    = Some (''['' @ format_label (classify_media (dm_mime_type media)) i handle @ '']: '' @ more)"
  using assms describe_pdf_ne
  by (cases "classify_media (dm_mime_type media)") (auto simp: media_part_def process_single_media_def Let_def)

lemma media_parts_nth:
  "j < length items \<Longrightarrow> media_part (Suc (i + j)) (process_single_media pdf (fst (items ! j))) (snd (items ! j)) = Some p
    \<Longrightarrow> p \<in> set (media_parts pdf i items)"
proof (induction items arbitrary: i j)
  case (Cons x xs)
  obtain media handle where x: "x = (media, handle)" by fastforce
  show ?case
  proof (cases j)
    case 0
    then show ?thesis using Cons.prems x by simp
  next
    case (Suc j')
    then have "p \<in> set (media_parts pdf (Suc i) xs)" using Cons.IH [of j' "Suc i"] Cons.prems by simp
    then show ?thesis using x by simp
  qed
qed simp

text \<open>
  Every attachment of a message that is staged for the user is announced to the model: the
  context has a part with its kind, its position among the message's attachments and its handle, and
  a message without attachments is passed through verbatim.
\<close>

theorem attachments_are_announced:
  assumes "user \<noteq> []" and "j < length items" and "get_handle_for now user (dm_original_url (items ! j)) s = Some h" and "h \<noteq> []"
  shows "contains (''['' @ format_label (classify_media (dm_mime_type (items ! j))) (Suc j) (Some h) @ '']: '')
      (message_context pdf now user s False body urls items)
    \<and> message_context pdf now user s False body 0 [] = body"
proof -
  let ?handles = "map (\<lambda>m. get_handle_for now user (dm_original_url m) s) items"
  let ?l = "''['' @ format_label (classify_media (dm_mime_type (items ! j))) (Suc j) (Some h) @ '']: ''"
  obtain more where "media_part (Suc j) (process_single_media pdf (items ! j)) (Some h) = Some (?l @ more)"
    using media_part_label [OF refl assms(4), of "Suc j" pdf "items ! j"] by auto
  then have p: "?l @ more \<in> set (media_parts pdf 0 (zip items ?handles))"
    using media_parts_nth [of j "zip items ?handles" 0 pdf "?l @ more"] assms(2,3) by simp
  have here: "contains x (x @ y)" for x y unfolding contains_iff by (metis append_Nil)
  have "contains ?l (?l @ more)" by (rule here)
  moreover have "contains (?l @ more) (process_message_media pdf now user s body items)"
    using p assms(1) by (auto simp: process_message_media_def Let_def intro!: contains_join)
  ultimately have 1: "contains ?l (process_message_media pdf now user s body items)" by (rule contains_trans)
  have "contains ?l (process_message_media pdf now user s body items @ note')" for note'
    by (rule contains_trans [OF 1 here])
  moreover have "message_context pdf now user s False body 0 [] = body"
    by (simp add: message_context_def process_message_media_def)
  ultimately show ?thesis by (simp add: message_context_def Let_def)
qed

text \<open>
  A photo that is downloaded but cannot be staged is neither announced nor reported: a message that
  is only this photo reaches the model as an empty text.
\<close>

lemma unstaged_photo_vanishes:
  assumes "download file_id = Some media" and "prefix ''image/'' (dm_mime_type media)"
    and "find (same_media user (dm_original_url media)) (sg_rows s) = None"
    and "list_ex (\<lambda>q. sg_handle q = mint_handle (tokens 0)) (sg_rows s) \<or> dm_content media = []"
  shows "let (items, s') = download_and_stage_media env now tokens download user [file_id] s
    in message_context pdf now user s' False [] 1 items = []"
proof -
  have s': "snd (stage env now (tokens 0) user (dm_original_url media) (dm_content media) (dm_mime_type media) s) = s"
    using assms(3,4) by (auto simp: stage_def upsert_media_def)
  have "get_handle_for now user (dm_original_url media) s = None"
    using assms(3) by (auto simp: get_handle_for_def find_media_def find_None_iff)
  then show ?thesis using assms(1,2) s'
    by (simp add: Let_def message_context_def process_message_media_def media_part_def process_single_media_def classify_media_def)
qed

section \<open>Examples\<close>

lemma char_of_nat_49: "(char_of (49 :: nat) :: char) = CHR ''1''"
  by code_simp

theorem attachments_are_announced_witness:
  "contains ''[Photo 1, handle=h0]: ''
     (message_context (\<lambda>c. WorkerFailed) 50 ''u'' demo_staging False ''hi'' 1
        [\<lparr>dm_content = ''A'', dm_mime_type = ''image/png'', dm_original_url = ''p''\<rparr>])"
proof -
  let ?items = "[\<lparr>dm_content = ''A'', dm_mime_type = ''image/png'', dm_original_url = ''p''\<rparr>]"
  have "get_handle_for 50 ''u'' (dm_original_url (?items ! 0)) demo_staging = Some ''h0''"
    by (simp add: get_handle_for_def find_media_def demo_staging_def demo_media_def same_media_def live_def)
  from attachments_are_announced [OF _ _ this, of "\<lambda>c. WorkerFailed" "''hi''" 1]
  show ?thesis by (simp add: format_label_def media_type_label_def classify_media_def nat_str.simps digit_char_def char_of_nat_49)
qed

end
