(* ===== verification/Quota.thy ===== *)
theory Quota
  imports Prelude
begin

text \<open>
  Usage quotas (\<open>backend/app/billing/quota.py\<close>, \<open>plans.py\<close>, \<open>services/heartbeat_usage.py\<close>) over the
  subscriptions and the \<open>usage_quotas\<close> table. A function of the module works inside the transaction
  of its caller; whether the caller commits is part of the definitions that compose them. Counters
  are natural numbers (no caller passes a negative count), a period is the number of its month.
\<close>

section \<open>Tables\<close>

record plan_limits =
  pl_messages :: nat
  pl_tokens :: nat

definition plans :: "(string \<times> plan_limits) list" where
  "plans = [(''free'', \<lparr>pl_messages = 300, pl_tokens = 10000000\<rparr>), (''pro'', \<lparr>pl_messages = 600, pl_tokens = 20000000\<rparr>)]"

definition get_plan_limits :: "string \<Rightarrow> plan_limits" where
  "get_plan_limits plan = (case map_of plans plan of Some l \<Rightarrow> l | None \<Rightarrow> the (map_of plans ''free''))"

record subscription =
  sb_role :: string
  sb_plan :: string
  sb_status :: string

record usage_quota =
  uq_user :: string
  uq_period :: nat
  uq_messages_used :: nat
  uq_messages_limit :: nat
  uq_tokens_used :: nat
  uq_tokens_limit :: nat

record billing =
  bl_subscriptions :: "(string \<times> subscription) list"
  bl_quotas :: "usage_quota list"

definition quota_row :: "string \<Rightarrow> nat \<Rightarrow> usage_quota \<Rightarrow> bool" where
  "quota_row user period q \<longleftrightarrow> uq_user q = user \<and> uq_period q = period"

definition quota_select :: "string \<Rightarrow> nat \<Rightarrow> billing \<Rightarrow> usage_quota option" where
  "quota_select user period b = find (quota_row user period) (bl_quotas b)"

definition update_quota :: "string \<Rightarrow> nat \<Rightarrow> (usage_quota \<Rightarrow> usage_quota) \<Rightarrow> billing \<Rightarrow> billing" where
  "update_quota user period f b = b\<lparr>bl_quotas := map (\<lambda>q. if quota_row user period q then f q else q) (bl_quotas b)\<rparr>"

section \<open>Operations\<close>

definition new_quota_for :: "string \<Rightarrow> nat \<Rightarrow> string \<Rightarrow> usage_quota" where
  "new_quota_for user period plan =
     \<lparr>uq_user = user, uq_period = period, uq_messages_used = 0, uq_messages_limit = pl_messages (get_plan_limits plan),
      uq_tokens_used = 0, uq_tokens_limit = pl_tokens (get_plan_limits plan)\<rparr>"

definition plan_of :: "string \<Rightarrow> billing \<Rightarrow> string" where
  "plan_of user b = (case map_of (bl_subscriptions b) user of Some s \<Rightarrow> sb_plan s | None \<Rightarrow> ''free'')"

text \<open>
  \<open>race\<close> is the row another transaction committed between the lookup and the insert, if one did; the
  savepoint is rolled back and the row is read again.
\<close>

definition get_current_quota ::
  "string \<Rightarrow> nat \<Rightarrow> usage_quota option \<Rightarrow> billing \<Rightarrow> py_error + usage_quota \<times> billing" where
  "get_current_quota user period race b =
     (case quota_select user period b of
        Some q \<Rightarrow> Inr (q, b)
      | None \<Rightarrow>
          (case race of
             None \<Rightarrow> (let q = new_quota_for user period (plan_of user b) in Inr (q, b\<lparr>bl_quotas := bl_quotas b @ [q]\<rparr>))
           | Some other \<Rightarrow>
               (let b' = b\<lparr>bl_quotas := bl_quotas b @ [other]\<rparr>
                in case quota_select user period b' of Some q \<Rightarrow> Inr (q, b') | None \<Rightarrow> Inl RuntimeError)))"

definition is_admin :: "billing \<Rightarrow> string \<Rightarrow> bool" where
  "is_admin b user = (case map_of (bl_subscriptions b) user of Some s \<Rightarrow> sb_role s = ''admin'' | None \<Rightarrow> False)"

definition check_message_quota :: "string \<Rightarrow> nat \<Rightarrow> usage_quota option \<Rightarrow> billing \<Rightarrow> py_error + bool \<times> billing" where
  "check_message_quota user period race b =
     (if is_admin b user then Inr (True, b)
      else and_then (get_current_quota user period race b) (\<lambda>(q, b'). Inr (uq_messages_used q < uq_messages_limit q, b')))"

definition check_token_quota :: "string \<Rightarrow> nat \<Rightarrow> usage_quota option \<Rightarrow> billing \<Rightarrow> py_error + bool \<times> billing" where
  "check_token_quota user period race b =
     (if is_admin b user then Inr (True, b)
      else and_then (get_current_quota user period race b) (\<lambda>(q, b'). Inr (uq_tokens_used q < uq_tokens_limit q, b')))"

definition increment_message_count :: "string \<Rightarrow> nat \<Rightarrow> billing \<Rightarrow> billing" where
  "increment_message_count user period = update_quota user period (\<lambda>q. q\<lparr>uq_messages_used := uq_messages_used q + 1\<rparr>)"

definition increment_token_count :: "string \<Rightarrow> nat \<Rightarrow> nat \<Rightarrow> billing \<Rightarrow> billing" where
  "increment_token_count user period tokens =
     update_quota user period (\<lambda>q. q\<lparr>uq_tokens_used := uq_tokens_used q + tokens\<rparr>)"

definition reset_quota :: "string \<Rightarrow> nat \<Rightarrow> billing \<Rightarrow> billing" where
  "reset_quota user period = update_quota user period (\<lambda>q. q\<lparr>uq_messages_used := 0, uq_tokens_used := 0\<rparr>)"

definition apply_plan_limits_to_current_quota :: "string \<Rightarrow> nat \<Rightarrow> string \<Rightarrow> billing \<Rightarrow> billing" where
  "apply_plan_limits_to_current_quota user period plan =
     update_quota user period (\<lambda>q. q\<lparr>uq_messages_limit := pl_messages (get_plan_limits plan),
                                       uq_tokens_limit := pl_tokens (get_plan_limits plan)\<rparr>)"

definition free_user :: "billing \<Rightarrow> string \<Rightarrow> bool" where
  "free_user b user = (case map_of (bl_subscriptions b) user of Some s \<Rightarrow> sb_plan s = ''free'' \<and> sb_status s = ''active'' | None \<Rightarrow> False)"

definition free_tier_message_count :: "nat \<Rightarrow> billing \<Rightarrow> nat" where
  "free_tier_message_count period b =
     sum_list (map uq_messages_used (filter (\<lambda>q. free_user b (uq_user q) \<and> uq_period q = period) (bl_quotas b)))"

definition check_free_tier_daily_cap :: "nat \<Rightarrow> string \<Rightarrow> nat \<Rightarrow> billing \<Rightarrow> bool" where
  "check_free_tier_daily_cap cap user period b =
     (if cap = 0 then True
      else case map_of (bl_subscriptions b) user of
             Some s \<Rightarrow> (if sb_role s = ''admin'' \<or> sb_plan s \<noteq> ''free'' then True else free_tier_message_count period b < cap)
           | None \<Rightarrow> free_tier_message_count period b < cap)"

section \<open>The callers\<close>

text \<open>
  \<open>check_quota_step\<close> asks in one session it never commits: what the checks inserted is rolled back.
\<close>

definition within_quota :: "nat \<Rightarrow> string \<Rightarrow> nat \<Rightarrow> usage_quota option \<Rightarrow> billing \<Rightarrow> py_error + bool" where
  "within_quota cap user period race b =
     and_then (check_message_quota user period race b) (\<lambda>(messages_ok, b1).
       if \<not> messages_ok then Inr False
       else and_then (check_token_quota user period None b1) (\<lambda>(tokens_ok, b2).
              Inr (tokens_ok \<and> check_free_tier_daily_cap cap user period b2)))"

definition track_usage :: "string \<Rightarrow> nat \<Rightarrow> nat \<Rightarrow> billing \<Rightarrow> billing" where
  "track_usage user period tokens b =
     (let b1 = increment_message_count user period b
      in if 0 < tokens then increment_token_count user period tokens b1 else b1)"

text \<open>The heartbeat hook commits what it creates; an exception rolls all of it back.\<close>

definition track_heartbeat_usage :: "string \<Rightarrow> nat \<Rightarrow> usage_quota option \<Rightarrow> nat \<Rightarrow> nat \<Rightarrow> bool \<Rightarrow> billing \<Rightarrow> billing" where
  "track_heartbeat_usage user period race input_tokens output_tokens sent_reply b =
     (case get_current_quota user period race b of
        Inl e \<Rightarrow> b
      | Inr (q, b1) \<Rightarrow>
          (let b2 = (if sent_reply then increment_message_count user period b1 else b1); total_tokens = input_tokens + output_tokens
           in if 0 < total_tokens then increment_token_count user period total_tokens b2 else b2))"

section \<open>One row per user and month\<close>

definition quota_key :: "usage_quota \<Rightarrow> string \<times> nat" where
  "quota_key q = (uq_user q, uq_period q)"

definition wf_billing :: "billing \<Rightarrow> bool" where
  "wf_billing b \<longleftrightarrow> distinct (map quota_key (bl_quotas b))"

lemma quota_select_Some: "quota_select user period b = Some q \<Longrightarrow> q \<in> set (bl_quotas b) \<and> quota_row user period q"
  by (auto simp: quota_select_def find_Some_iff)

lemma quota_select_None: "quota_select user period b = None \<longleftrightarrow> (\<forall>q \<in> set (bl_quotas b). \<not> quota_row user period q)"
  by (auto simp: quota_select_def find_None_iff)

lemma find_map_updated:
  assumes "\<And>q. P q \<Longrightarrow> P (f q)"
  shows "find P (map (\<lambda>q. if P q then f q else q) xs) = map_option f (find P xs)"
  using assms by (induction xs) auto

lemma find_map_other:
  assumes "\<And>q. P q \<Longrightarrow> \<not> R q" and "\<And>q. R q \<Longrightarrow> R (f q)"
  shows "find P (map (\<lambda>q. if R q then f q else q) xs) = find P xs"
  using assms by (induction xs) auto

lemma select_update:
  assumes "\<And>q. uq_user (f q) = uq_user q \<and> uq_period (f q) = uq_period q"
  shows "quota_select u p (update_quota user period f b)
    = (if u = user \<and> p = period then map_option f (quota_select u p b) else quota_select u p b)"
proof (cases "u = user \<and> p = period")
  case True
  then show ?thesis using assms find_map_updated [of "quota_row user period" f "bl_quotas b"]
    by (simp add: quota_select_def update_quota_def quota_row_def)
next
  case False
  then show ?thesis using assms find_map_other [of "quota_row u p" "quota_row user period" f "bl_quotas b"]
    by (auto simp: quota_select_def update_quota_def quota_row_def)
qed

lemma wf_update:
  assumes "wf_billing b" and "\<And>q. uq_user (f q) = uq_user q \<and> uq_period (f q) = uq_period q"
  shows "wf_billing (update_quota user period f b)"
proof -
  have "quota_key \<circ> (\<lambda>q. if quota_row user period q then f q else q) = quota_key"
    using assms(2) by (auto simp: quota_key_def)
  then show ?thesis using assms(1) by (simp add: wf_billing_def update_quota_def)
qed

lemma subscriptions_update [simp]: "bl_subscriptions (update_quota user period f b) = bl_subscriptions b"
  by (simp add: update_quota_def)

lemma track_usage_select:
  "quota_select u p (track_usage user period tokens b)
    = (if u = user \<and> p = period
       then map_option (\<lambda>q. q\<lparr>uq_messages_used := uq_messages_used q + 1, uq_tokens_used := uq_tokens_used q + tokens\<rparr>) (quota_select u p b)
       else quota_select u p b)"
  by (cases "quota_select u p b") (auto simp: track_usage_def Let_def increment_message_count_def increment_token_count_def select_update)

lemma subscriptions_track [simp]: "bl_subscriptions (track_usage user period tokens b) = bl_subscriptions b"
  by (simp add: track_usage_def Let_def increment_message_count_def increment_token_count_def)

lemma within_quota_row:
  assumes "within_quota cap user period race b = Inr True" and "quota_select user period b = Some q" and "\<not> is_admin b user"
  shows "uq_messages_used q < uq_messages_limit q \<and> uq_tokens_used q < uq_tokens_limit q"
  using assms by (auto simp: within_quota_def check_message_quota_def check_token_quota_def get_current_quota_def and_then_Inr split: if_splits)

section \<open>A month of turns\<close>

text \<open>
  A turn asks first and counts when it was answered by the model; the number is the tokens it used.
  The result says whether it was admitted.
\<close>

definition metered_turn :: "nat \<Rightarrow> string \<Rightarrow> nat \<Rightarrow> nat option \<Rightarrow> billing \<Rightarrow> bool \<times> billing" where
  "metered_turn cap user period outcome b =
     (case within_quota cap user period None b of
        Inr True \<Rightarrow> (True, case outcome of Some tokens \<Rightarrow> track_usage user period tokens b | None \<Rightarrow> b)
      | _ \<Rightarrow> (False, b))"

fun metered_turns :: "nat \<Rightarrow> string \<Rightarrow> nat \<Rightarrow> nat option list \<Rightarrow> billing \<Rightarrow> nat \<times> billing" where
  "metered_turns cap user period [] b = (0, b)"
| "metered_turns cap user period (outcome # rest) b =
     (let (admitted, b1) = metered_turn cap user period outcome b; (n, b2) = metered_turns cap user period rest b1
      in ((if admitted \<and> outcome \<noteq> None then Suc n else n), b2))"

text \<open>
  The quota holds once the month has its row: however many turns a user who is not an admin
  sends, the answered ones are counted one by one and never exceed what was left of the message limit,
  and the limits themselves do not move.
\<close>

theorem answered_turns_within_limit:
  assumes "quota_select user period b = Some q" and "\<not> is_admin b user" and "uq_messages_used q \<le> uq_messages_limit q"
    and "metered_turns cap user period outcomes b = (n, b')"
  shows "\<exists>q'. quota_select user period b' = Some q' \<and> uq_messages_used q' = uq_messages_used q + n
    \<and> uq_messages_limit q' = uq_messages_limit q \<and> uq_messages_used q + n \<le> uq_messages_limit q"
  using assms
proof (induction outcomes arbitrary: b q n b')
  case (Cons outcome rest)
  obtain admitted b1 where t: "metered_turn cap user period outcome b = (admitted, b1)" by fastforce
  obtain m b2 where r: "metered_turns cap user period rest b1 = (m, b2)" by fastforce
  have n: "n = (if admitted \<and> outcome \<noteq> None then Suc m else m)" "b' = b2" using Cons.prems(4) t r by auto
  have admin: "\<not> is_admin b1 user"
    using t Cons.prems(2) by (auto simp: metered_turn_def is_admin_def split: sum.splits bool.splits option.splits)
  show ?case
  proof (cases "admitted \<and> outcome \<noteq> None")
    case True
    then obtain tokens where o: "outcome = Some tokens" by auto
    have ok: "within_quota cap user period None b = Inr True" and b1: "b1 = track_usage user period tokens b"
      using t True o by (auto simp: metered_turn_def split: sum.splits bool.splits)
    have lt: "uq_messages_used q < uq_messages_limit q" using within_quota_row [OF ok Cons.prems(1,2)] by blast
    let ?q = "q\<lparr>uq_messages_used := uq_messages_used q + 1, uq_tokens_used := uq_tokens_used q + tokens\<rparr>"
    have "quota_select user period b1 = Some ?q" using Cons.prems(1) b1 by (simp add: track_usage_select)
    from Cons.IH [OF this admin _ r] show ?thesis using lt n True by auto
  next
    case False
    then have "b1 = b" using t by (auto simp: metered_turn_def split: sum.splits bool.splits option.splits)
    then show ?thesis using Cons.IH [OF Cons.prems(1,2,3), of m b2] r n False by auto
  qed
qed simp

lemma find_append_None: "find P xs = None \<Longrightarrow> find P (xs @ ys) = find P ys"
  by (induction xs) (auto split: if_splits)

text \<open>
  Without the row nothing is counted: the check inserts the row in a session it does not commit, and
  the count updates no row. A user who does not log in after the month has turned over, and has no
  heartbeat, sends any number of turns.
\<close>

lemma new_month_is_not_metered:
  assumes "quota_select user period b = None" and "pl_messages (get_plan_limits (plan_of user b)) \<noteq> 0"
    and "pl_tokens (get_plan_limits (plan_of user b)) \<noteq> 0"
  shows "metered_turns 0 user period (map Some tokens) b = (length tokens, b)"
proof -
  have fresh: "quota_select user period (b\<lparr>bl_quotas := bl_quotas b @ [new_quota_for user period plan]\<rparr>)
      = Some (new_quota_for user period plan)" for plan
    using assms(1) by (simp add: quota_select_def find_append_None new_quota_for_def quota_row_def)
  have ok: "within_quota 0 user period None b = Inr True"
    using assms fresh by (auto simp: within_quota_def check_message_quota_def check_token_quota_def get_current_quota_def
        check_free_tier_daily_cap_def Let_def) (simp_all add: new_quota_for_def)
  have idle: "track_usage user period t b = b" for t
  proof -
    have "update_quota user period f b = b" for f
    proof -
      have "map (\<lambda>q. if quota_row user period q then f q else q) (bl_quotas b) = bl_quotas b"
        using assms(1) by (intro map_idI) (simp add: quota_select_None)
      then show ?thesis by (simp add: update_quota_def)
    qed
    then show ?thesis by (simp add: track_usage_def increment_message_count_def increment_token_count_def Let_def)
  qed
  show ?thesis using ok idle by (induction tokens) (simp_all add: metered_turn_def)
qed

section \<open>The global cap\<close>

lemma free_user_track [simp]: "free_user (track_usage user period tokens b) = free_user b"
  by (rule ext) (simp add: free_user_def)

lemma quotas_track:
  "bl_quotas (track_usage user period tokens b)
    = map (\<lambda>q. if quota_row user period q then q\<lparr>uq_messages_used := uq_messages_used q + 1, uq_tokens_used := uq_tokens_used q + tokens\<rparr> else q)
        (bl_quotas b)"
  by (auto simp: track_usage_def Let_def increment_message_count_def increment_token_count_def update_quota_def quota_row_def)

lemma free_count_grows: "free_tier_message_count period b \<le> free_tier_message_count period (track_usage user p tokens b)"
proof -
  have "sum_list (map uq_messages_used (filter P qs))
    \<le> sum_list (map uq_messages_used (filter P (map (\<lambda>q. if quota_row user p q then q\<lparr>uq_messages_used := uq_messages_used q + 1, uq_tokens_used := uq_tokens_used q + tokens\<rparr> else q) qs)))"
    if "P = (\<lambda>q. free_user b (uq_user q) \<and> uq_period q = period)" for P qs
    unfolding that by (induction qs) auto
  then show ?thesis by (simp add: free_tier_message_count_def quotas_track)
qed

text \<open>
  The cap that is called daily counts the whole month: once it is reached, no free user gets
  another turn before the month ends, whatever happens on the days between.
\<close>

lemma daily_cap_lasts_the_month:
  assumes "\<not> check_free_tier_daily_cap cap user period b"
  shows "\<not> check_free_tier_daily_cap cap user period (fold (\<lambda>(u, tokens). track_usage u period tokens) turns b)"
  using assms
proof (induction turns arbitrary: b)
  case (Cons turn turns)
  obtain u tokens where t: "turn = (u, tokens)" by fastforce
  have "\<not> check_free_tier_daily_cap cap user period (track_usage u period tokens b)"
    using Cons.prems free_count_grows [of period b u period tokens]
    by (auto simp: check_free_tier_daily_cap_def split: option.splits if_splits)
  then show ?case using Cons.IH t by simp
qed simp

section \<open>Examples\<close>

definition demo_billing :: billing where
  "demo_billing = \<lparr>bl_subscriptions = [(''u'', \<lparr>sb_role = ''user'', sb_plan = ''free'', sb_status = ''active''\<rparr>)],
     bl_quotas = [\<lparr>uq_user = ''u'', uq_period = 5, uq_messages_used = 3, uq_messages_limit = 5, uq_tokens_used = 0, uq_tokens_limit = 90\<rparr>]\<rparr>"

lemma demo_month: "fst (metered_turns 0 ''u'' 5 [Some 7, None, Some 7, Some 7, Some 7] demo_billing) = 2"
  by code_simp

theorem answered_turns_within_limit_witness:
  "map_option uq_messages_used (quota_select ''u'' 5 (snd (metered_turns 0 ''u'' 5 [Some 7, None, Some 7, Some 7, Some 7] demo_billing))) = Some 5"
proof -
  have q: "quota_select ''u'' 5 demo_billing
    = Some \<lparr>uq_user = ''u'', uq_period = 5, uq_messages_used = 3, uq_messages_limit = 5, uq_tokens_used = 0, uq_tokens_limit = 90\<rparr>"
    and a: "\<not> is_admin demo_billing ''u''" by (simp_all add: quota_select_def demo_billing_def quota_row_def is_admin_def)
  have run: "metered_turns 0 ''u'' 5 [Some 7, None, Some 7, Some 7, Some 7] demo_billing
    = (2, snd (metered_turns 0 ''u'' 5 [Some 7, None, Some 7, Some 7, Some 7] demo_billing))"
    using demo_month by (metis prod.collapse)
  show ?thesis using answered_turns_within_limit [OF q a _ run] by auto
qed

end
