(* ===== verification/Turn_Pipeline.thy ===== *)
theory Turn_Pipeline
  imports Agent_Loop Media_Context Receipts Quota
begin

text \<open>
  The message pipeline (\<open>backend/app/agent/router.py\<close>) and the quota steps injected into it
  (\<open>billing/pipeline_steps.py\<close>): a list of steps over the context of one turn and the world it
  changes (the session store, the staging cache, the quotas, the bus). A step may raise, which ends
  the pipeline. The agent loop is the parameter \<open>pn_agent\<close>: what it answers for a context and a
  history, what it sends itself through tools, and how the store changes while it runs (its own
  compaction, and messages that arrive meanwhile).
\<close>

section \<open>Context and world\<close>

record outbound =
  out_channel :: string
  out_chat_id :: string
  out_content :: string
  out_request_id :: string

record world =
  wd_store :: store
  wd_session :: session_state
  wd_staging :: staging
  wd_billing :: billing
  wd_outbox :: "outbound list"

record turn_ctx =
  tx_message :: stored_message
  tx_urls :: "string list"
  tx_channel :: string
  tx_address :: string
  tx_request_id :: string
  tx_media :: "downloaded_media list"
  tx_context :: string
  tx_history :: "agent_message list"
  tx_response :: "agent_response option"
  tx_dispatched :: string

record agent_run =
  ru_answer :: "turn_error + agent_response"
  ru_sent :: "outbound list"
  ru_store :: "store \<Rightarrow> store"

record pipeline_env =
  pn_fs :: fs_env
  pn_now :: int
  pn_tokens :: "nat \<Rightarrow> string"
  pn_download :: "string \<Rightarrow> downloaded_media option"
  pn_pdf :: "string \<Rightarrow> worker_outcome"
  pn_media_raises :: bool
  pn_user :: string
  pn_timezone :: timezone
  pn_history_limit :: nat
  pn_compaction :: bool
  pn_commit_ok :: bool
  pn_render :: history_renderer
  pn_agent :: "string \<Rightarrow> agent_message list \<Rightarrow> agent_run"
  pn_cap :: nat
  pn_period :: nat

section \<open>Media and context\<close>

fun stage_pre_downloaded ::
  "fs_env \<Rightarrow> int \<Rightarrow> (nat \<Rightarrow> string) \<Rightarrow> string \<Rightarrow> downloaded_media list \<Rightarrow> staging \<Rightarrow> py_error + staging" where
  "stage_pre_downloaded env now tokens user [] s = Inr s"
| "stage_pre_downloaded env now tokens user (m # ms) s =
     (case stage env now (tokens 0) user (dm_original_url m) (dm_content m) (dm_mime_type m) s of
        (Inl e, s') \<Rightarrow> Inl e
      | (Inr h, s') \<Rightarrow> stage_pre_downloaded env now (\<lambda>i. tokens (Suc i)) user ms s')"

definition prepare_media_step :: "pipeline_env \<Rightarrow> turn_ctx \<times> world \<Rightarrow> py_error + turn_ctx \<times> world" where
  "prepare_media_step env cw =
     (let (ctx, w) = cw; n = length (tx_media ctx)
      in and_then (stage_pre_downloaded (pn_fs env) (pn_now env) (pn_tokens env) (pn_user env) (tx_media ctx) (wd_staging w)) (\<lambda>s.
           let (new, s') = download_and_stage_media (pn_fs env) (pn_now env) (\<lambda>i. pn_tokens env (n + i)) (pn_download env)
                             (pn_user env) (tx_urls ctx) s
           in Inr (ctx\<lparr>tx_media := tx_media ctx @ new\<rparr>, w\<lparr>wd_staging := s'\<rparr>)))"

definition build_context_step :: "pipeline_env \<Rightarrow> turn_ctx \<times> world \<Rightarrow> py_error + turn_ctx \<times> world" where
  "build_context_step env cw =
     (let (ctx, w) = cw;
          (combined, m, st, ss) = build_message_context (pn_pdf env) (pn_now env) (pn_user env) (wd_staging w) (pn_media_raises env)
             (tx_message ctx) (length (tx_urls ctx)) (tx_media ctx) (wd_session w) (wd_store w)
      in Inr (ctx\<lparr>tx_context := combined, tx_message := m\<rparr>, w\<lparr>wd_store := st, wd_session := ss\<rparr>))"

section \<open>History\<close>

text \<open>
  Rows that arrived after this turn's message while it waited: later inbound rows are folded in by
  the turn and are no history, later outbound rows are, and the message itself goes last.
\<close>

definition history_session :: "stored_message \<Rightarrow> session_state \<Rightarrow> session_state" where
  "history_session current ss =
     (if sm_seq current \<noteq> 0 \<and> list_ex (\<lambda>m. sm_seq current < sm_seq m) (ss_messages ss)
      then ss\<lparr>ss_messages :=
             filter (\<lambda>m. sm_seq m < sm_seq current \<or> sm_seq current < sm_seq m \<and> sm_direction m = OUTBOUND) (ss_messages ss)
             @ [current]\<rparr>
      else ss)"

definition load_history_step :: "pipeline_env \<Rightarrow> turn_ctx \<times> world \<Rightarrow> py_error + turn_ctx \<times> world" where
  "load_history_step env cw =
     (let (ctx, w) = cw;
          (st, job, history) = load_conversation_history (pn_compaction env) (pn_commit_ok env) (pn_render env) (pn_timezone env)
             (pn_now env) (pn_history_limit env) (history_session (tx_message ctx) (wd_session w)) (wd_store w)
      in Inr (ctx\<lparr>tx_history := history\<rparr>, w\<lparr>wd_store := st\<rparr>))"

section \<open>The agent\<close>

definition content_filter_fallback :: string where
  "content_filter_fallback =
     ''I wasn'' @ [CHR 0x27] @ ''t able to process that message. Could you try rephrasing?''"

definition auth_error_fallback :: string where
  "auth_error_fallback =
     ''I'' @ [CHR 0x27] @ ''m experiencing a configuration issue and can'' @ [CHR 0x27]
     @ ''t respond right now. The admin has been notified.''"

definition fallback_response :: "string \<Rightarrow> agent_response" where
  "fallback_response reply =
     \<lparr>ar_reply_text = reply, ar_actions_taken = [], ar_tool_calls = [], ar_is_error_fallback = True,
      ar_totals = \<lparr>ut_input = 0, ut_output = 0, ut_cache_creation = 0, ut_cache_read = 0\<rparr>, ar_system_prompt = [], ar_thinking_text = []\<rparr>"

definition settle_answer :: "turn_error + agent_response \<Rightarrow> agent_response" where
  "settle_answer answer =
     (case answer of
        Inr r \<Rightarrow> r
      | Inl (LlmFailed ContentFilterError) \<Rightarrow> fallback_response content_filter_fallback
      | Inl (LlmFailed AuthenticationError) \<Rightarrow> fallback_response auth_error_fallback
      | Inl e \<Rightarrow> fallback_response llm_error_fallback)"

definition run_agent_step :: "pipeline_env \<Rightarrow> turn_ctx \<times> world \<Rightarrow> py_error + turn_ctx \<times> world" where
  "run_agent_step env cw =
     (let (ctx, w) = cw; run = pn_agent env (tx_context ctx) (tx_history ctx)
      in Inr (ctx\<lparr>tx_response := Some (settle_answer (ru_answer run))\<rparr>,
              w\<lparr>wd_store := ru_store run (wd_store w), wd_outbox := wd_outbox w @ ru_sent run\<rparr>))"

definition persist_system_prompt_step :: "turn_ctx \<times> world \<Rightarrow> py_error + turn_ctx \<times> world" where
  "persist_system_prompt_step cw =
     (let (ctx, w) = cw
      in case tx_response ctx of
           None \<Rightarrow> Inr (ctx, w)
         | Some r \<Rightarrow>
             if ar_system_prompt r = [] then Inr (ctx, w)
             else (let (st, ss) = update_initial_system_prompt (wd_session w) (ar_system_prompt r) (wd_store w)
                   in Inr (ctx, w\<lparr>wd_store := st, wd_session := ss\<rparr>)))"

section \<open>Reply and transcript\<close>

definition dispatch_reply_step :: "turn_ctx \<times> world \<Rightarrow> py_error + turn_ctx \<times> world" where
  "dispatch_reply_step cw =
     (let (ctx, w) = cw;
          send = (\<lambda>content. w\<lparr>wd_outbox := wd_outbox w @
                   [\<lparr>out_channel = tx_channel ctx, out_chat_id = tx_address ctx, out_content = content, out_request_id = tx_request_id ctx\<rparr>]\<rparr>)
      in case tx_response ctx of
           None \<Rightarrow> Inr (ctx, w)
         | Some r \<Rightarrow>
             if tx_channel ctx = [] then Inr (ctx, w)
             else let sent_reply = already_replied (ar_tool_calls r)
                  in if \<not> sent_reply \<and> ar_reply_text r \<noteq> []
                     then (let content = append_receipts (ar_reply_text r) (ar_tool_calls r)
                           in Inr (ctx\<lparr>tx_dispatched := content\<rparr>, send content))
                     else if \<not> sent_reply \<and> ar_reply_text r = [] \<and> tx_request_id ctx \<noteq> [] then Inr (ctx, send [])
                     else Inr (ctx, w))"

definition outbound_draft :: "turn_ctx \<Rightarrow> agent_response \<Rightarrow> stored_message" where
  "outbound_draft ctx r =
     \<lparr>sm_direction = OUTBOUND, sm_body = (if tx_dispatched ctx \<noteq> [] then tx_dispatched ctx else ar_reply_text r),
      sm_processed_context = [], sm_interactions = ar_tool_calls r, sm_llm_reply_text = ar_reply_text r,
      sm_timestamp = None, sm_seq = 0\<rparr>"

definition persist_outbound :: "int \<Rightarrow> turn_ctx \<Rightarrow> agent_response \<Rightarrow> world \<Rightarrow> py_error + world" where
  "persist_outbound now ctx r w =
     (if ar_reply_text r = [] \<or> ar_is_error_fallback r then Inr w
      else and_then (add_message (wd_session w) now [] (outbound_draft ctx r) (wd_store w)) (\<lambda>(st, ss, row).
             Inr (w\<lparr>wd_store := st, wd_session := ss\<rparr>)))"

definition persist_outbound_step :: "pipeline_env \<Rightarrow> turn_ctx \<times> world \<Rightarrow> py_error + turn_ctx \<times> world" where
  "persist_outbound_step env cw =
     (let (ctx, w) = cw
      in case tx_response ctx of
           None \<Rightarrow> Inr (ctx, w)
         | Some r \<Rightarrow> and_then (persist_outbound (pn_now env) ctx r w) (\<lambda>w'. Inr (ctx, w')))"

section \<open>Quota steps\<close>

definition quota_exceeded_message :: string where
  "quota_exceeded_message =
     ''You'' @ [CHR 0x27] @ ''ve reached your monthly message limit. Email support@clawbolt.ai for help.''"

definition check_quota_step :: "pipeline_env \<Rightarrow> turn_ctx \<times> world \<Rightarrow> py_error + turn_ctx \<times> world" where
  "check_quota_step env cw =
     (let (ctx, w) = cw
      in and_then (within_quota (pn_cap env) (pn_user env) (pn_period env) None (wd_billing w)) (\<lambda>ok.
           Inr (if ok then ctx else ctx\<lparr>tx_response := Some (fallback_response quota_exceeded_message)\<rparr>, w)))"

definition guarded_run_agent_step :: "pipeline_env \<Rightarrow> turn_ctx \<times> world \<Rightarrow> py_error + turn_ctx \<times> world" where
  "guarded_run_agent_step env cw = (if tx_response (fst cw) \<noteq> None then Inr cw else run_agent_step env cw)"

definition track_usage_step :: "pipeline_env \<Rightarrow> turn_ctx \<times> world \<Rightarrow> py_error + turn_ctx \<times> world" where
  "track_usage_step env cw =
     (let (ctx, w) = cw
      in case tx_response ctx of
           None \<Rightarrow> Inr (ctx, w)
         | Some r \<Rightarrow>
             if ar_is_error_fallback r then Inr (ctx, w)
             else Inr (ctx, w\<lparr>wd_billing := track_usage (pn_user env) (pn_period env) (ut_input (ar_totals r) + ut_output (ar_totals r))
                                            (wd_billing w)\<rparr>))"

section \<open>The pipeline\<close>

datatype pipeline_step =
  PrepareMedia | BuildContext | LoadHistory | RunAgent | PersistSystemPrompt | FinalizeOnboarding | DispatchReply | PersistOutbound
| CheckQuota | GuardedRunAgent | TrackUsage

fun run_step :: "pipeline_env \<Rightarrow> pipeline_step \<Rightarrow> turn_ctx \<times> world \<Rightarrow> py_error + turn_ctx \<times> world" where
  "run_step env PrepareMedia cw = prepare_media_step env cw"
| "run_step env BuildContext cw = build_context_step env cw"
| "run_step env LoadHistory cw = load_history_step env cw"
| "run_step env RunAgent cw = run_agent_step env cw"
| "run_step env PersistSystemPrompt cw = persist_system_prompt_step cw"
| "run_step env FinalizeOnboarding cw = Inr cw"
| "run_step env DispatchReply cw = dispatch_reply_step cw"
| "run_step env PersistOutbound cw = persist_outbound_step env cw"
| "run_step env CheckQuota cw = check_quota_step env cw"
| "run_step env GuardedRunAgent cw = guarded_run_agent_step env cw"
| "run_step env TrackUsage cw = track_usage_step env cw"

fun run_pipeline :: "pipeline_env \<Rightarrow> pipeline_step list \<Rightarrow> turn_ctx \<times> world \<Rightarrow> py_error + turn_ctx \<times> world" where
  "run_pipeline env [] cw = Inr cw"
| "run_pipeline env (step # steps) cw = and_then (run_step env step cw) (run_pipeline env steps)"

definition default_pipeline :: "pipeline_step list" where
  "default_pipeline =
     [PrepareMedia, BuildContext, LoadHistory, RunAgent, PersistSystemPrompt, FinalizeOnboarding, DispatchReply, PersistOutbound]"

definition build_pipeline ::
  "(pipeline_step \<rightharpoonup> pipeline_step) \<Rightarrow> (pipeline_step \<rightharpoonup> pipeline_step list) \<Rightarrow> (pipeline_step \<rightharpoonup> pipeline_step list) \<Rightarrow> pipeline_step list" where
  "build_pipeline replace' before after =
     concat (map (\<lambda>step. (case before step of Some ss \<Rightarrow> ss | None \<Rightarrow> []) @ [case replace' step of Some s \<Rightarrow> s | None \<Rightarrow> step]
                         @ (case after step of Some ss \<Rightarrow> ss | None \<Rightarrow> [])) default_pipeline)"

definition multi_user_pipeline :: "pipeline_step list" where
  "multi_user_pipeline =
     build_pipeline [RunAgent \<mapsto> GuardedRunAgent] [RunAgent \<mapsto> [CheckQuota]] [PersistOutbound \<mapsto> [TrackUsage]]"

definition silent_response :: agent_response where
  "silent_response = (fallback_response [])\<lparr>ar_is_error_fallback := False\<rparr>"

definition start_ctx ::
  "stored_message \<Rightarrow> string list \<Rightarrow> downloaded_media list \<Rightarrow> string \<Rightarrow> string \<Rightarrow> string \<Rightarrow> turn_ctx" where
  "start_ctx m urls media channel address request_id =
     \<lparr>tx_message = m, tx_urls = urls, tx_channel = channel, tx_address = address, tx_request_id = request_id,
      tx_media = media, tx_context = [], tx_history = [], tx_response = None, tx_dispatched = []\<rparr>"

definition handle_inbound_message ::
  "pipeline_env \<Rightarrow> pipeline_step list \<Rightarrow> turn_ctx \<Rightarrow> world \<Rightarrow> py_error + agent_response \<times> world" where
  "handle_inbound_message env steps ctx w =
     (if tx_address ctx = [] then Inr (silent_response, w)
      else and_then (run_pipeline env steps (ctx, w)) (\<lambda>(ctx', w').
             Inr (case tx_response ctx' of Some r \<Rightarrow> r | None \<Rightarrow> silent_response, w')))"

section \<open>Folded messages\<close>

definition folded_message_note :: string where
  "folded_message_note = ''[Sent while you were working on this turn. Cover it in your reply.]''"

definition folded_user_message :: "string \<Rightarrow> stored_message \<Rightarrow> agent_message list" where
  "folded_user_message content m =
     (if py_strip content \<noteq> [] then [UserMessage (folded_message_note @ [nl, nl] @ content) (Some (sm_seq m))] else [])"

text \<open>\<open>last_context\<close> is what the media pipeline made of the last message, None when it raised.\<close>

definition fold_entry_messages :: "stored_message list \<Rightarrow> bool \<Rightarrow> string option \<Rightarrow> agent_message list" where
  "fold_entry_messages messages has_media last_context =
     concat (map (\<lambda>m. folded_user_message (if sm_processed_context m \<noteq> [] then sm_processed_context m else sm_body m) m) (butlast messages))
     @ folded_user_message
         (case last_context of
            Some c \<Rightarrow> c
          | None \<Rightarrow> sm_body (last messages) @ (if has_media then [nl, nl] @ ''[System note: '' @ media_download_error @ '']'' else []))
         (last messages)"

section \<open>What the steps keep\<close>

definition bare :: "stored_message \<Rightarrow> stored_message" where
  "bare m = m\<lparr>sm_processed_context := []\<rparr>"

definition transcript :: "world \<Rightarrow> stored_message list" where
  "transcript w = map bare (rows_of (wd_store w))"

text \<open>The session the turn holds is the stored one.\<close>

definition linked :: "world \<Rightarrow> bool" where
  "linked w \<longleftrightarrow> (\<exists>cs. st_session (wd_store w) = Some cs \<and> cs_id cs = ss_id (wd_session w))"

definition same_turn :: "turn_ctx \<times> world \<Rightarrow> turn_ctx \<times> world \<Rightarrow> bool" where
  "same_turn cw cw' \<longleftrightarrow>
     (tx_channel (fst cw'), tx_address (fst cw'), tx_request_id (fst cw'), tx_response (fst cw'), tx_dispatched (fst cw'))
       = (tx_channel (fst cw), tx_address (fst cw), tx_request_id (fst cw), tx_response (fst cw), tx_dispatched (fst cw))
     \<and> wd_outbox (snd cw') = wd_outbox (snd cw) \<and> wd_billing (snd cw') = wd_billing (snd cw)
     \<and> linked (snd cw') \<and> transcript (snd cw') = transcript (snd cw)"

lemma same_turn_trans: "same_turn a b \<Longrightarrow> same_turn b c \<Longrightarrow> same_turn a c"
  by (simp add: same_turn_def)

lemma bare_update [simp]: "map bare (update_first q (context_update c) rows) = map bare rows"
  by (induction rows) (simp_all add: bare_def apply_update_def context_update_def)

text \<open>The store as a turn may change it without touching a row.\<close>

definition keeps_rows :: "store \<Rightarrow> store \<Rightarrow> bool" where
  "keeps_rows st st' \<longleftrightarrow> rows_of st' = rows_of st \<and> map_option cs_id (st_session st') = map_option cs_id (st_session st)"

lemma keeps_trigger: "keeps_rows st (fst (trigger_compaction_for_dropped enabled ok now dropped st))"
  by (auto simp: keeps_rows_def trigger_compaction_for_dropped_def Let_def raise_watermark_def record_event_def rows_of_def
      split: option.splits)

lemma keeps_raise: "keeps_rows st (raise_watermark w st)"
  by (auto simp: keeps_rows_def raise_watermark_def rows_of_def split: option.splits)

lemma keeps_refl: "keeps_rows st st"
  by (simp add: keeps_rows_def)

lemma keeps_load: "keeps_rows st (fst (load_conversation_history e ok render tz now limit ss st))"
  by (auto simp: load_conversation_history_def compact_overflow_def Let_def case_prod_unfold advance_trim_watermark_only_def
      keeps_trigger keeps_raise keeps_refl)

lemma linked_alt: "linked w \<longleftrightarrow> map_option cs_id (st_session (wd_store w)) = Some (ss_id (wd_session w))"
  by (auto simp: linked_def)

lemma update_keeps:
  assumes "update_message ss q (context_update c) st = (st', ss')"
  shows "ss_id ss' = ss_id ss" and "map_option cs_id (st_session st') = map_option cs_id (st_session st)"
    and "map bare (rows_of st') = map bare (rows_of st)"
  using assms by (auto simp: update_message_def find_session_def rows_of_def split: option.splits if_splits)

lemma prompt_keeps:
  assumes "update_initial_system_prompt ss prompt st = (st', ss')"
  shows "ss_id ss' = ss_id ss" and "map_option cs_id (st_session st') = map_option cs_id (st_session st)"
    and "rows_of st' = rows_of st"
  using assms by (auto simp: update_initial_system_prompt_def find_session_def rows_of_def split: option.splits if_splits)

lemma linked_keeps: "linked w \<Longrightarrow> keeps_rows (wd_store w) st \<Longrightarrow> linked (w\<lparr>wd_store := st\<rparr>)"
  by (auto simp: linked_def keeps_rows_def)

lemma prepare_same: "run_step env PrepareMedia cw = Inr cw' \<Longrightarrow> linked (snd cw) \<Longrightarrow> same_turn cw cw'"
  by (auto simp: prepare_media_step_def and_then_Inr same_turn_def linked_def transcript_def Let_def case_prod_unfold)

lemma context_same:
  assumes "run_step env BuildContext cw = Inr cw'" and "linked (snd cw)"
  shows "same_turn cw cw'"
proof -
  obtain ctx w where cw: "cw = (ctx, w)" by fastforce
  define c where "c = message_context (pn_pdf env) (pn_now env) (pn_user env) (wd_staging w) (pn_media_raises env)
     (sm_body (tx_message ctx)) (length (tx_urls ctx)) (tx_media ctx)"
  obtain st ss where u: "update_message (wd_session w) (sm_seq (tx_message ctx)) (context_update c) (wd_store w) = (st, ss)" by fastforce
  have "cw' = (ctx\<lparr>tx_context := c, tx_message := (tx_message ctx)\<lparr>sm_processed_context := c\<rparr>\<rparr>, w\<lparr>wd_store := st, wd_session := ss\<rparr>)"
    using assms(1) cw u by (simp add: build_context_step_def build_message_context_def Let_def flip: c_def)
  then show ?thesis using update_keeps [OF u] assms(2) cw by (simp add: same_turn_def linked_alt transcript_def)
qed

lemma load_same:
  assumes "run_step env LoadHistory cw = Inr cw'" and "linked (snd cw)"
  shows "same_turn cw cw'"
proof -
  obtain ctx w where cw: "cw = (ctx, w)" by fastforce
  define r where "r = load_conversation_history (pn_compaction env) (pn_commit_ok env) (pn_render env) (pn_timezone env)
             (pn_now env) (pn_history_limit env) (history_session (tx_message ctx) (wd_session w)) (wd_store w)"
  have k: "keeps_rows (wd_store w) (fst r)" unfolding r_def by (rule keeps_load)
  have "cw' = (ctx\<lparr>tx_history := snd (snd r)\<rparr>, w\<lparr>wd_store := fst r\<rparr>)"
    using assms(1) cw by (auto simp: load_history_step_def r_def case_prod_unfold Let_def)
  then show ?thesis using k linked_keeps [OF _ k] assms(2) cw by (auto simp: same_turn_def transcript_def keeps_rows_def)
qed

lemma prompt_same:
  assumes "run_step env PersistSystemPrompt cw = Inr cw'" and "linked (snd cw)"
  shows "same_turn cw cw'"
proof -
  obtain ctx w where cw: "cw = (ctx, w)" by fastforce
  show ?thesis
  proof (cases "cw' = cw")
    case True
    then show ?thesis using assms(2) by (simp add: same_turn_def)
  next
    case False
    then obtain r where "tx_response ctx = Some r" "ar_system_prompt r \<noteq> []"
      using assms(1) cw by (auto simp: persist_system_prompt_step_def split: option.splits if_splits)
    moreover obtain st ss where u: "update_initial_system_prompt (wd_session w) (ar_system_prompt r) (wd_store w) = (st, ss)" by fastforce
    ultimately have "cw' = (ctx, w\<lparr>wd_store := st, wd_session := ss\<rparr>)"
      using assms(1) cw by (simp add: persist_system_prompt_step_def)
    then show ?thesis using prompt_keeps [OF u] assms(2) cw by (simp add: same_turn_def linked_alt transcript_def)
  qed
qed

lemma pipeline_append: "run_pipeline env (xs @ ys) cw = and_then (run_pipeline env xs cw) (run_pipeline env ys)"
proof (induction xs arbitrary: cw)
  case (Cons x xs)
  then show ?case by (cases "run_step env x cw") auto
qed simp

lemma before_agent_same:
  assumes "run_pipeline env [PrepareMedia, BuildContext, LoadHistory] cw = Inr cw'" and "linked (snd cw)"
  shows "same_turn cw cw'"
proof -
  obtain cw1 cw2 where s: "run_step env PrepareMedia cw = Inr cw1" "run_step env BuildContext cw1 = Inr cw2" "run_step env LoadHistory cw2 = Inr cw'"
    using assms(1) by (auto simp: and_then_Inr simp del: run_step.simps)
  have 1: "same_turn cw cw1" by (rule prepare_same [OF s(1) assms(2)])
  then have 2: "same_turn cw1 cw2" using context_same [OF s(2)] by (simp add: same_turn_def)
  then have 3: "same_turn cw2 cw'" using load_same [OF s(3)] by (simp add: same_turn_def)
  show ?thesis using 1 2 3 same_turn_trans by blast
qed

section \<open>The reply and the transcript\<close>

text \<open>
  The environment of the theorem: while the agent runs the session stays the one it is, its rows stay
  and messages that arrive are appended.
\<close>

definition agent_appends :: "pipeline_env \<Rightarrow> stored_message list \<Rightarrow> bool" where
  "agent_appends env arrived \<longleftrightarrow>
     (\<forall>c h st. map_option cs_id (st_session (ru_store (pn_agent env c h) st)) = map_option cs_id (st_session st)
        \<and> rows_of (ru_store (pn_agent env c h) st) = rows_of st @ (if st_session st = None then [] else arrived))"

lemma block_nonempty_reply: "append_receipts reply calls = [] \<Longrightarrow> reply = []"
  by (auto simp: append_receipts_def Let_def split: if_splits)

lemma persist_effect:
  assumes "linked w" and "persist_outbound now ctx r w = Inr w'"
  shows "wd_outbox w' = wd_outbox w \<and>
    (if ar_reply_text r = [] \<or> ar_is_error_fallback r then transcript w' = transcript w
     else \<exists>row. transcript w' = transcript w @ [row] \<and> sm_direction row = OUTBOUND
       \<and> sm_body row = (if tx_dispatched ctx \<noteq> [] then tx_dispatched ctx else ar_reply_text r)
       \<and> sm_llm_reply_text row = ar_reply_text r \<and> sm_interactions row = ar_tool_calls r
       \<and> (\<forall>m \<in> set (transcript w). sm_seq m < sm_seq row))"
proof (cases "ar_reply_text r = [] \<or> ar_is_error_fallback r")
  case True
  then show ?thesis using assms by (auto simp: persist_outbound_def)
next
  case False
  obtain cs where cs: "st_session (wd_store w) = Some cs" "cs_id cs = ss_id (wd_session w)" using assms(1) by (auto simp: linked_def)
  obtain cs' row where i: "insert_row now [] (outbound_draft ctx r) cs = (cs', row)" by fastforce
  have rows: "cs_rows cs' = cs_rows cs @ [row]" "sm_seq row = or_zero (select_max_seq cs) + 1"
    and row: "row = (outbound_draft ctx r)\<lparr>sm_seq := or_zero (select_max_seq cs) + 1, sm_timestamp := Some now\<rparr>"
    using i by (auto simp: insert_row_def Let_def)
  have "wd_store w' = (wd_store w)\<lparr>st_session := Some cs'\<rparr>" "wd_outbox w' = wd_outbox w"
    using assms(2) False cs i by (auto simp: persist_outbound_def add_message_def find_session_def Let_def and_then_Inr)
  moreover have "\<forall>m \<in> set (cs_rows cs). sm_seq m \<le> or_zero (select_max_seq cs)" using select_max_seq_ge by blast
  ultimately show ?thesis using False cs rows row
    by (auto simp: transcript_def rows_of_def bare_def outbound_draft_def intro!: exI [of _ "bare row"])
qed

lemma dispatch_effect:
  assumes "dispatch_reply_step (ctx, w) = Inr (ctx', w')" and "tx_response ctx = Some r" and "tx_dispatched ctx = []"
  shows "\<exists>replies. wd_outbox w' = wd_outbox w @ replies \<and> length replies \<le> 1
    \<and> (replies = [] \<longleftrightarrow> tx_channel ctx = [] \<or> already_replied (ar_tool_calls r) \<or> ar_reply_text r = [] \<and> tx_request_id ctx = [])
    \<and> list_all (\<lambda>m. out_channel m = tx_channel ctx \<and> out_chat_id m = tx_address ctx) replies
    \<and> (ar_reply_text r \<noteq> [] \<longrightarrow>
        list_all (\<lambda>m. out_content m = (if tx_dispatched ctx' \<noteq> [] then tx_dispatched ctx' else ar_reply_text r)) replies)
    \<and> tx_response ctx' = Some r \<and> wd_store w' = wd_store w \<and> wd_session w' = wd_session w"
  using assms block_nonempty_reply [of "ar_reply_text r" "ar_tool_calls r"]
  by (cases "tx_channel ctx = []"; cases "already_replied (ar_tool_calls r)"; cases "ar_reply_text r = []"; cases "tx_request_id ctx = []")
    (auto simp: dispatch_reply_step_def Let_def)

lemma turn_result:
  assumes "linked w" and app: "agent_appends env arrived" and "tx_address ctx \<noteq> []" and "tx_dispatched ctx = []"
    and run: "handle_inbound_message env default_pipeline ctx w = Inr (r, w')"
  shows "\<exists>c h replies. r = settle_answer (ru_answer (pn_agent env c h))
    \<and> wd_outbox w' = wd_outbox w @ ru_sent (pn_agent env c h) @ replies \<and> length replies \<le> 1
    \<and> (replies = [] \<longleftrightarrow> tx_channel ctx = [] \<or> already_replied (ar_tool_calls r) \<or> ar_reply_text r = [] \<and> tx_request_id ctx = [])
    \<and> list_all (\<lambda>m. out_channel m = tx_channel ctx \<and> out_chat_id m = tx_address ctx) replies
    \<and> (if ar_reply_text r = [] \<or> ar_is_error_fallback r then transcript w' = transcript w @ map bare arrived
        else \<exists>row. transcript w' = transcript w @ map bare arrived @ [row] \<and> sm_direction row = OUTBOUND
          \<and> sm_llm_reply_text row = ar_reply_text r \<and> sm_interactions row = ar_tool_calls r
          \<and> list_all (\<lambda>m. out_content m = sm_body row) replies
          \<and> list_all (\<lambda>m. sm_seq m < sm_seq row) (transcript w @ map bare arrived))"
proof -
  have split: "default_pipeline = [PrepareMedia, BuildContext, LoadHistory] @ [RunAgent, PersistSystemPrompt, FinalizeOnboarding, DispatchReply, PersistOutbound]"
    by (simp add: default_pipeline_def)
  obtain ctx9 w9 where all: "run_pipeline env default_pipeline (ctx, w) = Inr (ctx9, w9)"
    and r9: "w' = w9" "r = (case tx_response ctx9 of Some r \<Rightarrow> r | None \<Rightarrow> silent_response)"
    using run assms(3) by (auto simp: handle_inbound_message_def and_then_Inr)
  obtain ctx1 w1 where pre: "run_pipeline env [PrepareMedia, BuildContext, LoadHistory] (ctx, w) = Inr (ctx1, w1)"
    and post: "run_pipeline env [RunAgent, PersistSystemPrompt, FinalizeOnboarding, DispatchReply, PersistOutbound] (ctx1, w1) = Inr (ctx9, w9)"
    using all unfolding split pipeline_append by (auto simp: and_then_Inr simp del: run_pipeline.simps)
  have s1: "same_turn (ctx, w) (ctx1, w1)" using before_agent_same [OF pre] assms(1) by simp
  define agent_did where "agent_did = pn_agent env (tx_context ctx1) (tx_history ctx1)"
  define answer where "answer = settle_answer (ru_answer agent_did)"
  define ctx2 where "ctx2 = ctx1\<lparr>tx_response := Some answer\<rparr>"
  define w2 where "w2 = w1\<lparr>wd_store := ru_store agent_did (wd_store w1), wd_outbox := wd_outbox w1 @ ru_sent agent_did\<rparr>"
  have 2: "run_step env RunAgent (ctx1, w1) = Inr (ctx2, w2)"
    by (simp add: run_agent_step_def agent_did_def answer_def ctx2_def w2_def Let_def)
  have l2: "linked w2" and t2: "transcript w2 = transcript w @ map bare arrived" and o2: "wd_outbox w2 = wd_outbox w @ ru_sent agent_did"
    using s1 app by (auto simp: w2_def same_turn_def linked_alt agent_did_def agent_appends_def transcript_def)
  obtain ctx3 w3 ctx4 w4 where 3: "run_step env PersistSystemPrompt (ctx2, w2) = Inr (ctx3, w3)"
      and 4: "dispatch_reply_step (ctx3, w3) = Inr (ctx4, w4)" and 5: "persist_outbound_step env (ctx4, w4) = Inr (ctx9, w9)"
    using post 2 by (auto simp: and_then_Inr)
  have s3: "same_turn (ctx2, w2) (ctx3, w3)" using prompt_same [OF 3] l2 by simp
  have c3: "tx_response ctx3 = Some answer" "tx_dispatched ctx3 = []" "tx_channel ctx3 = tx_channel ctx"
      "tx_address ctx3 = tx_address ctx" "tx_request_id ctx3 = tx_request_id ctx"
    using s1 s3 assms(4) by (simp_all add: same_turn_def ctx2_def)
  obtain replies where d: "wd_outbox w4 = wd_outbox w3 @ replies" "length replies \<le> 1"
      "replies = [] \<longleftrightarrow> tx_channel ctx = [] \<or> already_replied (ar_tool_calls answer) \<or> ar_reply_text answer = [] \<and> tx_request_id ctx = []"
      "list_all (\<lambda>m. out_channel m = tx_channel ctx \<and> out_chat_id m = tx_address ctx) replies"
      "ar_reply_text answer \<noteq> [] \<longrightarrow>
        list_all (\<lambda>m. out_content m = (if tx_dispatched ctx4 \<noteq> [] then tx_dispatched ctx4 else ar_reply_text answer)) replies"
      "tx_response ctx4 = Some answer" "wd_store w4 = wd_store w3" "wd_session w4 = wd_session w3"
    using dispatch_effect [OF 4 c3(1,2)] unfolding c3 by blast
  have l4: "linked w4" and t4: "transcript w4 = transcript w @ map bare arrived" and o4: "wd_outbox w4 = wd_outbox w @ ru_sent agent_did @ replies"
    using s3 d(1,7,8) t2 o2 by (simp_all add: same_turn_def linked_alt transcript_def)
  have p: "persist_outbound (pn_now env) ctx4 answer w4 = Inr w9" "ctx9 = ctx4" using 5 d(6) by (auto simp: persist_outbound_step_def and_then_Inr)
  have r: "r = answer" using r9(2) p(2) d(6) by simp
  note e = persist_effect [OF l4 p(1)]
  have rows: "if ar_reply_text r = [] \<or> ar_is_error_fallback r then transcript w' = transcript w @ map bare arrived
        else \<exists>row. transcript w' = transcript w @ map bare arrived @ [row] \<and> sm_direction row = OUTBOUND
          \<and> sm_llm_reply_text row = ar_reply_text r \<and> sm_interactions row = ar_tool_calls r
          \<and> list_all (\<lambda>m. out_content m = sm_body row) replies
          \<and> list_all (\<lambda>m. sm_seq m < sm_seq row) (transcript w @ map bare arrived)"
  proof (cases "ar_reply_text r = [] \<or> ar_is_error_fallback r")
    case True
    then show ?thesis using e t4 r r9(1) by simp
  next
    case False
    then obtain row where row: "transcript w9 = transcript w4 @ [row]" "sm_direction row = OUTBOUND"
       "sm_body row = (if tx_dispatched ctx4 \<noteq> [] then tx_dispatched ctx4 else ar_reply_text answer)"
       "sm_llm_reply_text row = ar_reply_text answer" "sm_interactions row = ar_tool_calls answer"
       "\<forall>m \<in> set (transcript w4). sm_seq m < sm_seq row" using e r by auto
    then have "list_all (\<lambda>m. out_content m = sm_body row) replies" using d(5) False r by simp
    then show ?thesis using False row r t4 r9(1) by (auto simp: list_all_iff intro!: exI [of _ row])
  qed
  show ?thesis
    using rows d(2,3,4) r o4 e r9(1) unfolding answer_def agent_did_def
    by (intro exI [of _ "tx_context ctx1"] exI [of _ "tx_history ctx1"] exI [of _ replies]) simp
qed


text \<open>The agent loop is such an agent: its only effect on the store is the compaction of what it dropped.\<close>

definition loop_agent ::
  "loop_env \<Rightarrow> (string \<Rightarrow> agent_message list \<Rightarrow> assembled_prompt) \<Rightarrow> bool \<Rightarrow> bool \<Rightarrow> int \<Rightarrow> agent \<Rightarrow> string \<Rightarrow> agent_message list \<Rightarrow> agent_run" where
  "loop_agent env assemble compaction commit_ok now ag c h =
     (let (answer, ls, dropped) = process_message env True None (assemble c h) ag
      in \<lparr>ru_answer = answer, ru_sent = [], ru_store = (\<lambda>st. fst (trigger_compaction_for_dropped compaction commit_ok now dropped st))\<rparr>)"

lemma loop_agent_appends: "pn_agent env = loop_agent le assemble compaction commit_ok now ag \<Longrightarrow> agent_appends env []"
  using keeps_trigger by (simp add: agent_appends_def loop_agent_def case_prod_unfold keeps_rows_def Let_def)

section \<open>The history a turn sees\<close>

text \<open>
  The history of a turn that waited for the lock: the loader gets a session whose last row is
  this turn's message, with every earlier row before it, every reply sent meanwhile, and none of the
  messages that came later.
\<close>

theorem history_ends_with_current:
  assumes "rising_seqs (ss_messages ss)" and "current \<in> set (ss_messages ss)" and "sm_seq current \<noteq> 0"
  shows "last (ss_messages (history_session current ss)) = current
    \<and> filter (\<lambda>m. sm_seq m \<le> sm_seq current) (ss_messages (history_session current ss))
        = filter (\<lambda>m. sm_seq m \<le> sm_seq current) (ss_messages ss)
    \<and> filter (\<lambda>m. sm_seq current < sm_seq m) (ss_messages (history_session current ss))
        = filter (\<lambda>m. sm_seq current < sm_seq m \<and> sm_direction m = OUTBOUND) (ss_messages ss)"
proof -
  obtain xs ys where split: "ss_messages ss = xs @ current # ys" using assms(2) by (auto simp: in_set_conv_decomp)
  have xs: "\<forall>m \<in> set xs. sm_seq m < sm_seq current" and ys: "\<forall>m \<in> set ys. sm_seq current < sm_seq m"
    using assms(1) unfolding split by (auto simp: rising_seqs_def sorted_wrt_append)
  have none: "filter (\<lambda>m. sm_seq current < sm_seq m) xs = []" "filter (\<lambda>m. sm_seq m \<le> sm_seq current) ys = []"
      "filter (\<lambda>m. sm_seq m \<le> sm_seq current) xs = xs" "filter (\<lambda>m. sm_seq m < sm_seq current) xs = xs"
    using xs ys by (auto simp: filter_empty_conv intro!: filter_True)
  have ys1: "(sm_seq m < sm_seq current \<or> sm_seq current < sm_seq m \<and> sm_direction m = OUTBOUND) = (sm_direction m = OUTBOUND)"
      "(sm_seq current < sm_seq m \<and> sm_direction m = OUTBOUND) = (sm_direction m = OUTBOUND)" if "m \<in> set ys" for m
    using ys that by auto
  have keep: "filter (\<lambda>m. sm_seq m < sm_seq current \<or> sm_seq current < sm_seq m \<and> sm_direction m = OUTBOUND) xs = xs"
      "filter (\<lambda>m. sm_seq m < sm_seq current \<or> sm_seq current < sm_seq m \<and> sm_direction m = OUTBOUND) ys
        = filter (\<lambda>m. sm_direction m = OUTBOUND) ys"
      "filter (\<lambda>m. sm_seq current < sm_seq m \<and> sm_direction m = OUTBOUND) ys = filter (\<lambda>m. sm_direction m = OUTBOUND) ys"
      "filter (\<lambda>m. sm_seq current < sm_seq m \<and> sm_direction m = OUTBOUND) xs = []"
    using xs ys1 by (simp_all cong: filter_cong add: filter_empty_conv filter_True)
       (use xs in force)
  show ?thesis
  proof (cases "ys = []")
    case True
    then have "history_session current ss = ss" using split xs by (auto simp: history_session_def list_ex_iff)
    then show ?thesis using True split xs none by (auto simp: filter_empty_conv)
  next
    case False
    then have h: "ss_messages (history_session current ss) = xs @ filter (\<lambda>m. sm_direction m = OUTBOUND) ys @ [current]"
      using split ys assms(3) keep by (cases ys) (auto simp: history_session_def)
    have "filter (\<lambda>m. sm_seq m \<le> sm_seq current) (filter (\<lambda>m. sm_direction m = OUTBOUND) ys) = []"
      "filter (\<lambda>m. sm_seq current < sm_seq m) (filter (\<lambda>m. sm_direction m = OUTBOUND) ys) = filter (\<lambda>m. sm_direction m = OUTBOUND) ys"
      using ys by (auto simp: filter_empty_conv cong: filter_cong)
    then show ?thesis unfolding h split using none keep by simp
  qed
qed

section \<open>Over the quota\<close>

lemma multi_user_steps:
  "multi_user_pipeline = [PrepareMedia, BuildContext, LoadHistory] @ [CheckQuota, GuardedRunAgent, PersistSystemPrompt,
     FinalizeOnboarding, DispatchReply, PersistOutbound, TrackUsage]"
  by (simp add: multi_user_pipeline_def build_pipeline_def default_pipeline_def)

lemma pipeline_cong:
  "(\<And>step. step \<in> set steps \<Longrightarrow> run_step e step = run_step e' step) \<Longrightarrow> run_pipeline e steps cw = run_pipeline e' steps cw"
proof (induction steps arbitrary: cw)
  case (Cons step steps)
  then have "run_pipeline e steps = run_pipeline e' steps" by (auto simp: fun_eq_iff)
  then show ?case using Cons.prems by simp
qed simp

lemma before_agent_other:
  "run_pipeline (env\<lparr>pn_agent := a\<rparr>) [PrepareMedia, BuildContext, LoadHistory] cw = run_pipeline env [PrepareMedia, BuildContext, LoadHistory] cw"
proof -
  have "run_step (env\<lparr>pn_agent := a\<rparr>) step = run_step env step" if "step \<in> {PrepareMedia, BuildContext, LoadHistory}" for step
    using that by (auto simp: fun_eq_iff prepare_media_step_def build_context_step_def load_history_step_def)
  then show ?thesis by (intro pipeline_cong) auto
qed


section \<open>Concrete turns\<close>

definition pipe_row :: "direction \<Rightarrow> string \<Rightarrow> int \<Rightarrow> stored_message" where
  "pipe_row d body q =
     \<lparr>sm_direction = d, sm_body = body, sm_processed_context = [], sm_interactions = [], sm_llm_reply_text = [],
      sm_timestamp = Some 0, sm_seq = q\<rparr>"

definition pipe_reply :: agent_response where
  "pipe_reply = (fallback_response ''Done.'')\<lparr>ar_is_error_fallback := False\<rparr>"

definition pipe_env :: pipeline_env where
  "pipe_env =
     \<lparr>pn_fs = \<lparr>fe_root = ''r'', fe_write = (\<lambda>p. True), fe_read = (\<lambda>p. True), fe_unlink = (\<lambda>p. True)\<rparr>, pn_now = 7,
      pn_tokens = (\<lambda>n. ''t''), pn_download = (\<lambda>u. None), pn_pdf = (\<lambda>c. WorkerFailed), pn_media_raises = False, pn_user = ''u'',
      pn_timezone = \<lparr>local_day = (\<lambda>t. 0), local_stamp = (\<lambda>t. [])\<rparr>, pn_history_limit = 20, pn_compaction = False, pn_commit_ok = True,
      pn_render = (\<lambda>rows current tz preceding. []),
      pn_agent = (\<lambda>c h. \<lparr>ru_answer = Inr pipe_reply, ru_sent = [], ru_store = (\<lambda>st. st)\<rparr>), pn_cap = 0, pn_period = 1\<rparr>"

definition pipe_world :: "billing \<Rightarrow> world" where
  "pipe_world b =
     \<lparr>wd_store = \<lparr>st_session = Some \<lparr>cs_id = ''s'', cs_channel = ''c'', cs_prompt = [], cs_last_trim = None, cs_stub = None,
                    cs_last_message_at = 0, cs_rows = [pipe_row INBOUND ''hi'' 1]\<rparr>, st_events = [], st_next_event = 1\<rparr>,
      wd_session = \<lparr>ss_id = ''s'', ss_channel = ''c'', ss_prompt = [], ss_last_trim = None, ss_stub = None,
                    ss_last_message_at = 0, ss_messages = [pipe_row INBOUND ''hi'' 1]\<rparr>,
      wd_staging = \<lparr>sg_rows = [], sg_files = (\<lambda>p. None), sg_next = 1\<rparr>, wd_billing = b, wd_outbox = []\<rparr>"

definition pipe_ctx :: turn_ctx where
  "pipe_ctx = start_ctx (pipe_row INBOUND ''hi'' 1) [] [] ''c'' ''a'' ''q''"

definition pipe_spent :: billing where
  "pipe_spent =
     \<lparr>bl_subscriptions = [], bl_quotas = [\<lparr>uq_user = ''u'', uq_period = 1, uq_messages_used = 5, uq_messages_limit = 5,
        uq_tokens_used = 0, uq_tokens_limit = 9\<rparr>]\<rparr>"

lemma pipe_linked: "linked (pipe_world b)"
  by (simp add: linked_def pipe_world_def)

lemma pipe_before_agent:
  obtains ctx1 w1 where "run_pipeline (pipe_env\<lparr>pn_agent := g\<rparr>) [PrepareMedia, BuildContext, LoadHistory] (pipe_ctx, pipe_world b) = Inr (ctx1, w1)"
    and "same_turn (pipe_ctx, pipe_world b) (ctx1, w1)"
proof -
  have "\<exists>cw. run_pipeline pipe_env [PrepareMedia, BuildContext, LoadHistory] (pipe_ctx, pipe_world b) = Inr cw"
    by (simp add: prepare_media_step_def pipe_ctx_def start_ctx_def build_context_step_def load_history_step_def
        Let_def case_prod_unfold)
  then obtain ctx1 w1 where "run_pipeline pipe_env [PrepareMedia, BuildContext, LoadHistory] (pipe_ctx, pipe_world b) = Inr (ctx1, w1)"
    by auto
  moreover from this have "same_turn (pipe_ctx, pipe_world b) (ctx1, w1)" using before_agent_same pipe_linked [of b] by simp
  ultimately show ?thesis using that before_agent_other [of g pipe_env "(pipe_ctx, pipe_world b)"] by simp
qed

lemma pipe_turn_runs:
  "\<exists>w'. handle_inbound_message pipe_env default_pipeline pipe_ctx (pipe_world b) = Inr (pipe_reply, w')"
proof -
  have split: "default_pipeline = [PrepareMedia, BuildContext, LoadHistory] @ [RunAgent, PersistSystemPrompt, FinalizeOnboarding, DispatchReply, PersistOutbound]"
    by (simp add: default_pipeline_def)
  obtain ctx1 w1 where pre: "run_pipeline pipe_env [PrepareMedia, BuildContext, LoadHistory] (pipe_ctx, pipe_world b) = Inr (ctx1, w1)"
    and s: "same_turn (pipe_ctx, pipe_world b) (ctx1, w1)"
    using pipe_before_agent [of "pn_agent pipe_env" b] by auto
  then obtain cs where "st_session (wd_store w1) = Some cs" "cs_id cs = ss_id (wd_session w1)" by (auto simp: same_turn_def linked_def)
  then have "\<exists>ctx2 w2. run_pipeline pipe_env [RunAgent, PersistSystemPrompt, FinalizeOnboarding, DispatchReply, PersistOutbound] (ctx1, w1)
      = Inr (ctx2, w2) \<and> tx_response ctx2 = Some pipe_reply"
    by (simp add: run_agent_step_def pipe_env_def pipe_reply_def fallback_response_def settle_answer_def persist_system_prompt_step_def
        dispatch_reply_step_def already_replied_def persist_outbound_step_def persist_outbound_def add_message_def find_session_def
        insert_row_def Let_def)
  then obtain ctx2 w2 where post: "run_pipeline pipe_env [RunAgent, PersistSystemPrompt, FinalizeOnboarding, DispatchReply, PersistOutbound] (ctx1, w1)
      = Inr (ctx2, w2)" and r: "tx_response ctx2 = Some pipe_reply" by blast
  have "run_pipeline pipe_env default_pipeline (pipe_ctx, pipe_world b) = Inr (ctx2, w2)"
    unfolding split pipeline_append using pre post by (simp del: run_pipeline.simps)
  then show ?thesis using r by (simp add: handle_inbound_message_def) (simp add: pipe_ctx_def start_ctx_def)
qed


theorem history_ends_with_current_witness:
  "map sm_seq (ss_messages (history_session (pipe_row INBOUND ''b'' 2)
       ((wd_session (pipe_world pipe_spent))\<lparr>ss_messages :=
          [pipe_row INBOUND ''a'' 1, pipe_row INBOUND ''b'' 2, pipe_row INBOUND ''c'' 3, pipe_row OUTBOUND ''r'' 4]\<rparr>))) = [1, 4, 2]
   \<and> last (ss_messages (history_session (pipe_row INBOUND ''b'' 2)
       ((wd_session (pipe_world pipe_spent))\<lparr>ss_messages :=
          [pipe_row INBOUND ''a'' 1, pipe_row INBOUND ''b'' 2, pipe_row INBOUND ''c'' 3, pipe_row OUTBOUND ''r'' 4]\<rparr>)))
     = pipe_row INBOUND ''b'' 2"
  using history_ends_with_current [of "(wd_session (pipe_world pipe_spent))\<lparr>ss_messages :=
      [pipe_row INBOUND ''a'' 1, pipe_row INBOUND ''b'' 2, pipe_row INBOUND ''c'' 3, pipe_row OUTBOUND ''r'' 4]\<rparr>" "pipe_row INBOUND ''b'' 2"]
  by (simp add: history_session_def pipe_row_def rising_seqs_def)


end
