(* ===== verification/Inbound_Recovery.thy ===== *)
theory Inbound_Recovery
  imports Turn_Pipeline Compaction
begin

text \<open>
  The sweep at start-up that dispatches again the messages that look unanswered
  (\<open>backend/app/agent/inbound_recovery.py\<close>), with the part of \<open>_dispatch_to_pipeline\<close>
  (\<open>ingestion.py\<close>) that runs the turn once it owns the lock. A database is the list of the users
  with a session and their worlds. Times are microseconds. What a turn that is cut short has done by
  then is part of its fate, a parameter.
\<close>

section \<open>Orphans\<close>

definition freshness_floor :: int where
  "freshness_floor = 5 * 1000000"

definition orphaned :: "int \<Rightarrow> int \<Rightarrow> stored_message list \<Rightarrow> stored_message \<Rightarrow> bool" where
  "orphaned cutoff newest rows m \<longleftrightarrow>
     sm_direction m = INBOUND
     \<and> (case sm_timestamp m of Some t \<Rightarrow> cutoff \<le> t \<and> t \<le> newest | None \<Rightarrow> False)
     \<and> \<not> list_ex (\<lambda>ob. sm_direction ob = OUTBOUND \<and> sm_seq m < sm_seq ob) rows"

definition sent_at :: "string \<times> stored_message \<Rightarrow> int" where
  "sent_at um = (case sm_timestamp (snd um) of Some t \<Rightarrow> t | None \<Rightarrow> 0)"

definition orphans_of :: "int \<Rightarrow> int \<Rightarrow> world \<Rightarrow> stored_message list" where
  "orphans_of cutoff newest w = filter (orphaned cutoff newest (rows_of (wd_store w))) (rows_of (wd_store w))"

definition find_orphaned_inbounds :: "int \<Rightarrow> int \<Rightarrow> (string \<times> world) list \<Rightarrow> (string \<times> stored_message) list" where
  "find_orphaned_inbounds cutoff newest db =
     sort_key sent_at (concat (map (\<lambda>(user, w). map (Pair user) (orphans_of cutoff newest w)) db))"

text \<open>The columns the constructor of \<open>StoredMessage\<close> and \<open>SessionState\<close> is not given take their defaults.\<close>

definition orphan_to_stored :: "stored_message \<Rightarrow> stored_message" where
  "orphan_to_stored m = m\<lparr>sm_llm_reply_text := []\<rparr>"

definition orphan_to_state :: "stored_message \<Rightarrow> chat_session \<Rightarrow> session_state" where
  "orphan_to_state m cs =
     \<lparr>ss_id = cs_id cs, ss_channel = cs_channel cs, ss_prompt = [], ss_last_trim = None, ss_stub = None,
      ss_last_message_at = cs_last_message_at cs, ss_messages = [orphan_to_stored m]\<rparr>"

text \<open>
  The column \<open>media_urls_json\<close>: empty, no JSON, or a decoded value.
\<close>

fun parse_media_refs :: "json option option \<Rightarrow> string list" where
  "parse_media_refs (Some (Some (JList ids))) = map py_str ids"
| "parse_media_refs column = []"

section \<open>Dispatching\<close>

datatype turn_fate = Completes | FoldedAway | CutShort "world \<Rightarrow> world"

record recovery_env =
  rv_pipeline :: "string \<Rightarrow> pipeline_env"
  rv_steps :: "pipeline_step list"
  rv_user_exists :: "string \<Rightarrow> bool"
  rv_route :: "string \<Rightarrow> string \<Rightarrow> string option"
  rv_user_address :: "string \<Rightarrow> string"
  rv_refresh_ok :: "string \<Rightarrow> bool"
  rv_media_urls :: "stored_message \<Rightarrow> json option option"
  rv_fate :: "string \<Rightarrow> stored_message \<Rightarrow> turn_fate"

definition to_address :: "recovery_env \<Rightarrow> string \<Rightarrow> string \<Rightarrow> string" where
  "to_address env user channel =
     (case rv_route env user channel of Some a \<Rightarrow> if a \<noteq> [] then a else rv_user_address env user | None \<Rightarrow> rv_user_address env user)"

definition error_fallback_text :: string where
  "error_fallback_text = ''Sorry, something went wrong processing your message. Please try again.''"

definition send_error_fallback :: "recovery_env \<Rightarrow> string \<Rightarrow> string \<Rightarrow> string \<Rightarrow> world \<Rightarrow> world" where
  "send_error_fallback env user channel request_id w =
     (if rv_user_address env user = [] \<or> channel = [] then w
      else w\<lparr>wd_outbox := wd_outbox w @ [\<lparr>out_channel = channel, out_chat_id = rv_user_address env user,
             out_content = error_fallback_text, out_request_id = request_id\<rparr>]\<rparr>)"

definition reload_session :: "world \<Rightarrow> world" where
  "reload_session w =
     (case load_session (wd_store w) (ss_id (wd_session w)) of Some ss \<Rightarrow> w\<lparr>wd_session := ss\<rparr> | None \<Rightarrow> w)"

text \<open>A turn that raises leaves its world as it was, except for what \<open>CutShort\<close> says of one that had effects.\<close>

definition dispatch_to_pipeline ::
  "recovery_env \<Rightarrow> string \<Rightarrow> stored_message \<Rightarrow> string list \<Rightarrow> string \<Rightarrow> world \<Rightarrow> world" where
  "dispatch_to_pipeline env user m urls channel w =
     (case rv_fate env user m of
        FoldedAway \<Rightarrow> w
      | CutShort f \<Rightarrow> send_error_fallback env user channel [] (f (reload_session w))
      | Completes \<Rightarrow>
          (case handle_inbound_message ((rv_pipeline env user)\<lparr>pn_download := (\<lambda>f. None)\<rparr>) (rv_steps env)
                  (start_ctx m urls [] channel (to_address env user channel) []) (reload_session w) of
             Inr (r, w') \<Rightarrow> w'
           | Inl e \<Rightarrow> send_error_fallback env user channel [] (reload_session w)))"

definition refresh_session :: "recovery_env \<Rightarrow> string \<Rightarrow> stored_message \<Rightarrow> chat_session \<Rightarrow> world \<Rightarrow> world" where
  "refresh_session env user m cs w =
     (if rv_refresh_ok env user
      then (let (st, ss, new) = get_or_create_session (cs_id cs) (pn_now (rv_pipeline env user)) (wd_store w)
            in w\<lparr>wd_store := st, wd_session := ss\<rparr>)
      else w\<lparr>wd_session := orphan_to_state m cs\<rparr>)"

definition recover_one :: "recovery_env \<Rightarrow> string \<Rightarrow> stored_message \<Rightarrow> world \<Rightarrow> world" where
  "recover_one env user m w =
     (case st_session (wd_store w) of
        None \<Rightarrow> w
      | Some cs \<Rightarrow>
          dispatch_to_pipeline env user (orphan_to_stored m) (parse_media_refs (rv_media_urls env m)) (cs_channel cs)
            (refresh_session env user m cs w))"

fun recover_rows :: "recovery_env \<Rightarrow> (string \<times> stored_message) list \<Rightarrow> (string \<times> world) list \<Rightarrow> nat \<times> (string \<times> world) list" where
  "recover_rows env [] db = (0, db)"
| "recover_rows env ((user, m) # rows) db =
     (if rv_user_exists env user
      then (let (n, db') = recover_rows env rows (map (\<lambda>(u, w). (u, if u = user then recover_one env user m w else w)) db)
            in (Suc n, db'))
      else recover_rows env rows db)"

definition recover_orphan_inbound_messages ::
  "recovery_env \<Rightarrow> nat \<Rightarrow> bool \<Rightarrow> int \<Rightarrow> (string \<times> world) list \<Rightarrow> nat \<times> (string \<times> world) list" where
  "recover_orphan_inbound_messages env lookback_minutes got_lock now db =
     (if lookback_minutes = 0 \<or> \<not> got_lock then (0, db)
      else recover_rows env (find_orphaned_inbounds (now - int lookback_minutes * 60 * 1000000) (now - freshness_floor) db) db)"

section \<open>A turn returns\<close>

lemma before_agent_returns:
  "tx_media ctx = [] \<Longrightarrow> \<exists>cw. run_pipeline env [PrepareMedia, BuildContext, LoadHistory] (ctx, w) = Inr cw"
  by (simp add: prepare_media_step_def build_context_step_def load_history_step_def Let_def case_prod_unfold)

lemma dispatch_returns:
  "\<exists>ctx' w'. dispatch_reply_step (ctx, w) = Inr (ctx', w') \<and> wd_store w' = wd_store w \<and> wd_session w' = wd_session w"
  by (simp add: dispatch_reply_step_def Let_def split: option.splits)

lemma persist_returns: "linked w \<Longrightarrow> \<exists>cw. persist_outbound_step env (ctx, w) = Inr cw"
  by (auto simp: persist_outbound_step_def persist_outbound_def add_message_def find_session_def linked_def Let_def case_prod_unfold
      split: option.splits)

lemma prompt_returns: "\<exists>cw. persist_system_prompt_step (ctx, w) = Inr cw"
  by (simp add: persist_system_prompt_step_def case_prod_unfold Let_def split: option.splits)

lemma default_turn_returns:
  assumes "linked w" and "tx_media ctx = []" and app: "agent_appends env arrived"
  shows "\<exists>r w'. handle_inbound_message env default_pipeline ctx w = Inr (r, w')"
proof -
  have split: "default_pipeline = [PrepareMedia, BuildContext, LoadHistory] @ [RunAgent, PersistSystemPrompt, FinalizeOnboarding, DispatchReply, PersistOutbound]"
    by (simp add: default_pipeline_def)
  obtain ctx1 w1 where pre: "run_pipeline env [PrepareMedia, BuildContext, LoadHistory] (ctx, w) = Inr (ctx1, w1)"
    using before_agent_returns [OF assms(2), of env w] by (metis surj_pair)
  have l1: "linked w1" using before_agent_same [OF pre] assms(1) by (simp add: same_turn_def)
  define did where "did = pn_agent env (tx_context ctx1) (tx_history ctx1)"
  define ctx2 where "ctx2 = ctx1\<lparr>tx_response := Some (settle_answer (ru_answer did))\<rparr>"
  define w2 where "w2 = w1\<lparr>wd_store := ru_store did (wd_store w1), wd_outbox := wd_outbox w1 @ ru_sent did\<rparr>"
  have 2: "run_agent_step env (ctx1, w1) = Inr (ctx2, w2)"
    by (simp add: run_agent_step_def did_def ctx2_def w2_def Let_def)
  have l2: "linked w2" using l1 app by (simp add: w2_def did_def linked_alt agent_appends_def)
  obtain ctx3 w3 where 3: "persist_system_prompt_step (ctx2, w2) = Inr (ctx3, w3)" using prompt_returns by fastforce
  have l3: "linked w3" using prompt_same [of env "(ctx2, w2)" "(ctx3, w3)"] 3 l2 by (simp add: same_turn_def)
  obtain ctx4 w4 where 4: "dispatch_reply_step (ctx3, w3) = Inr (ctx4, w4)" and l4: "linked w4"
    using dispatch_returns [of ctx3 w3] l3 by (auto simp: linked_def)
  obtain cw where 5: "persist_outbound_step env (ctx4, w4) = Inr cw" using persist_returns [OF l4] by blast
  have "run_pipeline env default_pipeline (ctx, w) = Inr cw"
    unfolding split pipeline_append by (simp only: pre and_then.simps) (simp add: 2 3 4 5)
  then show ?thesis by (auto simp: handle_inbound_message_def case_prod_unfold)
qed

section \<open>What one dispatch does\<close>

lemma refresh_same:
  assumes "st_session (wd_store w) = Some cs"
  shows "linked (refresh_session env user m cs w)" and "transcript (refresh_session env user m cs w) = transcript w"
    and "wd_outbox (refresh_session env user m cs w) = wd_outbox w"
  using assms by (auto simp: refresh_session_def get_or_create_session_def session_to_state_def orphan_to_state_def linked_def
      transcript_def rows_of_def Let_def)

lemma reload_same: "linked w \<Longrightarrow> linked (reload_session w)" "transcript (reload_session w) = transcript w"
    "wd_outbox (reload_session w) = wd_outbox w"
  by (auto simp: reload_session_def load_session_def find_session_def session_to_state_def linked_def transcript_def
      split: option.splits)

lemma transcript_session: "transcript w \<noteq> [] \<Longrightarrow> st_session (wd_store w) \<noteq> None"
  by (auto simp: transcript_def rows_of_def split: option.splits)

definition answering :: "recovery_env \<Rightarrow> bool" where
  "answering env \<longleftrightarrow> rv_steps env = default_pipeline
     \<and> (\<forall>u m. rv_fate env u m = Completes) \<and> (\<forall>u c. to_address env u c \<noteq> [])
     \<and> (\<forall>u. agent_appends (rv_pipeline env u) []
          \<and> (\<forall>c h. let r = settle_answer (ru_answer (pn_agent (rv_pipeline env u) c h))
                   in ar_reply_text r \<noteq> [] \<and> \<not> ar_is_error_fallback r))"

lemma recover_one_answers:
  assumes env: "answering env" and some: "st_session (wd_store w) \<noteq> None"
  shows "\<exists>row. transcript (recover_one env user m w) = transcript w @ [row] \<and> sm_direction row = OUTBOUND
    \<and> list_all (\<lambda>q. sm_seq q < sm_seq row) (transcript w)"
proof -
  obtain cs where cs: "st_session (wd_store w) = Some cs" using some by blast
  define v where "v = reload_session (refresh_session env user m cs w)"
  define pn where "pn = (rv_pipeline env user)\<lparr>pn_download := (\<lambda>f. None :: downloaded_media option)\<rparr>"
  define ctx where "ctx = start_ctx (orphan_to_stored m) (parse_media_refs (rv_media_urls env m)) [] (cs_channel cs)
     (to_address env user (cs_channel cs)) []"
  have v: "linked v" "transcript v = transcript w" using refresh_same [OF cs] reload_same by (simp_all add: v_def)
  have app: "agent_appends pn []" using env by (simp add: answering_def pn_def agent_appends_def)
  have c: "tx_media ctx = []" "tx_dispatched ctx = []" "tx_address ctx \<noteq> []"
    using env by (simp_all add: ctx_def start_ctx_def answering_def)
  obtain r w' where run: "handle_inbound_message pn default_pipeline ctx v = Inr (r, w')"
    using default_turn_returns [OF v(1) c(1) app] by blast
  have "recover_one env user m w = w'"
    using run env cs by (simp add: recover_one_def dispatch_to_pipeline_def answering_def v_def pn_def ctx_def)
  moreover note t = turn_result [OF v(1) app c(3,2) run]
  obtain a h where "r = settle_answer (ru_answer (pn_agent pn a h))" using t by (elim exE conjE) (rule that)
  then have "ar_reply_text r \<noteq> [] \<and> \<not> ar_is_error_fallback r"
    using env by (simp add: answering_def pn_def Let_def)
  then have "\<exists>row. transcript w' = transcript v @ [row] \<and> sm_direction row = OUTBOUND \<and> list_all (\<lambda>q. sm_seq q < sm_seq row) (transcript v)"
    using t by auto
  ultimately show ?thesis using v(2) by simp
qed

section \<open>The sweep\<close>

text \<open>The users are swept independently of each other.\<close>

definition dispatched_to :: "recovery_env \<Rightarrow> string \<Rightarrow> (string \<times> stored_message) list \<Rightarrow> stored_message list" where
  "dispatched_to env user rows = map snd (filter (\<lambda>(v, m). v = user \<and> rv_user_exists env v) rows)"

lemma recover_rows_per_user:
  "recover_rows env rows db =
     (length (filter (\<lambda>(v, m). rv_user_exists env v) rows),
      map (\<lambda>(u, w). (u, fold (recover_one env u) (dispatched_to env u rows) w)) db)"
proof (induction rows arbitrary: db)
  case Nil
  then show ?case by (simp add: dispatched_to_def case_prod_unfold)
next
  case (Cons r rows)
  then show ?case by (cases r) (auto simp: dispatched_to_def Let_def case_prod_unfold)
qed

definition replied :: "nat \<Rightarrow> world \<Rightarrow> world \<Rightarrow> bool" where
  "replied k w w' \<longleftrightarrow>
     (\<exists>rows. transcript w' = transcript w @ rows \<and> length rows = k
        \<and> list_all (\<lambda>r. sm_direction r = OUTBOUND \<and> list_all (\<lambda>q. sm_seq q < sm_seq r) (transcript w)) rows)"

lemma fold_replies:
  assumes "answering env" and "st_session (wd_store w) \<noteq> None"
  shows "replied (length ms) w (fold (recover_one env u) ms w)"
  using assms(2)
proof (induction ms arbitrary: w)
  case Nil
  then show ?case by (simp add: replied_def)
next
  case (Cons m ms)
  obtain row where row: "transcript (recover_one env u m w) = transcript w @ [row]" "sm_direction row = OUTBOUND"
      "list_all (\<lambda>q. sm_seq q < sm_seq row) (transcript w)"
    using recover_one_answers [OF assms(1) Cons.prems] by blast
  then have "st_session (wd_store (recover_one env u m w)) \<noteq> None" by (intro transcript_session) simp
  from Cons.IH [OF this] row show ?case by (auto simp: replied_def list_all_iff)
qed

lemma orphaned_bare [simp]: "orphaned c f (map bare rows) (bare m) = orphaned c f rows m"
  by (simp add: orphaned_def bare_def list_ex_iff)

lemma orphans_transcript: "map bare (orphans_of c f w) = filter (orphaned c f (transcript w)) (transcript w)"
  by (simp add: orphans_of_def transcript_def filter_map o_def)

lemma replied_no_orphans:
  assumes "replied k w w'" and "orphans_of c f w \<noteq> [] \<Longrightarrow> 0 < k"
  shows "orphans_of c f w' = []"
proof -
  obtain rows where rows: "transcript w' = transcript w @ rows" "length rows = k"
      "\<forall>r \<in> set rows. sm_direction r = OUTBOUND \<and> (\<forall>q \<in> set (transcript w). sm_seq q < sm_seq r)"
    using assms(1) by (auto simp: replied_def list_all_iff)
  have "\<not> orphaned c f (transcript w') q" if "q \<in> set (transcript w')" for q
  proof
    assume o: "orphaned c f (transcript w') q"
    then have q: "q \<in> set (transcript w)" "orphaned c f (transcript w) q"
      using that rows by (auto simp: orphaned_def)
    then have "filter (orphaned c f (transcript w)) (transcript w) \<noteq> []" by (auto simp: filter_empty_conv)
    then have "orphans_of c f w \<noteq> []" using orphans_transcript [of c f w] by (metis map_is_Nil_conv)
    then have "rows \<noteq> []" using assms(2) rows(2) by auto
    then obtain r where "r \<in> set rows" by (cases rows) auto
    then have "r \<in> set (transcript w')" "sm_direction r = OUTBOUND" "sm_seq q < sm_seq r" using q(1) rows by auto
    then show False using o unfolding orphaned_def list_ex_iff by blast
  qed
  then have "map bare (orphans_of c f w') = []" unfolding orphans_transcript by (simp add: filter_empty_conv)
  then show ?thesis by simp
qed

lemma orphans_of_user:
  assumes "distinct (map fst db)" and "(u, w) \<in> set db"
  shows "length (dispatched_to env u (find_orphaned_inbounds c f db))
    = (if rv_user_exists env u then length (orphans_of c f w) else 0)"
proof -
  have "length (filter (\<lambda>(v, m). v = u \<and> rv_user_exists env v) (concat (map (\<lambda>(user, w). map (Pair user) (orphans_of c f w)) db)))
    = (if rv_user_exists env u then length (orphans_of c f w) else 0)"
    using assms
  proof (induction db)
    case (Cons d db)
    obtain v x where d: "d = (v, x)" by fastforce
    have none: "filter (\<lambda>(v, m). v = u \<and> rv_user_exists env v) (concat (map (\<lambda>(user, w). map (Pair user) (orphans_of c f w)) db)) = []"
      if "u \<notin> fst ` set db" using that by (force simp: filter_empty_conv)
    show ?case
    proof (cases "v = u")
      case True
      then have "w = x" "u \<notin> fst ` set db" using Cons.prems d by (auto simp: image_iff)
      then show ?thesis using none d True by (auto simp: filter_map o_def filter_empty_conv)
    next
      case False
      then show ?thesis using Cons d by (simp add: filter_map o_def)
    qed
  qed simp
  then show ?thesis by (simp add: dispatched_to_def find_orphaned_inbounds_def filter_sort)
qed


section \<open>Where the sweep misses\<close>

text \<open>
  A reply to one message hides every other message of the user that is waiting: a sweep that is
  interrupted after its first turn, or a turn that answered the message before, leaves the rest
  unanswered for good.
\<close>

lemma reply_hides_orphans:
  assumes "answering env" and "st_session (wd_store w) \<noteq> None" and "length (orphans_of c f w) = 2"
    and "m \<in> set (orphans_of c f w)"
  shows "orphans_of c f (recover_one env user m w) = []
    \<and> \<not> replied 2 w (recover_one env user m w)"
proof -
  have a: "replied 1 w (recover_one env user m w)" using fold_replies [OF assms(1,2), of "[m]" user] by simp
  moreover have "\<not> replied 2 w (recover_one env user m w)"
    using recover_one_answers [OF assms(1,2), of user m] by (auto simp: replied_def)
  ultimately show ?thesis using replied_no_orphans [OF a] by simp
qed

text \<open>
  A turn that sent the user an answer but stored no row (an error fallback), or chose to stay silent,
  leaves its message an orphan: it runs again at the next start within the window.
\<close>

lemma unstored_answer_runs_again:
  assumes "linked w" and "agent_appends env []" and "tx_address ctx \<noteq> []" and "tx_dispatched ctx = []"
    and "\<And>c h. let r = settle_answer (ru_answer (pn_agent env c h)) in ar_reply_text r = [] \<or> ar_is_error_fallback r"
    and run: "handle_inbound_message env default_pipeline ctx w = Inr (r, w')"
  shows "map bare (orphans_of c f w') = map bare (orphans_of c f w)"
proof -
  note t = turn_result [OF assms(1-4) run]
  obtain a h where "r = settle_answer (ru_answer (pn_agent env a h))" using t by (elim exE conjE) (rule that)
  then have "ar_reply_text r = [] \<or> ar_is_error_fallback r" using assms(5) by (simp add: Let_def)
  then have "transcript w' = transcript w" using t by auto
  then show ?thesis by (simp add: orphans_transcript)
qed

text \<open>
  The attachments of a recovered message are never fetched again: the turn gets the media references
  but no way to download them, and tells the model so.
\<close>

lemma recovered_attachments_lost:
  assumes "urls \<noteq> []"
    and "run_pipeline (env\<lparr>pn_download := (\<lambda>f. None)\<rparr>) [PrepareMedia, BuildContext] (start_ctx m urls [] channel address [], w) = Inr (ctx', w')"
  shows "tx_media ctx' = [] \<and> (\<exists>pre. tx_context ctx' = pre @ ''[System note: '' @ media_download_error @ '']'')"
proof -
  have none: "download_and_stage_media fs now tokens (\<lambda>f. None) user ids s = ([], s)" for fs now tokens user ids s
    by (induction ids arbitrary: tokens) simp_all
  have "\<exists>pre. message_context pdf now user s raises body (length urls) [] = pre @ ''[System note: '' @ media_download_error @ '']''"
    for pdf now user s raises body
    using assms(1) by (auto simp: message_context_def Let_def)
  then show ?thesis using assms(2)
    by (auto simp: prepare_media_step_def build_context_step_def build_message_context_def none start_ctx_def Let_def case_prod_unfold)
qed

text \<open>The error notice goes to the user's own identifier even where the reply would go to the channel's route.\<close>

lemma fallback_ignores_route:
  assumes "rv_route env user channel = Some a" and "a \<noteq> []" and "a \<noteq> rv_user_address env user"
    and "rv_user_address env user \<noteq> []" and "channel \<noteq> []"
  shows "to_address env user channel = a
    \<and> out_chat_id (last (wd_outbox (send_error_fallback env user channel request_id w))) \<noteq> a"
  using assms by (simp add: to_address_def send_error_fallback_def)

section \<open>A concrete sweep\<close>

definition sweep_env :: recovery_env where
  "sweep_env =
     \<lparr>rv_pipeline = (\<lambda>u. pipe_env), rv_steps = default_pipeline, rv_user_exists = (\<lambda>u. u = ''u''),
      rv_route = (\<lambda>u c. None), rv_user_address = (\<lambda>u. ''a''), rv_refresh_ok = (\<lambda>u. True),
      rv_media_urls = (\<lambda>m. None), rv_fate = (\<lambda>u m. Completes)\<rparr>"

lemma sweep_env_answers: "answering sweep_env"
  by (simp add: answering_def sweep_env_def to_address_def agent_appends_def pipe_env_def settle_answer_def pipe_reply_def
      fallback_response_def)


end
