(* ===== verification/Heartbeat.thy ===== *)
theory Heartbeat
  imports Agent_Loop Memory_Docs Compaction Media_Context Sender_Routing
begin

text \<open>
  The proactive engine: the frequency strings (\<open>heartbeat_frequency.py\<close>), the route of a proactive
  message (\<open>heartbeat_routing.py\<close>), the notes and the log (\<open>HeartbeatStore\<close> in \<open>stores.py\<close>,
  \<open>tools/heartbeat_tools.py\<close>), and the two phases and the scheduler of \<open>heartbeat.py\<close>. Times are
  microseconds since the epoch (UTC). The decision model and the agent of the second phase are
  parameters; the wording of their prompts is not modelled.
\<close>

section \<open>Frequencies\<close>

definition named_frequencies :: "(string \<times> nat) list" where
  "named_frequencies = [(''daily'', 1440), (''weekdays'', 1440), (''weekly'', 10080)]"

definition parse_frequency_to_minutes :: "string \<Rightarrow> nat option" where
  "parse_frequency_to_minutes freq =
     (let f = py_lower (py_strip freq); ds = takeWhile ascii_digit f; rest = dropWhile is_space (dropWhile ascii_digit f)
      in case map_of named_frequencies f of
           Some m \<Rightarrow> Some m
         | None \<Rightarrow>
             if ds = [] then None
             else (let value = digits_value 0 ds
                   in if rest = ''m'' then Some (max value 1)
                      else if rest = ''h'' then Some (value * 60)
                      else if rest = ''d'' then Some (value * 1440) else None))"

section \<open>Users and settings\<close>

record heartbeat_user =
  hu_id :: string
  hu_onboarding_complete :: bool
  hu_is_active :: bool
  hu_opt_in :: bool
  hu_frequency :: string
  hu_max_daily :: nat
  hu_local_hour :: "(int \<Rightarrow> nat) option"  \<comment> \<open>None without a time zone\<close>

record heartbeat_settings =
  hs_interval_minutes :: nat
  hs_max_daily :: nat
  hs_quiet_period :: nat
  hs_quiet_start :: nat
  hs_quiet_end :: nat
  hs_max_retries :: nat

definition user_interval_minutes :: "heartbeat_settings \<Rightarrow> heartbeat_user \<Rightarrow> nat" where
  "user_interval_minutes s u =
     (case parse_frequency_to_minutes (hu_frequency u) of Some m \<Rightarrow> m | None \<Rightarrow> hs_interval_minutes s)"

definition minutes :: "nat \<Rightarrow> int" where
  "minutes n = int n * 60 * 1000000"

definition is_user_due :: "heartbeat_settings \<Rightarrow> heartbeat_user \<Rightarrow> int \<Rightarrow> (string \<rightharpoonup> int) \<Rightarrow> bool" where
  "is_user_due s u now last_tick =
     (case last_tick (hu_id u) of None \<Rightarrow> True | Some last_time \<Rightarrow> minutes (user_interval_minutes s u) \<le> now - last_time)"

definition in_quiet_hours :: "heartbeat_settings \<Rightarrow> heartbeat_user \<Rightarrow> int \<Rightarrow> bool" where
  "in_quiet_hours s u now =
     (case hu_local_hour u of
        None \<Rightarrow> False
      | Some local_hour \<Rightarrow>
          (let start = hs_quiet_start s; stop = hs_quiet_end s; h = local_hour now
           in if start = stop then False
              else if start < stop then start \<le> h \<and> h < stop
              else start \<le> h \<or> h < stop))"

definition effective_max_daily :: "heartbeat_settings \<Rightarrow> heartbeat_user \<Rightarrow> nat" where
  "effective_max_daily s u = (if 0 < hu_max_daily u then hu_max_daily u else hs_max_daily s)"

section \<open>Notes\<close>

definition is_atx_heading :: "string \<Rightarrow> bool" where
  "is_atx_heading line =
     (if line = [] \<or> hd line \<noteq> CHR ''#'' then False
      else case dropWhile (\<lambda>c. c = CHR ''#'') line of [] \<Rightarrow> True | c # cs \<Rightarrow> c = CHR '' '' \<or> c = CHR 0x09)"

definition has_actionable_heartbeat_content :: "string \<Rightarrow> bool" where
  "has_actionable_heartbeat_content notes =
     list_ex (\<lambda>line. let s = py_strip line in s \<noteq> [] \<and> \<not> is_atx_heading s) (py_splitlines notes)"

section \<open>The log\<close>

record heartbeat_log =
  hl_action :: string
  hl_message :: string
  hl_channel :: string
  hl_reasoning :: string
  hl_tasks :: string
  hl_created :: int

definition day_length :: int where
  "day_length = 24 * 60 * 60 * 1000000"

definition utc_day :: "int \<Rightarrow> int" where
  "utc_day t = t div day_length"

definition nudge :: "heartbeat_log \<Rightarrow> bool" where
  "nudge l \<longleftrightarrow> hl_action l \<noteq> ''skip'' \<and> hl_action l \<noteq> ''cleanup''"

definition get_daily_count :: "int \<Rightarrow> heartbeat_log list \<Rightarrow> nat" where
  "get_daily_count now logs = length (filter (\<lambda>l. utc_day (hl_created l) = utc_day now \<and> nudge l) logs)"

definition get_recent_logs :: "int \<Rightarrow> heartbeat_log list \<Rightarrow> heartbeat_log list" where
  "get_recent_logs since logs = sort_key hl_created (filter (\<lambda>l. since \<le> hl_created l) logs)"

text \<open>The history shown to the decision model: consecutive skips are one line.\<close>

definition ago :: "int \<Rightarrow> int \<Rightarrow> string" where
  "ago now t =
     (let days = (now - t) div day_length
      in if days = 0 then ''today'' else if days = 1 then ''1 day ago'' else int_str days @ '' days ago'')"

definition stamp_ago :: "(int \<Rightarrow> string) \<Rightarrow> int \<Rightarrow> heartbeat_log \<Rightarrow> string" where
  "stamp_ago stamp now l = stamp (hl_created l) @ '' ('' @ ago now (hl_created l) @ '')''"

definition skip_line :: "(int \<Rightarrow> string) \<Rightarrow> int \<Rightarrow> heartbeat_log list \<Rightarrow> string list" where
  "skip_line stamp now skips =
     (case skips of
        [] \<Rightarrow> []
      | [l] \<Rightarrow> [''- '' @ stamp_ago stamp now l @ '' [skipped]'']
      | l # ls \<Rightarrow> [''- '' @ stamp (hl_created l) @ '' to '' @ stamp_ago stamp now (last ls)
                     @ '' ['' @ nat_str (length skips) @ '' checks, no action taken]''])"

definition action_line :: "(int \<Rightarrow> string) \<Rightarrow> int \<Rightarrow> heartbeat_log \<Rightarrow> string" where
  "action_line stamp now l =
     ''- '' @ stamp_ago stamp now l
     @ (if hl_tasks l \<noteq> []
        then '' | tasks: '' @ [CHR 0x22] @ take 120 (hl_tasks l) @ (if 120 < length (hl_tasks l) then ''...'' else []) @ [CHR 0x22]
        else [])"

fun history_lines :: "(int \<Rightarrow> string) \<Rightarrow> int \<Rightarrow> heartbeat_log list \<Rightarrow> heartbeat_log list \<Rightarrow> string list" where
  "history_lines stamp now skips [] = skip_line stamp now skips"
| "history_lines stamp now skips (l # ls) =
     (if hl_action l = ''skip'' then history_lines stamp now (skips @ [l]) ls
      else skip_line stamp now skips @ [action_line stamp now l] @ history_lines stamp now [] ls)"

definition history_lookback_days :: nat where
  "history_lookback_days = 7"

definition format_heartbeat_history :: "(int \<Rightarrow> string) \<Rightarrow> int \<Rightarrow> heartbeat_log list \<Rightarrow> string" where
  "format_heartbeat_history stamp now logs =
     (if logs = [] then ''You have not sent any heartbeat messages to this user in the last '' @ nat_str history_lookback_days @ '' days.''
      else ''Your recent heartbeat messages to this user (last '' @ nat_str history_lookback_days @ '' days):'' @ [nl]
           @ py_join [nl] (history_lines stamp now [] logs))"

section \<open>Phase one\<close>

record heartbeat_decision =
  dc_action :: string
  dc_tasks :: string
  dc_reasoning :: string
  dc_input :: nat
  dc_output :: nat

definition skip_decision :: "string \<Rightarrow> heartbeat_decision" where
  "skip_decision reasoning = \<lparr>dc_action = ''skip'', dc_tasks = [], dc_reasoning = reasoning, dc_input = 0, dc_output = 0\<rparr>"

definition decision_params :: "json_dict \<Rightarrow> heartbeat_decision option" where
  "decision_params d =
     (case (map_of d ''action'', map_of d ''reasoning'') of
        (Some (JStr a), Some (JStr r)) \<Rightarrow>
          if a = ''skip'' \<or> a = ''run''
          then (case map_of d ''tasks'' of
                  None \<Rightarrow> Some \<lparr>dc_action = a, dc_tasks = [], dc_reasoning = r, dc_input = 0, dc_output = 0\<rparr>
                | Some (JStr t) \<Rightarrow> Some \<lparr>dc_action = a, dc_tasks = t, dc_reasoning = r, dc_input = 0, dc_output = 0\<rparr>
                | Some x \<Rightarrow> None)
          else None
      | x \<Rightarrow> None)"

definition parse_decision_response :: "llm_response \<Rightarrow> heartbeat_decision" where
  "parse_decision_response r =
     (if rsp_stop_reason r = Some ''max_tokens'' then skip_decision ''Decision truncated by max_tokens''
      else case parse_tool_calls r of
             [] \<Rightarrow> skip_decision (''LLM did not call tool: '' @ take 100 (get_response_text r))
           | tc # rest \<Rightarrow>
               if pc_name tc \<noteq> ''heartbeat_decision'' then skip_decision ''LLM called unexpected tool''
               else case pc_arguments tc of
                      None \<Rightarrow> skip_decision ''Malformed tool arguments''
                    | Some d \<Rightarrow>
                        (case decision_params d of
                           None \<Rightarrow> skip_decision ''Tool arguments failed validation'' | Some p \<Rightarrow> p))"

datatype heartbeat_error = HbLlm llm_error | HbRuntime | HbStore | HbLog

text \<open>\<open>n\<close> attempts are left; \<open>i\<close> is the number of the next one.\<close>

fun decision_call :: "(nat \<Rightarrow> llm_outcome) \<Rightarrow> nat \<Rightarrow> nat \<Rightarrow> heartbeat_error + llm_response" where
  "decision_call llm i 0 = Inl HbRuntime"
| "decision_call llm i (Suc n) =
     (case llm i of
        Responded r \<Rightarrow> Inr r
      | Raised e \<Rightarrow> if e = RateLimitError \<and> n \<noteq> 0 then decision_call llm (Suc i) n else Inl (HbLlm e))"

definition count_usage :: "llm_response \<Rightarrow> heartbeat_decision \<Rightarrow> heartbeat_decision" where
  "count_usage r d =
     (case rsp_usage r of
        None \<Rightarrow> d
      | Some us \<Rightarrow> d\<lparr>dc_input := us_input us, dc_output := (case us_output us of Some n \<Rightarrow> n | None \<Rightarrow> 0)\<rparr>)"

section \<open>The world of a run\<close>

datatype heartbeat_event = Typing_start | Typing_stop | Delivered string

record heartbeat_state =
  hb_notes :: string
  hb_events :: "heartbeat_event list"
  hb_logs :: "heartbeat_log list"
  hb_store :: store
  hb_usage :: "(nat \<times> nat \<times> bool) list"

record heartbeat_env =
  he_settings :: heartbeat_settings
  he_now :: int
  he_stamp :: "int \<Rightarrow> string"
  he_session :: string  \<comment> \<open>the id a new session would get\<close>
  he_query_ok :: bool
  he_llm :: "string \<Rightarrow> string \<Rightarrow> nat \<Rightarrow> llm_outcome"
  he_agent :: "string \<Rightarrow> turn_error + agent_response"
  he_agent_sends :: "string \<Rightarrow> string list"
  he_agent_notes :: "string \<Rightarrow> string \<Rightarrow> string"
  he_agent_store :: "string \<Rightarrow> store \<Rightarrow> store"
  he_publish_ok :: bool
  he_persist_ok :: bool
  he_log_ok :: bool

text \<open>\<open>HEARTBEAT.md\<close> and its two tools.\<close>

definition get_heartbeat :: "heartbeat_state \<Rightarrow> string" where
  "get_heartbeat st = (if hb_notes st = [] then ''No heartbeat notes set.'' else hb_notes st)"

definition write_notes :: "string \<Rightarrow> heartbeat_state \<Rightarrow> budget_exceeded + heartbeat_state" where
  "write_notes notes st =
     (case assert_within_budget ''HEARTBEAT.md'' notes of Inl e \<Rightarrow> Inl e | Inr x \<Rightarrow> Inr (st\<lparr>hb_notes := notes\<rparr>))"

definition update_heartbeat :: "string \<Rightarrow> heartbeat_state \<Rightarrow> (budget_exceeded + string) \<times> heartbeat_state" where
  "update_heartbeat notes st =
     (case write_notes notes st of
        Inl e \<Rightarrow> (Inl e, st)
      | Inr st' \<Rightarrow>
          (Inr (if hb_notes st \<noteq> []
                then ''Heartbeat notes updated.'' @ [nl, nl] @ ''Previous content:'' @ [nl] @ hb_notes st
                else ''Heartbeat notes updated (was empty).''), st'))"

definition latest_inbound :: "store \<Rightarrow> int option" where
  "latest_inbound st =
     (case concat (map (\<lambda>m. case (sm_direction m, sm_timestamp m) of (INBOUND, Some t) \<Rightarrow> [t] | x \<Rightarrow> []) (rows_of st)) of
        [] \<Rightarrow> None | ts \<Rightarrow> Some (Max (set ts)))"

definition user_messaged_within :: "bool \<Rightarrow> int \<Rightarrow> nat \<Rightarrow> store \<Rightarrow> bool" where
  "user_messaged_within query_ok now n st =
     (query_ok \<and> (case latest_inbound st of Some t \<Rightarrow> now - minutes n \<le> t | None \<Rightarrow> False))"

definition publish :: "string \<Rightarrow> string \<Rightarrow> heartbeat_event \<Rightarrow> heartbeat_state \<Rightarrow> heartbeat_state" where
  "publish channel chat_id e st = (if channel = [] \<or> chat_id = [] then st else st\<lparr>hb_events := hb_events st @ [e]\<rparr>)"

definition log_heartbeat ::
  "heartbeat_env \<Rightarrow> string \<Rightarrow> string \<Rightarrow> string \<Rightarrow> string \<Rightarrow> string \<Rightarrow> heartbeat_state \<Rightarrow> heartbeat_error + heartbeat_state" where
  "log_heartbeat env action message channel reasoning tasks st =
     (if he_log_ok env
      then Inr (st\<lparr>hb_logs := hb_logs st @ [\<lparr>hl_action = action, hl_message = message, hl_channel = channel,
             hl_reasoning = reasoning, hl_tasks = tasks, hl_created = he_now env\<rparr>]\<rparr>)
      else Inl HbLog)"

definition evaluate_heartbeat_need ::
  "heartbeat_env \<Rightarrow> heartbeat_user \<Rightarrow> string \<Rightarrow> string \<Rightarrow> heartbeat_state \<Rightarrow> (heartbeat_error + heartbeat_decision) \<times> heartbeat_state" where
  "evaluate_heartbeat_need env u channel chat_id st =
     (let history = format_heartbeat_history (he_stamp env) (he_now env)
             (get_recent_logs (he_now env - int history_lookback_days * day_length) (hb_logs st));
          st1 = publish channel chat_id Typing_start st
      in (and_then (decision_call (he_llm env (hb_notes st) history) 0 (hs_max_retries (he_settings env)))
            (\<lambda>r. Inr (count_usage r (parse_decision_response r))), st1))"

definition execute_heartbeat_tasks :: "heartbeat_env \<Rightarrow> string \<Rightarrow> heartbeat_state \<Rightarrow> agent_response option \<times> heartbeat_state" where
  "execute_heartbeat_tasks env tasks st =
     ((case he_agent env tasks of Inl e \<Rightarrow> None | Inr r \<Rightarrow> if ar_is_error_fallback r then None else Some r),
      st\<lparr>hb_notes := he_agent_notes env tasks (hb_notes st), hb_store := he_agent_store env tasks (hb_store st),
           hb_events := hb_events st @ map Delivered (he_agent_sends env tasks)\<rparr>)"

section \<open>One run\<close>

record heartbeat_action =
  ha_type :: string
  ha_message :: string
  ha_reasoning :: string
  ha_priority :: nat

definition no_action :: "string \<Rightarrow> heartbeat_action" where
  "no_action reasoning = \<lparr>ha_type = ''no_action'', ha_message = [], ha_reasoning = reasoning, ha_priority = 0\<rparr>"

definition send_action :: "string \<Rightarrow> string \<Rightarrow> heartbeat_action" where
  "send_action reply reasoning = \<lparr>ha_type = ''send_message'', ha_message = reply, ha_reasoning = reasoning, ha_priority = 3\<rparr>"

definition heartbeat_row :: "agent_response \<Rightarrow> stored_message" where
  "heartbeat_row r =
     \<lparr>sm_direction = OUTBOUND, sm_body = ar_reply_text r, sm_processed_context = [], sm_interactions = ar_tool_calls r,
      sm_llm_reply_text = ar_reply_text r, sm_timestamp = None, sm_seq = 0\<rparr>"

definition persist_heartbeat :: "heartbeat_env \<Rightarrow> agent_response \<Rightarrow> heartbeat_state \<Rightarrow> heartbeat_error + heartbeat_state" where
  "persist_heartbeat env r st =
     (let (st1, ss, new) = get_or_create_session (he_session env) (he_now env) (hb_store st)
      in if \<not> he_persist_ok env then Inl HbStore
         else case add_message ss (he_now env) [] (heartbeat_row r) st1 of
                Inl e \<Rightarrow> Inl HbStore
              | Inr (st2, ss', row) \<Rightarrow> Inr (st\<lparr>hb_store := st2\<rparr>))"

text \<open>What the body of the \<open>try\<close> leaves: its result, the tokens used, whether a reply was sent, the state.\<close>

record run_result =
  rr_result :: "heartbeat_error + heartbeat_action"
  rr_tokens :: "nat \<times> nat"
  rr_sent :: bool
  rr_state :: heartbeat_state

definition finish ::
  "heartbeat_error + heartbeat_state \<Rightarrow> heartbeat_action \<Rightarrow> nat \<times> nat \<Rightarrow> bool \<Rightarrow> heartbeat_state \<Rightarrow> run_result" where
  "finish result action tokens sent st =
     (case result of
        Inl e \<Rightarrow> \<lparr>rr_result = Inl e, rr_tokens = tokens, rr_sent = sent, rr_state = st\<rparr>
      | Inr st' \<Rightarrow> \<lparr>rr_result = Inr action, rr_tokens = tokens, rr_sent = sent, rr_state = st'\<rparr>)"

definition deliver_and_record ::
  "heartbeat_env \<Rightarrow> string \<Rightarrow> string \<Rightarrow> heartbeat_decision \<Rightarrow> agent_response \<Rightarrow> nat \<times> nat \<Rightarrow> heartbeat_state \<Rightarrow> run_result" where
  "deliver_and_record env channel chat_id d r tokens st =
     (let tool_sent = already_replied (ar_tool_calls r); reply = ar_reply_text r; action = send_action reply (dc_reasoning d)
      in if \<not> tool_sent \<and> \<not> he_publish_ok env
         then \<lparr>rr_result = Inr action, rr_tokens = tokens, rr_sent = False, rr_state = st\<rparr>
         else (let st1 = (if tool_sent then st else st\<lparr>hb_events := hb_events st @ [Delivered reply]\<rparr>)
               in case persist_heartbeat env r st1 of
                    Inl e \<Rightarrow> \<lparr>rr_result = Inl e, rr_tokens = tokens, rr_sent = True, rr_state = st1\<rparr>
                  | Inr st2 \<Rightarrow>
                      finish (log_heartbeat env ''send'' reply channel (dc_reasoning d) (dc_tasks d) st2) action tokens True st2))"

definition run_phases :: "heartbeat_env \<Rightarrow> heartbeat_user \<Rightarrow> string \<Rightarrow> string \<Rightarrow> heartbeat_state \<Rightarrow> run_result" where
  "run_phases env u channel chat_id st =
     (let (decided, st1) = evaluate_heartbeat_need env u channel chat_id st
      in case decided of
           Inl e \<Rightarrow> \<lparr>rr_result = Inl e, rr_tokens = (0, 0), rr_sent = False, rr_state = st1\<rparr>
         | Inr d \<Rightarrow>
             if dc_action d \<noteq> ''run'' \<or> dc_tasks d = []
             then finish (log_heartbeat env ''skip'' [] channel (dc_reasoning d) [] st1) (no_action (dc_reasoning d))
                    (dc_input d, dc_output d) False st1
             else (let (answer, st2) = execute_heartbeat_tasks env (dc_tasks d) st1;
                       silent = no_action ''Phase 2 agent produced no output''
                   in case answer of
                        None \<Rightarrow> \<lparr>rr_result = Inr silent, rr_tokens = (dc_input d, dc_output d), rr_sent = False, rr_state = st2\<rparr>
                      | Some r \<Rightarrow>
                          (let tokens = (dc_input d + ut_input (ar_totals r), dc_output d + ut_output (ar_totals r))
                           in if ar_reply_text r = [] \<and> \<not> already_replied (ar_tool_calls r)
                              then finish (log_heartbeat env ''cleanup'' [] channel (dc_reasoning d) (dc_tasks d) st2) silent tokens False st2
                              else deliver_and_record env channel chat_id d r tokens st2)))"

definition cleanup_run :: "string \<Rightarrow> string \<Rightarrow> run_result \<Rightarrow> heartbeat_state" where
  "cleanup_run channel chat_id rr =
     (let (i, out) = rr_tokens rr;
          st1 = (if i \<noteq> 0 \<or> out \<noteq> 0 then (rr_state rr)\<lparr>hb_usage := hb_usage (rr_state rr) @ [(i, out, rr_sent rr)]\<rparr> else rr_state rr)
      in if rr_sent rr then st1 else publish channel chat_id Typing_stop st1)"

definition heartbeat_gates :: "heartbeat_env \<Rightarrow> heartbeat_user \<Rightarrow> nat \<Rightarrow> heartbeat_state \<Rightarrow> bool" where
  "heartbeat_gates env u max_daily st \<longleftrightarrow>
     hu_onboarding_complete u \<and> hu_opt_in u \<and> get_daily_count (he_now env) (hb_logs st) < max_daily
     \<and> \<not> (0 < hs_quiet_period (he_settings env)
          \<and> user_messaged_within (he_query_ok env) (he_now env) (hs_quiet_period (he_settings env)) (hb_store st))
     \<and> \<not> in_quiet_hours (he_settings env) u (he_now env)
     \<and> has_actionable_heartbeat_content (hb_notes st)"

definition run_heartbeat_for_user ::
  "heartbeat_env \<Rightarrow> heartbeat_user \<Rightarrow> string \<Rightarrow> string \<Rightarrow> nat \<Rightarrow> heartbeat_state
     \<Rightarrow> (heartbeat_error + heartbeat_action option) \<times> heartbeat_state" where
  "run_heartbeat_for_user env u channel chat_id max_daily st =
     (if \<not> heartbeat_gates env u max_daily st then (Inr None, st)
      else (let rr = run_phases env u channel chat_id st
            in (case rr_result rr of Inl e \<Rightarrow> Inl e | Inr a \<Rightarrow> Inr (Some a), cleanup_run channel chat_id rr)))"

section \<open>Routes\<close>

definition pushable :: "string \<Rightarrow> channel_route \<Rightarrow> bool" where
  "pushable uid r \<longleftrightarrow> cr_user r = uid \<and> cr_enabled r \<and> cr_channel r \<noteq> ''webchat''"

definition resolve_heartbeat_route :: "(string \<Rightarrow> bool) \<Rightarrow> string \<Rightarrow> directory \<Rightarrow> db_error + (string \<times> channel_route) option" where
  "resolve_heartbeat_route registered uid dy =
     (case filter (pushable uid) (dy_routes dy) of
        [] \<Rightarrow> Inr None
      | [r] \<Rightarrow> Inr (if registered (cr_channel r) then Some (cr_channel r, r) else None)
      | rs \<Rightarrow> Inl Multiple_results_found)"

section \<open>The scheduler\<close>

text \<open>
  One pass. The users of a pass run concurrently; a run touches the state of its own user only, so
  each user has a state of its own and the order does not matter. \<open>now\<close> is read once per pass; the
  clock of each run, and everything else it meets, is in its environment.
\<close>

type_synonym user_states = "(heartbeat_user \<times> heartbeat_state) list"

definition process_one ::
  "heartbeat_env \<Rightarrow> (string \<Rightarrow> bool) \<Rightarrow> directory \<Rightarrow> int \<Rightarrow> heartbeat_user \<Rightarrow> heartbeat_state \<Rightarrow> bool \<times> heartbeat_state" where
  "process_one env registered dy now u st =
     (case resolve_heartbeat_route registered (hu_id u) dy of
        Inr (Some (channel, r)) \<Rightarrow>
          (case run_heartbeat_for_user env u channel (cr_identifier r) (effective_max_daily (he_settings env) u) st of
             (Inl e, st') \<Rightarrow> (False, st') | (Inr a, st') \<Rightarrow> (True, st'))
      | x \<Rightarrow> (False, st))"

definition tick_user ::
  "(string \<Rightarrow> heartbeat_env) \<Rightarrow> (string \<Rightarrow> bool) \<Rightarrow> directory \<Rightarrow> int \<Rightarrow> (string \<rightharpoonup> int) \<Rightarrow> heartbeat_user \<Rightarrow> heartbeat_state
     \<Rightarrow> bool \<times> heartbeat_state" where
  "tick_user envs registered dy now last_tick u st =
     (if hu_onboarding_complete u \<and> hu_is_active u \<and> is_user_due (he_settings (envs (hu_id u))) u now last_tick
      then process_one (envs (hu_id u)) registered dy now u st else (False, st))"

definition tick ::
  "(string \<Rightarrow> heartbeat_env) \<Rightarrow> (string \<Rightarrow> bool) \<Rightarrow> directory \<Rightarrow> int \<Rightarrow> (string \<rightharpoonup> int) \<times> user_states \<Rightarrow> (string \<rightharpoonup> int) \<times> user_states" where
  "tick envs registered dy now s =
     (let (last_tick, users) = s;
          results = map (\<lambda>(u, st). (u, tick_user envs registered dy now last_tick u st)) users
      in (\<lambda>uid. if \<exists>(u, ok, st) \<in> set results. hu_id u = uid \<and> ok then Some now else last_tick uid,
          map (\<lambda>(u, ok, st). (u, st)) results))"

text \<open>A history of passes.\<close>

record tick_input =
  ti_envs :: "string \<Rightarrow> heartbeat_env"
  ti_registered :: "string \<Rightarrow> bool"
  ti_directory :: directory
  ti_now :: int

definition ticks :: "tick_input list \<Rightarrow> (string \<rightharpoonup> int) \<times> user_states \<Rightarrow> (string \<rightharpoonup> int) \<times> user_states" where
  "ticks tis s = fold (\<lambda>ti. tick (ti_envs ti) (ti_registered ti) (ti_directory ti) (ti_now ti)) tis s"

section \<open>What a run does to its user\<close>

lemma log_heartbeat_Inr:
  "log_heartbeat env action message channel reasoning tasks st = Inr st' \<longleftrightarrow> he_log_ok env
     \<and> st' = st\<lparr>hb_logs := hb_logs st @ [\<lparr>hl_action = action, hl_message = message, hl_channel = channel,
             hl_reasoning = reasoning, hl_tasks = tasks, hl_created = he_now env\<rparr>]\<rparr>"
  by (auto simp: log_heartbeat_def)

lemma publish_fields [simp]:
  "hb_logs (publish c a e st) = hb_logs st" "hb_store (publish c a e st) = hb_store st" "hb_usage (publish c a e st) = hb_usage st"
  "hb_notes (publish c a e st) = hb_notes st"
  by (simp_all add: publish_def)

text \<open>At most one row is logged, of one of three shapes.\<close>

definition well_typed_log :: "heartbeat_log \<Rightarrow> bool" where
  "well_typed_log l \<longleftrightarrow>
     (if hl_action l = ''send'' then hl_tasks l \<noteq> []
      else if hl_action l = ''cleanup'' then hl_tasks l \<noteq> [] \<and> hl_message l = []
      else hl_action l = ''skip'' \<and> hl_tasks l = [] \<and> hl_message l = [])"

definition one_log :: "heartbeat_env \<Rightarrow> heartbeat_state \<Rightarrow> heartbeat_state \<Rightarrow> bool" where
  "one_log env st st' \<longleftrightarrow> hb_logs st' = hb_logs st \<or> (\<exists>l. hb_logs st' = hb_logs st @ [l] \<and> well_typed_log l \<and> hl_created l = he_now env)"

lemma one_log_refl [simp]: "one_log env st st"
  by (simp add: one_log_def)

lemma finish_log:
  "hb_logs st = hb_logs st0 \<Longrightarrow> well_typed_log \<lparr>hl_action = action, hl_message = message, hl_channel = channel,
       hl_reasoning = reasoning, hl_tasks = tasks, hl_created = he_now env\<rparr>
   \<Longrightarrow> one_log env st0 (rr_state (finish (log_heartbeat env action message channel reasoning tasks st) a t b st))"
  by (simp add: finish_def log_heartbeat_def one_log_def)

lemma persist_logs: "persist_heartbeat env r st = Inr st' \<Longrightarrow> hb_logs st' = hb_logs st \<and> hb_events st' = hb_events st"
  by (auto simp: persist_heartbeat_def Let_def split: prod.splits if_splits sum.splits)

lemma deliver_logs:
  assumes "dc_tasks d \<noteq> []"
  shows "one_log env st (rr_state (deliver_and_record env channel chat_id d r tokens st))"
proof -
  define st1 where "st1 = (if already_replied (ar_tool_calls r) then st else st\<lparr>hb_events := hb_events st @ [Delivered (ar_reply_text r)]\<rparr>)"
  have l: "hb_logs st1 = hb_logs st" by (simp add: st1_def)
  show ?thesis
  proof (cases "\<not> already_replied (ar_tool_calls r) \<and> \<not> he_publish_ok env")
    case True
    then show ?thesis by (simp add: deliver_and_record_def one_log_def)
  next
    case False
    show ?thesis
    proof (cases "persist_heartbeat env r st1")
      case (Inl e)
      then show ?thesis using False l by (simp add: deliver_and_record_def Let_def one_log_def flip: st1_def)
    next
      case (Inr st2)
      then have "one_log env st (rr_state (finish (log_heartbeat env ''send'' (ar_reply_text r) channel (dc_reasoning d) (dc_tasks d) st2)
          (send_action (ar_reply_text r) (dc_reasoning d)) tokens True st2))"
        using assms l persist_logs [OF Inr] by (intro finish_log) (simp_all add: well_typed_log_def)
      then show ?thesis using False Inr by (simp add: deliver_and_record_def Let_def flip: st1_def)
    qed
  qed
qed

lemma run_phases_logs: "one_log env st (rr_state (run_phases env u channel chat_id st))"
proof -
  obtain decided st1 where e: "evaluate_heartbeat_need env u channel chat_id st = (decided, st1)" by fastforce
  have l1: "hb_logs st1 = hb_logs st" using e by (auto simp: evaluate_heartbeat_need_def Let_def)
  show ?thesis
  proof (cases decided)
    case (Inl x)
    then show ?thesis using e l1 by (simp add: run_phases_def one_log_def)
  next
    case (Inr d)
    show ?thesis
    proof (cases "dc_action d \<noteq> ''run'' \<or> dc_tasks d = []")
      case True
      have "well_typed_log \<lparr>hl_action = ''skip'', hl_message = [], hl_channel = channel, hl_reasoning = dc_reasoning d, hl_tasks = [],
          hl_created = he_now env\<rparr>" by (simp add: well_typed_log_def)
      then show ?thesis using e Inr True finish_log [OF l1] by (simp add: run_phases_def)
    next
      case False
      obtain answer st2 where x: "execute_heartbeat_tasks env (dc_tasks d) st1 = (answer, st2)" by fastforce
      have l2: "hb_logs st2 = hb_logs st" using x l1 by (auto simp: execute_heartbeat_tasks_def)
      show ?thesis
      proof (cases answer)
        case None
        then show ?thesis using e Inr False x l2 by (simp add: run_phases_def one_log_def)
      next
        case (Some r)
        have "well_typed_log \<lparr>hl_action = ''cleanup'', hl_message = [], hl_channel = channel, hl_reasoning = dc_reasoning d,
            hl_tasks = dc_tasks d, hl_created = he_now env\<rparr>" using False by (simp add: well_typed_log_def)
        note cleaned = finish_log [OF l2 this]
        have "one_log env st (rr_state (deliver_and_record env channel chat_id d r tokens st2))" for tokens
          using deliver_logs [of d env st2 channel chat_id r tokens] False l2 by (simp add: one_log_def)
        then show ?thesis using e Inr False x Some cleaned by (simp add: run_phases_def Let_def)
      qed
    qed
  qed
qed

lemma cleanup_run_logs [simp]: "hb_logs (cleanup_run channel chat_id rr) = hb_logs (rr_state rr)"
  by (simp add: cleanup_run_def case_prod_unfold Let_def)

lemma run_user_logs:
  assumes "run_heartbeat_for_user env u channel chat_id cap st = (res, st')"
  shows "one_log env st st'" and "hb_logs st' \<noteq> hb_logs st \<Longrightarrow> get_daily_count (he_now env) (hb_logs st) < cap"
  using assms run_phases_logs [of env st u channel chat_id]
  by (auto simp: run_heartbeat_for_user_def one_log_def heartbeat_gates_def Let_def split: if_splits)

lemma tick_user_logs:
  assumes "tick_user envs registered dy now last_tick u st = (ok, st')"
  shows "one_log (envs (hu_id u)) st st'"
    and "hb_logs st' \<noteq> hb_logs st \<Longrightarrow>
      get_daily_count (he_now (envs (hu_id u))) (hb_logs st) < effective_max_daily (he_settings (envs (hu_id u))) u"
  using assms run_user_logs
  by (fastforce simp: tick_user_def process_one_def one_log_def split: if_splits sum.splits option.splits prod.splits)+

text \<open>The users of a pass are independent.\<close>

lemma tick_users:
  "snd (tick envs registered dy now (last_tick, users)) =
     map (\<lambda>(u, st). (u, snd (tick_user envs registered dy now last_tick u st))) users"
  by (simp add: tick_def Let_def case_prod_unfold o_def)

text \<open>What every pass keeps for every user holds after any passes.\<close>

lemma ticks_invariant:
  assumes "\<And>ti lt u st. ti \<in> set tis \<Longrightarrow> I u st \<Longrightarrow>
      I u (snd (tick_user (ti_envs ti) (ti_registered ti) (ti_directory ti) (ti_now ti) lt u st))"
    and "list_all (\<lambda>(u, st). I u st) (snd s)"
  shows "list_all (\<lambda>(u, st). I u st) (snd (ticks tis s))"
  using assms
proof (induction tis arbitrary: s)
  case (Cons ti tis)
  obtain lt users where s: "s = (lt, users)" by fastforce
  have "list_all (\<lambda>(u, st). I u st) (snd (tick (ti_envs ti) (ti_registered ti) (ti_directory ti) (ti_now ti) s))"
    using Cons.prems unfolding s tick_users by (auto simp: list_all_iff)
  then show ?case using Cons.IH Cons.prems(1) by (simp add: ticks_def)
qed (simp add: ticks_def)

section \<open>What the log holds\<close>

text \<open>
  C29. Every row the engine writes has one of three types: a message with its task, a clean-up with
  its task and no message, or a skip with neither; whatever the two models answer and whatever fails,
  passes keep the whole log so.
\<close>

theorem heartbeat_logs_well_typed:
  assumes "list_all (\<lambda>(u, st). list_all well_typed_log (hb_logs st)) users"
  shows "list_all (\<lambda>(u, st). list_all well_typed_log (hb_logs st)) (snd (ticks tis (last_tick, users)))"
proof (rule ticks_invariant)
  show "list_all well_typed_log (hb_logs (snd (tick_user (ti_envs ti) (ti_registered ti) (ti_directory ti) (ti_now ti) lt u st)))"
    if "list_all well_typed_log (hb_logs st)" for ti :: tick_input and lt u st
    using that tick_user_logs(1) [of "ti_envs ti" "ti_registered ti" "ti_directory ti" "ti_now ti" lt u st]
    by (cases "tick_user (ti_envs ti) (ti_registered ti) (ti_directory ti) (ti_now ti) lt u st") (auto simp: one_log_def)
qed (use assms in simp)

section \<open>The daily cap\<close>

definition is_delivered :: "heartbeat_event \<Rightarrow> bool" where
  "is_delivered e = (case e of Delivered c \<Rightarrow> True | x \<Rightarrow> False)"

definition deliveries :: "heartbeat_state \<Rightarrow> nat" where
  "deliveries st = length (filter is_delivered (hb_events st))"

definition nudges :: "heartbeat_state \<Rightarrow> nat" where
  "nudges st = length (filter nudge (hb_logs st))"

lemma publish_deliveries [simp]:
  "deliveries (publish c a Typing_start st) = deliveries st" "deliveries (publish c a Typing_stop st) = deliveries st"
  "nudges (publish c a e st) = nudges st"
  by (simp_all add: publish_def deliveries_def is_delivered_def nudges_def)

lemma daily_count_append:
  "get_daily_count t (logs @ [l]) = get_daily_count t logs + (if utc_day (hl_created l) = utc_day t \<and> nudge l then 1 else 0)"
  by (simp add: get_daily_count_def)

lemma daily_count_day: "utc_day t = utc_day t' \<Longrightarrow> get_daily_count t logs = get_daily_count t' logs"
  by (simp add: get_daily_count_def)

lemma persist_returns_ok: "he_persist_ok env \<Longrightarrow> \<exists>st'. persist_heartbeat env r st = Inr st'"
  by (auto simp: persist_heartbeat_def get_or_create_session_def add_message_def find_session_def session_to_state_def
      Let_def case_prod_unfold split: option.splits)

definition reliable :: "heartbeat_env \<Rightarrow> bool" where
  "reliable env \<longleftrightarrow> he_persist_ok env \<and> he_log_ok env \<and> (\<forall>tasks. he_agent_sends env tasks = [])"

lemma finish_deliveries:
  "he_log_ok env \<Longrightarrow> deliveries (rr_state (finish (log_heartbeat env action message channel reasoning tasks st) a t b st)) = deliveries st
   \<and> nudges (rr_state (finish (log_heartbeat env action message channel reasoning tasks st) a t b st))
     = nudges st + (if action = ''skip'' \<or> action = ''cleanup'' then 0 else 1)"
  by (simp add: finish_def log_heartbeat_def deliveries_def nudges_def nudge_def)

lemma deliver_deliveries:
  assumes "reliable env"
  shows "deliveries (rr_state (deliver_and_record env channel chat_id d r tokens st)) + nudges st
    \<le> deliveries st + nudges (rr_state (deliver_and_record env channel chat_id d r tokens st))"
proof -
  define st1 where "st1 = (if already_replied (ar_tool_calls r) then st else st\<lparr>hb_events := hb_events st @ [Delivered (ar_reply_text r)]\<rparr>)"
  obtain st2 where st2: "persist_heartbeat env r st1 = Inr st2" using persist_returns_ok [of env r st1] assms by (auto simp: reliable_def)
  have "deliveries st2 \<le> Suc (deliveries st)" "nudges st2 = nudges st"
    using persist_logs [OF st2] by (simp_all add: st1_def deliveries_def nudges_def is_delivered_def)
  then show ?thesis
    using st2 assms finish_deliveries [of env "''send''" "ar_reply_text r" channel "dc_reasoning d" "dc_tasks d" st2
        "send_action (ar_reply_text r) (dc_reasoning d)" tokens True]
    by (auto simp: deliver_and_record_def Let_def reliable_def simp flip: st1_def)
qed

lemma run_phases_deliveries:
  assumes "reliable env"
  shows "deliveries (rr_state (run_phases env u channel chat_id st)) + nudges st
    \<le> deliveries st + nudges (rr_state (run_phases env u channel chat_id st))"
proof -
  obtain decided where e: "evaluate_heartbeat_need env u channel chat_id st = (decided, publish channel chat_id Typing_start st)"
    by (auto simp: evaluate_heartbeat_need_def Let_def)
  let ?st1 = "publish channel chat_id Typing_start st"
  define answer where "answer tasks = fst (execute_heartbeat_tasks env tasks ?st1)" for tasks
  define st2 where "st2 tasks = snd (execute_heartbeat_tasks env tasks ?st1)" for tasks
  have x: "execute_heartbeat_tasks env tasks ?st1 = (answer tasks, st2 tasks)" for tasks by (simp add: answer_def st2_def)
  have 2: "deliveries (st2 tasks) = deliveries st" "nudges (st2 tasks) = nudges st" for tasks
    using assms publish_deliveries(1) [of channel chat_id st] publish_deliveries(3) [of channel chat_id Typing_start st]
    by (simp_all add: st2_def execute_heartbeat_tasks_def reliable_def deliveries_def nudges_def)
  have 3: "deliveries (rr_state (deliver_and_record env channel chat_id d r tokens (st2 tasks))) + nudges st
    \<le> deliveries st + nudges (rr_state (deliver_and_record env channel chat_id d r tokens (st2 tasks)))" for d r tokens tasks
    using deliver_deliveries [OF assms, of channel chat_id d r tokens "st2 tasks"] 2 [of tasks] by simp
  have ok: "he_log_ok env" using assms by (simp add: reliable_def)
  show ?thesis
    using e 3 2 finish_deliveries [OF ok]
    by (cases decided) (auto simp: run_phases_def x Let_def split: option.splits)
qed

lemma cleanup_deliveries [simp]:
  "deliveries (cleanup_run channel chat_id rr) = deliveries (rr_state rr)" "nudges (cleanup_run channel chat_id rr) = nudges (rr_state rr)"
  by (auto simp: cleanup_run_def case_prod_unfold Let_def deliveries_def nudges_def publish_def is_delivered_def)

lemma tick_user_deliveries:
  assumes "reliable (envs (hu_id u))" and "deliveries st \<le> nudges st"
  shows "deliveries (snd (tick_user envs registered dy now lt u st)) \<le> nudges (snd (tick_user envs registered dy now lt u st))"
proof -
  have "deliveries (snd (run_heartbeat_for_user (envs (hu_id u)) u c a cap st)) \<le> nudges (snd (run_heartbeat_for_user (envs (hu_id u)) u c a cap st))"
    for c a cap
    using run_phases_deliveries [OF assms(1), of u c a st] assms(2) by (simp add: run_heartbeat_for_user_def Let_def)
  then show ?thesis using assms(2)
    by (auto simp: tick_user_def process_one_def split: sum.splits option.splits prod.splits) (metis snd_conv)+
qed

lemma tick_user_cap:
  assumes "he_settings (envs (hu_id u)) = s" and "\<forall>t. get_daily_count t (hb_logs st) \<le> effective_max_daily s u"
  shows "\<forall>t. get_daily_count t (hb_logs (snd (tick_user envs registered dy now lt u st))) \<le> effective_max_daily s u"
proof -
  obtain ok st' where r: "tick_user envs registered dy now lt u st = (ok, st')" by fastforce
  show ?thesis
  proof (cases "hb_logs st' = hb_logs st")
    case False
    then obtain l where l: "hb_logs st' = hb_logs st @ [l]" "hl_created l = he_now (envs (hu_id u))"
      using tick_user_logs(1) [OF r] by (auto simp: one_log_def)
    have "get_daily_count (he_now (envs (hu_id u))) (hb_logs st) < effective_max_daily s u"
      using tick_user_logs(2) [OF r False] assms(1) by simp
    then have "get_daily_count t (hb_logs st @ [l]) \<le> effective_max_daily s u" for t
      using assms(2) l(2) daily_count_day [of t "he_now (envs (hu_id u))" "hb_logs st"] by (auto simp: daily_count_append)
    then show ?thesis using r l by simp
  qed (use r assms in simp)
qed


section \<open>The typing indicator\<close>

definition agent_reports_sends :: "heartbeat_env \<Rightarrow> bool" where
  "agent_reports_sends env \<longleftrightarrow>
     (\<forall>tasks r. he_agent env tasks = Inr r \<and> already_replied (ar_tool_calls r) \<longrightarrow> he_agent_sends env tasks \<noteq> [])"

lemma finish_events:
  "hb_events (rr_state (finish (log_heartbeat env action message channel reasoning tasks st) a t b st)) = hb_events st
   \<and> rr_sent (finish (log_heartbeat env action message channel reasoning tasks st) a t b st) = b"
  by (simp add: finish_def log_heartbeat_def)

lemma deliver_events:
  "if rr_sent (deliver_and_record env channel chat_id d r tokens st)
   then hb_events (rr_state (deliver_and_record env channel chat_id d r tokens st))
     = hb_events st @ (if already_replied (ar_tool_calls r) then [] else [Delivered (ar_reply_text r)])
   else hb_events (rr_state (deliver_and_record env channel chat_id d r tokens st)) = hb_events st"
proof -
  define st1 where "st1 = (if already_replied (ar_tool_calls r) then st else st\<lparr>hb_events := hb_events st @ [Delivered (ar_reply_text r)]\<rparr>)"
  have e1: "hb_events st1 = hb_events st @ (if already_replied (ar_tool_calls r) then [] else [Delivered (ar_reply_text r)])"
    by (simp add: st1_def)
  show ?thesis
  proof (cases "\<not> already_replied (ar_tool_calls r) \<and> \<not> he_publish_ok env")
    case True
    then show ?thesis by (simp add: deliver_and_record_def)
  next
    case False
    show ?thesis
    proof (cases "persist_heartbeat env r st1")
      case (Inl e)
      have "rr_sent (deliver_and_record env channel chat_id d r tokens st)"
           "rr_state (deliver_and_record env channel chat_id d r tokens st) = st1"
        using False Inl by (auto simp: deliver_and_record_def Let_def simp flip: st1_def)
      then show ?thesis using e1 by simp
    next
      case (Inr st2)
      have "deliver_and_record env channel chat_id d r tokens st = finish (log_heartbeat env ''send'' (ar_reply_text r) channel
         (dc_reasoning d) (dc_tasks d) st2) (send_action (ar_reply_text r) (dc_reasoning d)) tokens True st2"
        using False Inr by (auto simp: deliver_and_record_def Let_def simp flip: st1_def)
      then show ?thesis using e1 persist_logs [OF Inr] finish_events by simp
    qed
  qed
qed


section \<open>When a user is disturbed\<close>

lemma tick_user_active:
  assumes "tick_user envs registered dy now lt u st = (ok, st')" and "st' \<noteq> st \<or> ok"
  shows "hu_onboarding_complete u \<and> hu_is_active u \<and> is_user_due (he_settings (envs (hu_id u))) u now lt
    \<and> (\<exists>r. filter (pushable (hu_id u)) (dy_routes dy) = [r] \<and> registered (cr_channel r))"
  using assms by (auto simp: tick_user_def process_one_def resolve_heartbeat_route_def
      split: if_splits sum.splits option.splits prod.splits list.splits)

text \<open>
  C21. A heartbeat changes nothing for a user, and shows them nothing, unless they finished onboarding,
  are active, opted in, and due; have exactly one enabled route that can be pushed to; are below the
  daily cap, outside their quiet hours and silent for the quiet period; and have notes to act on.
\<close>

theorem heartbeats_only_when_welcome:
  assumes "tick_user envs registered dy now lt u st = (ok, st')" and "st' \<noteq> st" and "env = envs (hu_id u)"
  shows "hu_onboarding_complete u \<and> hu_is_active u \<and> hu_opt_in u \<and> is_user_due (he_settings env) u now lt
    \<and> (\<exists>r. filter (pushable (hu_id u)) (dy_routes dy) = [r] \<and> registered (cr_channel r) \<and> cr_channel r \<noteq> ''webchat'')
    \<and> get_daily_count (he_now env) (hb_logs st) < effective_max_daily (he_settings env) u
    \<and> \<not> in_quiet_hours (he_settings env) u (he_now env) \<and> has_actionable_heartbeat_content (hb_notes st)
    \<and> (0 < hs_quiet_period (he_settings env) \<and> he_query_ok env
        \<longrightarrow> (\<forall>t. latest_inbound (hb_store st) = Some t \<longrightarrow> t < he_now env - minutes (hs_quiet_period (he_settings env))))"
proof -
  obtain r where r: "hu_onboarding_complete u" "hu_is_active u" "is_user_due (he_settings env) u now lt"
      "filter (pushable (hu_id u)) (dy_routes dy) = [r]" "registered (cr_channel r)"
    using tick_user_active [OF assms(1)] assms(2,3) by blast
  have web: "cr_channel r \<noteq> ''webchat''" using r(4) by (metis Cons_eq_filterD pushable_def)
  have "st' = snd (run_heartbeat_for_user env u (cr_channel r) (cr_identifier r) (effective_max_daily (he_settings env) u) st)"
    using assms(1,3) r by (auto simp: tick_user_def process_one_def resolve_heartbeat_route_def split: sum.splits prod.splits)
  then have "heartbeat_gates env u (effective_max_daily (he_settings env) u) st"
    using assms(2) by (auto simp: run_heartbeat_for_user_def split: if_splits)
  then show ?thesis using r web by (auto simp: heartbeat_gates_def user_messaged_within_def)
qed


section \<open>Where the engine does not do what it means to\<close>

text \<open>Only minutes are clamped: an interval of zero hours makes the user due at every pass.\<close>

lemma zero_hours_always_due:
  assumes "hu_frequency u = ''0h''" and "\<And>t. last_tick (hu_id u) = Some t \<Longrightarrow> t \<le> now"
  shows "is_user_due s u now last_tick"
  using assms by (cases "last_tick (hu_id u)")
    (simp_all add: is_user_due_def user_interval_minutes_def parse_frequency_to_minutes_def py_lower_def py_strip_def
      py_lstrip_def py_rstrip_def is_space_def lower_char_def ascii_digit_def named_frequencies_def minutes_def digits_value.simps Let_def)

lemma weekdays_is_daily: "parse_frequency_to_minutes ''weekdays'' = parse_frequency_to_minutes ''daily''"
  by (simp add: parse_frequency_to_minutes_def py_lower_def py_strip_def py_lstrip_def py_rstrip_def is_space_def lower_char_def
      named_frequencies_def Let_def)

text \<open>
  A message that went out but could not be stored is not logged: the cap does not count it, and the
  user stays due, so the next pass may send it again.
\<close>

lemma unstored_message_not_counted:
  assumes "evaluate_heartbeat_need env u channel chat_id st = (Inr d, st1)" and "dc_action d = ''run''" and "dc_tasks d \<noteq> []"
    and "he_agent env (dc_tasks d) = Inr r" and "\<not> ar_is_error_fallback r" and "ar_reply_text r \<noteq> []"
    and "\<not> already_replied (ar_tool_calls r)" and "he_publish_ok env" and "\<not> he_persist_ok env"
    and "heartbeat_gates env u cap st"
  shows "\<exists>st'. run_heartbeat_for_user env u channel chat_id cap st = (Inl HbStore, st')
    \<and> Delivered (ar_reply_text r) \<in> set (hb_events st') \<and> hb_logs st' = hb_logs st"
proof -
  have l: "hb_logs st1 = hb_logs st" using assms(1) by (auto simp: evaluate_heartbeat_need_def Let_def)
  then show ?thesis using assms
    by (auto simp: run_heartbeat_for_user_def run_phases_def execute_heartbeat_tasks_def deliver_and_record_def persist_heartbeat_def
        cleanup_run_def Let_def case_prod_unfold)
qed

text \<open>
  A file a tool already delivered is forgotten when the agent fails afterwards: nothing is logged, the
  user is told nothing more, and the stop of the indicator follows the file.
\<close>

lemma failed_agent_hides_sent_file:
  assumes "evaluate_heartbeat_need env u channel chat_id st = (Inr d, st1)" and "dc_action d = ''run''" and "dc_tasks d \<noteq> []"
    and "he_agent env (dc_tasks d) = Inl e" and "f \<in> set (he_agent_sends env (dc_tasks d))" and "heartbeat_gates env u cap st"
  shows "\<exists>st'. run_heartbeat_for_user env u channel chat_id cap st = (Inr (Some (no_action ''Phase 2 agent produced no output'')), st')
    \<and> Delivered f \<in> set (hb_events st') \<and> hb_logs st' = hb_logs st"
proof -
  have l: "hb_logs st1 = hb_logs st" using assms(1) by (auto simp: evaluate_heartbeat_need_def Let_def)
  then show ?thesis using assms
    by (auto simp: run_heartbeat_for_user_def run_phases_def execute_heartbeat_tasks_def cleanup_run_def publish_def Let_def case_prod_unfold)
qed

text \<open>
  Linking a second channel stops the heartbeats: the sole user of a deployment, enabled on one channel,
  writes on another, which adds an enabled route; from then on the route query of every pass raises.
\<close>

lemma second_channel_stops_heartbeats:
  assumes "link_sole_user env channel sender a dy = Inr (a', dy')" and "r \<in> set (dy_routes dy)" and "pushable (ac_id a) r"
    and "cr_channel r \<noteq> channel" and "channel \<noteq> ''webchat''"
  shows "resolve_heartbeat_route registered (ac_id a) dy' = Inl Multiple_results_found"
proof -
  let ?new = "\<lparr>cr_user = ac_id a, cr_channel = channel, cr_identifier = sender, cr_enabled = True, cr_last_inbound = Some (de_now env)\<rparr>"
  have routes: "dy_routes dy' = map (\<lambda>r. if cr_user r = ac_id a \<and> cr_channel r = channel \<and> cr_identifier r = sender
          then r\<lparr>cr_last_inbound := Some (de_now env)\<rparr> else r)
        (filter (\<lambda>r. \<not> stale_route (ac_id a) channel sender r) (dy_routes dy)) @ [?new]"
    using assms(1) by (auto simp: link_sole_user_def and_then_Inr add_route_def drop_stale_routes_def stamp_route_def set_account_def
        Let_def split: if_splits)
  let ?stamp = "\<lambda>r. if cr_user r = ac_id a \<and> cr_channel r = channel \<and> cr_identifier r = sender
          then r\<lparr>cr_last_inbound := Some (de_now env)\<rparr> else r"
  have "r \<in> set (filter (\<lambda>r. \<not> stale_route (ac_id a) channel sender r) (dy_routes dy))" using assms(2,4) by (simp add: stale_route_def)
  then have "?stamp r \<in> set (map ?stamp (filter (\<lambda>r. \<not> stale_route (ac_id a) channel sender r) (dy_routes dy)))"
    unfolding set_map by (rule imageI)
  then have "r \<in> set (map ?stamp (filter (\<lambda>r. \<not> stale_route (ac_id a) channel sender r) (dy_routes dy)))"
    using assms(4) by simp
  then have "r \<in> set (dy_routes dy')" unfolding routes set_append by blast
  then have two: "r \<in> set (filter (pushable (ac_id a)) (dy_routes dy'))" "?new \<in> set (filter (pushable (ac_id a)) (dy_routes dy'))"
    using assms(3,5) unfolding routes by (simp_all add: pushable_def)
  have "r \<noteq> ?new" using assms(4) by auto
  with two obtain x y zs where "filter (pushable (ac_id a)) (dy_routes dy') = x # y # zs"
    by (cases "filter (pushable (ac_id a)) (dy_routes dy')" rule: remdups_adj.cases) auto
  then show ?thesis by (simp add: resolve_heartbeat_route_def)
qed

section \<open>A concrete day\<close>

definition day_env :: heartbeat_env where
  "day_env =
     \<lparr>he_settings = \<lparr>hs_interval_minutes = 30, hs_max_daily = 2, hs_quiet_period = 0, hs_quiet_start = 21, hs_quiet_end = 7, hs_max_retries = 1\<rparr>,
      he_now = 5, he_stamp = (\<lambda>t. []), he_session = ''s'', he_query_ok = True,
      he_llm = (\<lambda>notes history i. Responded \<lparr>rsp_content = [RToolUse (Some ''c'') (Some ''heartbeat_decision'')
                  (Some [(''action'', JStr ''run''), (''tasks'', JStr ''call''), (''reasoning'', JStr ''due'')])],
                  rsp_stop_reason = None, rsp_usage = None\<rparr>),
      he_agent = (\<lambda>tasks. Inr \<lparr>ar_reply_text = ''Hi'', ar_actions_taken = [], ar_tool_calls = [], ar_is_error_fallback = False,
                  ar_totals = \<lparr>ut_input = 0, ut_output = 0, ut_cache_creation = 0, ut_cache_read = 0\<rparr>, ar_system_prompt = [],
                  ar_thinking_text = []\<rparr>),
      he_agent_sends = (\<lambda>tasks. []), he_agent_notes = (\<lambda>tasks notes. notes), he_agent_store = (\<lambda>tasks st. st),
      he_publish_ok = True, he_persist_ok = True, he_log_ok = True\<rparr>"

definition day_user :: heartbeat_user where
  "day_user = \<lparr>hu_id = ''u'', hu_onboarding_complete = True, hu_is_active = True, hu_opt_in = True, hu_frequency = ''1d'',
     hu_max_daily = 1, hu_local_hour = Some (\<lambda>t. 9)\<rparr>"

definition day_state :: heartbeat_state where
  "day_state = \<lparr>hb_notes = ''- call'', hb_events = [], hb_logs = [], hb_store = empty_store, hb_usage = []\<rparr>"

definition day_tick :: "int \<Rightarrow> tick_input" where
  "day_tick now =
     \<lparr>ti_envs = (\<lambda>uid. day_env\<lparr>he_now := now\<rparr>), ti_registered = (\<lambda>c. True),
      ti_directory = \<lparr>dy_accounts = [], dy_routes = [\<lparr>cr_user = ''u'', cr_channel = ''sms'', cr_identifier = ''1'', cr_enabled = True,
        cr_last_inbound = None\<rparr>]\<rparr>, ti_now = now\<rparr>"

lemma day_gates: "heartbeat_gates (day_env\<lparr>he_now := now\<rparr>) day_user (Suc 0) day_state"
  by (simp add: heartbeat_gates_def day_env_def day_user_def day_state_def get_daily_count_def in_quiet_hours_def
      has_actionable_heartbeat_content_def py_strip_def py_lstrip_def py_rstrip_def is_space_def is_atx_heading_def is_break_def Let_def)

lemma day_run:
  "\<exists>st'. run_heartbeat_for_user (day_env\<lparr>he_now := now\<rparr>) day_user ''sms'' ''1'' (Suc 0) day_state
      = (Inr (Some (send_action ''Hi'' ''due'')), st') \<and> map hl_action (hb_logs st') = [''send''] \<and> hb_events st' = [Typing_start, Delivered ''Hi'']"
  using day_gates [of now]
  by (simp add: run_heartbeat_for_user_def run_phases_def evaluate_heartbeat_need_def day_env_def day_state_def parse_decision_response_def
      parse_tool_calls_def decision_params_def count_usage_def execute_heartbeat_tasks_def deliver_and_record_def
      already_replied_def persist_heartbeat_def get_or_create_session_def empty_store_def add_message_def find_session_def
      session_to_state_def insert_row_def finish_def log_heartbeat_def cleanup_run_def publish_def Let_def)

lemma day_pass:
  "\<exists>st'. tick_user (ti_envs (day_tick now)) (ti_registered (day_tick now)) (ti_directory (day_tick now)) now Map.empty day_user day_state
      = (True, st') \<and> map hl_action (hb_logs st') = [''send''] \<and> hb_events st' = [Typing_start, Delivered ''Hi'']"
  using day_run [of now]
  by (auto simp: tick_user_def process_one_def resolve_heartbeat_route_def pushable_def day_tick_def day_user_def is_user_due_def
      effective_max_daily_def)

lemma day_ticks:
  "\<exists>lt st'. ticks [day_tick now] (Map.empty, [(day_user, day_state)]) = (lt, [(day_user, st')]) \<and> map hl_action (hb_logs st') = [''send'']
     \<and> hb_events st' = [Typing_start, Delivered ''Hi''] \<and> lt ''u'' = Some now"
  using day_pass [of now]
  by (auto simp: ticks_def tick_def Let_def day_user_def) (auto simp: day_tick_def)

theorem heartbeat_logs_well_typed_witness:
  "\<exists>lt st'. ticks [day_tick 5] (Map.empty, [(day_user, day_state)]) = (lt, [(day_user, st')]) \<and> map hl_action (hb_logs st') = [''send'']
     \<and> list_all well_typed_log (hb_logs st')"
proof -
  obtain lt st' where r: "ticks [day_tick 5] (Map.empty, [(day_user, day_state)]) = (lt, [(day_user, st')])" "map hl_action (hb_logs st') = [''send'']"
    using day_ticks [of 5] by (elim exE conjE) (rule that)
  have "list_all (\<lambda>(u, st). list_all well_typed_log (hb_logs st)) [(day_user, day_state)]" by (simp add: day_state_def)
  from heartbeat_logs_well_typed [OF this, of "[day_tick 5]" Map.empty] r show ?thesis by simp
qed



theorem heartbeats_only_when_welcome_witness:
  "hu_opt_in day_user \<and> \<not> in_quiet_hours (he_settings day_env) day_user 5 \<and> has_actionable_heartbeat_content ''- call''"
proof -
  obtain st' where r: "tick_user (ti_envs (day_tick 5)) (ti_registered (day_tick 5)) (ti_directory (day_tick 5)) 5 Map.empty day_user day_state
      = (True, st')" "hb_events st' = [Typing_start, Delivered ''Hi'']" using day_pass by blast
  then have "st' \<noteq> day_state" by (auto simp: day_state_def)
  from heartbeats_only_when_welcome [OF r(1) this refl] show ?thesis by (simp add: day_tick_def day_state_def)
qed


end
