(* ===== verification/Bus.thy ===== *)
theory Bus
  imports Turn_Pipeline "HOL-Library.AList"
begin

text \<open>
  The message bus (\<open>backend/app/bus.py\<close>), the outbound dispatcher of the channel manager
  (\<open>channels/manager.py\<close>) and the web chat on top of it (\<open>channels/webchat.py\<close>): the POST that submits a
  message and the event stream that answers it. Futures and event queues are objects: the registries
  map a request to the number of one, and a caller that holds the number keeps it when the registry
  forgets it. Times are seconds of the event loop's clock.
\<close>

section \<open>State\<close>

record bus_message =
  bm_channel :: string
  bm_chat_id :: string
  bm_content :: string
  bm_media :: "string list"
  bm_request_id :: string
  bm_typing_indicator :: bool
  bm_typing_stop :: bool

datatype future = Pending | Resolved bus_message | Cancelled

record web_inbound =
  wi_sender :: string
  wi_text :: string
  wi_media :: "downloaded_media list"
  wi_request_id :: string

record bus =
  bu_inbound :: "web_inbound list"
  bu_outbound :: "bus_message list"
  bu_next :: nat
  bu_futures :: "(nat \<times> future) list"
  bu_response_futures :: "(string \<times> nat) list"
  bu_queues :: "(nat \<times> string list) list"
  bu_event_queues :: "(string \<times> nat) list"
  bu_request_owners :: "(string \<times> string) list"
  bu_cleanups :: "(int \<times> string) list"
  bu_activity_queues :: "(string \<times> nat list) list"
  bu_last_activity :: "(string \<times> string) list"

definition new_bus :: bus where
  "new_bus = \<lparr>bu_inbound = [], bu_outbound = [], bu_next = 0, bu_futures = [], bu_response_futures = [], bu_queues = [],
     bu_event_queues = [], bu_request_owners = [], bu_cleanups = [], bu_activity_queues = [], bu_last_activity = []\<rparr>"

definition future_of :: "nat \<Rightarrow> bus \<Rightarrow> future" where
  "future_of f b = (case map_of (bu_futures b) f of Some x \<Rightarrow> x | None \<Rightarrow> Pending)"

definition queue_of :: "nat \<Rightarrow> bus \<Rightarrow> string list" where
  "queue_of q b = (case map_of (bu_queues b) q of Some es \<Rightarrow> es | None \<Rightarrow> [])"

definition set_future :: "nat \<Rightarrow> future \<Rightarrow> bus \<Rightarrow> bus" where
  "set_future f x b = b\<lparr>bu_futures := AList.update f x (bu_futures b)\<rparr>"

definition set_queue :: "nat \<Rightarrow> string list \<Rightarrow> bus \<Rightarrow> bus" where
  "set_queue q es b = b\<lparr>bu_queues := AList.update q es (bu_queues b)\<rparr>"

section \<open>Requests\<close>

definition set_request_owner :: "string \<Rightarrow> string \<Rightarrow> bus \<Rightarrow> bus" where
  "set_request_owner rid user b = b\<lparr>bu_request_owners := AList.update rid user (bu_request_owners b)\<rparr>"

definition check_request_owner :: "string \<Rightarrow> string \<Rightarrow> bus \<Rightarrow> bool" where
  "check_request_owner rid user b = (case map_of (bu_request_owners b) rid of None \<Rightarrow> True | Some owner \<Rightarrow> owner = user)"

definition register_response_future :: "int \<Rightarrow> int \<Rightarrow> string \<Rightarrow> bus \<Rightarrow> nat \<times> bus" where
  "register_response_future now ttl rid b =
     (let f = bu_next b
      in (f, (set_future f Pending b)\<lparr>bu_next := Suc f, bu_response_futures := AList.update rid f (bu_response_futures b),
                bu_cleanups := bu_cleanups b @ [(now + ttl, rid)]\<rparr>))"

text \<open>The task \<open>register_response_future\<close> starts, when its sleep is over.\<close>

definition cleanup_request :: "string \<Rightarrow> bus \<Rightarrow> bus" where
  "cleanup_request rid b =
     (let b1 = b\<lparr>bu_response_futures := AList.delete rid (bu_response_futures b),
                 bu_request_owners := AList.delete rid (bu_request_owners b), bu_event_queues := AList.delete rid (bu_event_queues b)\<rparr>
      in case map_of (bu_response_futures b) rid of
           Some f \<Rightarrow> if future_of f b = Pending then set_future f Cancelled b1 else b1
         | None \<Rightarrow> b1)"

definition run_cleanups :: "int \<Rightarrow> bus \<Rightarrow> bus" where
  "run_cleanups now b =
     fold (\<lambda>(t, rid). cleanup_request rid) (filter (\<lambda>(t, rid). t \<le> now) (bu_cleanups b))
       (b\<lparr>bu_cleanups := filter (\<lambda>(t, rid). now < t) (bu_cleanups b)\<rparr>)"

definition resolve_response :: "string \<Rightarrow> bus_message \<Rightarrow> bus \<Rightarrow> bool \<times> bus" where
  "resolve_response rid m b =
     (case map_of (bu_response_futures b) rid of
        Some f \<Rightarrow> if future_of f b = Pending then (True, set_future f (Resolved m) b) else (False, b)
      | None \<Rightarrow> (False, b))"

definition get_response_future :: "string \<Rightarrow> bus \<Rightarrow> nat option" where
  "get_response_future rid b = map_of (bu_response_futures b) rid"

definition register_event_queue :: "string \<Rightarrow> bus \<Rightarrow> nat \<times> bus" where
  "register_event_queue rid b =
     (case map_of (bu_event_queues b) rid of
        Some q \<Rightarrow> (q, b)
      | None \<Rightarrow>
          (let q = bu_next b
           in (q, (set_queue q [] b)\<lparr>bu_next := Suc q, bu_event_queues := AList.update rid q (bu_event_queues b)\<rparr>)))"

definition publish_event :: "string \<Rightarrow> string \<Rightarrow> bus \<Rightarrow> bus" where
  "publish_event rid e b =
     (case map_of (bu_event_queues b) rid of Some q \<Rightarrow> set_queue q (queue_of q b @ [e]) b | None \<Rightarrow> b)"

definition remove_event_queue :: "string \<Rightarrow> bus \<Rightarrow> bus" where
  "remove_event_queue rid b =
     b\<lparr>bu_event_queues := AList.delete rid (bu_event_queues b), bu_request_owners := AList.delete rid (bu_request_owners b)\<rparr>"

section \<open>Activity\<close>

definition activity_queues :: "string \<Rightarrow> bus \<Rightarrow> nat list" where
  "activity_queues user b = (case map_of (bu_activity_queues b) user of Some qs \<Rightarrow> qs | None \<Rightarrow> [])"

definition register_activity_queue :: "string \<Rightarrow> bus \<Rightarrow> nat \<times> bus" where
  "register_activity_queue user b =
     (let q = bu_next b; replay = (case map_of (bu_last_activity b) user of Some e \<Rightarrow> [e] | None \<Rightarrow> [])
      in (q, (set_queue q replay b)\<lparr>bu_next := Suc q,
                bu_activity_queues := AList.update user (activity_queues user b @ [q]) (bu_activity_queues b)\<rparr>))"

definition remove_activity_queue :: "string \<Rightarrow> nat \<Rightarrow> bus \<Rightarrow> bus" where
  "remove_activity_queue user q b =
     (case map_of (bu_activity_queues b) user of
        None \<Rightarrow> b
      | Some qs \<Rightarrow>
          (let qs' = filter (\<lambda>p. p \<noteq> q) qs
           in b\<lparr>bu_activity_queues := (if qs' = [] then AList.delete user (bu_activity_queues b)
                                      else AList.update user qs' (bu_activity_queues b))\<rparr>))"

definition publish_activity :: "string \<Rightarrow> string \<Rightarrow> bus \<Rightarrow> bus" where
  "publish_activity user e b =
     fold (\<lambda>q b. set_queue q (queue_of q b @ [e]) b) (activity_queues user b)
       (b\<lparr>bu_last_activity := AList.update user e (bu_last_activity b)\<rparr>)"

section \<open>The outbound dispatcher\<close>

datatype channel_call =
    Stop_typing string
  | Send_typing string
  | Send_message string string "string list"
  | Send_text string string

definition channel_send :: "bus_message \<Rightarrow> channel_call" where
  "channel_send m =
     (if bm_typing_stop m then Stop_typing (bm_chat_id m)
      else if bm_typing_indicator m then Send_typing (bm_chat_id m)
      else if bm_media m \<noteq> [] then Send_message (bm_chat_id m) (bm_content m) (bm_media m)
      else Send_text (bm_chat_id m) (bm_content m))"

text \<open>One message: the call made on a registered channel, if any.\<close>

definition dispatch_outbound :: "(string \<Rightarrow> bool) \<Rightarrow> bus_message \<Rightarrow> bus \<Rightarrow> (string \<times> channel_call) option \<times> bus" where
  "dispatch_outbound registered m b =
     (let (resolved, b1) = (if bm_request_id m \<noteq> [] then resolve_response (bm_request_id m) m b else (False, b))
      in if resolved then (None, b1)
         else if registered (bm_channel m) then (Some (bm_channel m, channel_send m), b1) else (None, b1))"

fun run_outbound_dispatcher :: "(string \<Rightarrow> bool) \<Rightarrow> bus_message list \<Rightarrow> bus \<Rightarrow> (string \<times> channel_call) list \<times> bus" where
  "run_outbound_dispatcher registered [] b = ([], b)"
| "run_outbound_dispatcher registered (m # ms) b =
     (let (call, b1) = dispatch_outbound registered m b; (calls, b2) = run_outbound_dispatcher registered ms b1
      in ((case call of Some c \<Rightarrow> [c] | None \<Rightarrow> []) @ calls, b2))"

text \<open>What a call shows the user: the methods of the web chat channel are no-ops.\<close>

definition shown :: "string \<times> channel_call \<Rightarrow> string list" where
  "shown c =
     (if fst c = ''webchat'' then []
      else case snd c of Send_message to_id body media \<Rightarrow> [body] | Send_text to_id body \<Rightarrow> [body] | x \<Rightarrow> [])"

section \<open>Submitting\<close>

record upload =
  ul_content :: string
  ul_content_type :: "string option"
  ul_filename :: "string option"

datatype http_error = Unprocessable | Forbidden

definition upload_media :: "(string \<Rightarrow> string) \<Rightarrow> upload \<Rightarrow> downloaded_media" where
  "upload_media generate_filename u =
     (let mime = (case ul_content_type u of Some t \<Rightarrow> if t \<noteq> [] then t else default_mime_type | None \<Rightarrow> default_mime_type);
          name = (case ul_filename u of Some n \<Rightarrow> if n \<noteq> [] then n else generate_filename mime | None \<Rightarrow> generate_filename mime)
      in \<lparr>dm_content = ul_content u, dm_mime_type = mime, dm_original_url = ''upload://'' @ name\<rparr>)"

definition response_ttl :: int where
  "response_ttl = 300"

definition send_chat_message ::
  "nat \<Rightarrow> (string \<Rightarrow> string) \<Rightarrow> int \<Rightarrow> string \<Rightarrow> string \<Rightarrow> string \<Rightarrow> upload list \<Rightarrow> bus \<Rightarrow> http_error + string \<times> bus" where
  "send_chat_message limit generate_filename now rid user message files b =
     (let body = py_strip message
      in if body = [] \<and> files = [] then Inl Unprocessable
         else if list_ex (\<lambda>u. check_media_size limit (ul_content u) = Inl ValueError) files then Inl Unprocessable
         else (let b1 = set_request_owner rid user b;
                   (f, b2) = register_response_future now response_ttl rid b1;
                   (q, b3) = register_event_queue rid b2
               in Inr (rid, b3\<lparr>bu_inbound := bu_inbound b3 @ [\<lparr>wi_sender = user, wi_text = body,
                     wi_media = map (upload_media generate_filename) files, wi_request_id = rid\<rparr>]\<rparr>)))"

section \<open>The event stream\<close>

record stream =
  se_request :: string
  se_future :: nat
  se_queue :: nat
  se_deadline :: int

definition open_stream :: "int \<Rightarrow> int \<Rightarrow> string \<Rightarrow> string \<Rightarrow> bus \<Rightarrow> http_error + stream \<times> bus" where
  "open_stream now timeout rid user b =
     (if \<not> check_request_owner rid user b then Inl Forbidden
      else (let (q, b1) = register_event_queue rid b;
                (f, b2) = (case get_response_future rid b1 of Some f \<Rightarrow> (f, b1) | None \<Rightarrow> register_response_future now response_ttl rid b1)
            in Inr (\<lparr>se_request = rid, se_future = f, se_queue = q, se_deadline = now + timeout\<rparr>, b2)))"

text \<open>
  One turn of the loop. A result ends the stream, which then removes its event queue; a cancelled
  future raises \<open>CancelledError\<close>, which is no \<open>Exception\<close>, so the stream ends without a frame.
\<close>

datatype frame = Event string | Reply string | Response_timed_out

datatype stream_state = Waits | Continues frame | Ends "frame list"

definition poll_stream :: "int \<Rightarrow> stream \<Rightarrow> bus \<Rightarrow> stream_state \<times> bus" where
  "poll_stream now s b =
     (let events = queue_of (se_queue s) b; close = remove_event_queue (se_request s)
      in case future_of (se_future s) b of
           Resolved m \<Rightarrow> (Ends (map Event events @ [Reply (bm_content m)]), close (set_queue (se_queue s) [] b))
         | Cancelled \<Rightarrow> (Ends (map Event events), close (set_queue (se_queue s) [] b))
         | Pending \<Rightarrow>
             if se_deadline s \<le> now then (Ends [Response_timed_out], close b)
             else case events of
                    [] \<Rightarrow> (Waits, b)
                  | e # es \<Rightarrow> (Continues (Event e), set_queue (se_queue s) es b))"

section \<open>Objects stay apart\<close>

lemma fields [simp]:
  "bu_next (set_future f x b) = bu_next b" "bu_response_futures (set_future f x b) = bu_response_futures b"
  "bu_event_queues (set_future f x b) = bu_event_queues b" "bu_request_owners (set_future f x b) = bu_request_owners b"
  "bu_activity_queues (set_future f x b) = bu_activity_queues b"
  "bu_next (set_queue q es b) = bu_next b" "bu_response_futures (set_queue q es b) = bu_response_futures b"
  "bu_event_queues (set_queue q es b) = bu_event_queues b" "bu_request_owners (set_queue q es b) = bu_request_owners b"
  "bu_activity_queues (set_queue q es b) = bu_activity_queues b"
  by (simp_all add: set_future_def set_queue_def)

lemma objects [simp]:
  "future_of g (set_future f x b) = (if g = f then x else future_of g b)" "queue_of p (set_future f x b) = queue_of p b"
  "queue_of p (set_queue q es b) = (if p = q then es else queue_of p b)" "future_of g (set_queue q es b) = future_of g b"
  by (simp_all add: future_of_def queue_of_def set_future_def set_queue_def update_conv')

text \<open>Every registered object is older than the next one, and belongs to one request or one subscriber.\<close>

definition bus_ok :: "bus \<Rightarrow> bool" where
  "bus_ok b \<longleftrightarrow>
     (\<forall>rid f. map_of (bu_response_futures b) rid = Some f \<longrightarrow> f < bu_next b
        \<and> (\<forall>r. map_of (bu_response_futures b) r = Some f \<longrightarrow> r = rid))
     \<and> (\<forall>rid q. map_of (bu_event_queues b) rid = Some q \<longrightarrow> q < bu_next b
        \<and> (\<forall>r. map_of (bu_event_queues b) r = Some q \<longrightarrow> r = rid) \<and> (\<forall>u. q \<notin> set (activity_queues u b)))
     \<and> (\<forall>u q. q \<in> set (activity_queues u b) \<longrightarrow> q < bu_next b)"

lemma bus_okI:
  assumes "\<And>rid f. map_of (bu_response_futures b) rid = Some f \<Longrightarrow> f < bu_next b"
    and "\<And>rid r f. map_of (bu_response_futures b) rid = Some f \<Longrightarrow> map_of (bu_response_futures b) r = Some f \<Longrightarrow> r = rid"
    and "\<And>rid q. map_of (bu_event_queues b) rid = Some q \<Longrightarrow> q < bu_next b"
    and "\<And>rid r q. map_of (bu_event_queues b) rid = Some q \<Longrightarrow> map_of (bu_event_queues b) r = Some q \<Longrightarrow> r = rid"
    and "\<And>rid q u. map_of (bu_event_queues b) rid = Some q \<Longrightarrow> q \<notin> set (activity_queues u b)"
    and "\<And>u q. q \<in> set (activity_queues u b) \<Longrightarrow> q < bu_next b"
  shows "bus_ok b"
  unfolding bus_ok_def using assms by blast

lemma bus_okD:
  assumes "bus_ok b"
  shows "map_of (bu_response_futures b) rid = Some f \<Longrightarrow> f < bu_next b"
    and "map_of (bu_response_futures b) rid = Some f \<Longrightarrow> map_of (bu_response_futures b) r = Some f \<Longrightarrow> r = rid"
    and "map_of (bu_event_queues b) rid = Some q \<Longrightarrow> q < bu_next b"
    and "map_of (bu_event_queues b) rid = Some q \<Longrightarrow> map_of (bu_event_queues b) r = Some q \<Longrightarrow> r = rid"
    and "map_of (bu_event_queues b) rid = Some q \<Longrightarrow> q \<notin> set (activity_queues u b)"
    and "q \<in> set (activity_queues u b) \<Longrightarrow> q < bu_next b"
  using assms unfolding bus_ok_def by blast+

lemma new_bus_ok: "bus_ok new_bus"
  by (simp add: bus_ok_def new_bus_def activity_queues_def)

text \<open>Dropping registrations, or changing objects only, keeps them apart.\<close>

lemma ok_smaller:
  assumes "bus_ok b" and "\<And>r f. map_of (bu_response_futures b') r = Some f \<Longrightarrow> map_of (bu_response_futures b) r = Some f"
    and "\<And>r q. map_of (bu_event_queues b') r = Some q \<Longrightarrow> map_of (bu_event_queues b) r = Some q"
    and "\<And>u. set (activity_queues u b') \<subseteq> set (activity_queues u b)" and "bu_next b \<le> bu_next b'"
  shows "bus_ok b'"
proof (rule bus_okI)
  show "f < bu_next b'" if "map_of (bu_response_futures b') rid = Some f" for rid f
    using bus_okD(1) [OF assms(1) assms(2) [OF that]] assms(5) by simp
  show "q < bu_next b'" if "map_of (bu_event_queues b') rid = Some q" for rid q
    using bus_okD(3) [OF assms(1) assms(3) [OF that]] assms(5) by simp
  show "q < bu_next b'" if "q \<in> set (activity_queues u b')" for u q
    using bus_okD(6) [OF assms(1)] assms(4,5) that by (meson less_le_trans subsetD)
  show "r = rid" if "map_of (bu_response_futures b') rid = Some f" "map_of (bu_response_futures b') r = Some f" for rid r f
    using bus_okD(2) [OF assms(1)] assms(2) that by blast
  show "r = rid" if "map_of (bu_event_queues b') rid = Some q" "map_of (bu_event_queues b') r = Some q" for rid r q
    using bus_okD(4) [OF assms(1)] assms(3) that by blast
  show "q \<notin> set (activity_queues u b')" if "map_of (bu_event_queues b') rid = Some q" for rid q u
    using bus_okD(5) [OF assms(1) assms(3) [OF that]] assms(4) by blast
qed

lemma ok_register_future:
  assumes "bus_ok b"
  shows "bus_ok (snd (register_response_future now ttl rid b))"
proof (rule bus_okI)
  let ?b = "snd (register_response_future now ttl rid b)"
  have f: "map_of (bu_response_futures ?b) r = (if r = rid then Some (bu_next b) else map_of (bu_response_futures b) r)"
    "bu_next ?b = Suc (bu_next b)" "bu_event_queues ?b = bu_event_queues b" "activity_queues u ?b = activity_queues u b" for r u
    by (simp_all add: register_response_future_def Let_def update_conv' activity_queues_def)
  note ok = bus_okD [OF assms]
  show "g < bu_next ?b" if "map_of (bu_response_futures ?b) r = Some g" for r g
    using that ok(1) [of r g] by (auto simp: f split: if_splits)
  show "r = s" if "map_of (bu_response_futures ?b) s = Some g" "map_of (bu_response_futures ?b) r = Some g" for r s g
    using that ok(1) [of r g] ok(1) [of s g] ok(2) [of s g r] by (auto simp: f split: if_splits)
  show "q < bu_next ?b" if "map_of (bu_event_queues ?b) r = Some q" for r q using that ok(3) by (force simp: f)
  show "r = s" if "map_of (bu_event_queues ?b) s = Some q" "map_of (bu_event_queues ?b) r = Some q" for r s q using that ok(4) by (force simp: f)
  show "q \<notin> set (activity_queues u ?b)" if "map_of (bu_event_queues ?b) r = Some q" for r q u using that ok(5) by (simp add: f)
  show "q < bu_next ?b" if "q \<in> set (activity_queues u ?b)" for u q using that ok(6) by (force simp: f)
qed

lemma ok_register_queue:
  assumes "bus_ok b"
  shows "bus_ok (snd (register_event_queue rid b))"
proof (cases "map_of (bu_event_queues b) rid")
  case (Some q)
  then show ?thesis using assms by (simp add: register_event_queue_def)
next
  case None
  let ?b = "snd (register_event_queue rid b)"
  have f: "map_of (bu_event_queues ?b) r = (if r = rid then Some (bu_next b) else map_of (bu_event_queues b) r)"
    "bu_next ?b = Suc (bu_next b)" "bu_response_futures ?b = bu_response_futures b" "activity_queues u ?b = activity_queues u b" for r u
    using None by (simp_all add: register_event_queue_def Let_def update_conv' activity_queues_def)
  note ok = bus_okD [OF assms]
  show ?thesis
  proof (rule bus_okI)
    show "g < bu_next ?b" if "map_of (bu_response_futures ?b) r = Some g" for r g using that ok(1) by (force simp: f)
    show "r = s" if "map_of (bu_response_futures ?b) s = Some g" "map_of (bu_response_futures ?b) r = Some g" for r s g
      using that ok(2) by (force simp: f)
    show "q < bu_next ?b" if "map_of (bu_event_queues ?b) r = Some q" for r q using that ok(3) [of r q] by (auto simp: f split: if_splits)
    show "r = s" if "map_of (bu_event_queues ?b) s = Some q" "map_of (bu_event_queues ?b) r = Some q" for r s q
      using that ok(3) [of r q] ok(3) [of s q] ok(4) [of s q r] by (auto simp: f split: if_splits)
    show "q \<notin> set (activity_queues u ?b)" if "map_of (bu_event_queues ?b) r = Some q" for r q u
      using that ok(5) [of r q u] ok(6) [of "bu_next b" u] by (auto simp: f split: if_splits)
    show "q < bu_next ?b" if "q \<in> set (activity_queues u ?b)" for u q using that ok(6) by (force simp: f)
  qed
qed

lemma ok_register_activity:
  assumes "bus_ok b"
  shows "bus_ok (snd (register_activity_queue user b))"
proof (rule bus_okI)
  let ?b = "snd (register_activity_queue user b)"
  have f: "bu_response_futures ?b = bu_response_futures b" "bu_event_queues ?b = bu_event_queues b" "bu_next ?b = Suc (bu_next b)"
    "activity_queues u ?b = (if u = user then activity_queues user b @ [bu_next b] else activity_queues u b)" for u
    by (simp_all add: register_activity_queue_def Let_def activity_queues_def update_conv')
  note ok = bus_okD [OF assms]
  show "g < bu_next ?b" if "map_of (bu_response_futures ?b) r = Some g" for r g using that ok(1) by (force simp: f)
  show "r = s" if "map_of (bu_response_futures ?b) s = Some g" "map_of (bu_response_futures ?b) r = Some g" for r s g
    using that ok(2) by (force simp: f)
  show "q < bu_next ?b" if "map_of (bu_event_queues ?b) r = Some q" for r q using that ok(3) by (force simp: f)
  show "r = s" if "map_of (bu_event_queues ?b) s = Some q" "map_of (bu_event_queues ?b) r = Some q" for r s q using that ok(4) by (force simp: f)
  show "q \<notin> set (activity_queues u ?b)" if "map_of (bu_event_queues ?b) r = Some q" for r q u
    using that ok(5) [of r q u] ok(3) [of r q] by (auto simp: f split: if_splits)
  show "q < bu_next ?b" if "q \<in> set (activity_queues u ?b)" for u q using that ok(6) [of q u] by (auto simp: f split: if_splits)
qed

section \<open>Histories\<close>

datatype bus_op =
    Op_submit nat "string \<Rightarrow> string" int string string string "upload list"
  | Op_event string string
  | Op_dispatch "string \<Rightarrow> bool" bus_message
  | Op_open int int string string
  | Op_poll int stream
  | Op_expire string
  | Op_activity string string
  | Op_subscribe string
  | Op_unsubscribe string nat

fun apply_op :: "bus_op \<Rightarrow> bus \<Rightarrow> bus" where
  "apply_op (Op_submit limit gen now rid user message files) b =
     (case send_chat_message limit gen now rid user message files b of Inl e \<Rightarrow> b | Inr (r, b') \<Rightarrow> b')"
| "apply_op (Op_event rid e) b = publish_event rid e b"
| "apply_op (Op_dispatch registered m) b = snd (dispatch_outbound registered m b)"
| "apply_op (Op_open now timeout rid user) b = (case open_stream now timeout rid user b of Inl e \<Rightarrow> b | Inr (s, b') \<Rightarrow> b')"
| "apply_op (Op_poll now s) b = snd (poll_stream now s b)"
| "apply_op (Op_expire rid) b = cleanup_request rid b"
| "apply_op (Op_activity user e) b = publish_activity user e b"
| "apply_op (Op_subscribe user) b = snd (register_activity_queue user b)"
| "apply_op (Op_unsubscribe user q) b = remove_activity_queue user q b"

text \<open>Operations on other requests and other streams, and events of this one.\<close>

fun elsewhere :: "string \<Rightarrow> nat \<Rightarrow> bus_op \<Rightarrow> bool" where
  "elsewhere rid q (Op_submit limit gen now r user message files) \<longleftrightarrow> r \<noteq> rid"
| "elsewhere rid q (Op_event r e) \<longleftrightarrow> True"
| "elsewhere rid q (Op_dispatch registered m) \<longleftrightarrow> bm_request_id m \<noteq> rid"
| "elsewhere rid q (Op_open now timeout r user) \<longleftrightarrow> r \<noteq> rid"
| "elsewhere rid q (Op_poll now s) \<longleftrightarrow> se_request s \<noteq> rid \<and> se_queue s \<noteq> q"
| "elsewhere rid q (Op_expire r) \<longleftrightarrow> r \<noteq> rid"
| "elsewhere rid q (Op_activity user e) \<longleftrightarrow> True"
| "elsewhere rid q (Op_subscribe user) \<longleftrightarrow> True"
| "elsewhere rid q (Op_unsubscribe user p) \<longleftrightarrow> True"

fun op_events :: "string \<Rightarrow> bus_op \<Rightarrow> string list" where
  "op_events rid (Op_event r e) = (if r = rid then [e] else [])"
| "op_events rid op = []"

definition request_at :: "string \<Rightarrow> nat \<Rightarrow> nat \<Rightarrow> bus \<Rightarrow> bool" where
  "request_at rid f q b \<longleftrightarrow> bus_ok b \<and> map_of (bu_response_futures b) rid = Some f \<and> map_of (bu_event_queues b) rid = Some q"

definition kept :: "string \<Rightarrow> nat \<Rightarrow> nat \<Rightarrow> string list \<Rightarrow> bus \<Rightarrow> bus \<Rightarrow> bool" where
  "kept rid f q es b b' \<longleftrightarrow>
     (request_at rid f q b \<longrightarrow> request_at rid f q b' \<and> map_of (bu_request_owners b') rid = map_of (bu_request_owners b) rid
        \<and> future_of f b' = future_of f b \<and> queue_of q b' = queue_of q b @ es)"

lemma kept_refl: "kept rid f q [] b b"
  by (simp add: kept_def)

lemma kept_trans: "kept rid f q es b b' \<Longrightarrow> kept rid f q es' b' b'' \<Longrightarrow> kept rid f q (es @ es') b b''"
  by (simp add: kept_def)

lemma kept_trans_silent: "kept rid f q [] b b' \<Longrightarrow> kept rid f q [] b' b'' \<Longrightarrow> kept rid f q [] b b''"
  by (simp add: kept_def)

lemma kept_owner: "r \<noteq> rid \<Longrightarrow> kept rid f q [] b (set_request_owner r user b)"
  by (auto simp: kept_def request_at_def set_request_owner_def update_conv' future_of_def queue_of_def activity_queues_def elim!: ok_smaller)

lemma kept_future: "r \<noteq> rid \<Longrightarrow> kept rid f q [] b (snd (register_response_future now ttl r b))"
  using ok_register_future [of b now ttl r] bus_okD(1) [of b rid f]
  by (auto simp: kept_def request_at_def register_response_future_def Let_def update_conv' future_of_def queue_of_def set_future_def)

lemma kept_queue: "r \<noteq> rid \<Longrightarrow> kept rid f q [] b (snd (register_event_queue r b))"
  using ok_register_queue [of b r] bus_okD(3) [of b rid q]
  by (auto simp: kept_def request_at_def register_event_queue_def Let_def update_conv' future_of_def queue_of_def set_queue_def
      split: option.splits)

lemma kept_inbound: "kept rid f q [] b (b\<lparr>bu_inbound := xs\<rparr>)"
  by (auto simp: kept_def request_at_def future_of_def queue_of_def activity_queues_def elim!: ok_smaller)

lemma kept_resolve: "r \<noteq> rid \<Longrightarrow> kept rid f q [] b (snd (resolve_response r m b))"
  using bus_okD(2) [of b rid f r]
  by (auto simp: kept_def request_at_def resolve_response_def activity_queues_def split: option.splits elim!: ok_smaller)

lemma kept_event: "kept rid f q (if r = rid then [e] else []) b (publish_event r e b)"
  using bus_okD(4) [of b rid q r]
  by (auto simp: kept_def request_at_def publish_event_def activity_queues_def split: option.splits elim!: ok_smaller)

lemma kept_close: "r \<noteq> rid \<Longrightarrow> kept rid f q [] b (remove_event_queue r b)"
  by (auto simp: kept_def request_at_def remove_event_queue_def delete_conv' future_of_def queue_of_def activity_queues_def
      elim!: ok_smaller split: if_splits)

lemma kept_set_queue: "p \<noteq> q \<Longrightarrow> kept rid f q [] b (set_queue p es b)"
  by (auto simp: kept_def request_at_def activity_queues_def elim!: ok_smaller)

lemma kept_expire: "r \<noteq> rid \<Longrightarrow> kept rid f q [] b (cleanup_request r b)"
  using bus_okD(2) [of b rid f r]
  by (auto simp: kept_def request_at_def cleanup_request_def delete_conv' Let_def future_of_def queue_of_def set_future_def update_conv'
      activity_queues_def elim!: ok_smaller split: if_splits option.splits)

lemma fold_set_queue:
  "queue_of q (fold (\<lambda>p b. set_queue p (queue_of p b @ [e]) b) ps b) = (if q \<in> set ps then queue_of q (fold (\<lambda>p b. set_queue p (queue_of p b @ [e]) b) ps b) else queue_of q b)"
  "future_of f (fold (\<lambda>p b. set_queue p (queue_of p b @ [e]) b) ps b) = future_of f b"
  "bu_response_futures (fold (\<lambda>p b. set_queue p (queue_of p b @ [e]) b) ps b) = bu_response_futures b"
  "bu_event_queues (fold (\<lambda>p b. set_queue p (queue_of p b @ [e]) b) ps b) = bu_event_queues b"
  "bu_activity_queues (fold (\<lambda>p b. set_queue p (queue_of p b @ [e]) b) ps b) = bu_activity_queues b"
  "bu_request_owners (fold (\<lambda>p b. set_queue p (queue_of p b @ [e]) b) ps b) = bu_request_owners b"
  "bu_next (fold (\<lambda>p b. set_queue p (queue_of p b @ [e]) b) ps b) = bu_next b"
  by (induction ps arbitrary: b) auto

lemma kept_activity: "kept rid f q [] b (publish_activity user e b)"
proof (cases "request_at rid f q b")
  case True
  let ?b0 = "b\<lparr>bu_last_activity := AList.update user e (bu_last_activity b)\<rparr>"
  let ?b' = "publish_activity user e b"
  have q: "q \<notin> set (activity_queues user b)" using True bus_okD(5) by (auto simp: request_at_def)
  have same: "bu_response_futures ?b' = bu_response_futures b" "bu_event_queues ?b' = bu_event_queues b" "bu_activity_queues ?b' = bu_activity_queues b"
    "bu_request_owners ?b' = bu_request_owners b" "bu_next ?b' = bu_next b" "future_of f ?b' = future_of f ?b0" "queue_of q ?b' = queue_of q ?b0"
    using q fold_set_queue(1) [of q e "activity_queues user b" ?b0] by (simp_all add: publish_activity_def fold_set_queue(2-))
  have "bus_ok ?b'" by (rule ok_smaller [of b]) (use True in \<open>simp_all add: request_at_def same activity_queues_def\<close>)
  moreover have "future_of f ?b0 = future_of f b" "queue_of q ?b0 = queue_of q b" by (simp_all add: future_of_def queue_of_def)
  ultimately show ?thesis using True by (simp add: kept_def request_at_def same)
qed (simp add: kept_def)

lemma kept_subscribe: "kept rid f q [] b (snd (register_activity_queue user b))"
  using ok_register_activity [of b user] bus_okD(3) [of b rid q]
  by (auto simp: kept_def request_at_def register_activity_queue_def Let_def update_conv' future_of_def queue_of_def set_queue_def)

lemma kept_unsubscribe: "kept rid f q [] b (remove_activity_queue user p b)"
  by (auto simp: kept_def request_at_def remove_activity_queue_def Let_def future_of_def queue_of_def activity_queues_def
      delete_conv' update_conv' elim!: ok_smaller split: option.splits if_splits)

lemma kept_submit:
  assumes "r \<noteq> rid" and "send_chat_message limit gen now r user message files b = Inr (x, b')"
  shows "kept rid f q [] b b'"
proof -
  define b1 where "b1 = set_request_owner r user b"
  define b2 where "b2 = snd (register_response_future now response_ttl r b1)"
  define b3 where "b3 = snd (register_event_queue r b2)"
  have "\<exists>xs. b' = b3\<lparr>bu_inbound := xs\<rparr>"
    using assms(2) by (auto simp: send_chat_message_def Let_def case_prod_unfold b1_def b2_def b3_def split: if_splits)
  then show ?thesis
    using kept_owner [OF assms(1), of f q b user] kept_future [OF assms(1), of f q b1 now response_ttl] kept_queue [OF assms(1), of f q b2]
      kept_inbound [of rid f q b3]
    unfolding b1_def [symmetric] b2_def [symmetric] b3_def [symmetric] by (metis kept_trans_silent)
qed

lemma kept_open:
  assumes "r \<noteq> rid" and "open_stream now timeout r user b = Inr (s, b')"
  shows "kept rid f q [] b b'"
proof -
  define b1 where "b1 = snd (register_event_queue r b)"
  have "b' = b1 \<or> b' = snd (register_response_future now response_ttl r b1)"
    using assms(2) by (auto simp: open_stream_def Let_def case_prod_unfold b1_def split: if_splits option.splits)
  moreover have "kept rid f q [] b b1" unfolding b1_def by (rule kept_queue [OF assms(1)])
  ultimately show ?thesis using kept_future [OF assms(1), of f q b1 now response_ttl] kept_trans_silent by metis
qed

lemma kept_poll:
  assumes "se_request s \<noteq> rid" and "se_queue s \<noteq> q"
  shows "kept rid f q [] b (snd (poll_stream now s b))"
proof -
  note q = kept_set_queue [OF assms(2), of rid f b] and c = kept_close [OF assms(1), of f q]
  have "kept rid f q [] b (remove_event_queue (se_request s) (set_queue (se_queue s) es b))" for es
    using q [of es] c [of "set_queue (se_queue s) es b"] by (rule kept_trans_silent)
  then show ?thesis using q c [of b]
    by (auto simp: poll_stream_def Let_def kept_refl split: future.splits list.splits)
qed

lemma kept_dispatch: "bm_request_id m \<noteq> rid \<Longrightarrow> kept rid f q [] b (snd (dispatch_outbound registered m b))"
  using kept_resolve [of "bm_request_id m" rid f q b m]
  by (auto simp: dispatch_outbound_def Let_def case_prod_unfold kept_refl)

lemma kept_op: "elsewhere rid q op \<Longrightarrow> kept rid f q (op_events rid op) b (apply_op op b)"
  using kept_event [of rid f q]
  by (cases op)
    (auto simp: kept_dispatch kept_poll kept_activity kept_subscribe kept_unsubscribe kept_expire kept_refl
      intro: kept_submit kept_open split: sum.splits)

lemma kept_ops:
  "list_all (elsewhere rid q) ops \<Longrightarrow> kept rid f q (concat (map (op_events rid) ops)) b (fold apply_op ops b)"
proof (induction ops arbitrary: b)
  case (Cons op ops)
  then show ?case using kept_trans [OF kept_op [of rid q op f b]] by simp
qed (simp add: kept_refl)

section \<open>A reply reaches its stream\<close>

definition fresh_request :: "string \<Rightarrow> bus \<Rightarrow> bool" where
  "fresh_request rid b \<longleftrightarrow> map_of (bu_event_queues b) rid = None"

lemma submit_registers:
  assumes "bus_ok b" and "fresh_request rid b" and "send_chat_message limit gen now rid user message files b = Inr (x, b')"
  shows "\<exists>f q. request_at rid f q b' \<and> map_of (bu_request_owners b') rid = Some user \<and> future_of f b' = Pending \<and> queue_of q b' = []"
proof -
  define b1 where "b1 = set_request_owner rid user b"
  define b2 where "b2 = snd (register_response_future now response_ttl rid b1)"
  define b3 where "b3 = snd (register_event_queue rid b2)"
  obtain xs where b': "b' = b3\<lparr>bu_inbound := xs\<rparr>"
    using assms(3) by (auto simp: send_chat_message_def Let_def case_prod_unfold b1_def b2_def b3_def split: if_splits)
  have ok1: "bus_ok b1" using assms(1) by (rule ok_smaller) (simp_all add: b1_def set_request_owner_def activity_queues_def)
  have ok3: "bus_ok b3" unfolding b3_def by (rule ok_register_queue) (simp add: b2_def ok_register_future [OF ok1])
  have "bus_ok b'" using ok3 unfolding b' by (rule ok_smaller) (simp_all add: activity_queues_def)
  then show ?thesis using assms(2)
    by (intro exI [of _ "bu_next b"] exI [of _ "Suc (bu_next b)"])
      (auto simp: request_at_def b' b3_def b2_def b1_def register_event_queue_def register_response_future_def set_request_owner_def
        fresh_request_def Let_def update_conv' future_of_def queue_of_def set_future_def set_queue_def)
qed



section \<open>Where the web chat does not do what it means to\<close>

text \<open>
  The end of a stream forgets the owner of the request but not its future: from then until the time to
  live is over anybody who knows the request reads the reply.
\<close>

lemma ended_stream_opens_request:
  assumes "bus_ok b" and "map_of (bu_response_futures b) rid = Some f" and "future_of f b = Resolved m"
    and "se_request s = rid" and "se_future s = f"
  shows "\<exists>s' b'. open_stream t timeout rid intruder (snd (poll_stream t' s b)) = Inr (s', b')
    \<and> fst (poll_stream t'' s' b') = Ends [Reply (bm_content m)]"
proof -
  define b1 where "b1 = snd (poll_stream t' s b)"
  have b1: "map_of (bu_response_futures b1) rid = Some f" "future_of f b1 = Resolved m" "map_of (bu_request_owners b1) rid = None"
    "map_of (bu_event_queues b1) rid = None"
    using assms by (simp_all add: b1_def poll_stream_def remove_event_queue_def delete_conv' Let_def future_of_def set_queue_def)
  obtain q b2 where r: "register_event_queue rid b1 = (q, b2)" by fastforce
  then have b2: "queue_of q b2 = []" "future_of f b2 = Resolved m" "get_response_future rid b2 = Some f"
    using b1 by (auto simp: register_event_queue_def Let_def get_response_future_def future_of_def queue_of_def set_queue_def update_conv')
  have "open_stream t timeout rid intruder b1 = Inr (\<lparr>se_request = rid, se_future = f, se_queue = q, se_deadline = t + timeout\<rparr>, b2)"
    using b1(3) r b2(3) by (simp add: open_stream_def check_request_owner_def)
  then show ?thesis using b2 unfolding b1_def by (simp add: poll_stream_def Let_def)
qed

text \<open>
  A web turn that replies with a file is never shown: the tool publishes its message without the
  request, the web channel's methods are no-ops, the turn then publishes nothing of its own although
  it has a text, and the future stays pending until the stream times out.
\<close>

lemma web_file_reply_never_shown:
  assumes "tx_response ctx = Some r" and "already_replied (ar_tool_calls r)" and "dispatch_reply_step (ctx, w) = Inr (ctx', w')"
    and "list_all (\<lambda>m. bm_request_id m = [] \<and> bm_channel m = ''webchat'') tool_messages"
  shows "wd_outbox w' = wd_outbox w \<and> snd (run_outbound_dispatcher registered tool_messages b) = b
    \<and> concat (map shown (fst (run_outbound_dispatcher registered tool_messages b))) = []"
proof -
  have "snd (run_outbound_dispatcher registered tool_messages b) = b
      \<and> concat (map shown (fst (run_outbound_dispatcher registered tool_messages b))) = []"
    using assms(4) by (induction tool_messages) (auto simp: dispatch_outbound_def shown_def Let_def case_prod_unfold)
  moreover have "wd_outbox w' = wd_outbox w"
    using assms(1-3) by (auto simp: dispatch_reply_step_def Let_def split: if_splits)
  ultimately show ?thesis by simp
qed

end
