(* ===== verification/OAuth.thy ===== *)
theory OAuth
  imports Sender_Routing
begin

text \<open>
  The OAuth service, \<open>services/oauth.py\<close>, without its concurrency: token data and expiry, the per-integration
  configurations, pending authorization flows (state, PKCE verifier, time to live), the callback, the token table with the
  per-process cache in front of it, the choice of rows of the background sweep, and the callback endpoint of
  \<open>routers/oauth.py\<close>. The refresh, where processes interleave, is in \<open>Token_Refresh\<close>.

  A token is a value: sharing of the cached object between callers is not modelled. Times are whole seconds of one clock.
  The HTTP calls (code exchange, account lookup) are parameters that get the arguments the code sends.
\<close>

section \<open>Token data\<close>

record token_data =
  td_access :: string
  td_refresh :: string
  td_type :: string
  td_expires_at :: int
  td_scopes :: "string list"
  td_realm :: string
  td_extra :: json_dict

definition expiry_buffer :: int where
  "expiry_buffer = 300"

definition is_expired :: "int \<Rightarrow> token_data \<Rightarrow> bool" where
  "is_expired now t \<longleftrightarrow> (if td_expires_at t \<le> 0 then False else td_expires_at t - expiry_buffer \<le> now)"

definition to_dict :: "token_data \<Rightarrow> json_dict" where
  "to_dict t =
     [(''access_token'', JStr (td_access t)), (''refresh_token'', JStr (td_refresh t)), (''token_type'', JStr (td_type t)),
      (''expires_at'', JInt (td_expires_at t)), (''scopes'', JList (map JStr (td_scopes t))), (''realm_id'', JStr (td_realm t)),
      (''extra'', JObj (td_extra t))]"

definition str_field :: "json_dict \<Rightarrow> string \<Rightarrow> string \<Rightarrow> string" where
  "str_field d k dflt = (case map_of d k of Some (JStr s) \<Rightarrow> s | _ \<Rightarrow> dflt)"

fun the_str :: "json \<Rightarrow> string" where
  "the_str (JStr s) = s"
| "the_str _ = []"

definition from_dict :: "json_dict \<Rightarrow> token_data" where
  \<comment> \<open>on dictionaries whose values have the types \<open>to_dict\<close> gives them\<close>
  "from_dict d =
     \<lparr>td_access = str_field d ''access_token'' [], td_refresh = str_field d ''refresh_token'' [],
      td_type = str_field d ''token_type'' ''Bearer'',
      td_expires_at = (case map_of d ''expires_at'' of Some (JInt i) \<Rightarrow> i | _ \<Rightarrow> 0),
      td_scopes = (case map_of d ''scopes'' of Some (JList xs) \<Rightarrow> map the_str xs | _ \<Rightarrow> []),
      td_realm = str_field d ''realm_id'' [], td_extra = (case map_of d ''extra'' of Some (JObj e) \<Rightarrow> e | _ \<Rightarrow> [])\<rparr>"

lemma token_dict_roundtrip: "from_dict (to_dict t) = t"
  by (simp add: from_dict_def to_dict_def str_field_def o_def)

definition account_email_key :: string where
  "account_email_key = ''account_email''"

definition account_email_from_extra :: "json_dict \<Rightarrow> string" where
  "account_email_from_extra extra = str_field extra account_email_key []"

definition parse_extra_json :: "(string \<Rightarrow> json option) \<Rightarrow> string \<Rightarrow> json_dict" where
  \<comment> \<open>\<open>loads\<close> is the JSON decoder, \<open>None\<close> its decode error\<close>
  "parse_extra_json loads raw = (if raw = [] then [] else case loads raw of Some (JObj d) \<Rightarrow> d | _ \<Rightarrow> [])"

section \<open>Wording\<close>

definition upper_char :: "char \<Rightarrow> char" where
  "upper_char c = (let n = (of_char c :: nat) in if 97 \<le> n \<and> n \<le> 122 then char_of (n - 32) else c)"

definition is_letter :: "char \<Rightarrow> bool" where
  "is_letter c \<longleftrightarrow> (let n = (of_char c :: nat) in (65 \<le> n \<and> n \<le> 90) \<or> (97 \<le> n \<and> n \<le> 122))"

fun title_from :: "bool \<Rightarrow> string \<Rightarrow> string" where
  "title_from cased [] = []"
| "title_from cased (c # cs) =
     (if is_letter c then (if cased then lower_char c else upper_char c) # title_from True cs else c # title_from False cs)"

definition appfolio_instruction :: string where
  "appfolio_instruction =
     ''AppFolio has no chat connect flow, so do not offer a connection link. Have the ''
     @ ''user reconnect AppFolio on the Integrations page of the Clawbolt web app with a ''
     @ ''fresh magic link (requested from vendor.appfolio.com). Do not ask them to paste '' @ ''the link into chat.''"

definition display_name :: "string \<Rightarrow> string" where
  "display_name integration =
     (if integration = ''appfolio_vendor'' then ''AppFolio Vendor Portal''
      else title_from False (map (\<lambda>c. if c = CHR ''_'' then CHR '' '' else c) integration))"

definition quote_char :: char where
  "quote_char = CHR 0x27"

definition reconnect_instruction :: "string \<Rightarrow> string" where
  "reconnect_instruction integration =
     (if integration = ''appfolio_vendor'' then appfolio_instruction
      else ''Use manage_integration(action='' @ [quote_char] @ ''connect'' @ [quote_char] @ '', target='' @ [quote_char] @ integration
           @ [quote_char] @ '') to generate '' @ ''a connection link for the user. If it reports the integration is still ''
           @ ''connected, run manage_integration(action='' @ [quote_char] @ ''disconnect'' @ [quote_char] @ '', target='' @ [quote_char]
           @ integration @ [quote_char] @ '') '' @ ''first. The user can also reconnect in Settings > Integrations.'')"

definition reauth_notice :: "string \<Rightarrow> string" where
  "reauth_notice integration =
     ''Your '' @ display_name integration @ '' connection has expired. '' @ ''Please reconnect it in Settings > Integrations.''"

definition reauth_route :: "string \<Rightarrow> channel_route list \<Rightarrow> channel_route option" where
  "reauth_route user routes = find (\<lambda>r. cr_user r = user \<and> cr_enabled r) routes"

section \<open>Configurations\<close>

record oauth_config =
  oc_integration :: string
  oc_client_id :: string
  oc_client_secret :: string
  oc_authorize_url :: string
  oc_token_url :: string
  oc_scopes :: "string list"
  oc_callback_path :: string
  oc_use_pkce :: bool
  oc_extra_auth_params :: "(string \<times> string) list"

definition is_configured :: "oauth_config \<Rightarrow> bool" where
  "is_configured c \<longleftrightarrow> oc_client_id c \<noteq> [] \<and> oc_client_secret c \<noteq> []"

record oauth_settings =
  os_base_url :: string
  os_client :: "string \<Rightarrow> string \<times> string"

record discovery =
  ds_doc :: "(string \<times> string) list"
  ds_fetched_at :: int

definition discovery_ttl :: int where
  "discovery_ttl = 86400"

definition warm_intuit_discovery :: "int \<Rightarrow> (string \<times> string) list option \<Rightarrow> discovery \<Rightarrow> discovery" where
  \<comment> \<open>\<open>None\<close>: the request failed\<close>
  "warm_intuit_discovery now answer ds = (case answer of Some doc \<Rightarrow> \<lparr>ds_doc = doc, ds_fetched_at = now\<rparr> | None \<Rightarrow> ds)"

definition qbo_authorize_fallback :: string where
  "qbo_authorize_fallback = ''https://appcenter.intuit.com/connect/oauth2''"

definition qbo_token_fallback :: string where
  "qbo_token_fallback = ''https://oauth.platform.intuit.com/oauth2/v1/tokens/bearer''"

definition get_intuit_endpoints :: "int \<Rightarrow> discovery \<Rightarrow> string \<times> string" where
  "get_intuit_endpoints now ds =
     (if ds_doc ds \<noteq> [] \<and> now - ds_fetched_at ds < discovery_ttl
      then (case map_of (ds_doc ds) ''authorization_endpoint'' of Some u \<Rightarrow> u | None \<Rightarrow> qbo_authorize_fallback,
            case map_of (ds_doc ds) ''token_endpoint'' of Some u \<Rightarrow> u | None \<Rightarrow> qbo_token_fallback)
      else (qbo_authorize_fallback, qbo_token_fallback))"

definition google_params :: "(string \<times> string) list" where
  "google_params = [(''access_type'', ''offline''), (''prompt'', ''consent select_account'')]"

definition base_config :: "oauth_settings \<Rightarrow> string \<Rightarrow> string \<Rightarrow> string \<Rightarrow> string list \<Rightarrow> oauth_config" where
  "base_config cfg integration authorize token scopes =
     \<lparr>oc_integration = integration, oc_client_id = fst (os_client cfg integration), oc_client_secret = snd (os_client cfg integration),
      oc_authorize_url = authorize, oc_token_url = token, oc_scopes = scopes, oc_callback_path = ''/api/oauth/callback'',
      oc_use_pkce = True, oc_extra_auth_params = []\<rparr>"

definition google_config :: "oauth_settings \<Rightarrow> string \<Rightarrow> string list \<Rightarrow> oauth_config" where
  "google_config cfg integration scopes =
     (base_config cfg integration ''https://accounts.google.com/o/oauth2/v2/auth'' ''https://oauth2.googleapis.com/token'' scopes)
       \<lparr>oc_use_pkce := False, oc_extra_auth_params := google_params\<rparr>"

definition config_if_set :: "oauth_config \<Rightarrow> oauth_config option" where
  "config_if_set c = (if is_configured c then Some c else None)"

definition get_quickbooks_oauth_config :: "oauth_settings \<Rightarrow> int \<Rightarrow> discovery \<Rightarrow> oauth_config option" where
  "get_quickbooks_oauth_config cfg now ds =
     (let (authorize, token) = get_intuit_endpoints now ds
      in config_if_set (base_config cfg ''quickbooks'' authorize token [''com.intuit.quickbooks.accounting'']))"

definition get_google_calendar_oauth_config :: "oauth_settings \<Rightarrow> oauth_config option" where
  "get_google_calendar_oauth_config cfg = config_if_set (google_config cfg ''google_calendar''
     [''https://www.googleapis.com/auth/calendar.events'', ''https://www.googleapis.com/auth/calendar.readonly''])"

definition get_google_drive_oauth_config :: "oauth_settings \<Rightarrow> oauth_config option" where
  "get_google_drive_oauth_config cfg = config_if_set (google_config cfg ''google_drive''
     [''https://www.googleapis.com/auth/drive.file''])"

definition get_gmail_oauth_config :: "oauth_settings \<Rightarrow> oauth_config option" where
  "get_gmail_oauth_config cfg = config_if_set (google_config cfg ''gmail''
     [''https://www.googleapis.com/auth/gmail.readonly'', ''https://www.googleapis.com/auth/gmail.send''])"

definition get_companycam_oauth_config :: "oauth_settings \<Rightarrow> oauth_config option" where
  "get_companycam_oauth_config cfg = config_if_set
     ((base_config cfg ''companycam'' ''https://app.companycam.com/oauth/authorize'' ''https://app.companycam.com/oauth/token''
        [''read'', ''write'', ''destroy'']) \<lparr>oc_use_pkce := False\<rparr>)"

definition get_oauth_config :: "oauth_settings \<Rightarrow> int \<Rightarrow> discovery \<Rightarrow> string \<Rightarrow> oauth_config option" where
  "get_oauth_config cfg now ds integration =
     (if integration = ''quickbooks'' then get_quickbooks_oauth_config cfg now ds
      else if integration = ''google_calendar'' then get_google_calendar_oauth_config cfg
      else if integration = ''google_drive'' then get_google_drive_oauth_config cfg
      else if integration = ''gmail'' then get_gmail_oauth_config cfg
      else if integration = ''companycam'' then get_companycam_oauth_config cfg
      else None)"

definition list_oauth_integrations :: "string list" where
  "list_oauth_integrations = [''quickbooks'', ''google_calendar'', ''google_drive'', ''gmail'', ''companycam'']"

lemma oauth_config_names: "get_oauth_config cfg now ds integration = Some c \<Longrightarrow> oc_integration c = integration \<and> is_configured c"
  by (auto simp: get_oauth_config_def get_quickbooks_oauth_config_def get_google_calendar_oauth_config_def
      get_google_drive_oauth_config_def get_gmail_oauth_config_def get_companycam_oauth_config_def config_if_set_def
      base_config_def google_config_def split: if_splits prod.splits)

lemma callback_path: "get_oauth_config cfg now ds integration = Some c \<Longrightarrow> oc_callback_path c = ''/api/oauth/callback''"
  by (auto simp: get_oauth_config_def get_quickbooks_oauth_config_def get_google_calendar_oauth_config_def
      get_google_drive_oauth_config_def get_gmail_oauth_config_def get_companycam_oauth_config_def config_if_set_def
      base_config_def google_config_def split: if_splits prod.splits)

lemma oauth_config_listed: "get_oauth_config cfg now ds integration = Some c \<Longrightarrow> integration \<in> set list_oauth_integrations"
  by (auto simp: get_oauth_config_def list_oauth_integrations_def split: if_splits)

section \<open>Pending authorizations\<close>

record pending_state =
  pd_user :: string
  pd_integration :: string
  pd_verifier :: string
  pd_redirect :: string
  pd_expires_at :: int
  pd_source :: string

type_synonym pendings = "(string \<times> pending_state) list"

definition state_ttl :: int where
  "state_ttl = 600"

definition cleanup_expired_states :: "int \<Rightarrow> pendings \<Rightarrow> pendings" where
  "cleanup_expired_states now ps = filter (\<lambda>(k, v). \<not> pd_expires_at v < now) ps"

definition rstrip_slash :: "string \<Rightarrow> string" where
  "rstrip_slash s = rev (dropWhile (\<lambda>c. c = CHR ''/'') (rev s))"

definition authorization_params :: "oauth_config \<Rightarrow> string \<Rightarrow> string \<Rightarrow> string \<Rightarrow> (string \<times> string) list" where
  "authorization_params config redirect_uri state challenge =
     (let params = [(''client_id'', oc_client_id config), (''redirect_uri'', redirect_uri), (''response_type'', ''code''),
            (''scope'', py_join '' '' (oc_scopes config)), (''state'', state)];
          params = (if oc_use_pkce config
                    then AList.update ''code_challenge_method'' ''S256'' (AList.update ''code_challenge'' challenge params) else params)
      in fold (\<lambda>(k, v). AList.update k v) (oc_extra_auth_params config) params)"

text \<open>
  The state and the verifier are the random strings drawn for this call, \<open>challenge\<close> the digest of the verifier. The result
  is the address with its query parameters, before URL encoding.
\<close>

definition get_authorization_url ::
  "oauth_settings \<Rightarrow> int \<Rightarrow> string \<Rightarrow> string \<Rightarrow> string \<Rightarrow> oauth_config \<Rightarrow> string \<Rightarrow> string \<Rightarrow> pendings
     \<Rightarrow> (string \<times> (string \<times> string) list) \<times> pendings" where
  "get_authorization_url cfg now state verifier challenge config user source ps =
     (let redirect_uri = rstrip_slash (os_base_url cfg) @ oc_callback_path config
      in ((oc_authorize_url config, authorization_params config redirect_uri state challenge),
          AList.update state \<lparr>pd_user = user, pd_integration = oc_integration config, pd_verifier = verifier,
              pd_redirect = redirect_uri, pd_expires_at = now + state_ttl, pd_source = source\<rparr> (cleanup_expired_states now ps)))"

definition live_state :: "int \<Rightarrow> string \<Rightarrow> pendings \<Rightarrow> pending_state option" where
  "live_state now state ps =
     (case map_of ps state of None \<Rightarrow> None | Some pd \<Rightarrow> if pd_expires_at pd < now then None else Some pd)"

definition get_pending_state_integration :: "int \<Rightarrow> string \<Rightarrow> pendings \<Rightarrow> string option" where
  "get_pending_state_integration now state ps = map_option pd_integration (live_state now state ps)"

definition get_pending_state_source :: "int \<Rightarrow> string \<Rightarrow> pendings \<Rightarrow> string" where
  "get_pending_state_source now state ps = (case live_state now state ps of None \<Rightarrow> ''web'' | Some pd \<Rightarrow> pd_source pd)"

section \<open>Callback\<close>

text \<open>The token endpoint's answer to the code, as far as the code reads it.\<close>

record exchange_body =
  eb_access :: "string option"
  eb_refresh :: "string option"
  eb_type :: "string option"
  eb_expires_in :: "int option"
  eb_scope :: "json option"

record oauth_env =
  oe_settings :: oauth_settings
  oe_discovery :: discovery
  oe_exchange :: "string \<Rightarrow> string \<Rightarrow> string \<Rightarrow> string option \<Rightarrow> exchange_body option"
    \<comment> \<open>token URL, code, redirect URI and verifier; \<open>None\<close>: the request failed or was refused\<close>
  oe_account :: "string \<Rightarrow> string \<Rightarrow> json option"
    \<comment> \<open>the account endpoint of an integration under an access token\<close>
  oe_s256 :: "string \<Rightarrow> string"

datatype callback_error = Invalid_state | Expired_state | No_config string | Exchange_failed

definition exchange_code :: "oauth_env \<Rightarrow> int \<Rightarrow> oauth_config \<Rightarrow> string \<Rightarrow> string \<Rightarrow> string \<Rightarrow> token_data option" where
  "exchange_code env later config code redirect_uri verifier =
     (case oe_exchange env (oc_token_url config) code redirect_uri (if oc_use_pkce config then Some verifier else None) of
        None \<Rightarrow> None
      | Some body \<Rightarrow>
          map_option (\<lambda>access.
            \<lparr>td_access = access, td_refresh = (case eb_refresh body of Some r \<Rightarrow> r | None \<Rightarrow> []),
             td_type = (case eb_type body of Some t \<Rightarrow> t | None \<Rightarrow> ''Bearer''),
             td_expires_at = (case eb_expires_in body of Some n \<Rightarrow> later + n | None \<Rightarrow> 0),
             td_scopes = (case eb_scope body of Some (JStr s) \<Rightarrow> py_split s | _ \<Rightarrow> []), td_realm = [], td_extra = []\<rparr>)
            (eb_access body))"

definition identity_path :: "string \<Rightarrow> string list option" where
  "identity_path integration =
     (if integration = ''gmail'' then Some [''emailAddress'']
      else if integration = ''google_calendar'' then Some [''id'']
      else if integration = ''google_drive'' then Some [''user'', ''emailAddress'']
      else None)"

definition descend :: "json option \<Rightarrow> string \<Rightarrow> json option" where
  "descend v k = (case v of Some (JObj d) \<Rightarrow> map_of d k | _ \<Rightarrow> None)"

definition fetch_account_email :: "oauth_env \<Rightarrow> string \<Rightarrow> string \<Rightarrow> string" where
  "fetch_account_email env integration access =
     (case identity_path integration of
        None \<Rightarrow> []
      | Some path \<Rightarrow>
          if access = [] then []
          else (case foldl descend (oe_account env integration access) path of
                  Some (JStr s) \<Rightarrow> if CHR 0x40 \<in> set s then py_lower (py_strip s) else []
                | _ \<Rightarrow> []))"

definition label_account :: "string \<Rightarrow> token_data \<Rightarrow> token_data" where
  "label_account email t =
     (if email = [] then t else t\<lparr>td_extra := AList.update account_email_key (JStr email) (td_extra t)\<rparr>)"

text \<open>
  The callback takes the state out of the dictionary before anything else. The result is what it saves, for whom; \<open>later\<close> is
  the time when the exchange has answered.
\<close>

definition handle_callback ::
  "oauth_env \<Rightarrow> int \<Rightarrow> int \<Rightarrow> string \<Rightarrow> string \<Rightarrow> string \<Rightarrow> pendings
     \<Rightarrow> (callback_error + string \<times> string \<times> token_data) \<times> pendings" where
  "handle_callback env now later state code realm ps =
     (let left = AList.delete state ps
      in case map_of ps state of
           None \<Rightarrow> (Inl Invalid_state, left)
         | Some pd \<Rightarrow>
             if pd_expires_at pd < now then (Inl Expired_state, left)
             else (case get_oauth_config (oe_settings env) now (oe_discovery env) (pd_integration pd) of
                     None \<Rightarrow> (Inl (No_config (pd_integration pd)), left)
                   | Some config \<Rightarrow>
                       (case exchange_code env later config code (pd_redirect pd) (pd_verifier pd) of
                          None \<Rightarrow> (Inl Exchange_failed, left)
                        | Some t \<Rightarrow>
                            (let t1 = (if realm = [] then t else t\<lparr>td_realm := realm\<rparr>);
                                 t2 = label_account (fetch_account_email env (pd_integration pd) (td_access t1)) t1
                             in (Inr (pd_user pd, pd_integration pd, t2), left)))))"

section \<open>The callback endpoint\<close>

definition html_char :: "char \<Rightarrow> string" where
  "html_char c = (if c = CHR ''&'' then ''&amp;'' else if c = CHR ''<'' then ''&lt;'' else if c = CHR ''>'' then ''&gt;'' else [c])"

datatype callback_page =
    Redirect_error string  \<comment> \<open>the message before URL quoting\<close>
  | Redirect_success string
  | Chat_page bool string  \<comment> \<open>success, body of the page\<close>

definition chat_success :: "string \<Rightarrow> callback_page" where
  "chat_success integration = Chat_page True
     (''<p>'' @ title_from False (map (\<lambda>c. if c = CHR ''_'' then CHR '' '' else c) integration) @ '' has been connected successfully.</p>''
      @ ''<p>You can close this tab and go back to your chat.</p>'')"

definition chat_failure :: "string \<Rightarrow> callback_page" where
  "chat_failure message = Chat_page False
     (let safe = concat (map html_char message)
      in ''<p>'' @ (if safe = [] then ''Something went wrong. Please try again.'' else safe) @ ''</p>''
         @ ''<p>Go back to your chat and ask to try connecting again.</p>'')"

definition callback_failure :: "string \<Rightarrow> string \<Rightarrow> callback_page" where
  "callback_failure source message = (if source = ''chat'' then chat_failure message else Redirect_error message)"

definition callback_message :: "callback_error \<Rightarrow> string" where
  "callback_message e = (case e of
     Invalid_state \<Rightarrow> ''Invalid or expired OAuth state''
   | Expired_state \<Rightarrow> ''OAuth state has expired''
   | No_config i \<Rightarrow> ''No OAuth config for integration: '' @ i
   | Exchange_failed \<Rightarrow> ''Token exchange failed'')"

record callback_request =
  cq_code :: string
  cq_state :: string
  cq_realm :: string
  cq_error :: string
  cq_error_description :: string

definition oauth_callback ::
  "oauth_env \<Rightarrow> int \<Rightarrow> int \<Rightarrow> callback_request \<Rightarrow> pendings
     \<Rightarrow> callback_page \<times> (string \<times> string \<times> token_data) option \<times> pendings" where
  "oauth_callback env now later q ps =
     (let source = (if cq_state q \<noteq> [] then get_pending_state_source now (cq_state q) ps else ''web'')
      in if cq_error q \<noteq> []
         then (callback_failure source (if cq_error_description q \<noteq> [] then cq_error_description q else cq_error q), None, ps)
         else if cq_code q = [] \<or> cq_state q = [] then (callback_failure source ''Missing authorization code'', None, ps)
         else (let integration = get_pending_state_integration now (cq_state q) ps;
                   name = (case integration of Some i \<Rightarrow> if i = [] then ''unknown'' else i | None \<Rightarrow> ''unknown'')
               in case handle_callback env now later (cq_state q) (cq_code q) (cq_realm q) ps of
                    (Inl e, ps') \<Rightarrow> (callback_failure source (callback_message e), None, ps')
                  | (Inr saved, ps') \<Rightarrow> ((if source = ''chat'' then chat_success name else Redirect_success name), Some saved, ps')))"

definition authorize_endpoint ::
  "oauth_env \<Rightarrow> int \<Rightarrow> string \<Rightarrow> string \<Rightarrow> string \<Rightarrow> string \<Rightarrow> string \<Rightarrow> pendings
     \<Rightarrow> (string \<times> (string \<times> string) list) option \<times> pendings" where
  \<comment> \<open>\<open>None\<close>: status 400\<close>
  "authorize_endpoint env now integration user source state verifier ps =
     (case get_oauth_config (oe_settings env) now (oe_discovery env) integration of
        None \<Rightarrow> (None, ps)
      | Some config \<Rightarrow>
          (let (url, ps') = get_authorization_url (oe_settings env) now state verifier (oe_s256 env verifier) config user source ps
           in (Some url, ps')))"
text \<open>
  A run of one process: browsers and chats start flows, callbacks arrive with whatever parameters a client puts into them.
\<close>

datatype flow_op =
    Authorize string string string string string  \<comment> \<open>integration, user, source, state and verifier drawn\<close>
  | Callback callback_request

record flow =
  fl_pending :: pendings
  fl_connected :: "(int \<times> string \<times> string \<times> string \<times> token_data) list"
    \<comment> \<open>what was saved: time of the callback, state, user, integration, token\<close>

fun flow_step :: "oauth_env \<Rightarrow> int \<times> int \<times> flow_op \<Rightarrow> flow \<Rightarrow> flow" where
  "flow_step env (now, later, Authorize integration user source state verifier) fl =
     fl\<lparr>fl_pending := snd (authorize_endpoint env now integration user source state verifier (fl_pending fl))\<rparr>"
| "flow_step env (now, later, Callback q) fl =
     (case oauth_callback env now later q (fl_pending fl) of
        (page, None, ps) \<Rightarrow> fl\<lparr>fl_pending := ps\<rparr>
      | (page, Some (user, integration, t), ps) \<Rightarrow>
          \<lparr>fl_pending = ps, fl_connected = fl_connected fl @ [(now, cq_state q, user, integration, t)]\<rparr>)"

definition flow_run :: "oauth_env \<Rightarrow> (int \<times> int \<times> flow_op) list \<Rightarrow> flow" where
  "flow_run env ops = fold (flow_step env) ops \<lparr>fl_pending = [], fl_connected = []\<rparr>"

fun state_drawn :: "int \<times> int \<times> flow_op \<Rightarrow> string list" where
  "state_drawn (now, later, Authorize integration user source state verifier) = [state]"
| "state_drawn (now, later, Callback q) = []"

definition states_drawn :: "(int \<times> int \<times> flow_op) list \<Rightarrow> string list" where
  "states_drawn ops = concat (map state_drawn ops)"

definition started :: "oauth_env \<Rightarrow> (int \<times> int \<times> flow_op) list \<Rightarrow> string \<Rightarrow> pending_state \<Rightarrow> bool" where
  \<comment> \<open>the pending state is the one an authorization of the run made under this state\<close>
  "started env ops state pd \<longleftrightarrow>
     (\<exists>now later source config.
        (now, later, Authorize (pd_integration pd) (pd_user pd) source state (pd_verifier pd)) \<in> set ops
        \<and> get_oauth_config (oe_settings env) now (oe_discovery env) (pd_integration pd) = Some config
        \<and> pd_redirect pd = rstrip_slash (os_base_url (oe_settings env)) @ oc_callback_path config
        \<and> pd_expires_at pd = now + state_ttl)"

definition redeemed :: "oauth_env \<Rightarrow> int \<Rightarrow> pending_state \<Rightarrow> token_data \<Rightarrow> bool" where
  \<comment> \<open>the token is the answer to an exchange with the verifier and the redirect address of the pending state\<close>
  "redeemed env now pd t \<longleftrightarrow>
     now \<le> pd_expires_at pd
     \<and> (\<exists>config code body.
           get_oauth_config (oe_settings env) now (oe_discovery env) (pd_integration pd) = Some config
           \<and> oe_exchange env (oc_token_url config) code (pd_redirect pd)
               (if oc_use_pkce config then Some (pd_verifier pd) else None) = Some body
           \<and> eb_access body = Some (td_access t))"

section \<open>Tokens and their cache\<close>

type_synonym token_key = "string \<times> string"
  \<comment> \<open>user and integration, unique in the table\<close>

type_synonym token_table = "token_key \<Rightarrow> token_data option"

type_synonym token_cache = "token_key \<Rightarrow> (token_data option \<times> int) option"

definition positive_ttl :: int where
  "positive_ttl = 30"

definition negative_ttl :: int where
  "negative_ttl = 5"

definition cache_hit :: "int \<Rightarrow> token_key \<Rightarrow> token_cache \<Rightarrow> token_data option option" where
  "cache_hit now k c = (case c k of Some (v, until) \<Rightarrow> if now < until then Some v else None | None \<Rightarrow> None)"

definition cache_put :: "int \<Rightarrow> token_key \<Rightarrow> token_data option \<Rightarrow> token_cache \<Rightarrow> token_cache" where
  \<comment> \<open>\<open>now\<close> is the time read before the query\<close>
  "cache_put now k v c = c(k \<mapsto> (v, now + (case v of None \<Rightarrow> negative_ttl | Some t \<Rightarrow> positive_ttl)))"

definition cache_drop :: "token_key \<Rightarrow> token_cache \<Rightarrow> token_cache" where
  "cache_drop k c = c(k := None)"

record token_store =
  ts_table :: token_table
  ts_cache :: token_cache

definition load_token :: "int \<Rightarrow> token_key \<Rightarrow> token_store \<Rightarrow> token_data option \<times> token_store" where
  "load_token now k st =
     (case cache_hit now k (ts_cache st) of
        Some v \<Rightarrow> (v, st)
      | None \<Rightarrow> (ts_table st k, st\<lparr>ts_cache := cache_put now k (ts_table st k) (ts_cache st)\<rparr>))"

definition load_token_uncached :: "int \<Rightarrow> token_key \<Rightarrow> token_store \<Rightarrow> token_data option \<times> token_store" where
  "load_token_uncached now k st = load_token now k (st\<lparr>ts_cache := cache_drop k (ts_cache st)\<rparr>)"

definition save_token :: "token_key \<Rightarrow> token_data \<Rightarrow> token_store \<Rightarrow> token_store" where
  "save_token k t st = \<lparr>ts_table = (ts_table st)(k \<mapsto> t), ts_cache = cache_drop k (ts_cache st)\<rparr>"

definition delete_token :: "token_key \<Rightarrow> token_store \<Rightarrow> bool \<times> token_store" where
  "delete_token k st =
     (ts_table st k \<noteq> None, \<lparr>ts_table = (ts_table st)(k := None), ts_cache = cache_drop k (ts_cache st)\<rparr>)"

definition is_connected :: "int \<Rightarrow> token_key \<Rightarrow> token_store \<Rightarrow> bool \<times> token_store" where
  "is_connected now k st =
     (let (v, st') = load_token now k st
      in (case v of None \<Rightarrow> False | Some t \<Rightarrow> if \<not> is_expired now t then True else td_refresh t \<noteq> [], st'))"

definition get_account_email :: "int \<Rightarrow> token_key \<Rightarrow> token_store \<Rightarrow> string \<times> token_store" where
  "get_account_email now k st =
     (let (v, st') = load_token now k st
      in (case v of None \<Rightarrow> [] | Some t \<Rightarrow> account_email_from_extra (td_extra t), st'))"

record status_entry =
  se_integration :: string
  se_configured :: bool
  se_connected :: bool
  se_email :: "string option"

fun oauth_status :: "oauth_env \<Rightarrow> int \<Rightarrow> string \<Rightarrow> string list \<Rightarrow> token_store \<Rightarrow> status_entry list \<times> token_store" where
  "oauth_status env now user [] st = ([], st)"
| "oauth_status env now user (name # names) st =
     (let (connected, st1) = is_connected now (user, name) st;
          (email, st2) = (if connected then get_account_email now (user, name) st1 else ([], st1));
          (entries, st3) = oauth_status env now user names st2
      in (\<lparr>se_integration = name, se_configured = (get_oauth_config (oe_settings env) now (oe_discovery env) name \<noteq> None),
           se_connected = connected, se_email = (if email = [] then None else Some email)\<rparr> # entries, st3))"

text \<open>Rows the background sweep refreshes: about to expire, renewable, of a user heard from in two weeks.\<close>

definition refresh_lookahead :: int where
  "refresh_lookahead = 360"

definition activity_window :: int where
  "activity_window = 14 * 86400"

definition active_user :: "int \<Rightarrow> channel_route list \<Rightarrow> string \<Rightarrow> bool" where
  "active_user now routes user \<longleftrightarrow>
     (\<exists>r \<in> set routes. cr_user r = user
        \<and> (case cr_last_inbound r of None \<Rightarrow> False | Some t \<Rightarrow> now - activity_window < t))"

definition sweep_due :: "int \<Rightarrow> channel_route list \<Rightarrow> token_key \<Rightarrow> token_data \<Rightarrow> bool" where
  "sweep_due now routes k t \<longleftrightarrow>
     0 < td_expires_at t \<and> td_expires_at t < now + refresh_lookahead \<and> td_refresh t \<noteq> [] \<and> active_user now routes (fst k)"

definition sweep_rows :: "int \<Rightarrow> channel_route list \<Rightarrow> (token_key \<times> token_data) list \<Rightarrow> token_key list" where
  "sweep_rows now routes rows = map fst (filter (\<lambda>(k, t). sweep_due now routes k t) rows)"

section \<open>The store as an interface\<close>

text \<open>What the callers rely on, whatever the store keeps besides the rows.\<close>

locale credential_store =
  fixes ok :: "'s \<Rightarrow> bool"
    and view :: "'s \<Rightarrow> token_table"
    and load :: "int \<Rightarrow> token_key \<Rightarrow> 's \<Rightarrow> token_data option \<times> 's"
    and save :: "token_key \<Rightarrow> token_data \<Rightarrow> 's \<Rightarrow> 's"
    and remove :: "token_key \<Rightarrow> 's \<Rightarrow> bool \<times> 's"
  assumes load_answer: "ok s \<Longrightarrow> fst (load now k s) = view s k"
    and load_ok: "ok s \<Longrightarrow> ok (snd (load now k s))"
    and load_view: "ok s \<Longrightarrow> view (snd (load now k s)) = view s"
    and save_ok: "ok s \<Longrightarrow> ok (save k t s)"
    and save_view: "ok s \<Longrightarrow> view (save k t s) = (view s)(k \<mapsto> t)"
    and remove_answer: "ok s \<Longrightarrow> fst (remove k s) \<longleftrightarrow> view s k \<noteq> None"
    and remove_ok: "ok s \<Longrightarrow> ok (snd (remove k s))"
    and remove_view: "ok s \<Longrightarrow> view (snd (remove k s)) = (view s)(k := None)"
begin

lemma load_after_save: "ok s \<Longrightarrow> fst (load now k (save k t s)) = Some t"
  by (simp add: load_answer save_ok save_view)

lemma load_after_remove: "ok s \<Longrightarrow> fst (load now k (snd (remove k s))) = None"
  by (simp add: load_answer remove_ok remove_view)

end

datatype store_op = Load token_key | Save token_key token_data | Delete token_key

datatype store_answer = Loaded "token_data option" | Saved | Deleted bool

fun store_answers ::
  "(int \<Rightarrow> token_key \<Rightarrow> 's \<Rightarrow> token_data option \<times> 's) \<Rightarrow> (token_key \<Rightarrow> token_data \<Rightarrow> 's \<Rightarrow> 's)
     \<Rightarrow> (token_key \<Rightarrow> 's \<Rightarrow> bool \<times> 's) \<Rightarrow> (int \<times> store_op) list \<Rightarrow> 's \<Rightarrow> store_answer list" where
  "store_answers load save remove [] s = []"
| "store_answers load save remove ((now, Load k) # ops) s =
     (let (v, s') = load now k s in Loaded v # store_answers load save remove ops s')"
| "store_answers load save remove ((now, Save k t) # ops) s = Saved # store_answers load save remove ops (save k t s)"
| "store_answers load save remove ((now, Delete k) # ops) s =
     (let (b, s') = remove k s in Deleted b # store_answers load save remove ops s')"

definition read_table :: "int \<Rightarrow> token_key \<Rightarrow> token_table \<Rightarrow> token_data option \<times> token_table" where
  "read_table now k tab = (tab k, tab)"

definition upsert_row :: "token_key \<Rightarrow> token_data \<Rightarrow> token_table \<Rightarrow> token_table" where
  "upsert_row k t tab = tab(k \<mapsto> t)"

definition delete_row :: "token_key \<Rightarrow> token_table \<Rightarrow> bool \<times> token_table" where
  "delete_row k tab = (tab k \<noteq> None, tab(k := None))"

context credential_store
begin

lemma store_answers_view:
  "ok s \<Longrightarrow> store_answers load save remove ops s = store_answers read_table upsert_row delete_row ops (view s)"
proof (induction ops arbitrary: s)
  case (Cons op ops)
  obtain now o' where op: "op = (now, o')" by fastforce
  show ?case
  proof (cases o')
    case (Load k)
    obtain v s' where l: "load now k s = (v, s')" by fastforce
    then have "v = view s k" "ok s'" "view s' = view s"
      using load_answer [OF Cons.prems, of now k] load_ok [OF Cons.prems, of now k] load_view [OF Cons.prems, of now k] by simp_all
    then show ?thesis using Cons.IH [of s'] l by (simp add: op Load read_table_def)
  next
    case (Save k t)
    then show ?thesis using Cons.IH [OF save_ok [OF Cons.prems]] save_view [OF Cons.prems] by (simp add: op Save upsert_row_def)
  next
    case (Delete k)
    obtain b s' where l: "remove k s = (b, s')" by fastforce
    then have "b \<longleftrightarrow> view s k \<noteq> None" "ok s'" "view s' = (view s)(k := None)"
      using remove_answer [OF Cons.prems, of k] remove_ok [OF Cons.prems, of k] remove_view [OF Cons.prems, of k] by simp_all
    then show ?thesis using Cons.IH [of s'] l by (simp add: op Delete delete_row_def fun_upd_def)
  qed
qed simp

end

text \<open>The cache agrees with the table as long as this process is the only writer.\<close>

definition coherent :: "token_store \<Rightarrow> bool" where
  "coherent st \<longleftrightarrow> (\<forall>k v until. ts_cache st k = Some (v, until) \<longrightarrow> v = ts_table st k)"

interpretation plain: credential_store "\<lambda>_. True" "\<lambda>tab. tab" read_table upsert_row delete_row
  by unfold_locales (simp_all add: read_table_def upsert_row_def delete_row_def)

lemma coherent_load:
  assumes "coherent st"
  shows "load_token now k st = (ts_table st k, snd (load_token now k st))"
    and "ts_table (snd (load_token now k st)) = ts_table st" and "coherent (snd (load_token now k st))"
proof -
  show "load_token now k st = (ts_table st k, snd (load_token now k st))"
  proof (cases "cache_hit now k (ts_cache st)")
    case (Some v)
    then obtain until where "ts_cache st k = Some (v, until)" by (auto simp: cache_hit_def split: option.splits if_splits)
    then have "v = ts_table st k" using assms unfolding coherent_def by blast
    then show ?thesis using Some by (simp add: load_token_def)
  qed (simp add: load_token_def)
  show "ts_table (snd (load_token now k st)) = ts_table st"
    by (simp add: load_token_def split: option.split)
  show "coherent (snd (load_token now k st))"
    using assms by (simp add: load_token_def coherent_def cache_put_def split: option.split)
qed

lemma coherent_drop: "coherent st \<Longrightarrow> coherent \<lparr>ts_table = (ts_table st)(k := v), ts_cache = cache_drop k (ts_cache st)\<rparr>"
  by (simp add: coherent_def cache_drop_def)

interpretation cached: credential_store coherent ts_table load_token save_token delete_token
proof unfold_locales
  fix st now k
  assume st: "coherent st"
  show "fst (load_token now k st) = ts_table st k" by (metis coherent_load(1) fst_conv st)
  show "coherent (snd (load_token now k st))" by (rule coherent_load(3) [OF st])
  show "ts_table (snd (load_token now k st)) = ts_table st" by (rule coherent_load(2) [OF st])
next
  fix st k t
  assume "coherent st"
  then show "coherent (save_token k t st)" by (simp only: save_token_def coherent_drop)
  show "ts_table (save_token k t st) = (ts_table st)(k \<mapsto> t)" by (simp add: save_token_def)
next
  fix st k
  assume "coherent st"
  then show "coherent (snd (delete_token k st))" by (simp only: delete_token_def coherent_drop snd_conv)
  show "fst (delete_token k st) \<longleftrightarrow> ts_table st k \<noteq> None" by (simp only: delete_token_def fst_conv)
  show "ts_table (snd (delete_token k st)) = (ts_table st)(k := None)" by (simp add: delete_token_def)
qed

text \<open>
  In a single process the token cache cannot be seen: over any sequence of loads, saves and deletions, at any times, every
  load and every deletion answers what the table alone would answer.
\<close>

theorem cache_is_transparent:
  "store_answers load_token save_token delete_token ops \<lparr>ts_table = tab, ts_cache = Map.empty\<rparr>
   = store_answers read_table upsert_row delete_row ops tab"
  using cached.store_answers_view [of "\<lparr>ts_table = tab, ts_cache = Map.empty\<rparr>" ops] by (simp add: coherent_def)

section \<open>Properties of the flows\<close>

lemma started_more: "started env ops state pd \<Longrightarrow> started env (ops @ [op]) state pd"
  by (auto simp: started_def)

lemma map_of_cleanup: "map_of (cleanup_expired_states now ps) state = Some pd \<Longrightarrow> distinct (map fst ps) \<Longrightarrow> map_of ps state = Some pd"
  by (auto simp: cleanup_expired_states_def distinct_map_filter dest!: map_of_SomeD intro!: map_of_is_SomeI)

lemma keys_cleanup: "set (map fst (cleanup_expired_states now ps)) \<subseteq> set (map fst ps)"
  by (auto simp: cleanup_expired_states_def)

lemma distinct_cleanup: "distinct (map fst ps) \<Longrightarrow> distinct (map fst (cleanup_expired_states now ps))"
  by (simp add: cleanup_expired_states_def distinct_map_filter)

text \<open>What an authorization and a callback do to the dictionary.\<close>

lemma authorize_cases:
  assumes "authorize_endpoint env now integration user source state verifier ps = (r, ps')"
  obtains "r = None" and "ps' = ps"
  | config where "get_oauth_config (oe_settings env) now (oe_discovery env) integration = Some config"
    and "ps' = AList.update state \<lparr>pd_user = user, pd_integration = integration, pd_verifier = verifier,
              pd_redirect = rstrip_slash (os_base_url (oe_settings env)) @ oc_callback_path config,
              pd_expires_at = now + state_ttl, pd_source = source\<rparr> (cleanup_expired_states now ps)"
proof (cases "get_oauth_config (oe_settings env) now (oe_discovery env) integration")
  case None
  then show ?thesis using assms that(1) by (simp add: authorize_endpoint_def)
next
  case (Some config)
  then show ?thesis using assms that(2) oauth_config_names [OF Some]
    by (simp add: authorize_endpoint_def get_authorization_url_def Let_def)
qed

lemma exchange_redeems:
  assumes "get_oauth_config (oe_settings env) now (oe_discovery env) (pd_integration pd) = Some config"
    and "exchange_code env later config code (pd_redirect pd) (pd_verifier pd) = Some t" and "now \<le> pd_expires_at pd"
    and "td_access t' = td_access t"
  shows "redeemed env now pd t'"
proof -
  obtain body where "oe_exchange env (oc_token_url config) code (pd_redirect pd)
      (if oc_use_pkce config then Some (pd_verifier pd) else None) = Some body"
    and "eb_access body = Some (td_access t)"
    using assms(2) unfolding exchange_code_def by (cases "oe_exchange env (oc_token_url config) code (pd_redirect pd)
      (if oc_use_pkce config then Some (pd_verifier pd) else None)") auto
  then show ?thesis using assms(1,3,4) unfolding redeemed_def by metis
qed

lemma callback_saved:
  assumes "handle_callback env now later state code realm ps = (Inr (user, integration, t), ps')"
  obtains pd where "map_of ps state = Some pd" and "pd_user pd = user" and "pd_integration pd = integration"
    and "redeemed env now pd t" and "ps' = AList.delete state ps"
proof -
  obtain pd where pd: "map_of ps state = Some pd"
    using assms by (cases "map_of ps state") (auto simp: handle_callback_def Let_def)
  have live: "now \<le> pd_expires_at pd"
    using assms pd by (simp add: handle_callback_def Let_def split: if_splits)
  obtain config where c: "get_oauth_config (oe_settings env) now (oe_discovery env) (pd_integration pd) = Some config"
    using assms pd live by (auto simp: handle_callback_def Let_def split: option.splits)
  obtain t0 where t0: "exchange_code env later config code (pd_redirect pd) (pd_verifier pd) = Some t0"
    using assms pd live c by (auto simp: handle_callback_def Let_def split: option.splits)
  have res: "pd_user pd = user" "pd_integration pd = integration" "td_access t = td_access t0" "ps' = AList.delete state ps"
    using assms pd live c t0 by (auto simp: handle_callback_def label_account_def Let_def)
  show ?thesis using that [OF pd res(1,2) exchange_redeems [OF c t0 live res(3)] res(4)] .
qed

lemma callback_pending: "snd (handle_callback env now later state code realm ps) = AList.delete state ps"
  by (simp add: handle_callback_def Let_def split: option.split)

lemma oauth_callback_cases:
  assumes "oauth_callback env now later q ps = (page, saved, ps')"
  obtains "saved = None" and "ps' = ps"
  | "saved = None" and "ps' = AList.delete (cq_state q) ps"
  | user integration t where "saved = Some (user, integration, t)"
    and "handle_callback env now later (cq_state q) (cq_code q) (cq_realm q) ps = (Inr (user, integration, t), ps')"
proof -
  obtain r ps2 where h: "handle_callback env now later (cq_state q) (cq_code q) (cq_realm q) ps = (r, ps2)" by fastforce
  have del: "ps2 = AList.delete (cq_state q) ps" using callback_pending [of env now later "cq_state q" "cq_code q" "cq_realm q" ps] h by simp
  consider "saved = None" "ps' = ps" | e where "r = Inl e" "saved = None" "ps' = ps2"
    | s where "r = Inr s" "saved = Some s" "ps' = ps2"
    using assms h by (cases r) (auto simp: oauth_callback_def Let_def split: if_splits)
  then show ?thesis
  proof cases
    case 3
    then show ?thesis using that(3) h by (metis prod_cases3)
  qed (use that(1,2) del in auto)
qed

definition flow_ok :: "oauth_env \<Rightarrow> (int \<times> int \<times> flow_op) list \<Rightarrow> flow \<Rightarrow> bool" where
  "flow_ok env ops fl \<longleftrightarrow>
     distinct (map fst (fl_pending fl)) \<and> set (map fst (fl_pending fl)) \<subseteq> set (states_drawn ops)
     \<and> (\<forall>state pd. map_of (fl_pending fl) state = Some pd \<longrightarrow> started env ops state pd)
     \<and> distinct (map (fst \<circ> snd) (fl_connected fl)) \<and> set (map (fst \<circ> snd) (fl_connected fl)) \<subseteq> set (states_drawn ops)
     \<and> set (map (fst \<circ> snd) (fl_connected fl)) \<inter> set (map fst (fl_pending fl)) = {}
     \<and> (\<forall>(now, state, user, integration, t) \<in> set (fl_connected fl).
          \<exists>pd. started env ops state pd \<and> pd_user pd = user \<and> pd_integration pd = integration \<and> redeemed env now pd t)"
lemma states_drawn_snoc: "states_drawn (ops @ [op]) = states_drawn ops @ state_drawn op"
  by (simp add: states_drawn_def)

lemma flow_ok_more:
  assumes "flow_ok env ops fl"
  shows "flow_ok env (ops @ [op]) fl"
proof -
  have "\<exists>pd. started env (ops @ [op]) state pd \<and> pd_user pd = user \<and> pd_integration pd = integration \<and> redeemed env now pd t"
    if "(now, state, user, integration, t) \<in> set (fl_connected fl)" for now state user integration t
    using assms that started_more [of env ops state _ op] unfolding flow_ok_def by blast
  moreover have "started env (ops @ [op]) state pd" if "map_of (fl_pending fl) state = Some pd" for state pd
    using assms that started_more by (simp add: flow_ok_def)
  ultimately show ?thesis using assms by (auto simp: flow_ok_def states_drawn_snoc)
qed

lemma keys_update_set: "set (map fst (AList.update k v ps)) = insert k (set (map fst ps))"
  by (induction ps) auto

lemma map_of_key: "map_of ps k = Some v \<Longrightarrow> k \<in> set (map fst ps)"
  by (auto dest: map_of_SomeD intro: rev_image_eqI)

lemma flow_ok_authorize:
  assumes ok: "flow_ok env ops fl" and new: "state \<notin> set (states_drawn ops)"
  shows "flow_ok env (ops @ [(now, later, Authorize integration user source state verifier)])
           (flow_step env (now, later, Authorize integration user source state verifier) fl)"
    (is "flow_ok env ?ops _")
proof -
  obtain r ps' where a: "authorize_endpoint env now integration user source state verifier (fl_pending fl) = (r, ps')" by fastforce
  show ?thesis
  proof (rule authorize_cases [OF a])
    assume "ps' = fl_pending fl"
    then show ?thesis using flow_ok_more [OF ok] a by simp
  next
    fix config
    assume c: "get_oauth_config (oe_settings env) now (oe_discovery env) integration = Some config"
    let ?pd = "\<lparr>pd_user = user, pd_integration = integration, pd_verifier = verifier,
              pd_redirect = rstrip_slash (os_base_url (oe_settings env)) @ oc_callback_path config,
              pd_expires_at = now + state_ttl, pd_source = source\<rparr>"
    assume ps': "ps' = AList.update state ?pd (cleanup_expired_states now (fl_pending fl))"
    have st: "started env ?ops state ?pd" using c unfolding started_def by fastforce
    have d: "distinct (map fst (fl_pending fl))" and k: "set (map fst (fl_pending fl)) \<subseteq> set (states_drawn ops)"
      and p: "\<And>state pd. map_of (fl_pending fl) state = Some pd \<Longrightarrow> started env ops state pd"
      and x: "set (map (fst \<circ> snd) (fl_connected fl)) \<inter> set (map fst (fl_pending fl)) = {}"
      and y: "set (map (fst \<circ> snd) (fl_connected fl)) \<subseteq> set (states_drawn ops)"
      using ok by (simp_all add: flow_ok_def)
    have ks: "set (map fst ps') \<subseteq> insert state (set (map fst (fl_pending fl)))"
      using keys_cleanup [of now "fl_pending fl"] unfolding ps' keys_update_set by blast
    have "distinct (map fst ps')" unfolding ps' by (rule distinct_update) (rule distinct_cleanup [OF d])
    moreover have "set (map fst ps') \<subseteq> set (states_drawn ?ops)" using ks k by (auto simp: states_drawn_snoc)
    moreover have "started env ?ops s pd" if "map_of ps' s = Some pd" for s pd
      using that st p [THEN started_more] map_of_cleanup [OF _ d] unfolding ps'
      by (auto simp: update_conv split: if_splits)
    moreover have "set (map (fst \<circ> snd) (fl_connected fl)) \<inter> set (map fst ps') = {}" using ks x y new by blast
    ultimately show ?thesis using flow_ok_more [OF ok, of "(now, later, Authorize integration user source state verifier)"] a
      unfolding flow_ok_def by simp
  qed
qed

lemma map_of_removed: "map_of (AList.delete k ps) s = Some v \<Longrightarrow> map_of ps s = Some v"
  by (simp add: delete_conv split: if_splits)

lemma flow_ok_removed:
  assumes "flow_ok env ops fl"
  shows "flow_ok env ops (fl\<lparr>fl_pending := AList.delete state (fl_pending fl)\<rparr>)"
proof -
  have "set (map fst (AList.delete state (fl_pending fl))) \<subseteq> set (map fst (fl_pending fl))"
    by (auto simp: delete_keys)
  moreover have "distinct (map fst (AList.delete state (fl_pending fl)))"
    using assms by (simp add: flow_ok_def distinct_delete)
  moreover have "started env ops s pd" if "map_of (AList.delete state (fl_pending fl)) s = Some pd" for s pd
    using assms map_of_removed [OF that] by (simp add: flow_ok_def)
  ultimately show ?thesis using assms unfolding flow_ok_def
    by (cases fl) (simp only: flow.simps, blast)
qed

lemma flow_ok_callback:
  assumes ok: "flow_ok env ops fl"
  shows "flow_ok env (ops @ [(now, later, Callback q)]) (flow_step env (now, later, Callback q) fl)" (is "flow_ok env ?ops _")
proof -
  obtain page saved ps' where c: "oauth_callback env now later q (fl_pending fl) = (page, saved, ps')" using prod_cases3 by blast
  have ok': "flow_ok env ?ops (fl\<lparr>fl_pending := AList.delete (cq_state q) (fl_pending fl)\<rparr>)"
    by (rule flow_ok_removed [OF flow_ok_more [OF ok]])
  show ?thesis
  proof (rule oauth_callback_cases [OF c])
    assume "saved = None" "ps' = fl_pending fl"
    then show ?thesis using flow_ok_more [OF ok] c by simp
  next
    assume "saved = None" "ps' = AList.delete (cq_state q) (fl_pending fl)"
    then show ?thesis using ok' c by simp
  next
    fix user integration t
    assume s: "saved = Some (user, integration, t)"
      and h: "handle_callback env now later (cq_state q) (cq_code q) (cq_realm q) (fl_pending fl) = (Inr (user, integration, t), ps')"
    obtain pd where pd: "map_of (fl_pending fl) (cq_state q) = Some pd" "pd_user pd = user" "pd_integration pd = integration"
        "redeemed env now pd t" "ps' = AList.delete (cq_state q) (fl_pending fl)"
      using callback_saved [OF h] by metis
    have "started env ?ops (cq_state q) pd" using pd(1) flow_ok_more [OF ok, of "(now, later, Callback q)"] by (simp add: flow_ok_def)
    moreover have "cq_state q \<in> set (map fst (fl_pending fl))" using map_of_key [OF pd(1)] .
    then have "cq_state q \<notin> set (map (fst \<circ> snd) (fl_connected fl))" "cq_state q \<in> set (states_drawn ?ops)"
      using ok unfolding flow_ok_def states_drawn_snoc by auto
    ultimately show ?thesis using ok' c s pd(2-5) unfolding flow_ok_def
      by (auto simp: delete_keys)
  qed
qed

lemma flow_run_snoc: "flow_run env (ops @ [op]) = flow_step env op (flow_run env ops)"
  by (simp add: flow_run_def)

lemma flow_run_ok: "distinct (states_drawn ops) \<Longrightarrow> flow_ok env ops (flow_run env ops)"
proof (induction ops rule: rev_induct)
  case Nil
  show ?case by (simp add: flow_run_def flow_ok_def states_drawn_def)
next
  case (snoc op ops)
  obtain now later o' where op: "op = (now, later, o')" using prod_cases3 by blast
  show ?case
  proof (cases o')
    case (Authorize integration user source state verifier)
    then show ?thesis using snoc op flow_ok_authorize [of env ops "flow_run env ops" state]
      by (simp add: flow_run_snoc states_drawn_snoc)
  next
    case (Callback q)
    then show ?thesis using snoc op flow_ok_callback by (simp add: flow_run_snoc states_drawn_snoc)
  qed
qed

text \<open>
  C20. Connections come only from flows their user started. Whatever callbacks arrive, in any order, with any state, code or
  error: each token saved was saved for a user and an integration that started a flow under that state at most ten minutes
  before, was obtained with that flow's own PKCE verifier and redirect address, and no state ever saves a second token. The
  hypothesis is that the random states drawn differ.
\<close>

theorem connection_was_started:
  assumes "distinct (states_drawn ops)" and "(now, state, user, integration, t) \<in> set (fl_connected (flow_run env ops))"
  shows "distinct (map (fst \<circ> snd) (fl_connected (flow_run env ops)))
    \<and> (\<exists>started_at later source verifier config code body.
      (started_at, later, Authorize integration user source state verifier) \<in> set ops \<and> now \<le> started_at + 600
      \<and> get_oauth_config (oe_settings env) now (oe_discovery env) integration = Some config
      \<and> oe_exchange env (oc_token_url config) code (rstrip_slash (os_base_url (oe_settings env)) @ ''/api/oauth/callback'')
          (if oc_use_pkce config then Some verifier else None) = Some body
      \<and> eb_access body = Some (td_access t))"
proof
  have ok: "flow_ok env ops (flow_run env ops)" by (rule flow_run_ok [OF assms(1)])
  then show "distinct (map (fst \<circ> snd) (fl_connected (flow_run env ops)))" by (simp add: flow_ok_def)
  obtain pd where pd: "started env ops state pd" "pd_user pd = user" "pd_integration pd = integration" "redeemed env now pd t"
    using ok assms(2) unfolding flow_ok_def by blast
  obtain n l src c where s: "(n, l, Authorize integration user src state (pd_verifier pd)) \<in> set ops" "pd_expires_at pd = n + state_ttl"
      "pd_redirect pd = rstrip_slash (os_base_url (oe_settings env)) @ ''/api/oauth/callback''"
    using pd(1-3) callback_path unfolding started_def by metis
  then show "\<exists>started_at later source verifier config code body.
      (started_at, later, Authorize integration user source state verifier) \<in> set ops \<and> now \<le> started_at + 600
      \<and> get_oauth_config (oe_settings env) now (oe_discovery env) integration = Some config
      \<and> oe_exchange env (oc_token_url config) code (rstrip_slash (os_base_url (oe_settings env)) @ ''/api/oauth/callback'')
          (if oc_use_pkce config then Some verifier else None) = Some body
      \<and> eb_access body = Some (td_access t)"
    using pd(3,4) unfolding redeemed_def state_ttl_def by metis
qed
definition flow_env :: oauth_env where
  "flow_env =
     \<lparr>oe_settings = \<lparr>os_base_url = ''https://bolt.example/'', os_client = (\<lambda>_. (''id'', ''secret''))\<rparr>,
      oe_discovery = \<lparr>ds_doc = [], ds_fetched_at = 0\<rparr>,
      oe_exchange = (\<lambda>url code redirect verifier. if code = ''c1''
        then Some \<lparr>eb_access = Some ''a1'', eb_refresh = Some ''r1'', eb_type = None, eb_expires_in = Some 3600, eb_scope = None\<rparr> else None),
      oe_account = (\<lambda>_ _. None), oe_s256 = (\<lambda>v. v)\<rparr>"

definition flow_demo :: "(int \<times> int \<times> flow_op) list" where
  "flow_demo =
     [(0, 0, Authorize ''quickbooks'' ''u1'' ''web'' ''s1'' ''v1''),
      (5, 5, Callback \<lparr>cq_code = ''c1'', cq_state = ''zz'', cq_realm = [], cq_error = [], cq_error_description = []\<rparr>),
      (9, 10, Callback \<lparr>cq_code = ''c1'', cq_state = ''s1'', cq_realm = ''77'', cq_error = [], cq_error_description = []\<rparr>),
      (11, 11, Callback \<lparr>cq_code = ''c1'', cq_state = ''s1'', cq_realm = ''77'', cq_error = [], cq_error_description = []\<rparr>)]"

definition flow_token :: token_data where
  "flow_token = \<lparr>td_access = ''a1'', td_refresh = ''r1'', td_type = ''Bearer'', td_expires_at = 3610, td_scopes = [], td_realm = ''77'', td_extra = []\<rparr>"

lemma flow_demo_connected: "fl_connected (flow_run flow_env flow_demo) = [(9, ''s1'', ''u1'', ''quickbooks'', flow_token)]"
  by (code_simp)

theorem connection_was_started_witness:
  "\<exists>started_at later source verifier config code body.
      (started_at, later, Authorize ''quickbooks'' ''u1'' source ''s1'' verifier) \<in> set flow_demo \<and> 9 \<le> started_at + 600
      \<and> get_oauth_config (oe_settings flow_env) 9 (oe_discovery flow_env) ''quickbooks'' = Some config
      \<and> oe_exchange flow_env (oc_token_url config) code (rstrip_slash (os_base_url (oe_settings flow_env)) @ ''/api/oauth/callback'')
          (if oc_use_pkce config then Some verifier else None) = Some body
      \<and> eb_access body = Some (td_access flow_token)"
proof -
  have "distinct (states_drawn flow_demo)" by (simp add: flow_demo_def states_drawn_def)
  moreover have "(9, ''s1'', ''u1'', ''quickbooks'', flow_token) \<in> set (fl_connected (flow_run flow_env flow_demo))"
    by (simp add: flow_demo_connected)
  ultimately show ?thesis by (rule connection_was_started [THEN conjunct2])
qed

text \<open>
  The dictionary of pending states is one process's. With two server processes, the default of \<open>cli.py\<close>, a callback that
  reaches the other one is refused, however early it comes.
\<close>

lemma other_process_refuses_callback:
  assumes "flow_run env ops = fl" and "states_drawn ops = []"
  shows "fst (handle_callback env now later state code realm (fl_pending fl)) = Inl Invalid_state"
proof -
  have "flow_ok env ops fl" using flow_run_ok [of ops env] assms by simp
  then have "fl_pending fl = []" using assms(2) by (simp add: flow_ok_def)
  then show ?thesis by (simp add: handle_callback_def Let_def)
qed
end
