(* ===== verification/Token_Refresh.thy ===== *)
theory Token_Refresh
  imports OAuth
begin

text \<open>
  Refreshing OAuth tokens while server processes, coroutines and users interleave: \<open>refresh_token\<close>, \<open>get_valid_token\<close>,
  \<open>refresh_rejected_token\<close>, \<open>handle_permanent_refresh_failure\<close> and the sweep of \<open>services/oauth.py\<close>, the minting of
  \<open>integrations/servicetitan/auth.py\<close> that shares the lock and the table, connecting, disconnecting and the AppFolio writer
  that only touches \<open>extra\<close>.

  A task is one call. It runs until its next \<open>await\<close>; what it waits for is its phase. Each database statement is one step, the
  advisory lock is a holder per user and integration, each server process (worker) has its own cache. The provider's answers,
  database failures and the end of the wait for the lock are inputs. Cancellation, and an advisory lock lost with its
  connection, are not modelled.
\<close>

declare split_paired_All [simp del] split_paired_Ex [simp del]
  \<comment> \<open>keys are pairs that need no splitting\<close>

section \<open>Answers and outcomes\<close>

text \<open>A token endpoint's answer to a refresh, as far as the code reads it.\<close>

record grant =
  gr_access :: string
  gr_refresh :: "string option"
  gr_expires_in :: "int option"
  gr_expires_at :: "int option"

definition apply_grant :: "int \<Rightarrow> grant \<Rightarrow> token_data \<Rightarrow> token_data" where
  "apply_grant now g t =
     t\<lparr>td_access := gr_access g,
       td_refresh := (case gr_refresh g of Some r \<Rightarrow> r | None \<Rightarrow> td_refresh t),
       td_expires_at := (case gr_expires_in g of Some n \<Rightarrow> if n \<noteq> 0 then now + n
                           else (case gr_expires_at g of Some e \<Rightarrow> e | None \<Rightarrow> 0)
                         | None \<Rightarrow> (case gr_expires_at g of Some e \<Rightarrow> e | None \<Rightarrow> 0))\<rparr>"

text \<open>What a failed refresh means: \<open>is_dead_grant_response\<close> and the verdict of a registered grant.\<close>

datatype refresh_error =
    Http_status nat "json option"  \<comment> \<open>status and decoded body\<close>
  | Permanent_refresh_error
  | Other_error

definition permanent_codes :: "string list" where
  "permanent_codes = [''invalid_grant'', ''invalid_client'', ''unauthorized_client'']"

definition is_dead_grant_response :: "nat \<Rightarrow> json option \<Rightarrow> bool" where
  "is_dead_grant_response status body \<longleftrightarrow>
     (if status \<noteq> 400 \<and> status \<noteq> 401 then False
      else case body of
             Some (JObj d) \<Rightarrow> (case map_of d ''error'' of Some (JStr e) \<Rightarrow> e \<in> set permanent_codes | _ \<Rightarrow> False)
           | _ \<Rightarrow> False)"

definition is_permanent_refresh_failure :: "refresh_error \<Rightarrow> bool" where
  "is_permanent_refresh_failure e = (case e of
     Permanent_refresh_error \<Rightarrow> True | Http_status status body \<Rightarrow> is_dead_grant_response status body | Other_error \<Rightarrow> False)"

datatype answer =
    Next  \<comment> \<open>the awaited step succeeds\<close>
  | Db_error
  | Busy  \<comment> \<open>the wait for the lock is over\<close>
  | Granted grant
  | Rejected_with refresh_error
  | Minted string int  \<comment> \<open>access token and its absolute expiry\<close>
  | Mint_failed

datatype task_result =
    Got "token_data option"
  | Removed bool
  | Contended
  | Reconnect_required
  | Failed

section \<open>Tasks\<close>

datatype operation =
    Read_op  \<comment> \<open>\<open>load_token\<close>, and so \<open>is_connected\<close> and \<open>get_account_email\<close>\<close>
  | Valid_op  \<comment> \<open>\<open>get_valid_token\<close>\<close>
  | Rejected_op string  \<comment> \<open>\<open>refresh_rejected_token\<close> with the rejected access token\<close>
  | Sweep_op  \<comment> \<open>one row of the background sweep\<close>
  | Connect_op token_data  \<comment> \<open>the save at the end of a callback or a pasted credential\<close>
  | Disconnect_op
  | Mint_op bool  \<comment> \<open>\<open>get_valid_token\<close> of ServiceTitan, with \<open>force_refresh\<close>\<close>

datatype load_reason =
    For_caller
  | Under_lock
  | Recheck string token_data  \<comment> \<open>after the POST: the refresh token posted and the updated token\<close>
  | Gone_check
  | Before_mint
  | Mint_recheck

datatype section_end = Returned "token_data option" | Threw bool  \<comment> \<open>whether permanently\<close>

datatype phase =
    Querying load_reason int  \<comment> \<open>SELECT under way; the time read before it\<close>
  | Fetched load_reason int "token_data option"  \<comment> \<open>the database has answered, the task has not resumed\<close>
  | Locking
  | Posting token_data
  | Minting token_data
  | Saving token_data
  | Dropping token_data  \<comment> \<open>committed, cache entry still there\<close>
  | Retiring
  | Dropping_retired
  | Unlocking section_end
  | Handling
  | Dropping_handled
  | Notifying
  | Disconnecting
  | Dropping_disconnected bool
  | Finished task_result

datatype lock_change = Keep | Acquire | Release

datatype cache_change = Keep_entry | Drop_entry | Put_entry int "token_data option"

datatype log_event =
    Posted token_key string
  | Rotated token_key string
  | Notified token_key

record effect =
  ef_phase :: phase
  ef_lock :: lock_change
  ef_row :: "token_data option option"  \<comment> \<open>\<open>Some v\<close>: the row becomes \<open>v\<close>\<close>
  ef_cache :: cache_change
  ef_log :: "log_event list"

definition go :: "phase \<Rightarrow> effect" where
  "go ph = \<lparr>ef_phase = ph, ef_lock = Keep, ef_row = None, ef_cache = Keep_entry, ef_log = []\<rparr>"

section \<open>ServiceTitan credentials\<close>

definition servicetitan :: string where
  "servicetitan = ''servicetitan''"

definition cred_complete :: "token_data \<Rightarrow> bool" where
  \<comment> \<open>tenant, client id and client secret, which sits in the refresh slot\<close>
  "cred_complete t \<longleftrightarrow> str_field (td_extra t) ''tenant_id'' [] \<noteq> [] \<and> str_field (td_extra t) ''client_id'' [] \<noteq> [] \<and> td_refresh t \<noteq> []"

definition bearer_expired :: "int \<Rightarrow> token_data \<Rightarrow> bool" where
  "bearer_expired now t \<longleftrightarrow>
     (if td_access t = [] then True else if td_expires_at t \<le> 0 then True else td_expires_at t - 30 \<le> now)"

definition minted_token :: "token_data \<Rightarrow> string \<Rightarrow> int \<Rightarrow> token_data" where
  "minted_token t access expires_at =
     \<lparr>td_access = access, td_refresh = td_refresh t, td_type = ''Bearer'', td_expires_at = expires_at, td_scopes = [],
      td_realm = str_field (td_extra t) ''tenant_id'' [],
      td_extra = [(''tenant_id'', JStr (str_field (td_extra t) ''tenant_id'' [])),
                  (''client_id'', JStr (str_field (td_extra t) ''client_id'' [])),
                  (''app_key'', JStr (str_field (td_extra t) ''app_key'' []))]\<rparr>"

fun mint_answer :: "int \<Rightarrow> (nat \<times> (string \<times> int option) option) option \<Rightarrow> answer" where
  \<comment> \<open>\<open>mint_access_token\<close>: no response, a status with a body that is not JSON, or with token and lifetime\<close>
  "mint_answer now None = Mint_failed"
| "mint_answer now (Some (status, None)) = Mint_failed"
| "mint_answer now (Some (status, Some (access, expires_in))) =
     (if 400 \<le> status \<or> access = [] then Mint_failed
      else Minted access (case expires_in of Some n \<Rightarrow> if 0 < n then now + n else now + 180 | None \<Rightarrow> now + 180))"

section \<open>One task between two awaits\<close>

definition refreshable :: "(string \<Rightarrow> bool) \<Rightarrow> string \<Rightarrow> bool" where
  \<comment> \<open>a grant is registered, only AppFolio does, or the integration is an OAuth one with client id and secret\<close>
  "refreshable configured integration \<longleftrightarrow>
     integration = ''appfolio_vendor'' \<or> (integration \<in> set list_oauth_integrations \<and> configured integration)"

definition peer_refreshed :: "int \<Rightarrow> operation \<Rightarrow> token_data \<Rightarrow> bool" where
  "peer_refreshed now oper t \<longleftrightarrow>
     (let unexpired = (0 < td_expires_at t \<and> \<not> is_expired now t)
      in case oper of Rejected_op rejected \<Rightarrow> if rejected \<noteq> [] then td_access t \<noteq> rejected else unexpired | _ \<Rightarrow> unexpired)"

text \<open>What the caller makes of the refresh once the lock is released.\<close>

definition thrown_result :: "operation \<Rightarrow> task_result" where
  "thrown_result oper = (case oper of Valid_op \<Rightarrow> Got None | _ \<Rightarrow> Failed)"

definition contended_result :: "operation \<Rightarrow> task_result" where
  "contended_result oper = (case oper of Rejected_op rejected \<Rightarrow> Contended | _ \<Rightarrow> Got None)"

definition handled_result :: "operation \<Rightarrow> task_result" where
  "handled_result oper = (case oper of Rejected_op rejected \<Rightarrow> Reconnect_required | _ \<Rightarrow> Got None)"

definition query_uncached :: "int \<Rightarrow> load_reason \<Rightarrow> effect" where
  "query_uncached now pu = (go (Querying pu now))\<lparr>ef_cache := Drop_entry\<rparr>"

definition is_refresh :: "operation \<Rightarrow> bool" where
  "is_refresh oper = (case oper of Valid_op \<Rightarrow> True | Rejected_op rejected \<Rightarrow> True | Sweep_op \<Rightarrow> True | _ \<Rightarrow> False)"

definition is_connect :: "operation \<Rightarrow> bool" where
  "is_connect oper = (case oper of Connect_op t \<Rightarrow> True | _ \<Rightarrow> False)"

fun after_unlock :: "int \<Rightarrow> operation \<Rightarrow> section_end \<Rightarrow> effect" where
  "after_unlock now oper (Returned v) =
     (case oper of
        Rejected_op rejected \<Rightarrow> if v = None then query_uncached now Gone_check else go (Finished (Got v))
      | _ \<Rightarrow> go (Finished (Got v)))"
| "after_unlock now oper (Threw permanent) =
     (if permanent \<and> is_refresh oper then go Handling else go (Finished (thrown_result oper)))"

text \<open>The code after a load has returned \<open>v\<close>: in \<open>get_valid_token\<close>, in \<open>refresh_token\<close> before and after the POST, in
  \<open>refresh_rejected_token\<close>, and in ServiceTitan's \<open>get_valid_token\<close> before and under the lock.\<close>

definition check_valid :: "int \<Rightarrow> token_data option \<Rightarrow> effect" where
  [simp]: "check_valid now v =
     (case v of
        None \<Rightarrow> go (Finished (Got None))
      | Some t \<Rightarrow> if \<not> is_expired now t then go (Finished (Got (Some t)))
                  else if td_refresh t = [] then go (Finished (Got None))
                  else go Locking)"

definition decide_refresh :: "(string \<Rightarrow> bool) \<Rightarrow> int \<Rightarrow> token_key \<Rightarrow> operation \<Rightarrow> token_data option \<Rightarrow> effect" where
  [simp]: "decide_refresh configured now k oper v =
     (case v of
        None \<Rightarrow> go (Unlocking (Returned None))
      | Some t \<Rightarrow>
          if td_refresh t = [] then go (Unlocking (Returned None))
          else if peer_refreshed now oper t then go (Unlocking (Returned (Some t)))
          else if \<not> refreshable configured (snd k) then go (Unlocking (Returned None))
          else (go (Posting t))\<lparr>ef_log := [Posted k (td_refresh t)]\<rparr>)"

definition settle_refresh :: "string \<Rightarrow> token_data \<Rightarrow> token_data option \<Rightarrow> effect" where
  [simp]: "settle_refresh posted t v =
     (case v of
        None \<Rightarrow> go (Unlocking (Returned None))
      | Some current \<Rightarrow>
          if td_refresh current \<noteq> posted then go (Unlocking (Returned (Some current)))
          else go (Saving (t\<lparr>td_extra := td_extra current\<rparr>)))"

definition check_gone :: "token_data option \<Rightarrow> effect" where
  [simp]: "check_gone v = (if v = None then go (Finished Reconnect_required) else go (Finished (Got None)))"

definition bearer_usable :: "int \<Rightarrow> operation \<Rightarrow> token_data \<Rightarrow> bool" where
  [simp]: "bearer_usable now oper t \<longleftrightarrow> oper \<noteq> Mint_op True \<and> \<not> bearer_expired now t"

definition mint_first :: "int \<Rightarrow> operation \<Rightarrow> token_data option \<Rightarrow> effect" where
  [simp]: "mint_first now oper v =
     (case v of
        None \<Rightarrow> go (Finished (Got None))
      | Some t \<Rightarrow> if \<not> cred_complete t then go (Finished (Got None))
                  else if bearer_usable now oper t then go (Finished (Got (Some t)))
                  else go Locking)"

definition mint_locked :: "int \<Rightarrow> operation \<Rightarrow> token_data option \<Rightarrow> effect" where
  [simp]: "mint_locked now oper v =
     (case v of
        None \<Rightarrow> go (Unlocking (Returned None))
      | Some t \<Rightarrow> if \<not> cred_complete t then go (Unlocking (Returned None))
                  else if bearer_usable now oper t then go (Unlocking (Returned (Some t)))
                  else go (Minting t))"

fun after_load :: "(string \<Rightarrow> bool) \<Rightarrow> int \<Rightarrow> token_key \<Rightarrow> operation \<Rightarrow> load_reason \<Rightarrow> token_data option \<Rightarrow> effect" where
  "after_load configured now k oper For_caller v = (case oper of Valid_op \<Rightarrow> check_valid now v | _ \<Rightarrow> go (Finished (Got v)))"
| "after_load configured now k oper Under_lock v = decide_refresh configured now k oper v"
| "after_load configured now k oper (Recheck posted t) v = settle_refresh posted t v"
| "after_load configured now k oper Gone_check v = check_gone v"
| "after_load configured now k oper Before_mint v = mint_first now oper v"
| "after_load configured now k oper Mint_recheck v = mint_locked now oper v"

fun locked_purpose :: "load_reason \<Rightarrow> bool" where
  "locked_purpose Under_lock = True"
| "locked_purpose (Recheck posted t) = True"
| "locked_purpose Mint_recheck = True"
| "locked_purpose pu = False"

definition fill_cache :: "int \<Rightarrow> token_data option \<Rightarrow> effect \<Rightarrow> effect" where
  \<comment> \<open>the load writes its entry before it returns\<close>
  "fill_cache t0 v e = (if ef_cache e = Keep_entry then e\<lparr>ef_cache := Put_entry t0 v\<rparr> else e)"

definition rotation :: "token_key \<Rightarrow> token_data \<Rightarrow> grant \<Rightarrow> log_event list" where
  "rotation k t g = (case gr_refresh g of Some r \<Rightarrow> if r \<noteq> td_refresh t then [Rotated k (td_refresh t)] else [] | None \<Rightarrow> [])"

definition handle_permanent_failure :: "token_key \<Rightarrow> operation \<Rightarrow> phase \<Rightarrow> answer \<Rightarrow> effect option" where
  \<comment> \<open>delete, whether it works or not, then tell the user\<close>
  [simp]: "handle_permanent_failure k oper ph a =
     (if ph = Handling \<and> a = Next then Some ((go Dropping_handled)\<lparr>ef_row := Some None\<rparr>)
      else if ph = Handling \<and> a = Db_error then Some (go Notifying)
      else if ph = Dropping_handled \<and> a = Next then Some ((go Notifying)\<lparr>ef_cache := Drop_entry\<rparr>)
      else if ph = Notifying \<and> a = Next then Some ((go (Finished (handled_result oper)))\<lparr>ef_log := [Notified k]\<rparr>)
      else None)"

definition react :: "(string \<Rightarrow> bool) \<Rightarrow> int \<Rightarrow> token_key \<Rightarrow> token_data option \<Rightarrow> operation \<Rightarrow> phase \<Rightarrow> answer \<Rightarrow> effect option" where
  "react configured now k row oper ph a =
     (case ph of
        Querying pu t0 \<Rightarrow>
          if a = Next then Some (go (Fetched pu t0 row))
          else if a = Db_error then Some (go (if locked_purpose pu then Unlocking (Threw False) else Finished Failed)) else None
      | Fetched pu t0 v \<Rightarrow> if a = Next then Some (fill_cache t0 v (after_load configured now k oper pu v)) else None
      | Locking \<Rightarrow>
          if a = Next then Some ((query_uncached now (if is_refresh oper then Under_lock else Mint_recheck))\<lparr>ef_lock := Acquire\<rparr>)
          else if a = Busy then Some (go (Finished (contended_result oper))) else None
      | Posting t \<Rightarrow>
          (case a of
             Granted g \<Rightarrow> Some ((query_uncached now (Recheck (td_refresh t) (apply_grant now g t)))\<lparr>ef_log := rotation k t g\<rparr>)
           | Rejected_with e \<Rightarrow> Some (go (if is_permanent_refresh_failure e then Retiring else Unlocking (Threw False)))
           | _ \<Rightarrow> None)
      | Minting t \<Rightarrow>
          (case a of
             Minted access expires_at \<Rightarrow> Some (go (Saving (minted_token t access expires_at)))
           | Mint_failed \<Rightarrow> Some (go (Unlocking (Threw False)))
           | _ \<Rightarrow> None)
      | Saving t \<Rightarrow>
          if a = Next then Some ((go (Dropping t))\<lparr>ef_row := Some (Some t)\<rparr>)
          else if a = Db_error then Some (go (if is_connect oper then Finished Failed else Unlocking (Threw False))) else None
      | Dropping t \<Rightarrow>
          if a = Next
          then Some ((go (if is_connect oper then Finished (Got (Some t)) else Unlocking (Returned (Some t))))\<lparr>ef_cache := Drop_entry\<rparr>)
          else None
      | Retiring \<Rightarrow>
          if a = Next then Some ((go Dropping_retired)\<lparr>ef_row := Some None\<rparr>)
          else if a = Db_error then Some (go (Unlocking (Threw True))) else None
      | Dropping_retired \<Rightarrow> if a = Next then Some ((go (Unlocking (Threw True)))\<lparr>ef_cache := Drop_entry\<rparr>) else None
      | Unlocking se \<Rightarrow> if a = Next then Some ((after_unlock now oper se)\<lparr>ef_lock := Release\<rparr>) else None
      | Handling \<Rightarrow> handle_permanent_failure k oper ph a
      | Dropping_handled \<Rightarrow> handle_permanent_failure k oper ph a
      | Notifying \<Rightarrow> handle_permanent_failure k oper ph a
      | Disconnecting \<Rightarrow>
          if a = Next then Some ((go (Dropping_disconnected (row \<noteq> None)))\<lparr>ef_row := Some None\<rparr>)
          else if a = Db_error then Some (go (Finished Failed)) else None
      | Dropping_disconnected found \<Rightarrow>
          if a = Next then Some ((go (Finished (Removed found)))\<lparr>ef_cache := Drop_entry\<rparr>) else None
      | Finished result \<Rightarrow> None)"

text \<open>The start of a call; \<open>hit\<close> is what the cache of its worker gives.\<close>

definition cached_load :: "(string \<Rightarrow> bool) \<Rightarrow> int \<Rightarrow> token_key \<Rightarrow> operation \<Rightarrow> load_reason \<Rightarrow> token_data option option \<Rightarrow> effect" where
  "cached_load configured now k oper pu hit =
     (case hit of Some v \<Rightarrow> after_load configured now k oper pu v | None \<Rightarrow> go (Querying pu now))"

fun begin_call :: "(string \<Rightarrow> bool) \<Rightarrow> int \<Rightarrow> token_key \<Rightarrow> operation \<Rightarrow> token_data option option \<Rightarrow> effect" where
  "begin_call configured now k Read_op hit = cached_load configured now k Read_op For_caller hit"
| "begin_call configured now k Valid_op hit = cached_load configured now k Valid_op For_caller hit"
| "begin_call configured now k (Rejected_op rejected) hit = go Locking"
| "begin_call configured now k Sweep_op hit = go Locking"
| "begin_call configured now k (Connect_op t) hit = go (Saving t)"
| "begin_call configured now k Disconnect_op hit = go Disconnecting"
| "begin_call configured now k (Mint_op force) hit = cached_load configured now k (Mint_op force) Before_mint hit"

section \<open>The system\<close>

record task =
  tk_worker :: nat
  tk_key :: token_key
  tk_op :: operation
  tk_phase :: phase

record service =
  sv_now :: int
  sv_table :: token_table
  sv_caches :: "nat \<Rightarrow> token_cache"
  sv_locks :: "token_key \<Rightarrow> nat option"
  sv_tasks :: "nat \<Rightarrow> task option"
  sv_log :: "log_event list"
  sv_left :: "token_key \<times> token_data option \<Rightarrow> int option"
    \<comment> \<open>not in the code: when a row last stopped having a value\<close>
  sv_used :: "(token_key \<times> string) list"
    \<comment> \<open>not in the code: refresh tokens connected or issued so far\<close>

datatype event =
    Spawn nat nat token_key operation
  | Resume nat answer
  | Pass nat
  | Annotate token_key json_dict  \<comment> \<open>\<open>save_customer_ids\<close>: row lock, only \<open>extra\<close> changes\<close>

definition set_row :: "token_key \<Rightarrow> token_data option \<Rightarrow> service \<Rightarrow> service" where
  "set_row k v s =
     s\<lparr>sv_table := (sv_table s)(k := v),
       sv_left := (if sv_table s k = v then sv_left s else (sv_left s)((k, sv_table s k) \<mapsto> sv_now s))\<rparr>"

definition change_cache :: "nat \<Rightarrow> token_key \<Rightarrow> cache_change \<Rightarrow> service \<Rightarrow> service" where
  "change_cache w k ch s =
     (case ch of
        Keep_entry \<Rightarrow> s
      | Drop_entry \<Rightarrow> s\<lparr>sv_caches := (sv_caches s)(w := cache_drop k (sv_caches s w))\<rparr>
      | Put_entry t0 v \<Rightarrow> s\<lparr>sv_caches := (sv_caches s)(w := cache_put t0 k v (sv_caches s w))\<rparr>)"

definition change_lock :: "nat \<Rightarrow> token_key \<Rightarrow> lock_change \<Rightarrow> service \<Rightarrow> service" where
  "change_lock p k ch s =
     (case ch of
        Keep \<Rightarrow> s
      | Acquire \<Rightarrow> s\<lparr>sv_locks := (sv_locks s)(k \<mapsto> p)\<rparr>
      | Release \<Rightarrow> s\<lparr>sv_locks := (sv_locks s)(k := None)\<rparr>)"

definition apply_effect :: "nat \<Rightarrow> task \<Rightarrow> effect \<Rightarrow> service \<Rightarrow> service" where
  "apply_effect p tk e s =
     (let k = tk_key tk;
          s1 = (case ef_row e of None \<Rightarrow> s | Some v \<Rightarrow> set_row k v s);
          s2 = change_lock p k (ef_lock e) (change_cache (tk_worker tk) k (ef_cache e) s1)
      in s2\<lparr>sv_tasks := (sv_tasks s2)(p \<mapsto> tk\<lparr>tk_phase := ef_phase e\<rparr>), sv_log := sv_log s2 @ ef_log e\<rparr>)"

definition newly_used :: "task \<Rightarrow> answer \<Rightarrow> (token_key \<times> string) list" where
  "newly_used tk a =
     (case (tk_phase tk, a) of
        (Posting t, Granted g) \<Rightarrow> (tk_key tk, td_refresh t) # (case gr_refresh g of Some r \<Rightarrow> [(tk_key tk, r)] | None \<Rightarrow> [])
      | (Saving t, Next) \<Rightarrow> [(tk_key tk, td_refresh t)]
      | _ \<Rightarrow> [])"

fun step :: "(string \<Rightarrow> bool) \<Rightarrow> event \<Rightarrow> service \<Rightarrow> service option" where
  "step configured (Spawn p w k oper) s =
     (if sv_tasks s p \<noteq> None then None
      else if (case oper of Mint_op force \<Rightarrow> snd k \<noteq> servicetitan | _ \<Rightarrow> False) then None
      else Some (apply_effect p \<lparr>tk_worker = w, tk_key = k, tk_op = oper, tk_phase = Locking\<rparr>
                   (begin_call configured (sv_now s) k oper (cache_hit (sv_now s) k (sv_caches s w))) s))"
| "step configured (Resume p a) s =
     (case sv_tasks s p of
        None \<Rightarrow> None
      | Some tk \<Rightarrow>
          if tk_phase tk = Locking \<and> a = Next \<and> sv_locks s (tk_key tk) \<noteq> None then None
          else map_option (\<lambda>e. apply_effect p tk e (s\<lparr>sv_used := newly_used tk a @ sv_used s\<rparr>))
                 (react configured (sv_now s) (tk_key tk) (sv_table s (tk_key tk)) (tk_op tk) (tk_phase tk) a))"
| "step configured (Pass n) s = Some (s\<lparr>sv_now := sv_now s + int n\<rparr>)"
| "step configured (Annotate k extra) s =
     Some (case sv_table s k of None \<Rightarrow> s | Some t \<Rightarrow> set_row k (Some (t\<lparr>td_extra := extra\<rparr>)) s)"

fun run_events :: "(string \<Rightarrow> bool) \<Rightarrow> event list \<Rightarrow> service \<Rightarrow> service option" where
  "run_events configured [] s = Some s"
| "run_events configured (e # es) s = (case step configured e s of None \<Rightarrow> None | Some s' \<Rightarrow> run_events configured es s')"

definition fresh_service :: "int \<Rightarrow> service" where
  "fresh_service now =
     \<lparr>sv_now = now, sv_table = Map.empty, sv_caches = (\<lambda>_. Map.empty), sv_locks = Map.empty, sv_tasks = Map.empty, sv_log = [],
      sv_left = Map.empty, sv_used = []\<rparr>"

inductive reachable_service :: "(service \<Rightarrow> event \<Rightarrow> bool) \<Rightarrow> (string \<Rightarrow> bool) \<Rightarrow> service \<Rightarrow> bool"
  for allowed :: "service \<Rightarrow> event \<Rightarrow> bool" and configured :: "string \<Rightarrow> bool" where
  start: "reachable_service allowed configured (fresh_service now)"
| step: "reachable_service allowed configured s \<Longrightarrow> allowed s e \<Longrightarrow> step configured e s = Some s' \<Longrightarrow> reachable_service allowed configured s'"

section \<open>The lock\<close>

fun is_mint :: "operation \<Rightarrow> bool" where
  "is_mint (Mint_op force) = True"
| "is_mint oper = False"

fun purpose_fits :: "operation \<Rightarrow> load_reason \<Rightarrow> bool" where
  "purpose_fits oper For_caller \<longleftrightarrow> oper = Read_op \<or> oper = Valid_op"
| "purpose_fits oper Under_lock \<longleftrightarrow> is_refresh oper"
| "purpose_fits oper (Recheck posted t) \<longleftrightarrow> is_refresh oper"
| "purpose_fits oper Gone_check \<longleftrightarrow> is_refresh oper"
| "purpose_fits oper Before_mint \<longleftrightarrow> is_mint oper"
| "purpose_fits oper Mint_recheck \<longleftrightarrow> is_mint oper"

fun phase_fits :: "operation \<Rightarrow> phase \<Rightarrow> bool" where
  "phase_fits oper (Querying pu t0) \<longleftrightarrow> purpose_fits oper pu"
| "phase_fits oper (Fetched pu t0 v) \<longleftrightarrow> purpose_fits oper pu"
| "phase_fits oper Locking \<longleftrightarrow> is_refresh oper \<or> is_mint oper"
| "phase_fits oper (Posting t) \<longleftrightarrow> is_refresh oper"
| "phase_fits oper (Minting t) \<longleftrightarrow> is_mint oper"
| "phase_fits oper (Saving t) \<longleftrightarrow> is_refresh oper \<or> is_mint oper \<or> is_connect oper"
| "phase_fits oper (Dropping t) \<longleftrightarrow> is_refresh oper \<or> is_mint oper \<or> is_connect oper"
| "phase_fits oper (Unlocking se) \<longleftrightarrow> is_refresh oper \<or> is_mint oper"
| "phase_fits oper Retiring \<longleftrightarrow> is_refresh oper"
| "phase_fits oper Dropping_retired \<longleftrightarrow> is_refresh oper"
| "phase_fits oper Handling \<longleftrightarrow> is_refresh oper"
| "phase_fits oper Dropping_handled \<longleftrightarrow> is_refresh oper"
| "phase_fits oper Notifying \<longleftrightarrow> is_refresh oper"
| "phase_fits oper Disconnecting \<longleftrightarrow> oper = Disconnect_op"
| "phase_fits oper (Dropping_disconnected found) \<longleftrightarrow> oper = Disconnect_op"
| "phase_fits oper (Finished result) \<longleftrightarrow> True"

fun in_section :: "operation \<Rightarrow> phase \<Rightarrow> bool" where
  \<comment> \<open>between taking the lock and giving it back\<close>
  "in_section oper (Querying pu t0) = locked_purpose pu"
| "in_section oper (Fetched pu t0 v) = locked_purpose pu"
| "in_section oper (Posting t) = True"
| "in_section oper (Minting t) = True"
| "in_section oper (Saving t) = (\<not> is_connect oper)"
| "in_section oper (Dropping t) = (\<not> is_connect oper)"
| "in_section oper Retiring = True"
| "in_section oper Dropping_retired = True"
| "in_section oper (Unlocking se) = True"
| "in_section oper ph = False"

lemma kinds [simp]:
  "is_refresh Valid_op" "is_refresh (Rejected_op r)" "is_refresh Sweep_op" "\<not> is_refresh Read_op" "\<not> is_refresh (Connect_op t)"
  "\<not> is_refresh Disconnect_op" "\<not> is_refresh (Mint_op f)" "is_connect (Connect_op t)" "\<not> is_connect Valid_op"
  "\<not> is_connect (Rejected_op r)" "\<not> is_connect Sweep_op" "\<not> is_connect Read_op" "\<not> is_connect Disconnect_op" "\<not> is_connect (Mint_op f)"
  by (simp_all add: is_refresh_def is_connect_def)

lemma is_refresh_not: "is_refresh oper \<Longrightarrow> \<not> is_connect oper \<and> \<not> is_mint oper"
  by (cases oper) simp_all

lemma is_mint_not: "is_mint oper \<Longrightarrow> \<not> is_connect oper \<and> \<not> is_refresh oper"
  by (cases oper) simp_all

lemma effect_simps [simp]:
  "ef_phase (go ph) = ph" "ef_lock (go ph) = Keep" "ef_row (go ph) = None" "ef_cache (go ph) = Keep_entry" "ef_log (go ph) = []"
  "ef_phase (query_uncached now pu) = Querying pu now" "ef_lock (query_uncached now pu) = Keep" "ef_row (query_uncached now pu) = None"
  "ef_cache (query_uncached now pu) = Drop_entry" "ef_log (query_uncached now pu) = []"
  by (simp_all add: go_def query_uncached_def)

lemma fill_simps [simp]:
  "ef_phase (fill_cache t0 v e) = ef_phase e" "ef_lock (fill_cache t0 v e) = ef_lock e" "ef_row (fill_cache t0 v e) = ef_row e"
  "ef_log (fill_cache t0 v e) = ef_log e"
  by (simp_all add: fill_cache_def)

lemma after_load_keeps: "ef_lock (after_load configured now k oper pu v) = Keep" "ef_row (after_load configured now k oper pu v) = None"
    "ef_cache (after_load configured now k oper pu v) = Keep_entry"
  by (cases pu; simp split: option.split operation.split)+

lemma after_load_fits: "purpose_fits oper pu \<Longrightarrow> phase_fits oper (ef_phase (after_load configured now k oper pu v))"
  by (cases pu) (auto split: option.split operation.split)

lemma after_load_section:
  "purpose_fits oper pu \<Longrightarrow> in_section oper (ef_phase (after_load configured now k oper pu v)) \<longleftrightarrow> locked_purpose pu"
  by (cases pu) (auto split: option.split operation.split dest: is_refresh_not)

lemma after_unlock_effect:
  "ef_row (after_unlock now oper se) = None" "ef_log (after_unlock now oper se) = []"
  "\<not> in_section oper (ef_phase (after_unlock now oper se))"
  "is_refresh oper \<or> is_mint oper \<Longrightarrow> phase_fits oper (ef_phase (after_unlock now oper se))"
  by (cases se; simp split: operation.split)+

lemma locked_fits: "locked_purpose pu \<Longrightarrow> purpose_fits oper pu \<Longrightarrow> is_refresh oper \<or> is_mint oper"
  by (cases pu) simp_all

lemma react_fits:
  assumes "react configured now k row oper ph a = Some e" and "phase_fits oper ph"
  shows "phase_fits oper (ef_phase e)"
  using assms
  by (cases ph) (auto simp: react_def after_load_fits after_unlock_effect(4) split: if_splits answer.splits dest: locked_fits)

lemma react_lock:
  assumes "react configured now k row oper ph a = Some e" and "phase_fits oper ph"
  shows "(case ef_lock e of
            Keep \<Rightarrow> in_section oper (ef_phase e) = in_section oper ph
          | Acquire \<Rightarrow> ph = Locking \<and> a = Next \<and> in_section oper (ef_phase e)
          | Release \<Rightarrow> in_section oper ph \<and> \<not> in_section oper (ef_phase e))"
  using assms
  by (cases ph) (auto simp: react_def after_load_section after_load_keeps after_unlock_effect(3) split: if_splits answer.splits
      dest: is_refresh_not is_mint_not)
lemma cached_load_effect:
  "purpose_fits oper pu \<Longrightarrow> phase_fits oper (ef_phase (cached_load configured now k oper pu hit))"
  "purpose_fits oper pu \<Longrightarrow> \<not> locked_purpose pu \<Longrightarrow> \<not> in_section oper (ef_phase (cached_load configured now k oper pu hit))"
  "ef_lock (cached_load configured now k oper pu hit) = Keep" "ef_row (cached_load configured now k oper pu hit) = None"
  "ef_cache (cached_load configured now k oper pu hit) = Keep_entry"
  by (cases hit; simp add: cached_load_def after_load_fits after_load_section after_load_keeps)+

lemma begin_call_effect:
  "ef_lock (begin_call configured now k oper hit) = Keep" "ef_row (begin_call configured now k oper hit) = None"
  "ef_cache (begin_call configured now k oper hit) = Keep_entry"
  "phase_fits oper (ef_phase (begin_call configured now k oper hit))"
  "\<not> in_section oper (ef_phase (begin_call configured now k oper hit))"
  by (cases oper; simp add: cached_load_effect)+

subsection \<open>Steps on the system\<close>

lemma set_row_simps [simp]:
  "sv_now (set_row k v s) = sv_now s" "sv_caches (set_row k v s) = sv_caches s" "sv_locks (set_row k v s) = sv_locks s"
  "sv_tasks (set_row k v s) = sv_tasks s" "sv_log (set_row k v s) = sv_log s" "sv_used (set_row k v s) = sv_used s"
  "sv_table (set_row k v s) = (sv_table s)(k := v)"
  by (simp_all add: set_row_def)

lemma change_cache_simps [simp]:
  "sv_now (change_cache w k ch s) = sv_now s" "sv_locks (change_cache w k ch s) = sv_locks s"
  "sv_tasks (change_cache w k ch s) = sv_tasks s" "sv_log (change_cache w k ch s) = sv_log s"
  "sv_used (change_cache w k ch s) = sv_used s" "sv_table (change_cache w k ch s) = sv_table s"
  "sv_left (change_cache w k ch s) = sv_left s"
  by (simp_all add: change_cache_def split: cache_change.split)

lemma change_lock_simps [simp]:
  "sv_now (change_lock p k ch s) = sv_now s" "sv_caches (change_lock p k ch s) = sv_caches s"
  "sv_tasks (change_lock p k ch s) = sv_tasks s" "sv_log (change_lock p k ch s) = sv_log s"
  "sv_used (change_lock p k ch s) = sv_used s" "sv_table (change_lock p k ch s) = sv_table s"
  "sv_left (change_lock p k ch s) = sv_left s"
  by (simp_all add: change_lock_def split: lock_change.split)

lemma apply_effect_simps [simp]:
  "sv_now (apply_effect p tk e s) = sv_now s"
  "sv_tasks (apply_effect p tk e s) = (sv_tasks s)(p \<mapsto> tk\<lparr>tk_phase := ef_phase e\<rparr>)"
  "sv_log (apply_effect p tk e s) = sv_log s @ ef_log e"
  "sv_used (apply_effect p tk e s) = sv_used s"
  "sv_table (apply_effect p tk e s) = (case ef_row e of None \<Rightarrow> sv_table s | Some v \<Rightarrow> (sv_table s)(tk_key tk := v))"
  "sv_locks (apply_effect p tk e s) = (case ef_lock e of Keep \<Rightarrow> sv_locks s | Acquire \<Rightarrow> (sv_locks s)(tk_key tk \<mapsto> p)
     | Release \<Rightarrow> (sv_locks s)(tk_key tk := None))"
  by (simp_all add: apply_effect_def Let_def change_lock_def split: option.split lock_change.split)

text \<open>The four kinds of steps.\<close>

lemma step_cases:
  assumes "step configured ev s = Some s'"
  obtains (Spawn) p w k oper where "ev = Spawn p w k oper" and "sv_tasks s p = None" and "is_mint oper \<Longrightarrow> snd k = servicetitan"
      and "s' = apply_effect p \<lparr>tk_worker = w, tk_key = k, tk_op = oper, tk_phase = Locking\<rparr>
                  (begin_call configured (sv_now s) k oper (cache_hit (sv_now s) k (sv_caches s w))) s"
  | (Resume) p a tk e where "ev = Resume p a" and "sv_tasks s p = Some tk"
      and "tk_phase tk = Locking \<Longrightarrow> a = Next \<Longrightarrow> sv_locks s (tk_key tk) = None"
      and "react configured (sv_now s) (tk_key tk) (sv_table s (tk_key tk)) (tk_op tk) (tk_phase tk) a = Some e"
      and "s' = apply_effect p tk e (s\<lparr>sv_used := newly_used tk a @ sv_used s\<rparr>)"
  | (Pass) n where "ev = Pass n" and "s' = s\<lparr>sv_now := sv_now s + int n\<rparr>"
  | (Annotate) k extra where "ev = Annotate k extra"
      and "s' = (case sv_table s k of None \<Rightarrow> s | Some t \<Rightarrow> set_row k (Some (t\<lparr>td_extra := extra\<rparr>)) s)"
proof (cases ev)
  case (Spawn p w k oper)
  show ?thesis
  proof (rule that(1) [OF Spawn])
    show "sv_tasks s p = None" using assms Spawn by (simp split: if_splits)
    show "snd k = servicetitan" if "is_mint oper" using assms Spawn that by (cases oper) (simp_all split: if_splits)
    show "s' = apply_effect p \<lparr>tk_worker = w, tk_key = k, tk_op = oper, tk_phase = Locking\<rparr>
                  (begin_call configured (sv_now s) k oper (cache_hit (sv_now s) k (sv_caches s w))) s"
      using assms Spawn by (simp split: if_splits)
  qed
next
  case (Resume p a)
  then obtain tk where tk: "sv_tasks s p = Some tk" using assms by (cases "sv_tasks s p") simp_all
  then show ?thesis using assms Resume that(2) [OF Resume tk] by (simp split: if_splits) blast+
qed (use assms that(3,4) in auto)

definition lock_ok :: "service \<Rightarrow> bool" where
  "lock_ok s \<longleftrightarrow>
     (\<forall>p tk. sv_tasks s p = Some tk \<longrightarrow> phase_fits (tk_op tk) (tk_phase tk))
     \<and> (\<forall>k p. sv_locks s k = Some p \<longleftrightarrow> (\<exists>tk. sv_tasks s p = Some tk \<and> tk_key tk = k \<and> in_section (tk_op tk) (tk_phase tk)))"

lemma lock_ok_step:
  assumes "lock_ok s" and "step configured ev s = Some s'"
  shows "lock_ok s'"
  using assms(2)
proof (cases rule: step_cases)
  case (Spawn p w k oper)
  let ?e = "begin_call configured (sv_now s) k oper (cache_hit (sv_now s) k (sv_caches s w))"
  have "phase_fits oper (ef_phase ?e)" and "\<not> in_section oper (ef_phase ?e)" by (rule begin_call_effect)+
  then show ?thesis using assms(1) Spawn(2) unfolding lock_ok_def Spawn(4) by (auto simp: begin_call_effect(1))
next
  case (Resume p a tk e)
  have fits: "phase_fits (tk_op tk) (tk_phase tk)" using assms(1) Resume(2) unfolding lock_ok_def by blast
  have fits': "phase_fits (tk_op tk) (ef_phase e)" by (rule react_fits [OF Resume(4) fits])
  have lock: "sv_locks s (tk_key tk) = Some p \<longleftrightarrow> in_section (tk_op tk) (tk_phase tk)"
    using assms(1) Resume(2) unfolding lock_ok_def by (metis option.sel)
  have other: "sv_locks s k = Some q \<longleftrightarrow> (\<exists>tk. sv_tasks s q = Some tk \<and> tk_key tk = k \<and> in_section (tk_op tk) (tk_phase tk))" for k q
    using assms(1) unfolding lock_ok_def by blast
  show ?thesis
  proof (cases "ef_lock e")
    case Keep
    then show ?thesis using react_lock [OF Resume(4) fits] fits' assms(1) Resume(2) unfolding lock_ok_def Resume(5) by auto
  next
    case Acquire
    then have "sv_locks s (tk_key tk) = None" "in_section (tk_op tk) (ef_phase e)"
      using react_lock [OF Resume(4) fits] Resume(3) by simp_all
    moreover from this have "\<not> in_section (tk_op tk') (tk_phase tk')" if "sv_tasks s q = Some tk'" "tk_key tk' = tk_key tk" for q tk'
      using other [of "tk_key tk" q] that by auto
    ultimately show ?thesis using Acquire fits' assms(1) Resume(2) unfolding lock_ok_def Resume(5) by auto
  next
    case Release
    then have "sv_locks s (tk_key tk) = Some p" "\<not> in_section (tk_op tk) (ef_phase e)"
      using react_lock [OF Resume(4) fits] lock by simp_all
    have "sv_locks s' k = Some q \<longleftrightarrow>
        (\<exists>tk. sv_tasks s' q = Some tk \<and> tk_key tk = k \<and> in_section (tk_op tk) (tk_phase tk))" for k q
    proof (cases "q = p")
      case True
      then show ?thesis using other [of k p] \<open>\<not> in_section (tk_op tk) (ef_phase e)\<close> Release Resume(2)
          \<open>sv_locks s (tk_key tk) = Some p\<close> unfolding Resume(5) by auto
    next
      case False
      then show ?thesis using other [of k q] Release \<open>sv_locks s (tk_key tk) = Some p\<close> unfolding Resume(5) by auto
    qed
    moreover have "\<forall>q tk'. sv_tasks s' q = Some tk' \<longrightarrow> phase_fits (tk_op tk') (tk_phase tk')"
      using fits' assms(1) unfolding lock_ok_def Resume(5) by auto
    ultimately show ?thesis unfolding lock_ok_def by blast
  qed
next
  case (Pass n)
  then show ?thesis using assms(1) by (simp add: lock_ok_def)
next
  case (Annotate k extra)
  then show ?thesis using assms(1) by (simp add: lock_ok_def split: option.split)
qed

lemma reachable_lock_ok: "reachable_service allowed configured s \<Longrightarrow> lock_ok s"
proof (induction rule: reachable_service.induct)
  case (start now)
  show ?case by (simp add: fresh_service_def lock_ok_def)
next
  case (step s e s')
  show ?case by (rule lock_ok_step [OF step.IH step.hyps(3)])
qed
text \<open>
  One refresh at a time. However processes, coroutines and users interleave, two tasks that are between taking and giving
  back the refresh lock of the same user and integration are the same task; and whoever holds the lock is still in that section,
  so a call that has returned or thrown holds none.
\<close>

theorem one_refresh_at_a_time:
  assumes "reachable_service allowed configured s" and "sv_tasks s p = Some tk" and "in_section (tk_op tk) (tk_phase tk)"
  shows "sv_locks s (tk_key tk) = Some p
    \<and> (\<forall>q tk'. sv_tasks s q = Some tk' \<longrightarrow> tk_key tk' = tk_key tk \<longrightarrow> in_section (tk_op tk') (tk_phase tk') \<longrightarrow> q = p)
    \<and> (\<forall>k q tk' result. sv_tasks s q = Some tk' \<longrightarrow> tk_phase tk' = Finished result \<longrightarrow> sv_locks s k \<noteq> Some q)"
proof (intro conjI allI impI)
  have ok: "sv_locks s k = Some q \<longleftrightarrow> (\<exists>tk. sv_tasks s q = Some tk \<and> tk_key tk = k \<and> in_section (tk_op tk) (tk_phase tk))" for k q
    using reachable_lock_ok [OF assms(1)] unfolding lock_ok_def by blast
  show lock: "sv_locks s (tk_key tk) = Some p" using ok assms(2,3) by blast
  show "q = p" if "sv_tasks s q = Some tk'" "tk_key tk' = tk_key tk" "in_section (tk_op tk') (tk_phase tk')" for q tk'
    using ok [of "tk_key tk" q] lock that by auto
  show "sv_locks s k \<noteq> Some q" if "sv_tasks s q = Some tk'" "tk_phase tk' = Finished result" for k q tk' result
    using ok [of k q] that by auto
qed

section \<open>The cache\<close>

definition held_since :: "service \<Rightarrow> token_key \<Rightarrow> token_data option \<Rightarrow> int \<Rightarrow> bool" where
  \<comment> \<open>the row still has this value, or had it at that time or later\<close>
  "held_since s k v t \<longleftrightarrow> sv_table s k = v \<or> (\<exists>t'. sv_left s (k, v) = Some t' \<and> t \<le> t')"

definition entry_ttl :: "token_data option \<Rightarrow> int" where
  "entry_ttl v = (case v of None \<Rightarrow> negative_ttl | Some t \<Rightarrow> positive_ttl)"

definition recent :: "service \<Rightarrow> bool" where
  "recent s \<longleftrightarrow>
     (\<forall>w k v until. sv_caches s w k = Some (v, until) \<longrightarrow> held_since s k v (until - entry_ttl v) \<and> until - entry_ttl v \<le> sv_now s)
     \<and> (\<forall>p tk pu t0. sv_tasks s p = Some tk \<longrightarrow> tk_phase tk = Querying pu t0 \<longrightarrow> t0 \<le> sv_now s)
     \<and> (\<forall>p tk pu t0 v. sv_tasks s p = Some tk \<longrightarrow> tk_phase tk = Fetched pu t0 v \<longrightarrow> held_since s (tk_key tk) v t0 \<and> t0 \<le> sv_now s)"

lemma held_since_set_row: "held_since s k v t \<Longrightarrow> t \<le> sv_now s \<Longrightarrow> held_since (set_row k' v' s) k v t"
  by (auto simp: held_since_def set_row_def)

lemma held_since_cong: "sv_table s' = sv_table s \<Longrightarrow> sv_left s' = sv_left s \<Longrightarrow> held_since s' k v t = held_since s k v t"
  by (simp add: held_since_def)

lemma after_load_phase:
  "ef_phase (after_load configured now k oper pu v) \<noteq> Querying pu' t0" "ef_phase (after_load configured now k oper pu v) \<noteq> Fetched pu' t0 v'"
  by (cases pu; simp split: option.split operation.split)+

lemma after_unlock_phase: "ef_phase (after_unlock now oper se) = Querying pu t0 \<Longrightarrow> t0 = now"
  by (cases se) (simp_all split: operation.splits if_splits)

lemma after_unlock_phase': "ef_phase (after_unlock now oper se) \<noteq> Fetched pu t0 v" "ef_cache (after_unlock now oper se) \<noteq> Put_entry t0 v"
  by (cases se; simp split: operation.split)+

lemma begin_call_phase: "ef_phase (begin_call configured now k oper hit) = Querying pu t0 \<Longrightarrow> t0 = now"
  by (cases oper; cases hit) (simp_all add: cached_load_def after_load_phase del: after_load.simps)

lemma begin_call_phase': "ef_phase (begin_call configured now k oper hit) \<noteq> Fetched pu t0 v"
  by (cases oper; cases hit) (simp_all add: cached_load_def after_load_phase del: after_load.simps)

lemma react_times:
  assumes "react configured now k row oper ph a = Some e"
  shows "ef_phase e = Querying pu t0 \<Longrightarrow> t0 = now"
    and "ef_phase e = Fetched pu t0 v \<Longrightarrow> ph = Querying pu t0 \<and> v = row \<and> ef_row e = None"
    and "ef_cache e = Put_entry t0 v \<Longrightarrow> (\<exists>pu. ph = Fetched pu t0 v) \<and> ef_row e = None"
  using assms
  by (cases ph; auto simp: react_def after_load_phase after_load_keeps after_unlock_phase after_unlock_phase' after_unlock_effect fill_cache_def
      split: if_splits answer.splits)+

lemma caches_change:
  "sv_caches (change_cache w k ch s) w' k' =
     (if w' = w \<and> k' = k then (case ch of Keep_entry \<Rightarrow> sv_caches s w k | Drop_entry \<Rightarrow> None
        | Put_entry t0 v \<Rightarrow> Some (v, t0 + entry_ttl v)) else sv_caches s w' k')"
  by (simp add: change_cache_def cache_drop_def cache_put_def entry_ttl_def split: cache_change.split)

lemma caches_apply:
  "sv_caches (apply_effect p tk e s) w k =
     (if w = tk_worker tk \<and> k = tk_key tk then (case ef_cache e of Keep_entry \<Rightarrow> sv_caches s w k | Drop_entry \<Rightarrow> None
        | Put_entry t0 v \<Rightarrow> Some (v, t0 + entry_ttl v)) else sv_caches s w k)"
  by (simp add: apply_effect_def Let_def caches_change change_lock_def split: lock_change.split option.split cache_change.split)

lemma held_since_apply:
  assumes "held_since s k v t" and "t \<le> sv_now s"
  shows "held_since (apply_effect p tk e s) k v t"
proof -
  have "held_since (apply_effect p tk e s) k v t
      = held_since (case ef_row e of None \<Rightarrow> s | Some v \<Rightarrow> set_row (tk_key tk) v s) k v t"
    by (rule held_since_cong) (simp_all add: apply_effect_def Let_def split: option.split)
  then show ?thesis using assms held_since_set_row by (cases "ef_row e") auto
qed

lemma held_since_now: "held_since s k (sv_table s k) t"
  by (simp add: held_since_def)
lemma recent_cache: "recent s \<Longrightarrow> sv_caches s w k = Some (v, until) \<Longrightarrow>
    held_since s k v (until - entry_ttl v) \<and> until - entry_ttl v \<le> sv_now s"
  unfolding recent_def by blast

lemma recent_query: "recent s \<Longrightarrow> sv_tasks s p = Some tk \<Longrightarrow> tk_phase tk = Querying pu t0 \<Longrightarrow> t0 \<le> sv_now s"
  unfolding recent_def by blast

lemma recent_fetched: "recent s \<Longrightarrow> sv_tasks s p = Some tk \<Longrightarrow> tk_phase tk = Fetched pu t0 v \<Longrightarrow>
    held_since s (tk_key tk) v t0 \<and> t0 \<le> sv_now s"
  unfolding recent_def by blast

lemma recent_step:
  assumes ok: "recent s" and "step configured ev s = Some s'"
  shows "recent s'"
  using assms(2)
proof (cases rule: step_cases)
  case (Spawn p w k oper)
  let ?hit = "cache_hit (sv_now s) k (sv_caches s w)"
  have now: "sv_now s' = sv_now s" by (simp add: Spawn(4))
  have held: "held_since s' k' v t" if "held_since s k' v t" "t \<le> sv_now s" for k' v t
    unfolding Spawn(4) by (rule held_since_apply [OF that])
  have caches: "sv_caches s' w' k' = sv_caches s w' k'" for w' k'
    by (simp add: Spawn(4) caches_apply begin_call_effect)
  have tasks: "sv_tasks s' q = Some tk \<Longrightarrow> q \<noteq> p \<Longrightarrow> sv_tasks s q = Some tk" for q tk
    by (simp add: Spawn(4))
  have new: "sv_tasks s' p = Some tk \<Longrightarrow> tk_phase tk = ef_phase (begin_call configured (sv_now s) k oper ?hit)" for tk
    by (auto simp: Spawn(4))
  show ?thesis unfolding recent_def now caches
    using recent_cache [OF ok] recent_query [OF ok] recent_fetched [OF ok] held tasks new begin_call_phase begin_call_phase'
    by (metis order_refl)
next
  case (Resume p a tk e)
  let ?s = "s\<lparr>sv_used := newly_used tk a @ sv_used s\<rparr>"
  have now: "sv_now s' = sv_now s" by (simp add: Resume(5))
  have held: "held_since s' k' v t" if "held_since s k' v t" "t \<le> sv_now s" for k' v t
    unfolding Resume(5) by (rule held_since_apply) (use that in \<open>simp_all add: held_since_def\<close>)
  have caches: "held_since s' k v (until - entry_ttl v) \<and> until - entry_ttl v \<le> sv_now s"
    if "sv_caches s' w k = Some (v, until)" for w k v until
  proof (cases "\<exists>t0 v'. ef_cache e = Put_entry t0 v' \<and> w = tk_worker tk \<and> k = tk_key tk")
    case True
    then obtain t0 v' where put: "ef_cache e = Put_entry t0 v'" "w = tk_worker tk" "k = tk_key tk" by blast
    obtain pu where ph: "tk_phase tk = Fetched pu t0 v'" using react_times(3) [OF Resume(4) put(1)] by blast
    have "v = v'" "until = t0 + entry_ttl v'" using that put unfolding Resume(5) by (auto simp: caches_apply)
    then show ?thesis using recent_fetched [OF ok Resume(2) ph] held put(3) by simp
  next
    case False
    then have "sv_caches s w k = Some (v, until)"
      using that unfolding Resume(5) by (auto simp: caches_apply split: if_splits cache_change.splits)
    then show ?thesis using recent_cache [OF ok] held by blast
  qed
  have tasks: "sv_tasks s' q = Some tk' \<Longrightarrow> q \<noteq> p \<Longrightarrow> sv_tasks s q = Some tk'" for q tk'
    by (simp add: Resume(5))
  have new: "sv_tasks s' p = Some tk' \<Longrightarrow> tk_phase tk' = ef_phase e \<and> tk_key tk' = tk_key tk" for tk'
    by (auto simp: Resume(5))
  have q: "t0 \<le> sv_now s" if "sv_tasks s' r = Some tk'" "tk_phase tk' = Querying pu t0" for r tk' pu t0
    using that tasks new recent_query [OF ok] react_times(1) [OF Resume(4)] by (metis order_refl)
  have f: "held_since s' (tk_key tk') v t0 \<and> t0 \<le> sv_now s" if "sv_tasks s' r = Some tk'" "tk_phase tk' = Fetched pu t0 v" for r tk' pu t0 v
  proof (cases "r = p")
    case True
    have "ef_phase e = Fetched pu t0 v" "tk_key tk' = tk_key tk" using new that True by simp_all
    then have "tk_phase tk = Querying pu t0" "v = sv_table s (tk_key tk)" "ef_row e = None" "tk_key tk' = tk_key tk"
      using react_times(2) [OF Resume(4)] by blast+
    then show ?thesis using recent_query [OF ok Resume(2)] held [OF held_since_now] by simp
  next
    case False
    then show ?thesis using that tasks recent_fetched [OF ok] held by blast
  qed
  show ?thesis unfolding recent_def now using caches q f by blast
next
  case (Pass n)
  then show ?thesis using ok unfolding recent_def by (fastforce simp: held_since_def)
next
  case (Annotate k extra)
  show ?thesis
  proof (cases "sv_table s k")
    case (Some t)
    then have "s' = set_row k (Some (t\<lparr>td_extra := extra\<rparr>)) s" using Annotate(2) by simp
    then show ?thesis using ok held_since_set_row unfolding recent_def by simp
  qed (use ok Annotate(2) in simp)
qed

lemma reachable_recent: "reachable_service allowed configured s \<Longrightarrow> recent s"
proof (induction rule: reachable_service.induct)
  case (start now)
  show ?case by (simp add: fresh_service_def recent_def)
next
  case (step s e s')
  show ?case by (rule recent_step [OF step.IH step.hyps(3)])
qed

text \<open>
  C34. A cached credential is never old. Whatever connects, disconnects, refreshes and loads other processes and coroutines
  interleave, also a load whose answer arrives after the row was changed and the cache dropped: what a process gives out from
  its cache is the row as it is now or as it was less than 30 seconds ago, and \<open>not connected\<close> less than 5 seconds ago.
\<close>

theorem cached_reads_are_recent:
  assumes "reachable_service allowed configured s" and "cache_hit (sv_now s) k (sv_caches s w) = Some v"
  shows "sv_table s k = v \<or> (\<exists>t. sv_left s (k, v) = Some t \<and> sv_now s - (if v = None then 5 else 30) < t)"
proof -
  obtain until where c: "sv_caches s w k = Some (v, until)" "sv_now s < until"
    using assms(2) by (auto simp: cache_hit_def split: option.splits if_splits)
  have "held_since s k v (until - entry_ttl v)" using recent_cache [OF reachable_recent [OF assms(1)] c(1)] by blast
  then show ?thesis using c(2) unfolding held_since_def entry_ttl_def negative_ttl_def positive_ttl_def
    by (cases v) auto
qed
section \<open>Rotated refresh tokens\<close>

text \<open>
  What the provider is assumed to do, and the database: a refresh token handed out, by a refresh or with a new connection, was
  not in use before for this user and integration (or it is the old one again, or there is none), and once the provider has
  granted a refresh the statements that store it do not fail.
\<close>

definition unused :: "service \<Rightarrow> token_key \<Rightarrow> string \<Rightarrow> bool" where
  "unused s k r \<longleftrightarrow> r = [] \<or> (k, r) \<notin> set (sv_used s)"

fun steady_answer :: "service \<Rightarrow> task \<Rightarrow> answer \<Rightarrow> bool" where
  "steady_answer s tk (Granted g) =
     (case tk_phase tk of
        Posting t \<Rightarrow> (case gr_refresh g of Some r \<Rightarrow> r = td_refresh t \<or> unused s (tk_key tk) r | None \<Rightarrow> True)
      | _ \<Rightarrow> True)"
| "steady_answer s tk Next = (case tk_phase tk of Saving t \<Rightarrow> \<not> is_connect (tk_op tk) \<or> unused s (tk_key tk) (td_refresh t) | _ \<Rightarrow> True)"
| "steady_answer s tk Db_error =
     (case tk_phase tk of
        Saving t \<Rightarrow> \<not> is_refresh (tk_op tk)
      | Querying (Recheck r t) t0 \<Rightarrow> False
      | _ \<Rightarrow> True)"
| "steady_answer s tk a = True"

fun steady :: "service \<Rightarrow> event \<Rightarrow> bool" where
  "steady s (Resume p a) = (case sv_tasks s p of Some tk \<Rightarrow> steady_answer s tk a | None \<Rightarrow> True)"
| "steady s ev = True"

text \<open>The refresh token a phase may still post or store, and the phases that will replace a rotated one.\<close>

fun carried :: "phase \<Rightarrow> string list" where
  "carried (Fetched Under_lock t0 (Some t)) = [td_refresh t]"
| "carried (Posting t) = [td_refresh t]"
| "carried (Querying (Recheck r t) t0) = [td_refresh t]"
| "carried (Fetched (Recheck r t) t0 v) = [td_refresh t]"
| "carried (Saving t) = [td_refresh t]"
| "carried ph = []"

fun settles :: "string \<Rightarrow> phase \<Rightarrow> bool" where
  "settles r (Querying (Recheck r' t) t0) = (r' = r)"
| "settles r (Fetched (Recheck r' t) t0 v) = (r' = r \<and> (case v of Some cur \<Rightarrow> td_refresh cur = r | None \<Rightarrow> False))"
| "settles r (Saving t) = True"
| "settles r ph = False"

definition spent_ok :: "(string \<Rightarrow> bool) \<Rightarrow> service \<Rightarrow> bool" where
  "spent_ok configured s \<longleftrightarrow>
     (\<forall>k r. Rotated k r \<in> set (sv_log s) \<longrightarrow> r \<noteq> [] \<and> (k, r) \<in> set (sv_used s) \<and> refreshable configured (snd k))
     \<and> (\<forall>k r t. Rotated k r \<in> set (sv_log s) \<longrightarrow> sv_table s k = Some t \<longrightarrow> td_refresh t = r \<longrightarrow>
          (\<exists>p tk. sv_tasks s p = Some tk \<and> tk_key tk = k \<and> is_refresh (tk_op tk) \<and> settles r (tk_phase tk)))
     \<and> (\<forall>p tk r. sv_tasks s p = Some tk \<longrightarrow> is_refresh (tk_op tk) \<longrightarrow> r \<in> set (carried (tk_phase tk)) \<longrightarrow>
          Rotated (tk_key tk) r \<notin> set (sv_log s))
     \<and> (\<forall>p tk t. sv_tasks s p = Some tk \<longrightarrow> tk_phase tk = Posting t \<longrightarrow> refreshable configured (snd (tk_key tk)) \<and> td_refresh t \<noteq> [])
     \<and> (\<forall>p tk. sv_tasks s p = Some tk \<longrightarrow> is_mint (tk_op tk) \<longrightarrow> snd (tk_key tk) = servicetitan)
     \<and> (\<forall>before k r after. sv_log s = before @ Rotated k r # after \<longrightarrow> Posted k r \<notin> set after)"

lemma servicetitan_not_refreshable: "\<not> refreshable configured servicetitan"
  by (simp add: refreshable_def servicetitan_def list_oauth_integrations_def)

lemma after_load_posts:
  "ef_phase (after_load configured now k oper pu v) = Posting t \<Longrightarrow>
     pu = Under_lock \<and> v = Some t \<and> refreshable configured (snd k) \<and> td_refresh t \<noteq> []"
  "Posted k' r \<in> set (ef_log (after_load configured now k oper pu v)) \<Longrightarrow>
     pu = Under_lock \<and> (\<exists>t. v = Some t \<and> r = td_refresh t) \<and> k' = k"
  "ef_phase (after_load configured now k oper pu v) = Saving t \<Longrightarrow>
     \<exists>posted t' cur. pu = Recheck posted t' \<and> v = Some cur \<and> td_refresh cur = posted \<and> td_refresh t = td_refresh t'"
  by (cases pu; auto split: option.splits operation.splits if_splits)+

lemma after_load_rotates: "Rotated k' r \<notin> set (ef_log (after_load configured now k oper pu v))"
  by (cases pu; auto split: option.splits operation.splits)

lemma after_unlock_plain:
  "ef_phase (after_unlock now oper se) \<noteq> Posting t" "ef_phase (after_unlock now oper se) \<noteq> Saving t"
  "ef_phase (after_unlock now oper se) = Querying pu t0 \<Longrightarrow> pu = Gone_check"
  by (cases se; simp split: operation.splits if_splits)+

lemma rotation_Rotated: "Rotated k' r \<in> set (rotation k t g) \<longleftrightarrow>
    k' = k \<and> r = td_refresh t \<and> (\<exists>r'. gr_refresh g = Some r' \<and> r' \<noteq> td_refresh t)"
  by (cases "gr_refresh g") (auto simp: rotation_def)

lemma rotation_Posted: "Posted k' r \<notin> set (rotation k t g)"
  by (auto simp: rotation_def split: option.split)

text \<open>Where a phase of the section comes from.\<close>

lemma react_fetched:
  "react configured now k row oper ph a = Some e \<Longrightarrow> ef_phase e = Fetched pu t0 v \<Longrightarrow>
     ph = Querying pu t0 \<and> v = row \<and> ef_row e = None \<and> ef_log e = []"
  by (cases ph) (auto simp: react_def after_load_phase after_unlock_phase' split: if_splits answer.splits)

lemma react_posting:
  "react configured now k row oper ph a = Some e \<Longrightarrow> ef_phase e = Posting t \<Longrightarrow>
     \<exists>t0. ph = Fetched Under_lock t0 (Some t) \<and> refreshable configured (snd k) \<and> td_refresh t \<noteq> [] \<and> ef_row e = None"
  by (cases ph) (auto simp: react_def after_unlock_plain(1,2) after_load_keeps split: if_splits answer.splits dest: after_load_posts(1))

lemma react_recheck:
  "react configured now k row oper ph a = Some e \<Longrightarrow> ef_phase e = Querying (Recheck r t') t0 \<Longrightarrow>
     \<exists>t g. ph = Posting t \<and> a = Granted g \<and> r = td_refresh t \<and> t' = apply_grant now g t \<and> ef_log e = rotation k t g \<and> ef_row e = None"
  by (cases ph) (auto simp: react_def after_load_phase split: if_splits answer.splits dest: after_unlock_plain(3))

lemma react_saving:
  assumes "react configured now k row oper ph a = Some e" and "ef_phase e = Saving t"
  shows "(\<exists>r t' t0 cur. ph = Fetched (Recheck r t') t0 (Some cur) \<and> td_refresh cur = r \<and> td_refresh t = td_refresh t' \<and> ef_row e = None)
     \<or> (\<exists>t'. ph = Minting t')"
proof (cases ph)
  case (Fetched pu t0 v)
  then have e: "e = fill_cache t0 v (after_load configured now k oper pu v)" using assms(1) by (simp add: react_def split: if_splits)
  then have "ef_phase (after_load configured now k oper pu v) = Saving t" using assms(2) by simp
  from after_load_posts(3) [OF this] e Fetched show ?thesis by (auto simp: after_load_keeps)
qed (use assms in \<open>auto simp: react_def after_unlock_plain(1,2) split: if_splits answer.splits\<close>)

lemma react_log:
  assumes "react configured now k row oper ph a = Some e"
  shows "Posted k' r \<in> set (ef_log e) \<Longrightarrow> \<exists>t0 t. ph = Fetched Under_lock t0 (Some t) \<and> k' = k \<and> r = td_refresh t"
    and "Rotated k' r \<in> set (ef_log e) \<Longrightarrow>
      \<exists>t g r'. ph = Posting t \<and> a = Granted g \<and> gr_refresh g = Some r' \<and> r' \<noteq> td_refresh t \<and> k' = k \<and> r = td_refresh t"
    and "ef_row e = Some (Some t) \<Longrightarrow> ph = Saving t \<and> a = Next"
    and "ef_row e \<noteq> None \<Longrightarrow> ef_log e = []"
  using assms
  by (cases ph; auto simp: react_def after_load_keeps after_unlock_effect rotation_Rotated rotation_Posted after_load_rotates
      split: if_splits answer.splits dest: after_load_posts)+
lemma spent_rotated: "spent_ok configured s \<Longrightarrow> Rotated k r \<in> set (sv_log s) \<Longrightarrow>
    r \<noteq> [] \<and> (k, r) \<in> set (sv_used s) \<and> refreshable configured (snd k)"
  unfolding spent_ok_def by blast

lemma spent_row: "spent_ok configured s \<Longrightarrow> Rotated k (td_refresh t) \<in> set (sv_log s) \<Longrightarrow> sv_table s k = Some t \<Longrightarrow>
    \<exists>p tk. sv_tasks s p = Some tk \<and> tk_key tk = k \<and> is_refresh (tk_op tk) \<and> settles (td_refresh t) (tk_phase tk)"
  unfolding spent_ok_def by blast

lemma spent_carried: "spent_ok configured s \<Longrightarrow> sv_tasks s p = Some tk \<Longrightarrow> is_refresh (tk_op tk) \<Longrightarrow> r \<in> set (carried (tk_phase tk)) \<Longrightarrow>
    Rotated (tk_key tk) r \<notin> set (sv_log s)"
  unfolding spent_ok_def by blast

lemma spent_posting: "spent_ok configured s \<Longrightarrow> sv_tasks s p = Some tk \<Longrightarrow> tk_phase tk = Posting t \<Longrightarrow>
    refreshable configured (snd (tk_key tk)) \<and> td_refresh t \<noteq> []"
  unfolding spent_ok_def by blast

lemma spent_mint: "spent_ok configured s \<Longrightarrow> sv_tasks s p = Some tk \<Longrightarrow> is_mint (tk_op tk) \<Longrightarrow> snd (tk_key tk) = servicetitan"
  unfolding spent_ok_def by blast

lemma spent_log: "spent_ok configured s \<Longrightarrow> sv_log s = before @ Rotated k r # after \<Longrightarrow> Posted k r \<notin> set after"
  unfolding spent_ok_def by blast

lemma spent_okI:
  assumes "\<And>k r. Rotated k r \<in> set (sv_log s) \<Longrightarrow> r \<noteq> [] \<and> (k, r) \<in> set (sv_used s) \<and> refreshable configured (snd k)"
    and "\<And>k t. Rotated k (td_refresh t) \<in> set (sv_log s) \<Longrightarrow> sv_table s k = Some t \<Longrightarrow>
      \<exists>p tk. sv_tasks s p = Some tk \<and> tk_key tk = k \<and> is_refresh (tk_op tk) \<and> settles (td_refresh t) (tk_phase tk)"
    and "\<And>p tk r. sv_tasks s p = Some tk \<Longrightarrow> is_refresh (tk_op tk) \<Longrightarrow> r \<in> set (carried (tk_phase tk)) \<Longrightarrow>
      Rotated (tk_key tk) r \<notin> set (sv_log s)"
    and "\<And>p tk t. sv_tasks s p = Some tk \<Longrightarrow> tk_phase tk = Posting t \<Longrightarrow> refreshable configured (snd (tk_key tk)) \<and> td_refresh t \<noteq> []"
    and "\<And>p tk. sv_tasks s p = Some tk \<Longrightarrow> is_mint (tk_op tk) \<Longrightarrow> snd (tk_key tk) = servicetitan"
    and "\<And>before k r after. sv_log s = before @ Rotated k r # after \<Longrightarrow> Posted k r \<notin> set after"
  shows "spent_ok configured s"
  unfolding spent_ok_def
proof (intro conjI allI impI)
  fix k r t
  assume "Rotated k r \<in> set (sv_log s)" "sv_table s k = Some t" "td_refresh t = r"
  then show "\<exists>p tk. sv_tasks s p = Some tk \<and> tk_key tk = k \<and> is_refresh (tk_op tk) \<and> settles r (tk_phase tk)"
    using assms(2) [of k t] by simp
qed (use assms(1,3-6) in simp_all)

lemma settles_section: "settles r ph \<Longrightarrow> is_refresh oper \<Longrightarrow> in_section oper ph"
  by (induction r ph rule: settles.induct) (auto dest: is_refresh_not)

lemma section_unique:
  assumes "lock_ok s" and "sv_tasks s p = Some tk" and "in_section (tk_op tk) (tk_phase tk)"
    and "sv_tasks s q = Some tk'" and "tk_key tk' = tk_key tk" and "in_section (tk_op tk') (tk_phase tk')"
  shows "q = p"
proof -
  have ok: "sv_locks s k = Some q \<longleftrightarrow> (\<exists>tk. sv_tasks s q = Some tk \<and> tk_key tk = k \<and> in_section (tk_op tk) (tk_phase tk))" for k q
    using assms(1) unfolding lock_ok_def by blast
  then have "sv_locks s (tk_key tk) = Some p" "sv_locks s (tk_key tk) = Some q" using assms(2-) by blast+
  then show ?thesis by simp
qed

text \<open>While a task is in the section and not settling, the row holds no rotated token.\<close>

lemma row_not_rotated:
  assumes "lock_ok s" and "spent_ok configured s" and "sv_tasks s p = Some tk" and "in_section (tk_op tk) (tk_phase tk)"
    and "\<not> settles (td_refresh t) (tk_phase tk)" and "sv_table s (tk_key tk) = Some t"
  shows "Rotated (tk_key tk) (td_refresh t) \<notin> set (sv_log s)"
proof
  assume "Rotated (tk_key tk) (td_refresh t) \<in> set (sv_log s)"
  from spent_row [OF assms(2) this assms(6)] obtain q tk' where q: "sv_tasks s q = Some tk'" "tk_key tk' = tk_key tk"
      "is_refresh (tk_op tk')" "settles (td_refresh t) (tk_phase tk')" by blast
  then have "q = p" using section_unique [OF assms(1,3,4) q(1,2)] settles_section by blast
  then show False using q assms(3,5) by simp
qed

text \<open>The next phase of a refresh carries nothing rotated.\<close>

lemma carried_next:
  assumes ok: "lock_ok s" "spent_ok configured s" and p: "sv_tasks s p = Some tk" and refresh: "is_refresh (tk_op tk)"
    and e: "react configured (sv_now s) (tk_key tk) (sv_table s (tk_key tk)) (tk_op tk) (tk_phase tk) a = Some e"
    and fits: "phase_fits (tk_op tk) (tk_phase tk)" and steady: "steady_answer s tk a" and r: "r \<in> set (carried (ef_phase e))"
  shows "Rotated (tk_key tk) r \<notin> set (sv_log s) \<union> set (ef_log e)"
proof -
  let ?k = "tk_key tk"
  have old: "Rotated ?k r' \<notin> set (sv_log s)" if "r' \<in> set (carried (tk_phase tk))" for r'
    by (rule spent_carried [OF ok(2) p refresh that])
  show ?thesis using r
  proof (cases "ef_phase e" rule: carried.cases)
    case (1 t0 t)
    then have ph: "tk_phase tk = Querying Under_lock t0" "sv_table s ?k = Some t" "ef_log e = []"
      using react_fetched [OF e] by auto
    then have "Rotated ?k (td_refresh t) \<notin> set (sv_log s)" by (intro row_not_rotated [OF ok p]) simp_all
    then show ?thesis using 1 r ph(3) by simp
  next
    case (2 t)
    then obtain t0 where ph: "tk_phase tk = Fetched Under_lock t0 (Some t)" using react_posting [OF e] by blast
    have "Rotated k' r' \<notin> set (ef_log e)" for k' r' using react_log(2) [OF e, of k' r'] ph by auto
    then show ?thesis using old 2 r ph by simp
  next
    case (3 r0 t' t0)
    obtain t g where ph: "tk_phase tk = Posting t" "a = Granted g" "t' = apply_grant (sv_now s) g t" "ef_log e = rotation ?k t g"
      using react_recheck [OF e 3] by blast
    have r': "r = (case gr_refresh g of Some r \<Rightarrow> r | None \<Rightarrow> td_refresh t)" using 3 r ph(3) by (simp add: apply_grant_def)
    have posted: "td_refresh t \<noteq> []" using spent_posting [OF ok(2) p ph(1)] by blast
    show ?thesis
    proof (cases "r = td_refresh t")
      case True
      then have "Rotated ?k r \<notin> set (ef_log e)" using r' ph(4) by (auto simp: rotation_Rotated)
      then show ?thesis using old True ph(1) by simp
    next
      case False
      then obtain r1 where "gr_refresh g = Some r1" "r1 = r" using r' by (cases "gr_refresh g") auto
      then have "unused s ?k r" using steady ph(1,2) False by simp
      then have "Rotated ?k r \<notin> set (sv_log s)" using spent_rotated [OF ok(2), of ?k r] by (auto simp: unused_def)
      then show ?thesis using False ph(4) by (simp add: rotation_Rotated)
    qed
  next
    case (4 r0 t' t0 v)
    then have "tk_phase tk = Querying (Recheck r0 t') t0" "ef_log e = []" using react_fetched [OF e] by auto
    then show ?thesis using old 4 r by simp
  next
    case (5 t)
    obtain r0 t' t0 cur where ph: "tk_phase tk = Fetched (Recheck r0 t') t0 (Some cur)" "td_refresh t = td_refresh t'"
      using react_saving [OF e 5] fits is_refresh_not [OF refresh] by auto
    have "Rotated k' r' \<notin> set (ef_log e)" for k' r' using react_log(2) [OF e, of k' r'] ph by auto
    then show ?thesis using old 5 r ph by simp
  qed auto
qed
text \<open>A row written by a step holds no rotated token.\<close>

lemma written_row_not_rotated:
  assumes ok: "spent_ok configured s" and p: "sv_tasks s p = Some tk" and fits: "phase_fits (tk_op tk) (tk_phase tk)"
    and e: "react configured now (tk_key tk) row (tk_op tk) (tk_phase tk) a = Some e" "ef_row e = Some (Some t)"
    and steady: "steady_answer s tk a"
  shows "Rotated (tk_key tk) (td_refresh t) \<notin> set (sv_log s)"
proof -
  have ph: "tk_phase tk = Saving t" "a = Next" using react_log(3) [OF e] by auto
  consider "is_refresh (tk_op tk)" | "is_mint (tk_op tk)" | "is_connect (tk_op tk)" using fits ph(1) by auto
  then show ?thesis
  proof cases
    case 1
    then show ?thesis using spent_carried [OF ok p 1] ph(1) by simp
  next
    case 2
    then have "snd (tk_key tk) = servicetitan" by (rule spent_mint [OF ok p])
    then show ?thesis using spent_rotated [OF ok] servicetitan_not_refreshable by metis
  next
    case 3
    then have "unused s (tk_key tk) (td_refresh t)" using steady ph by simp
    then show ?thesis using spent_rotated [OF ok, of "tk_key tk" "td_refresh t"] by (auto simp: unused_def)
  qed
qed

text \<open>A settling task keeps settling until it writes the row.\<close>

lemma settles_next:
  assumes "react configured now k (Some t) oper ph a = Some e" and "settles (td_refresh t) ph" and "is_refresh oper"
    and "tk_phase tk = ph" and "tk_op tk = oper" and "steady_answer s tk a"
  shows "settles (td_refresh t) (ef_phase e) \<or> ef_row e \<noteq> None"
proof (cases ph)
  case (Querying pu t0)
  then obtain t' where "pu = Recheck (td_refresh t) t'" using assms(2) by (cases pu) auto
  then show ?thesis using assms(1,4,6) Querying by (auto simp: react_def split: if_splits)
next
  case (Fetched pu t0 v)
  then obtain t' cur where "pu = Recheck (td_refresh t) t'" "v = Some cur" "td_refresh cur = td_refresh t"
    using assms(2) by (cases pu) (auto split: option.splits)
  then show ?thesis using assms(1) Fetched by (auto simp: react_def split: if_splits)
next
  case (Saving t')
  then show ?thesis using assms(1,3-6) by (auto simp: react_def split: if_splits)
qed (use assms(2) in simp_all)

lemma append_Cons_snoc:
  "xs @ ys = before @ x # after \<Longrightarrow> length ys \<le> 1 \<Longrightarrow>
     (\<exists>after'. xs = before @ x # after' \<and> after = after' @ ys) \<or> (ys = [x] \<and> after = [] \<and> before = xs)"
  by (cases ys; cases after rule: rev_cases) auto

lemma react_log_short: "react configured now k row oper ph a = Some e \<Longrightarrow> length (ef_log e) \<le> 1"
proof (cases ph)
  case (Fetched pu t0 v)
  moreover have "length (ef_log (after_load configured now k oper pu v)) \<le> 1"
    by (cases pu) (auto split: option.split operation.split)
  moreover assume "react configured now k row oper ph a = Some e"
  ultimately show ?thesis by (auto simp: react_def split: if_splits)
qed (auto simp: react_def after_unlock_effect rotation_def split: if_splits answer.splits option.splits)

lemma spent_ok_resume:
  assumes ok: "lock_ok s" "spent_ok configured s" and p: "sv_tasks s p = Some tk"
    and e: "react configured (sv_now s) (tk_key tk) (sv_table s (tk_key tk)) (tk_op tk) (tk_phase tk) a = Some e"
    and steady: "steady_answer s tk a"
    and s': "s' = apply_effect p tk e (s\<lparr>sv_used := newly_used tk a @ sv_used s\<rparr>)"
  shows "spent_ok configured s'"
proof -
  let ?k = "tk_key tk"
  have fits: "phase_fits (tk_op tk) (tk_phase tk)" using ok(1) p unfolding lock_ok_def by blast
  have log: "sv_log s' = sv_log s @ ef_log e" by (simp add: s')
  have rot: "Rotated k r \<in> set (sv_log s) \<or>
      (\<exists>t g r'. tk_phase tk = Posting t \<and> a = Granted g \<and> gr_refresh g = Some r' \<and> r' \<noteq> td_refresh t \<and> k = ?k \<and> r = td_refresh t)"
    if "Rotated k r \<in> set (sv_log s')" for k r
    using that react_log(2) [OF e, of k r] unfolding log by auto
  have c1: "r \<noteq> [] \<and> (k, r) \<in> set (sv_used s') \<and> refreshable configured (snd k)" if "Rotated k r \<in> set (sv_log s')" for k r
    using rot [OF that] spent_rotated [OF ok(2), of k r] spent_posting [OF ok(2) p] by (auto simp: s' newly_used_def)
  have c3: "Rotated (tk_key tk') r \<notin> set (sv_log s')"
    if "sv_tasks s' q = Some tk'" "is_refresh (tk_op tk')" "r \<in> set (carried (tk_phase tk'))" for q tk' r
  proof (cases "q = p")
    case True
    then have tk': "tk_key tk' = ?k" "tk_op tk' = tk_op tk" "tk_phase tk' = ef_phase e" using that(1) by (auto simp: s')
    then show ?thesis using carried_next [OF ok p _ e fits steady] that(2,3) by (simp add: log)
  next
    case False
    then have q: "sv_tasks s q = Some tk'" using that(1) by (simp add: s')
    have "in_section (tk_op tk') (tk_phase tk')"
      using that(2,3) is_refresh_not by (cases "tk_phase tk'" rule: carried.cases) auto
    then have "\<not> (tk_key tk' = ?k \<and> in_section (tk_op tk) (tk_phase tk))" using section_unique [OF ok(1) p _ q] False by blast
    then show ?thesis using rot spent_carried [OF ok(2) q that(2,3)] by fastforce
  qed
  have c2: "\<exists>q tk'. sv_tasks s' q = Some tk' \<and> tk_key tk' = k \<and> is_refresh (tk_op tk') \<and> settles (td_refresh t) (tk_phase tk')"
    if "Rotated k (td_refresh t) \<in> set (sv_log s')" "sv_table s' k = Some t" for k t
  proof (cases "ef_row e = None \<or> k \<noteq> ?k")
    case False
    then have w: "ef_row e = Some (Some t)" using that(2) by (auto simp: s')
    then have "Rotated k (td_refresh t) \<notin> set (sv_log s)"
      using written_row_not_rotated [OF ok(2) p fits e w steady] False by simp
    moreover have "ef_log e = []" using react_log(4) [OF e] w by simp
    ultimately show ?thesis using that(1) by (simp add: log)
  next
    case True
    then have row: "sv_table s k = Some t" using that(2) by (auto simp: s' split: option.splits)
    from rot [OF that(1)] show ?thesis
    proof
      assume "Rotated k (td_refresh t) \<in> set (sv_log s)"
      then obtain q tk' where q: "sv_tasks s q = Some tk'" "tk_key tk' = k" "is_refresh (tk_op tk')" "settles (td_refresh t) (tk_phase tk')"
        using spent_row [OF ok(2) _ row] by blast
      show ?thesis
      proof (cases "q = p")
        case False
        then have "sv_tasks s' q = Some tk'" by (simp add: s' q(1))
        then show ?thesis using q(2-4) by blast
      next
        case eq: True
        then have tk': "tk' = tk" using q(1) p by simp
        have e': "react configured (sv_now s) ?k (Some t) (tk_op tk) (tk_phase tk) a = Some e" using e row q(2) tk' by simp
        have "settles (td_refresh t) (ef_phase e) \<or> ef_row e \<noteq> None"
          by (rule settles_next [OF e' _ _ refl refl steady]) (use q(3,4) tk' in simp_all)
        then have "settles (td_refresh t) (ef_phase e)" using True q(2) tk' by simp
        moreover have "sv_tasks s' p = Some (tk\<lparr>tk_phase := ef_phase e\<rparr>)" by (simp add: s')
        ultimately show ?thesis using q(2,3) tk' by (intro exI [of _ p] exI [of _ "tk\<lparr>tk_phase := ef_phase e\<rparr>"]) simp
      qed
    next
      assume "\<exists>t' g r'. tk_phase tk = Posting t' \<and> a = Granted g \<and> gr_refresh g = Some r' \<and> r' \<noteq> td_refresh t' \<and> k = ?k \<and> td_refresh t = td_refresh t'"
      then obtain t' g where ph: "tk_phase tk = Posting t'" "a = Granted g" "k = ?k" "td_refresh t = td_refresh t'" by blast
      then have "settles (td_refresh t) (ef_phase e)" using e by (auto simp: react_def)
      moreover have "is_refresh (tk_op tk)" using fits ph(1) by simp
      moreover have "sv_tasks s' p = Some (tk\<lparr>tk_phase := ef_phase e\<rparr>)" by (simp add: s')
      ultimately show ?thesis using ph(3) by (intro exI [of _ p] exI [of _ "tk\<lparr>tk_phase := ef_phase e\<rparr>"]) simp
    qed
  qed
  have c4: "refreshable configured (snd (tk_key tk')) \<and> td_refresh t \<noteq> []" if "sv_tasks s' q = Some tk'" "tk_phase tk' = Posting t" for q tk' t
  proof (cases "q = p")
    case True
    then have "tk_key tk' = ?k" "ef_phase e = Posting t" using that by (auto simp: s')
    then show ?thesis using react_posting [OF e] by auto
  qed (use that spent_posting [OF ok(2)] in \<open>simp add: s'\<close>)
  have c5: "snd (tk_key tk') = servicetitan" if "sv_tasks s' q = Some tk'" "is_mint (tk_op tk')" for q tk'
    using that spent_mint [OF ok(2)] p by (cases "q = p") (auto simp: s')
  have c6: "Posted k r \<notin> set after" if l: "sv_log s' = before @ Rotated k r # after" for before k r after
    using append_Cons_snoc [OF l [unfolded log] react_log_short [OF e]]
  proof
    assume "\<exists>after'. sv_log s = before @ Rotated k r # after' \<and> after = after' @ ef_log e"
    then obtain after' where a': "sv_log s = before @ Rotated k r # after'" "after = after' @ ef_log e" by blast
    have "Posted k r \<notin> set (ef_log e)"
    proof
      assume "Posted k r \<in> set (ef_log e)"
      then obtain t0 t where ph: "tk_phase tk = Fetched Under_lock t0 (Some t)" "k = ?k" "r = td_refresh t" using react_log(1) [OF e] by blast
      then have "is_refresh (tk_op tk)" using fits by simp
      then show False using spent_carried [OF ok(2) p _, of r] ph a'(1) by simp
    qed
    then show ?thesis using spent_log [OF ok(2) a'(1)] a'(2) by simp
  qed simp
  show ?thesis by (rule spent_okI [OF c1 c2 c3 c4 c5 c6])
qed
lemma begin_call_plain:
  "ef_log (begin_call configured now k oper hit) = []" "is_refresh oper \<Longrightarrow> carried (ef_phase (begin_call configured now k oper hit)) = []"
  "ef_phase (begin_call configured now k oper hit) \<noteq> Posting t"
proof -
  have "ef_log (after_load configured now k oper pu v) = []" "carried (ef_phase (after_load configured now k oper pu v)) = []"
      "ef_phase (after_load configured now k oper pu v) \<noteq> Posting t" if "\<not> locked_purpose pu" for pu v
    using that by (cases pu; simp split: option.split operation.split)+
  then show "ef_log (begin_call configured now k oper hit) = []"
    "is_refresh oper \<Longrightarrow> carried (ef_phase (begin_call configured now k oper hit)) = []"
    "ef_phase (begin_call configured now k oper hit) \<noteq> Posting t"
    by (cases oper; cases hit; simp add: cached_load_def del: after_load.simps)+
qed

lemma spent_ok_step:
  assumes lk: "lock_ok s" and ok: "spent_ok configured s" and st: "step configured ev s = Some s'" and steady: "steady s ev"
  shows "spent_ok configured s'"
  using st
proof (cases rule: step_cases)
  case (Spawn p w k oper)
  let ?e = "begin_call configured (sv_now s) k oper (cache_hit (sv_now s) k (sv_caches s w))"
  have same: "sv_log s' = sv_log s" "sv_used s' = sv_used s" "sv_table s' = sv_table s"
    by (simp_all add: Spawn(4) begin_call_plain begin_call_effect)
  have old: "sv_tasks s' q = Some tk" if "sv_tasks s q = Some tk" for q tk using that Spawn(2) by (auto simp: Spawn(4))
  have new: "sv_tasks s q = Some tk \<or>
      (tk_phase tk = ef_phase ?e \<and> tk_key tk = k \<and> tk_op tk = oper)" if "sv_tasks s' q = Some tk" for q tk
    using that by (auto simp: Spawn(4) split: if_splits)
  have c3: "Rotated (tk_key tk) r \<notin> set (sv_log s)"
    if "sv_tasks s' q = Some tk" "is_refresh (tk_op tk)" "r \<in> set (carried (tk_phase tk))" for q tk r
    using new [OF that(1)] spent_carried [OF ok _ that(2,3)] that(2,3) by (auto simp: begin_call_plain)
  have c4: "refreshable configured (snd (tk_key tk)) \<and> td_refresh t \<noteq> []" if "sv_tasks s' q = Some tk" "tk_phase tk = Posting t" for q tk t
    using new [OF that(1)] spent_posting [OF ok _ that(2)] that(2) begin_call_plain(3) by metis
  have c5: "snd (tk_key tk) = servicetitan" if "sv_tasks s' q = Some tk" "is_mint (tk_op tk)" for q tk
    using new [OF that(1)] spent_mint [OF ok _ that(2)] that(2) Spawn(3) by metis
  have c2: "\<exists>q tk. sv_tasks s' q = Some tk \<and> tk_key tk = k' \<and> is_refresh (tk_op tk) \<and> settles (td_refresh t) (tk_phase tk)"
    if "Rotated k' (td_refresh t) \<in> set (sv_log s)" "sv_table s k' = Some t" for k' t
    using spent_row [OF ok that] old by blast
  show ?thesis
    by (rule spent_okI, unfold same)
      (erule spent_rotated [OF ok], erule c2, assumption, erule c3, assumption+, erule c4, assumption, erule c5, assumption,
        erule spent_log [OF ok])
next
  case (Resume p a tk e)
  have "steady_answer s tk a" using steady Resume(1,2) by simp
  then show ?thesis by (rule spent_ok_resume [OF lk ok Resume(2,4) _ Resume(5)])
next
  case (Pass n)
  then show ?thesis using ok unfolding spent_ok_def by simp
next
  case (Annotate k extra)
  show ?thesis
  proof (cases "sv_table s k")
    case (Some t)
    then have s': "s' = set_row k (Some (t\<lparr>td_extra := extra\<rparr>)) s" using Annotate(2) by simp
    have "\<exists>t0. sv_table s k' = Some t0 \<and> td_refresh t0 = td_refresh t'" if "sv_table s' k' = Some t'" for k' t'
      using that Some by (auto simp: s' split: if_splits)
    then show ?thesis using ok unfolding spent_ok_def s' by (simp del: fun_upd_apply) metis
  qed (use ok Annotate(2) in simp)
qed

lemma reachable_spent_ok: "reachable_service steady configured s \<Longrightarrow> spent_ok configured s"
proof (induction rule: reachable_service.induct)
  case (start now)
  show ?case by (simp add: fresh_service_def spent_ok_def)
next
  case (step s e s')
  show ?case by (rule spent_ok_step [OF reachable_lock_ok [OF step.hyps(1)] step.IH step.hyps(3,2)])
qed

text \<open>
  C7. A rotated refresh token is never posted again. However refreshes of several processes, sweeps, rejected calls, reconnects
  and disconnects interleave: once the provider has answered a refresh with a new refresh token, nobody posts the old one for
  that user and integration any more. Assumed are that refresh tokens handed out are new, and that the database statements
  that store a granted refresh succeed.
\<close>

theorem rotated_token_never_posted:
  assumes "reachable_service steady configured s" and "sv_log s = before @ Rotated k r # after"
  shows "Posted k r \<notin> set after"
  by (rule spent_log [OF reachable_spent_ok [OF assms(1)] assms(2)])
section \<open>Disconnecting\<close>

fun may_write :: "phase \<Rightarrow> bool" where
  \<comment> \<open>past the last look at the row, on the way to write it\<close>
  "may_write (Fetched (Recheck r t) t0 v) = (v \<noteq> None)"
| "may_write (Fetched Mint_recheck t0 v) = (v \<noteq> None)"
| "may_write (Minting t) = True"
| "may_write (Saving t) = True"
| "may_write ph = False"

definition gone :: "token_key \<Rightarrow> service \<Rightarrow> bool" where
  "gone k s \<longleftrightarrow> sv_table s k = None \<and> (\<forall>p tk. sv_tasks s p = Some tk \<longrightarrow> tk_key tk = k \<longrightarrow> \<not> may_write (tk_phase tk))"

fun connects :: "token_key \<Rightarrow> event \<Rightarrow> bool" where
  "connects k (Spawn p w k' oper) \<longleftrightarrow> k' = k \<and> is_connect oper"
| "connects k ev \<longleftrightarrow> False"

lemma after_load_may_write:
  "may_write (ef_phase (after_load configured now k oper pu v)) \<Longrightarrow> may_write (Fetched pu t0 v)"
  by (cases pu; auto split: option.splits operation.splits if_splits)

lemma react_may_write:
  assumes "react configured now k None oper ph a = Some e" and "\<not> may_write ph"
  shows "\<not> may_write (ef_phase e) \<and> (ef_row e = None \<or> ef_row e = Some None)"
proof (cases ph)
  case (Querying pu t0)
  then show ?thesis using assms(1) by (cases pu) (auto simp: react_def split: if_splits)
next
  case (Fetched pu t0 v)
  then show ?thesis using assms after_load_may_write [of configured now k oper pu v t0]
    by (auto simp: react_def after_load_keeps split: if_splits)
next
  case (Unlocking se)
  then show ?thesis using assms by (cases se) (auto simp: react_def split: if_splits operation.splits)
qed (use assms in \<open>auto simp: react_def split: if_splits answer.splits\<close>)

lemma begin_call_may_write: "\<not> is_connect oper \<Longrightarrow> \<not> may_write (ef_phase (begin_call configured now k oper hit))"
proof -
  have "\<not> may_write (ef_phase (after_load configured now k oper pu v))" if "\<not> locked_purpose pu" for pu v
    using after_load_may_write [of configured now k oper pu v 0] that by (cases pu) auto
  then show "\<not> is_connect oper \<Longrightarrow> \<not> may_write (ef_phase (begin_call configured now k oper hit))"
    by (cases oper; cases hit; simp add: cached_load_def del: after_load.simps)
qed

lemma gone_step:
  assumes g: "gone k s" and "step configured ev s = Some s'" and c: "\<not> connects k ev"
  shows "gone k s'"
  using assms(2)
proof (cases rule: step_cases)
  case (Spawn p w k' oper)
  then have "k' = k \<Longrightarrow> \<not> is_connect oper" using c by simp
  then show ?thesis using g begin_call_may_write unfolding gone_def Spawn(4) by (auto simp: begin_call_effect)
next
  case (Resume p a tk e)
  show ?thesis
  proof (cases "tk_key tk = k")
    case True
    then have "\<not> may_write (tk_phase tk)" "sv_table s (tk_key tk) = None" using g Resume(2) unfolding gone_def by blast+
    then have "\<not> may_write (ef_phase e) \<and> (ef_row e = None \<or> ef_row e = Some None)"
      using react_may_write Resume(4) by metis
    then show ?thesis using g True unfolding gone_def Resume(5) by auto
  next
    case False
    then show ?thesis using g unfolding gone_def Resume(5) by (auto split: option.splits)
  qed
next
  case (Pass n)
  then show ?thesis using g by (simp add: gone_def)
next
  case (Annotate k' extra)
  then show ?thesis using g by (auto simp: gone_def split: option.splits)
qed

text \<open>
  C28. What is disconnected stays disconnected. Once the row is gone and no call is past its last look at the row, no refresh,
  sweep, rejected call or mint that is under way, at whatever point, nor any that starts later, brings it back: only a new
  connection does.
\<close>

theorem disconnect_is_final:
  assumes "run_events configured es s = Some s'" and "gone k s" and "\<not> list_ex (connects k) es"
  shows "sv_table s' k = None"
proof -
  have "gone k s'"
    using assms
  proof (induction es arbitrary: s)
    case (Cons ev es)
    then obtain s1 where "step configured ev s = Some s1" "run_events configured es s1 = Some s'" by (auto split: option.splits)
    then show ?case using Cons.IH [of s1] Cons.prems(2,3) gone_step [of k s configured ev s1] by simp
  qed simp
  then show ?thesis by (simp add: gone_def)
qed

section \<open>Every call returns\<close>

fun purpose_rank :: "load_reason \<Rightarrow> nat" where
  "purpose_rank For_caller = 12"
| "purpose_rank Before_mint = 12"
| "purpose_rank Under_lock = 9"
| "purpose_rank Mint_recheck = 9"
| "purpose_rank (Recheck r t) = 6"
| "purpose_rank Gone_check = 0"

fun rank :: "phase \<Rightarrow> nat" where
  "rank (Querying pu t0) = purpose_rank pu + 2"
| "rank (Fetched pu t0 v) = purpose_rank pu + 1"
| "rank Locking = 12"
| "rank (Posting t) = 9"
| "rank (Minting t) = 7"
| "rank (Saving t) = 6"
| "rank (Dropping t) = 5"
| "rank Retiring = 6"
| "rank Dropping_retired = 5"
| "rank (Unlocking se) = 4"
| "rank Handling = 3"
| "rank Dropping_handled = 2"
| "rank Notifying = 1"
| "rank Disconnecting = 2"
| "rank (Dropping_disconnected found) = 1"
| "rank (Finished result) = 0"

lemma after_load_rank: "rank (ef_phase (after_load configured now k oper pu v)) \<le> purpose_rank pu"
  by (cases pu; simp split: option.split operation.split)

lemma after_unlock_rank: "rank (ef_phase (after_unlock now oper se)) \<le> 3"
  by (cases se; simp split: operation.split)

lemma locked_rank: "locked_purpose pu \<Longrightarrow> 6 \<le> purpose_rank pu"
  by (cases pu) simp_all

lemma react_rank: "react configured now k row oper ph a = Some e \<Longrightarrow> rank (ef_phase e) < rank ph"
proof (cases ph)
  case (Querying pu t0)
  moreover assume "react configured now k row oper ph a = Some e"
  ultimately show ?thesis using locked_rank [of pu] by (auto simp: react_def split: if_splits)
next
  case (Fetched pu t0 v)
  moreover assume "react configured now k row oper ph a = Some e"
  ultimately show ?thesis using after_load_rank [of configured now k oper pu v]
    by (auto simp: react_def less_Suc_eq_le simp del: after_load.simps split: if_splits)
next
  case (Unlocking se)
  moreover assume "react configured now k row oper ph a = Some e"
  ultimately show ?thesis using after_unlock_rank [of now oper se] by (auto simp: react_def simp del: after_unlock.simps split: if_splits)
qed (auto simp: react_def split: if_splits answer.splits)

fun resumes :: "nat \<Rightarrow> event \<Rightarrow> bool" where
  "resumes p (Resume q a) = (q = p)"
| "resumes p ev = False"

lemma run_resumes:
  assumes "run_events configured es s = Some s'" and "sv_tasks s p = Some tk"
  shows "\<exists>tk'. sv_tasks s' p = Some tk' \<and> tk_op tk' = tk_op tk \<and> tk_key tk' = tk_key tk
    \<and> length (filter (resumes p) es) + rank (tk_phase tk') \<le> rank (tk_phase tk)"
  using assms
proof (induction es arbitrary: s tk)
  case (Cons ev es)
  then obtain s1 where s1: "step configured ev s = Some s1" "run_events configured es s1 = Some s'" by (auto split: option.splits)
  from s1(1) have "\<exists>tk1. sv_tasks s1 p = Some tk1 \<and> tk_op tk1 = tk_op tk \<and> tk_key tk1 = tk_key tk
      \<and> (if resumes p ev then 1 else 0) + rank (tk_phase tk1) \<le> rank (tk_phase tk)"
  proof (cases rule: step_cases)
    case (Spawn q w k oper)
    then show ?thesis using Cons.prems(2) by auto
  next
    case (Resume q a tkq e)
    then show ?thesis using Cons.prems(2) react_rank [OF Resume(4)] by (cases "q = p") auto
  next
    case (Pass n)
    then show ?thesis using Cons.prems(2) by simp
  next
    case (Annotate k extra)
    then show ?thesis using Cons.prems(2) by (simp split: option.split)
  qed
  then obtain tk1 where tk1: "sv_tasks s1 p = Some tk1" "tk_op tk1 = tk_op tk" "tk_key tk1 = tk_key tk"
      "(if resumes p ev then 1 else 0) + rank (tk_phase tk1) \<le> rank (tk_phase tk)" by blast
  from Cons.IH [OF s1(2) tk1(1)] show ?case using tk1 by (auto split: if_splits)
qed simp

text \<open>An answer every phase accepts.\<close>

fun some_answer :: "phase \<Rightarrow> answer" where
  "some_answer Locking = Busy"
| "some_answer (Posting t) = Rejected_with Other_error"
| "some_answer (Minting t) = Mint_failed"
| "some_answer ph = Next"

lemma react_enabled: "rank ph \<noteq> 0 \<Longrightarrow> \<exists>e. react configured now k row oper ph (some_answer ph) = Some e"
  by (cases ph) (simp_all add: react_def)

lemma rank_0: "rank ph = 0 \<Longrightarrow> \<exists>result. ph = Finished result"
  by (cases ph) simp_all

lemma rank_le: "rank ph \<le> 14"
proof (cases ph)
  case (Querying pu t0)
  then show ?thesis by (cases pu) simp_all
next
  case (Fetched pu t0 v)
  then show ?thesis by (cases pu) simp_all
qed simp_all

lemma call_can_finish:
  "sv_tasks s p = Some tk \<Longrightarrow> \<exists>answers s' tk' result. run_events configured (map (Resume p) answers) s = Some s'
     \<and> sv_tasks s' p = Some tk' \<and> tk_phase tk' = Finished result"
proof (induction "rank (tk_phase tk)" arbitrary: s tk rule: less_induct)
  case less
  show ?case
  proof (cases "rank (tk_phase tk) = 0")
    case True
    then obtain result where "tk_phase tk = Finished result" using rank_0 by blast
    then show ?thesis using less.prems by (intro exI [of _ "[]"]) simp
  next
    case False
    let ?a = "some_answer (tk_phase tk)"
    obtain e where e: "react configured (sv_now s) (tk_key tk) (sv_table s (tk_key tk)) (tk_op tk) (tk_phase tk) ?a = Some e"
      using react_enabled [OF False] by blast
    let ?s = "apply_effect p tk e (s\<lparr>sv_used := newly_used tk ?a @ sv_used s\<rparr>)"
    have st: "step configured (Resume p ?a) s = Some ?s" using less.prems e by (cases "tk_phase tk = Locking") simp_all
    have "sv_tasks ?s p = Some (tk\<lparr>tk_phase := ef_phase e\<rparr>)" by simp
    then obtain answers s' tk' result where "run_events configured (map (Resume p) answers) ?s = Some s'"
        "sv_tasks s' p = Some tk'" "tk_phase tk' = Finished result"
      using less.hyps [of "tk\<lparr>tk_phase := ef_phase e\<rparr>" ?s] react_rank [OF e] by auto
    then show ?thesis using st by (intro exI [of _ "?a # answers"]) simp
  qed
qed

text \<open>
  Every call returns. A call takes at most 14 steps, whatever the provider, the database and everybody else do, and until
  it has returned there always is a next step of its own: nobody waits for a lock without end.
\<close>

theorem every_call_returns:
  assumes "sv_tasks s p = Some tk"
  shows "(\<forall>es s'. run_events configured es s = Some s' \<longrightarrow> length (filter (resumes p) es) \<le> 14)
    \<and> (\<exists>answers s' tk' result. length answers \<le> 14 \<and> run_events configured (map (Resume p) answers) s = Some s'
         \<and> sv_tasks s' p = Some tk' \<and> tk_phase tk' = Finished result)"
proof (intro conjI allI impI)
  show le: "length (filter (resumes p) es) \<le> 14" if "run_events configured es s = Some s'" for es s'
    using run_resumes [OF that assms] rank_le [of "tk_phase tk"] by auto
  obtain answers s' tk' result where r: "run_events configured (map (Resume p) answers) s = Some s'"
      "sv_tasks s' p = Some tk'" "tk_phase tk' = Finished result"
    using call_can_finish [OF assms] by blast
  have "filter (resumes p) (map (Resume p) answers) = map (Resume p) answers" by (induction answers) simp_all
  then have "length answers \<le> 14" using le [OF r(1)] by (metis length_map)
  then show "\<exists>answers s' tk' result. length answers \<le> 14 \<and> run_events configured (map (Resume p) answers) s = Some s'
         \<and> sv_tasks s' p = Some tk' \<and> tk_phase tk' = Finished result" using r by blast
qed
section \<open>Dead grants\<close>

fun doomed :: "phase \<Rightarrow> bool" where
  "doomed Retiring = True"
| "doomed Dropping_retired = True"
| "doomed (Unlocking se) = (se = Threw True)"
| "doomed Handling = True"
| "doomed Dropping_handled = True"
| "doomed Notifying = True"
| "doomed ph = False"

lemma react_doomed:
  assumes "react configured now k row oper ph a = Some e" and "doomed ph" and "is_refresh oper"
  shows "doomed (ef_phase e) \<or> (ef_phase e = Finished (handled_result oper) \<and> ef_log e = [Notified k])"
  using assms by (cases ph) (auto simp: react_def split: if_splits)

lemma run_idle:
  assumes "run_events configured es s = Some s'" and "sv_tasks s p = Some tk" and "\<And>ev. ev \<in> set es \<Longrightarrow> \<not> resumes p ev"
  shows "sv_tasks s' p = Some tk"
  using assms
proof (induction es arbitrary: s)
  case (Cons ev es)
  then obtain s1 where s1: "step configured ev s = Some s1" "run_events configured es s1 = Some s'" by (auto split: option.splits)
  have "sv_tasks s1 p = Some tk"
    using s1(1) Cons.prems(2) Cons.prems(3) [of ev] by (cases rule: step_cases) (auto split: option.split)
  then show ?case using Cons.IH [OF s1(2)] Cons.prems(3) by simp
qed simp

lemma run_doomed:
  assumes "run_events configured es s = Some s'" and "sv_tasks s p = Some tk" and "is_refresh (tk_op tk)" and "doomed (tk_phase tk)"
    and "sv_tasks s' p = Some tk'" and "tk_phase tk' = Finished result"
  shows "result = handled_result (tk_op tk) \<and> (\<exists>new. sv_log s' = sv_log s @ new \<and> Notified (tk_key tk) \<in> set new)"
  using assms
proof (induction es arbitrary: s tk)
  case Nil
  then show ?case by auto
next
  case (Cons ev es)
  then obtain s1 where s1: "step configured ev s = Some s1" "run_events configured es s1 = Some s'" by (auto split: option.splits)
  have grows: "\<exists>new. sv_log s'' = sv_log s0 @ new" if "run_events configured es s0 = Some s''" for es s0 s''
    using that
  proof (induction es arbitrary: s0)
    case (Cons ev es)
    then obtain s1 where s1: "step configured ev s0 = Some s1" "run_events configured es s1 = Some s''" by (auto split: option.splits)
    have "\<exists>new. sv_log s1 = sv_log s0 @ new" using s1(1) by (cases rule: step_cases) (auto split: option.split)
    then show ?case using Cons.IH [OF s1(2)] by auto
  qed simp
  from s1(1) show ?case
  proof (cases rule: step_cases)
    case (Resume q a tkq e)
    show ?thesis
    proof (cases "q = p")
      case True
      then have tkq: "tkq = tk" using Resume(2) Cons.prems(2) by simp
      have p1: "sv_tasks s1 p = Some (tk\<lparr>tk_phase := ef_phase e\<rparr>)" "sv_log s1 = sv_log s @ ef_log e"
        unfolding Resume(5) using True tkq by simp_all
      show ?thesis
      proof (cases "doomed (ef_phase e)")
        case True
        then show ?thesis using Cons.IH [OF s1(2) p1(1)] Cons.prems(3,5,6) p1(2) by auto
      next
        case False
        then have e: "ef_phase e = Finished (handled_result (tk_op tk))" "ef_log e = [Notified (tk_key tk)]"
          using react_doomed [OF Resume(4)] Cons.prems(3,4) tkq by auto
        obtain tk2 where tk2: "sv_tasks s' p = Some tk2" "rank (tk_phase tk2) \<le> rank (ef_phase e)"
          using run_resumes [OF s1(2) p1(1)] by auto
        then have "\<not> resumes p ev'" if "ev' \<in> set es" for ev'
          using run_resumes [OF s1(2) p1(1)] e(1) that by (auto simp: filter_empty_conv)
        then have "tk_phase tk' = ef_phase e"
          using run_idle [OF s1(2) p1(1)] Cons.prems(5) by auto
        then show ?thesis using e Cons.prems(6) grows [OF s1(2)] p1(2) by auto
      qed
    next
      case False
      then have "sv_tasks s1 p = Some tk" "\<exists>new. sv_log s1 = sv_log s @ new" unfolding Resume(5) using Cons.prems(2) by auto
      then show ?thesis using Cons.IH [OF s1(2)] Cons.prems(3-6) by fastforce
    qed
  next
    case (Spawn q w k oper)
    then have "sv_tasks s1 p = Some tk" "\<exists>new. sv_log s1 = sv_log s @ new" using Cons.prems(2) by auto
    then show ?thesis using Cons.IH [OF s1(2)] Cons.prems(3-6) by fastforce
  next
    case (Pass n)
    then show ?thesis using Cons.IH [OF s1(2)] Cons.prems by simp
  next
    case (Annotate k extra)
    then have "sv_tasks s1 p = Some tk" "sv_log s1 = sv_log s" using Cons.prems(2) by (simp_all split: option.split)
    then show ?thesis using Cons.IH [OF s1(2)] Cons.prems(3-6) by simp
  qed
qed

section \<open>Runs\<close>

fun allowed_run :: "(service \<Rightarrow> event \<Rightarrow> bool) \<Rightarrow> (string \<Rightarrow> bool) \<Rightarrow> event list \<Rightarrow> service \<Rightarrow> bool" where
  "allowed_run allowed configured [] s = True"
| "allowed_run allowed configured (e # es) s =
     (allowed s e \<and> (case step configured e s of None \<Rightarrow> False | Some s' \<Rightarrow> allowed_run allowed configured es s'))"

lemma allowed_run_reachable:
  "reachable_service allowed configured s \<Longrightarrow> allowed_run allowed configured es s \<Longrightarrow> run_events configured es s = Some s' \<Longrightarrow>
     reachable_service allowed configured s'"
proof (induction es arbitrary: s)
  case (Cons e es)
  then obtain s1 where "step configured e s = Some s1" "allowed s e" "allowed_run allowed configured es s1" "run_events configured es s1 = Some s'"
    by (auto split: option.splits)
  then show ?case using Cons.IH Cons.prems(1) reachable_service.step by blast
qed simp

definition books :: token_key where
  "books = (''u1'', ''quickbooks'')"

definition token_of :: "string \<Rightarrow> string \<Rightarrow> int \<Rightarrow> token_data" where
  "token_of access refresh expires_at =
     \<lparr>td_access = access, td_refresh = refresh, td_type = ''Bearer'', td_expires_at = expires_at, td_scopes = [], td_realm = [], td_extra = []\<rparr>"

definition rotating_grant :: grant where
  "rotating_grant = \<lparr>gr_access = ''a2'', gr_refresh = Some ''r2'', gr_expires_in = Some 1000, gr_expires_at = None\<rparr>"

abbreviation connect_books :: "event list" where
  "connect_books \<equiv> [Spawn 1 0 books (Connect_op (token_of ''a1'' ''r1'' 1000)), Resume 1 Next, Resume 1 Next, Pass 2000]"

abbreviation refresh_books :: "event list" where
  "refresh_books \<equiv> [Spawn 2 0 books Valid_op, Resume 2 Next, Resume 2 Next, Resume 2 Next, Resume 2 Next, Resume 2 Next]"

abbreviation finish_refresh :: "event list" where
  "finish_refresh \<equiv> [Resume 2 (Granted rotating_grant), Resume 2 Next, Resume 2 Next, Resume 2 Next, Resume 2 Next, Resume 2 Next]"

abbreviation second_post :: "event list" where
  "second_post \<equiv> [Pass 5000, Spawn 3 1 books Sweep_op, Resume 3 Next, Resume 3 Next, Resume 3 Next]"

lemmas run_simps = Let_def react_def go_def query_uncached_def fill_cache_def apply_effect_def set_row_def change_cache_def change_lock_def
  cache_hit_def cache_put_def cache_drop_def cached_load_def books_def token_of_def rotating_grant_def fresh_service_def
  apply_grant_def rotation_def is_expired_def expiry_buffer_def peer_refreshed_def refreshable_def list_oauth_integrations_def
  newly_used_def positive_ttl_def negative_ttl_def unused_def is_permanent_refresh_failure_def handled_result_def servicetitan_def

lemma demo_run:
  "\<exists>s. run_events (\<lambda>_. True) (connect_books @ refresh_books @ finish_refresh @ second_post) (fresh_service 0) = Some s
     \<and> allowed_run steady (\<lambda>_. True) (connect_books @ refresh_books @ finish_refresh @ second_post) (fresh_service 0)
     \<and> sv_log s = [Posted books ''r1'', Rotated books ''r1'', Posted books ''r2'']"
  by (simp add: run_simps)
theorem rotated_token_never_posted_witness:
  "\<exists>s. reachable_service steady (\<lambda>_. True) s \<and> sv_log s = [Posted books ''r1'', Rotated books ''r1'', Posted books ''r2'']
     \<and> Posted books ''r1'' \<notin> set [Posted books ''r2'']"
proof -
  let ?es = "connect_books @ refresh_books @ finish_refresh @ second_post"
  obtain s where s: "run_events (\<lambda>_. True) ?es (fresh_service 0) = Some s" "allowed_run steady (\<lambda>_. True) ?es (fresh_service 0)"
      "sv_log s = [Posted books ''r1''] @ Rotated books ''r1'' # [Posted books ''r2'']"
    using demo_run by auto
  have "reachable_service steady (\<lambda>_. True) s" by (rule allowed_run_reachable [OF reachable_service.start s(2,1)])
  then show ?thesis using rotated_token_never_posted [OF _ s(3)] s(3) by auto
qed

lemma posting_run:
  "\<exists>s tk. run_events (\<lambda>_. True) (connect_books @ refresh_books) (fresh_service 0) = Some s
     \<and> allowed_run (\<lambda>_ _. True) (\<lambda>_. True) (connect_books @ refresh_books) (fresh_service 0)
     \<and> sv_tasks s 2 = Some tk \<and> tk_op tk = Valid_op \<and> tk_key tk = books \<and> tk_phase tk = Posting (token_of ''a1'' ''r1'' 1000)
     \<and> sv_now s = 2000 \<and> cache_hit 2000 books (sv_caches s 0) = Some (Some (token_of ''a1'' ''r1'' 1000)) \<and> sv_log s = [Posted books ''r1'']"
  by (simp add: run_simps)

lemma posting_reachable:
  obtains s tk where "reachable_service (\<lambda>_ _. True) (\<lambda>_. True) s" and "sv_tasks s 2 = Some tk" and "tk_op tk = Valid_op" and "tk_key tk = books"
    and "tk_phase tk = Posting (token_of ''a1'' ''r1'' 1000)" and "sv_now s = 2000"
    and "cache_hit 2000 books (sv_caches s 0) = Some (Some (token_of ''a1'' ''r1'' 1000))" and "sv_log s = [Posted books ''r1'']"
    and "run_events (\<lambda>_. True) (connect_books @ refresh_books) (fresh_service 0) = Some s"
  using posting_run allowed_run_reachable [OF reachable_service.start] by blast

theorem one_refresh_at_a_time_witness:
  "\<exists>(s :: service) tk. sv_tasks s 2 = Some tk \<and> tk_phase tk = Posting (token_of ''a1'' ''r1'' 1000) \<and> sv_locks s books = Some 2"
proof (rule posting_reachable)
  fix s tk
  assume a: "reachable_service (\<lambda>_ _. True) (\<lambda>_. True) s" "sv_tasks s 2 = Some tk" "tk_key tk = books"
    "tk_phase tk = Posting (token_of ''a1'' ''r1'' 1000)"
  have "sv_locks s (tk_key tk) = Some 2" by (rule one_refresh_at_a_time [OF a(1,2), THEN conjunct1]) (simp add: a(4))
  then show ?thesis using a(2-4) by (intro exI [of _ s] exI [of _ tk]) simp
qed

theorem cached_reads_are_recent_witness:
  "\<exists>s :: service. sv_now s = 2000 \<and> cache_hit (sv_now s) books (sv_caches s 0) = Some (Some (token_of ''a1'' ''r1'' 1000))
     \<and> (sv_table s books = Some (token_of ''a1'' ''r1'' 1000)
        \<or> (\<exists>t. sv_left s (books, Some (token_of ''a1'' ''r1'' 1000)) = Some t \<and> 2000 - 30 < t))"
proof (rule posting_reachable)
  fix s tk
  assume a: "reachable_service (\<lambda>_ _. True) (\<lambda>_. True) s" "sv_now s = 2000"
    "cache_hit 2000 books (sv_caches s 0) = Some (Some (token_of ''a1'' ''r1'' 1000))"
  show ?thesis
    by (rule exI [of _ s]) (use cached_reads_are_recent [OF a(1), of books 0 "Some (token_of ''a1'' ''r1'' 1000)"] a(2,3) in simp)
qed

theorem every_call_returns_witness:
  "\<exists>s answers s' tk' result. run_events (\<lambda>_. True) (connect_books @ refresh_books) (fresh_service 0) = Some s
     \<and> length answers \<le> 14 \<and> run_events (\<lambda>_. True) (map (Resume 2) answers) s = Some s'
     \<and> sv_tasks s' 2 = Some tk' \<and> tk_phase tk' = Finished result"
proof (rule posting_reachable)
  fix s tk
  assume a: "sv_tasks s 2 = Some tk" "run_events (\<lambda>_. True) (connect_books @ refresh_books) (fresh_service 0) = Some s"
  then show ?thesis using every_call_returns [OF a(1), of "\<lambda>_. True", THEN conjunct2] by blast
qed


abbreviation disconnect_books :: "event list" where
  "disconnect_books \<equiv> [Spawn 4 1 books Disconnect_op, Resume 4 Next, Resume 4 Next]"

lemma disconnected_run:
  "\<exists>s. run_events (\<lambda>_. True) (connect_books @ refresh_books @ disconnect_books) (fresh_service 0) = Some s \<and> gone books s
     \<and> (\<exists>s'. run_events (\<lambda>_. True) finish_refresh s = None \<and> run_events (\<lambda>_. True) (take 4 finish_refresh) s = Some s')"
  by (simp add: run_simps gone_def)

theorem disconnect_is_final_witness:
  "\<exists>s s'. run_events (\<lambda>_. True) (connect_books @ refresh_books @ disconnect_books) (fresh_service 0) = Some s
     \<and> run_events (\<lambda>_. True) (take 4 finish_refresh) s = Some s' \<and> sv_table s' books = None"
proof -
  obtain s s' where s: "run_events (\<lambda>_. True) (connect_books @ refresh_books @ disconnect_books) (fresh_service 0) = Some s"
      "gone books s" "run_events (\<lambda>_. True) (take 4 finish_refresh) s = Some s'"
    using disconnected_run by blast
  then show ?thesis using disconnect_is_final [OF s(3,2)] by auto
qed

section \<open>What the interleavings also show\<close>

text \<open>
  The sweep refreshes nothing before its time: it picks rows up to 360 seconds before they expire, but the refresh takes an
  unexpired token, one with more than 300 seconds left, for the work of a peer, gives it back, and the sweep counts it.
\<close>

lemma sweep_never_early:
  assumes "sweep_due now routes k t" and "\<not> is_expired now t"
  shows "after_load configured now k Sweep_op Under_lock (Some t) = go (Unlocking (Returned (Some t)))
    \<and> ef_phase (after_unlock now Sweep_op (Returned (Some t))) = Finished (Got (Some t))"
  using assms by (auto simp: sweep_due_def peer_refreshed_def is_expired_def expiry_buffer_def split: if_splits)

text \<open>A permanent refusal deletes the row without looking at it: a connection made during the POST is lost with the dead one.\<close>

lemma dead_refresh_deletes_reconnection:
  "\<exists>s. run_events (\<lambda>_. True)
      (connect_books @ refresh_books
       @ [Spawn 5 1 books (Connect_op (token_of ''b1'' ''q1'' 9000)), Resume 5 Next, Resume 5 Next]
       @ [Resume 2 (Rejected_with Permanent_refresh_error), Resume 2 Next]) (fresh_service 0) = Some s
    \<and> map_option tk_phase (sv_tasks s 5) = Some (Finished (Got (Some (token_of ''b1'' ''q1'' 9000)))) \<and> sv_table s books = None"
  by (simp add: run_simps)

text \<open>The second deletion, after the lock is released, also hits a connection made after the first.\<close>

lemma second_deletion_hits_reconnection:
  "\<exists>s. run_events (\<lambda>_. True)
      (connect_books @ refresh_books
       @ [Resume 2 (Rejected_with Permanent_refresh_error), Resume 2 Next, Resume 2 Next, Resume 2 Next]
       @ [Spawn 5 1 books (Connect_op (token_of ''b1'' ''q1'' 9000)), Resume 5 Next, Resume 5 Next]
       @ [Resume 2 Next]) (fresh_service 0) = Some s
    \<and> map_option tk_phase (sv_tasks s 5) = Some (Finished (Got (Some (token_of ''b1'' ''q1'' 9000)))) \<and> sv_table s books = None"
  by (simp add: run_simps)

text \<open>The look at the row before saving and the saving are two statements: a reconnect between them is overwritten.\<close>

lemma save_overwrites_reconnection:
  "\<exists>s. run_events (\<lambda>_. True)
      (connect_books @ refresh_books @ [Resume 2 (Granted rotating_grant), Resume 2 Next]
       @ [Spawn 5 1 books (Connect_op (token_of ''b1'' ''q1'' 9000)), Resume 5 Next, Resume 5 Next]
       @ [Resume 2 Next, Resume 2 Next]) (fresh_service 0) = Some s
    \<and> map_option tk_phase (sv_tasks s 5) = Some (Finished (Got (Some (token_of ''b1'' ''q1'' 9000))))
    \<and> map_option td_refresh (sv_table s books) = Some ''r2''"
  by (simp add: run_simps)

text \<open>ServiceTitan's minting does not look again: credentials disconnected while the bearer is minted are stored again.\<close>

definition titan :: token_key where
  "titan = (''u1'', ''servicetitan'')"

definition titan_token :: token_data where
  "titan_token = minted_token (token_of [] ''secret'' 0 \<lparr>td_extra := [(''tenant_id'', JStr ''t''), (''client_id'', JStr ''c'')]\<rparr>) ''b1'' 900"

lemma mint_restores_disconnected:
  "\<exists>s. run_events (\<lambda>_. True)
      ([Spawn 1 0 titan (Connect_op titan_token), Resume 1 Next, Resume 1 Next, Pass 2000,
        Spawn 2 0 titan (Mint_op False), Resume 2 Next, Resume 2 Next, Resume 2 Next, Resume 2 Next, Resume 2 Next]
       @ [Spawn 3 1 titan Disconnect_op, Resume 3 Next, Resume 3 Next]
       @ [Resume 2 (Minted ''b2'' 2900), Resume 2 Next]) (fresh_service 0) = Some s
    \<and> map_option tk_phase (sv_tasks s 3) = Some (Finished (Removed True)) \<and> map_option td_refresh (sv_table s titan) = Some ''secret''"
  by (simp add: run_simps titan_def titan_token_def minted_token_def cred_complete_def bearer_expired_def str_field_def)
end
