(* ===== verification/Spec2Isabelle.thy ===== *)
theory Spec2Isabelle
  imports Session_Store Permissions Approval_Gate Tool_Round Prompt_Epoch Agent_Loop Caches Memory_Docs Compaction Compaction_Recovery Ingress Sender_Routing Receipts Media_Staging Onboarding Media_Context Quota Turn_Pipeline Inbound_Recovery Heartbeat Bus OAuth Token_Refresh
begin

text \<open>
  A verification development for clawbolt, an assistant for tradespeople that talks to its users over chat channels, runs an
  agent loop over a language model with tools, and keeps the conversation, documents and permissions of each user in a database.
  All paths below are under \<open>src/backend/app/\<close>.

  The program. A message arrives over a channel, is assigned to an account and stored, waits for the lock of its user and becomes
  a turn. The turn loads the history the model may see, assembles the prompt, calls the model, runs the tools it asks for (after
  the user's permission where needed) until there is a reply, adds receipts, sends and stores the reply. Beside the turns, history
  that no longer fits is compacted into memory documents, a start-up sweep answers messages that a crash left unanswered, a
  scheduler starts proactive messages, and OAuth connections are kept fresh.

  \<^bold>\<open>Theories and code\<close>

  \<^item> \<open>Prelude\<close>: Python values, strings, ordered dictionaries and \<open>json.dumps\<close>, shared by all.
  \<^item> \<open>Messages\<close>, \<open>Trimming\<close>, \<open>History\<close>: the typed messages and their provider format (\<open>agent/messages.py\<close>), the trim of
    a prompt that outgrew its budget (\<open>agent/trimming.py\<close>), stored rows to messages (\<open>agent/context.py\<close>).
  \<^item> \<open>Session_Store\<close>: sessions, rows, watermarks and compaction events of a conversation (\<open>agent/session_db.py\<close>), and when a
    turn trims and compacts (\<open>agent/context.py\<close>). \<open>Compaction\<close>, \<open>Compaction_Recovery\<close>, \<open>Memory_Docs\<close>: what a compaction
    writes, what covers an unfinished one, and the documents it writes to (\<open>agent/compaction.py\<close>, \<open>compaction_recovery.py\<close>,
    \<open>compaction_note.py\<close>, \<open>memory_db.py\<close>, \<open>markdown_registry.py\<close>).
  \<^item> \<open>Prompt_Epoch\<close>, \<open>Caches\<close>: prompts that keep a provider's cache warm (\<open>agent/prompt_epoch.py\<close>), the bounded caches and
    the request limiter (\<open>agent/store_cache.py\<close>, \<open>services/rate_limiter.py\<close>).
  \<^item> \<open>Approval_Text\<close>, \<open>Permissions\<close>, \<open>Approval_Gate\<close>: what users answer, what they have granted, and the gate a turn waits at
    (\<open>agent/approval.py\<close>, \<open>agent/ingestion.py\<close>). \<open>Tools\<close>, \<open>Tool_Round\<close>: one round of tool calls (\<open>agent/core.py\<close>,
    \<open>agent/tools/base.py\<close>). \<open>Agent_Loop\<close>: the turn around them (\<open>agent/core.py\<close>, \<open>services/llm_service.py\<close>).
  \<^item> \<open>Sender_Routing\<close>, \<open>User_Lock\<close>, \<open>Ingress\<close>: accounts and routes, the lock of a user, batching, dispatch and messages
    folded into a running turn (\<open>agent/ingestion.py\<close>, \<open>concurrency.py\<close>, \<open>midturn.py\<close>, \<open>user_db.py\<close>).
  \<^item> \<open>Receipts\<close>, \<open>Media_Staging\<close>, \<open>Media_Context\<close>, \<open>Onboarding\<close>, \<open>Quota\<close>: the steps of a turn besides the agent
    (\<open>agent/tool_summary.py\<close>, \<open>media_staging.py\<close>, \<open>media/\<close>, \<open>agent/onboarding.py\<close>, \<open>billing/\<close>), composed in
    \<open>Turn_Pipeline\<close> (\<open>agent/router.py\<close>, \<open>billing/pipeline_steps.py\<close>).
  \<^item> \<open>Inbound_Recovery\<close> (\<open>agent/inbound_recovery.py\<close>), \<open>Heartbeat\<close> (\<open>agent/heartbeat*.py\<close>), \<open>Bus\<close> (\<open>bus.py\<close>,
    \<open>channels/manager.py\<close>, \<open>channels/webchat.py\<close>), \<open>OAuth\<close> and \<open>Token_Refresh\<close> (\<open>services/oauth.py\<close>,
    \<open>routers/oauth.py\<close>, \<open>integrations/servicetitan/auth.py\<close>).

  \<^bold>\<open>How the code is read.\<close> A class or a table is a record or a list of records, an operation a function from state to
  result and state with every early return and exception as a branch; exceptions that leave an operation are values of a sum type.
  Where calls interleave at their \<open>await\<close>s, one stretch between two awaits is one step: \<open>Approval_Gate\<close>, \<open>User_Lock\<close>,
  \<open>Ingress\<close>, \<open>Session_Store\<close> and \<open>Token_Refresh\<close> have step relations, the others run as one piece, where the code holds
  the lock of the user or touches one process's memory only. What comes from outside (the model's answers, tool results, HTTP
  answers, clocks, fresh random identifiers, failures of the database) is an argument, usually a field of an \<open>_env\<close> record; a
  theorem holds for all of them unless it names a hypothesis. Python integers are \<open>int\<close> or \<open>nat\<close>; none wraps around.

  \<^bold>\<open>Interfaces.\<close> \<open>bounded_memo\<close> (a bounded map that forgets, interpreted by the three caches), \<open>cas_file\<close> (a document
  rewritten only if unchanged, interpreted by the three documents of memory compaction), \<open>fifo_lock\<close> (the lock of a user, on
  which the ingress rests) and \<open>credential_store\<close> (rows by key, interpreted by the token table alone and by the table behind its
  cache).

  \<^bold>\<open>What the lemmas show.\<close> For the message and history part: pairing of tool calls and results survives conversion, trimming
  and prompt rebuilding, nothing is lost silently, a new message is always visible, ranges compacted are disjoint and complete. For
  permissions and tools: no call runs without a grant or a decision of its user, everyone is asked once, every call is answered. For
  the turn: calls of the provider are bounded, each request is paired, the reply and the transcript agree, nothing runs over quota.
  For the ingress: turns of a user are serial, each message is in one place and answered. For recovery: attempts are bounded and
  each orphan is answered. For heartbeats: caps, quiet times and typing indicators. For OAuth: flows are redeemed once by whom
  they belong to, refreshes exclude each other, a rotated token is not posted again, what is disconnected stays so, caches are
  seconds old at most, and every call returns. Lemmas that are not among the properties record where the code falls short of its
  comments; the manifest lists them as findings.

  \<^bold>\<open>Bounds and fuel.\<close> No definition uses fuel: loops are structural or have a measure. The turn loop recurses on the rounds
  left, as the code counts them; the rebuilding of prompts, block grouping and PDF reading have measures, proved at their definitions.
  \<open>reachable\<close> relations are inductive and unbounded.

  \<^bold>\<open>Not modelled.\<close> The database beyond the statements named (isolation, constraints other than those used, encryption of
  columns), the network, the provider's library, JSON decoding, pydantic validation other than the accepted cases, text outside
  ASCII, regular expressions other than those written out, \<open>difflib\<close> and hashes (parameters), logging, metrics, prices, prompts'
  wording except where code parses it again. Channel adapters, provider integrations, the tools' own work, admin and user endpoints,
  storage backends, monitoring, mail, model comparison and the frontend are left out: they are glue to services whose behaviour the
  source does not define, and their results are inputs here. Cancellation of tasks is modelled in \<open>User_Lock\<close> only, and a
  process crash only as the state its recovery finds.
\<close>

end
